(* ===== verification/Prelude.thy ===== *)
theory Prelude
  imports "HOL-Library.Word" "HOL-Library.Multiset"
begin

text \<open>
  Shared vocabulary of the development: the machine integer types of the C
  sources as \<open>word\<close> types, byte strings, and generic facts on words and lists
  that several components use.
\<close>

unbundle bit_operations_syntax

type_synonym u8 = "8 word"
type_synonym u16 = "16 word"
type_synonym u32 = "32 word"
type_synonym u64 = "64 word"
type_synonym bytes = "u8 list"

named_theorems word_nat "unsigned word operations read as natural numbers"

text \<open>Bytes of the bitmap of modified slots of one page, shared by the allocator and the snapshot code.\<close>

definition SNAP_MODIFIED_SIZE :: nat where "SNAP_MODIFIED_SIZE = 16"

section \<open>memchr\<close>

text \<open>\<open>memchr_idx c bs\<close> is the offset of the first byte equal to \<open>c\<close>.\<close>

fun memchr_idx :: "u8 \<Rightarrow> bytes \<Rightarrow> nat option" where
  "memchr_idx c [] = None"
| "memchr_idx c (b # bs) = (if b = c then Some 0 else map_option Suc (memchr_idx c bs))"

lemma memchr_idx_None [simp]: "memchr_idx c bs = None \<longleftrightarrow> c \<notin> set bs"
  by (induction bs) auto

lemma memchr_idx_append: "c \<notin> set xs \<Longrightarrow> memchr_idx c (xs @ c # ys) = Some (length xs)"
  by (induction xs) auto

section \<open>Words\<close>

lemma unat_ucast_up:
  "LENGTH('a::len) \<le> LENGTH('b::len) \<Longrightarrow> unat (ucast (x :: 'a word) :: 'b word) = unat x"
  apply (simp add: unsigned_ucast_eq take_bit_nat_eq_self_iff)
  by (meson order_less_le_trans one_le_numeral power_increasing unsigned_less)

lemma unat_ucast_down:
  "unat x < 2 ^ LENGTH('b) \<Longrightarrow> unat (ucast (x :: 'a::len word) :: 'b::len word) = unat x"
  by (simp add: unsigned_ucast_eq take_bit_nat_eq_self_iff)

lemma unat_add_nowrap:
  "unat x + unat y < 2 ^ LENGTH('a) \<Longrightarrow> unat (x + y :: 'a::len word) = unat x + unat y"
  by (simp add: unat_word_ariths)

lemma unat_mult_nowrap:
  "unat x * unat y < 2 ^ LENGTH('a) \<Longrightarrow> unat (x * y :: 'a::len word) = unat x * unat y"
  by (simp add: unat_word_ariths)

lemma unat_u8_less: "unat (x :: u8) < 256"
  using unsigned_less [where ?w = x and ?'a = nat] by simp

lemma unat_u16_less: "unat (x :: u16) < 65536"
  using unsigned_less [where ?w = x and ?'a = nat] by simp

lemma unat_u32_less: "unat (x :: u32) < 4294967296"
  using unsigned_less [where ?w = x and ?'a = nat] by simp

lemma unat_u64_less: "unat (x :: u64) < 18446744073709551616"
  using unsigned_less [where ?w = x and ?'a = nat] by simp

section \<open>Lists of lists\<close>

lemma mset_concat_update:
  "i < length xs \<Longrightarrow> mset (concat (xs[i := c])) + mset (xs ! i) = mset (concat xs) + mset c"
proof (induction xs arbitrary: i)
  case (Cons x xs)
  show ?case
  proof (cases i)
    case (Suc j)
    then have "mset (concat (xs[j := c])) + mset (xs ! j) = mset (concat xs) + mset c"
      using Cons by simp
    then show ?thesis using Suc by (simp add: union_assoc)
  qed simp
qed simp

lemma sum_list_map_update:
  fixes f :: "'a \<Rightarrow> nat"
  shows "i < length xs \<Longrightarrow> sum_list (map f (xs[i := c])) + f (xs ! i) = sum_list (map f xs) + f c"
  by (induction xs arbitrary: i) (auto split: nat.splits)

lemma set_concat_nth: "set (concat xs) = (\<Union>i<length xs. set (xs ! i))"
  unfolding set_concat by (subst set_conv_nth [of xs]) auto

lemma mset_update_add: "i < length xs \<Longrightarrow> mset (xs[i := v]) + {#xs ! i#} = mset xs + {#v#}"
  by (simp add: mset_update)

section \<open>Positions on a ring\<close>

lemma shift_mod_neq:
  assumes "x < y" "y < (L :: nat)"
  shows "(d + x) mod L \<noteq> (d + y) mod L"
proof
  assume "(d + x) mod L = (d + y) mod L"
  then have "L dvd y - x" using assms mod_eq_dvd_iff_nat [of "d + x" "d + y" L] by simp
  then show False using assms by (auto dest!: dvd_imp_le)
qed

lemma shift_mod_inj:
  assumes "(d + x) mod L = (d + y) mod (L :: nat)" "x < L" "y < L"
  shows "x = y"
  using shift_mod_neq [of x y L d] shift_mod_neq [of y x L d] assms by (cases x y rule: linorder_cases) simp_all

end
