(* ===== verification/Routing.thy ===== *)
theory Routing
  imports Prelude
begin

text \<open>
  Model of \<open>core/routing.h\<close>: the CRC16 table and loop, the slot of a key with
  its hash-tag rule, and the slot-to-shard map; with the slot ranges that the
  CLUSTER SLOTS reply of \<open>protocol/resp_handler.h\<close> advertises.
\<close>

section \<open>Definitions\<close>

definition crc16_tab :: "u16 list" where
  "crc16_tab =
  [0x0000, 0x1021, 0x2042, 0x3063, 0x4084, 0x50a5, 0x60c6, 0x70e7,
   0x8108, 0x9129, 0xa14a, 0xb16b, 0xc18c, 0xd1ad, 0xe1ce, 0xf1ef,
   0x1231, 0x0210, 0x3273, 0x2252, 0x52b5, 0x4294, 0x72f7, 0x62d6,
   0x9339, 0x8318, 0xb37b, 0xa35a, 0xd3bd, 0xc39c, 0xf3ff, 0xe3de,
   0x2462, 0x3443, 0x0420, 0x1401, 0x64e6, 0x74c7, 0x44a4, 0x5485,
   0xa56a, 0xb54b, 0x8528, 0x9509, 0xe5ee, 0xf5cf, 0xc5ac, 0xd58d,
   0x3653, 0x2672, 0x1611, 0x0630, 0x76d7, 0x66f6, 0x5695, 0x46b4,
   0xb75b, 0xa77a, 0x9719, 0x8738, 0xf7df, 0xe7fe, 0xd79d, 0xc7bc,
   0x4864, 0x5845, 0x6826, 0x7807, 0x08e0, 0x18c1, 0x28a2, 0x3883,
   0xc96c, 0xd94d, 0xe92e, 0xf90f, 0x89e8, 0x99c9, 0xa9aa, 0xb98b,
   0x5a55, 0x4a74, 0x7a17, 0x6a36, 0x1ad1, 0x0af0, 0x3a93, 0x2ab2,
   0xdb5d, 0xcb7c, 0xfb1f, 0xeb3e, 0x9bd9, 0x8bf8, 0xbf9b, 0xafba,
   0x6ca6, 0x7c87, 0x4ce4, 0x5cc5, 0x2c22, 0x3c03, 0x0c60, 0x1c41,
   0xedae, 0xfd8f, 0xcdec, 0xddcd, 0xad2a, 0xbd0b, 0x8d68, 0x9d49,
   0x7e97, 0x6eb6, 0x5ed5, 0x4ef4, 0x3e13, 0x2e32, 0x1e51, 0x0e70,
   0xff9f, 0xefbe, 0xdfdd, 0xcffc, 0xbf1b, 0xaf3a, 0x9f59, 0x8f78,
   0x9188, 0x81a9, 0xb1ca, 0xa1eb, 0xd10c, 0xc12d, 0xf14e, 0xe16f,
   0x1080, 0x00a1, 0x30c2, 0x20e3, 0x5004, 0x4025, 0x7046, 0x6067,
   0x83b9, 0x9398, 0xa3fb, 0xb3da, 0xc33d, 0xd31c, 0xe37f, 0xf35e,
   0x02b1, 0x1290, 0x22f3, 0x32d2, 0x4235, 0x5214, 0x6277, 0x7256,
   0xb5ea, 0xa5cb, 0x95a8, 0x8589, 0xf56e, 0xe54f, 0xd52c, 0xc50d,
   0x34e2, 0x24c3, 0x14a0, 0x0481, 0x7466, 0x6447, 0x5424, 0x4405,
   0xa7db, 0xb7fa, 0x8799, 0x97b8, 0xe75f, 0xf77e, 0xc71d, 0xd73c,
   0x26d3, 0x36f2, 0x0691, 0x16b0, 0x6657, 0x7676, 0x4615, 0x5634,
   0xd94c, 0xc96d, 0xf90e, 0xe92f, 0x99c8, 0x89e9, 0xb98a, 0xa9ab,
   0x5844, 0x4865, 0x7806, 0x6827, 0x18c0, 0x08e1, 0x3882, 0x28a3,
   0xcb7d, 0xdb5c, 0xeb3f, 0xfb1e, 0x8bf9, 0x9bd8, 0xabbb, 0xbb9a,
   0x4a75, 0x5a54, 0x6a37, 0x7a16, 0x0af1, 0x1ad0, 0x2ab3, 0x3a92,
   0xfd2e, 0xed0f, 0xdd6c, 0xcd4d, 0xbdaa, 0xad8b, 0x9de8, 0x8dc9,
   0x7c26, 0x6c07, 0x5c64, 0x4c45, 0x3ca2, 0x2c83, 0x1ce0, 0x0cc1,
   0xef1f, 0xff3e, 0xcf5d, 0xdf7c, 0xaf9b, 0xbfba, 0x8fd9, 0x9ff8,
   0x6e17, 0x7e36, 0x4e55, 0x5e74, 0x2e93, 0x3eb2, 0x0ed1, 0x1ef0]"

definition crc16_step :: "u16 \<Rightarrow> u8 \<Rightarrow> u16" where
  "crc16_step crc b =
     push_bit 8 crc XOR (crc16_tab ! unat ((drop_bit 8 crc XOR ucast b) AND 0xff))"

definition routing_crc16 :: "bytes \<Rightarrow> u16" where
  "routing_crc16 buf = foldl crc16_step 0 buf"

definition slot_for_key :: "bytes \<Rightarrow> u16" where
  "slot_for_key key =
     (case memchr_idx 0x7b key of
        Some s \<Rightarrow>
          (case memchr_idx 0x7d (drop (s + 1) key) of
             Some e \<Rightarrow>
               if 0 < e then routing_crc16 (take e (drop (s + 1) key)) mod 16384
               else routing_crc16 key mod 16384
           | None \<Rightarrow> routing_crc16 key mod 16384)
      | None \<Rightarrow> routing_crc16 key mod 16384)"

definition shard_for_slot :: "u16 \<Rightarrow> u32 \<Rightarrow> u32" where
  "shard_for_slot slot num_shards =
     ucast (((ucast slot :: u64) * ucast num_shards) div 16384)"

definition shard_for_key :: "bytes \<Rightarrow> u32 \<Rightarrow> u32" where
  "shard_for_key key num_shards = shard_for_slot (slot_for_key key) num_shards"

text \<open>The range of slots that CLUSTER SLOTS reports for shard \<open>sid\<close> of \<open>n\<close>.\<close>

definition cluster_slot_start :: "u32 \<Rightarrow> u32 \<Rightarrow> u32" where
  "cluster_slot_start n sid = (16384 * sid) div n"

definition cluster_slot_end :: "u32 \<Rightarrow> u32 \<Rightarrow> u32" where
  "cluster_slot_end n sid = (16384 * (sid + 1)) div n - 1"

text \<open>Reference: one byte of the CRC-CCITT polynomial division, bit by bit.\<close>

definition crc16_bit :: "u16 \<Rightarrow> u16" where
  "crc16_bit c = (if bit c 15 then push_bit 1 c XOR 0x1021 else push_bit 1 c)"

definition crc16_ref :: "nat \<Rightarrow> u16" where
  "crc16_ref i = (crc16_bit ^^ 8) (push_bit 8 (of_nat i))"

section \<open>Routing bounds and hash tags\<close>

lemma unat_shard_for_slot:
  assumes "unat slot < 16384"
  shows "unat (shard_for_slot slot n) = unat slot * unat n div 16384"
proof -
  have n: "unat n < 4294967296" by (rule unat_u32_less)
  have le: "unat slot * unat n \<le> 16384 * 4294967296"
    using assms n by (intro mult_le_mono) auto
  have m: "unat ((ucast slot :: u64) * ucast n) = unat slot * unat n"
    using le by (subst unat_mult_nowrap) (simp_all add: unat_ucast_up)
  have lt: "unat slot * unat n div 16384 < 4294967296"
  proof -
    have "unat slot * unat n < 16384 * 4294967296"
      using assms n by (intro mult_strict_mono) auto
    then show ?thesis by (simp add: less_mult_imp_div_less mult.commute)
  qed
  show ?thesis
    unfolding shard_for_slot_def
    by (subst unat_ucast_down) (simp_all add: unat_div m lt)
qed

lemma slot_for_key_less: "unat (slot_for_key key) < 16384"
  by (auto simp: slot_for_key_def unat_mod split: option.splits)

text \<open>C35: every key is routed to a shard that exists: for a non-empty set of \<open>n\<close>
  shards, \<open>shard_for_key\<close> computes an index below \<open>n\<close>, whatever the key, with no
  wrap-around in the 64-bit product.\<close>

theorem shard_for_key_less: "0 < n \<Longrightarrow> shard_for_key key n < n"
proof -
  assume "0 < n"
  then have "0 < unat n" by (simp add: unat_gt_0)
  moreover have "unat (slot_for_key key) < 16384" by (rule slot_for_key_less)
  ultimately have "unat (slot_for_key key) * unat n < unat n * 16384" by simp
  then have "unat (slot_for_key key) * unat n div 16384 < unat n"
    by (rule less_mult_imp_div_less)
  then show ?thesis
    by (simp add: shard_for_key_def word_less_nat_alt unat_shard_for_slot slot_for_key_less)
qed

lemma slot_for_key_tag:
  assumes "0x7b \<notin> set pre" "0x7d \<notin> set tag" "tag \<noteq> []"
  shows "slot_for_key (pre @ 0x7b # tag @ 0x7d # post) = routing_crc16 tag mod 16384"
  using assms by (simp add: slot_for_key_def memchr_idx_append)

lemma cluster_arith:
  fixes slot n sid :: nat
  assumes n: "0 < n" and lo: "16384 * sid div n \<le> slot" and hi: "slot < 16384 * (sid + 1) div n"
  shows "slot * n div 16384 = sid \<longleftrightarrow> \<not> (slot = 16384 * sid div n \<and> \<not> n dvd 16384 * sid)"
proof -
  have up: "slot * n < 16384 * (sid + 1)"
  proof -
    have "slot * n < (16384 * (sid + 1) div n) * n" using hi n by simp
    also have "\<dots> \<le> 16384 * (sid + 1)" by simp
    finally show ?thesis .
  qed
  have eq: "slot * n div 16384 = sid \<longleftrightarrow> 16384 * sid \<le> slot * n"
  proof
    assume "slot * n div 16384 = sid"
    then show "16384 * sid \<le> slot * n" by (metis mult.commute div_times_less_eq_dividend)
  next
    assume "16384 * sid \<le> slot * n"
    then show "slot * n div 16384 = sid" using up by (intro div_nat_eqI) (simp_all add: mult.commute)
  qed
  have "16384 * sid \<le> slot * n \<longleftrightarrow> \<not> (slot = 16384 * sid div n \<and> \<not> n dvd 16384 * sid)"
  proof (cases "slot = 16384 * sid div n")
    case True
    then show ?thesis
      by (metis div_times_less_eq_dividend dvd_div_mult_self dvd_triv_right le_antisym le_refl)
  next
    case False
    then have "16384 * sid div n < slot" using lo by simp
    then have "16384 * sid < slot * n" using n
      by (metis div_less_iff_less_mult)
    then show ?thesis using False by simp
  qed
  with eq show ?thesis by simp
qed

text \<open>C36: a slot that CLUSTER SLOTS advertises for shard \<open>sid\<close> is routed to \<open>sid\<close>
  by \<open>shard_for_slot\<close> exactly unless it is the first slot of the range and \<open>n\<close> does
  not divide \<open>16384 * sid\<close>; so the two agree everywhere iff every range start is
  exact (any \<open>n\<close> dividing 16384), and the first slot of a range is misrouted
  otherwise.\<close>

theorem cluster_slots_route:
  assumes "0 < n" "n \<le> 16384" "sid < n" "slot < 16384"
    and "cluster_slot_start n sid \<le> ucast slot" "ucast slot \<le> cluster_slot_end n sid"
  shows "shard_for_slot slot n = sid \<longleftrightarrow>
    \<not> (ucast slot = cluster_slot_start n sid \<and> \<not> unat n dvd 16384 * unat sid)"
proof -
  have n: "0 < unat n" "unat n \<le> 16384" "unat sid < unat n" "unat slot < 16384"
    using assms(1-4) by (simp_all add: unat_gt_0 word_less_nat_alt word_le_nat_alt)
  have s: "unat (cluster_slot_start n sid) = 16384 * unat sid div unat n"
    unfolding cluster_slot_start_def unat_div using n by (subst unat_mult_nowrap) auto
  have s1: "unat (sid + 1) = unat sid + 1" using n by (subst unat_add_nowrap) auto
  have m1: "unat (16384 * (sid + 1)) = 16384 * (unat sid + 1)"
    using n by (subst unat_mult_nowrap) (auto simp: s1)
  have pos: "0 < 16384 * (unat sid + 1) div unat n"
    using n by (simp add: div_greater_zero_iff)
  have e: "unat (cluster_slot_end n sid) = 16384 * (unat sid + 1) div unat n - 1"
    unfolding cluster_slot_end_def
    by (subst unat_sub) (use pos in \<open>simp_all add: unat_div m1 word_le_nat_alt del: distrib_left_numeral\<close>)
  have lo: "16384 * unat sid div unat n \<le> unat slot"
    using assms(5) by (simp add: word_le_nat_alt s unat_ucast_up)
  have hi: "unat slot < 16384 * (unat sid + 1) div unat n"
    using assms(6) pos by (simp add: word_le_nat_alt e unat_ucast_up)
  have "shard_for_slot slot n = sid \<longleftrightarrow> unat slot * unat n div 16384 = unat sid"
    by (simp add: word_unat_eq_iff unat_shard_for_slot n)
  moreover have "ucast slot = cluster_slot_start n sid \<longleftrightarrow> unat slot = 16384 * unat sid div unat n"
    by (simp add: word_unat_eq_iff s unat_ucast_up)
  ultimately show ?thesis
    using cluster_arith [OF n(1) lo hi] by simp
qed

text \<open>With three shards, slot 5461 is advertised for shard 1 and routed to shard 0.\<close>

lemma cluster_slots_route_witness:
  "shard_for_slot 5461 3 \<noteq> 1 \<and> cluster_slot_start 3 1 = 5461 \<and> shard_for_slot 5462 3 = 1"
  using cluster_slots_route [of 3 1 5461] cluster_slots_route [of 3 1 5462]
  by (simp add: cluster_slot_start_def cluster_slot_end_def)

lemma shard_for_key_less_witness: "shard_for_key [0x66, 0x6f, 0x6f] 3 < 3"
  using shard_for_key_less [of 3 "[0x66, 0x6f, 0x6f]"] by simp

text \<open>C37: keys that share a non-empty hash tag land on the same shard: only the
  bytes between the first opening brace and the next closing brace are hashed.\<close>

theorem hash_tag_colocates:
  assumes "0x7b \<notin> set pre1" "0x7b \<notin> set pre2" "0x7d \<notin> set tag" "tag \<noteq> []"
  shows "shard_for_key (pre1 @ 0x7b # tag @ 0x7d # post1) n =
         shard_for_key (pre2 @ 0x7b # tag @ 0x7d # post2) n"
  using assms by (simp add: shard_for_key_def slot_for_key_tag)

lemma hash_tag_colocates_witness:
  "shard_for_key [0x7b, 0x61, 0x7d, 0x31] 3 = shard_for_key [0x78, 0x7b, 0x61, 0x7d] 3"
  using hash_tag_colocates [of "[]" "[0x78]" "[0x61]" "[0x31]" 3 "[]"] by simp

section \<open>The table against the polynomial\<close>

lemma funpow8: "(f ^^ 8) x = f (f (f (f (f (f (f (f x)))))))"
  by (simp add: eval_nat_numeral)

lemmas crc16_eval = upt_rec_numeral crc16_tab_def crc16_ref_def funpow8 crc16_bit_def

lemma upt_64: "[0..<64] = 0 # 1 # [2..<64]"
  by (simp add: upt_rec)

lemma crc16_tab_low: "map crc16_ref [0..<64] = take 64 crc16_tab"
  by (simp add: upt_64 crc16_eval)

lemma crc16_tab_mid: "list_all2 (\<noteq>) (map crc16_ref [64..<96]) (take 32 (drop 64 crc16_tab))"
  by (simp add: crc16_eval)

lemma crc16_tab_high: "map crc16_ref [96..<256] = drop 96 crc16_tab"
  by (simp add: crc16_eval)

lemma slot_for_foo: "slot_for_key [0x66, 0x6f, 0x6f] = 12086"
  by (simp add: slot_for_key_def routing_crc16_def crc16_step_def crc16_tab_def)


end
