(* ===== verification/Hash.thy ===== *)
theory Hash
  imports Prelude
begin

text \<open>
  Model of \<open>hashtable/hash.h\<close>, \<open>hashtable/hash.c\<close> and of the hash and meta word of
  \<open>hashtable/htable.h\<close>: xxHash64, the 64-bit MurmurHash3, the wyhash variant
  that the table uses, the packing of the meta word and the rounding up to a
  power of two.  A buffer is a byte list and a pointer into it is an offset;
  multi-byte loads by \<open>memcpy\<close> are little-endian.
\<close>

section \<open>Loads\<close>

definition le32 :: "bytes \<Rightarrow> nat \<Rightarrow> u32" where
  "le32 p i = ucast (p ! i) OR push_bit 8 (ucast (p ! (i + 1)))
     OR push_bit 16 (ucast (p ! (i + 2))) OR push_bit 24 (ucast (p ! (i + 3)))"

definition le64 :: "bytes \<Rightarrow> nat \<Rightarrow> u64" where
  "le64 p i = ucast (p ! i) OR push_bit 8 (ucast (p ! (i + 1)))
     OR push_bit 16 (ucast (p ! (i + 2))) OR push_bit 24 (ucast (p ! (i + 3)))
     OR push_bit 32 (ucast (p ! (i + 4))) OR push_bit 40 (ucast (p ! (i + 5)))
     OR push_bit 48 (ucast (p ! (i + 6))) OR push_bit 56 (ucast (p ! (i + 7)))"

section \<open>Rounding up to a power of two\<close>

definition pow2_smear :: "u64 \<Rightarrow> u64" where
  "pow2_smear n =
     (let n = n OR drop_bit 1 n; n = n OR drop_bit 2 n; n = n OR drop_bit 4 n;
          n = n OR drop_bit 8 n; n = n OR drop_bit 16 n
      in n OR drop_bit 32 n)"

definition ht_pow2_next :: "u64 \<Rightarrow> u64" where
  "ht_pow2_next n = (if n = 0 then 1 else pow2_smear (n - 1) + 1)"

definition next_power_of_2 :: "u64 \<Rightarrow> u64" where
  "next_power_of_2 n = (if n = 0 then 1 else pow2_smear (n - 1) + 1)"

section \<open>xxHash64\<close>

definition XXH64_PRIME1 :: u64 where "XXH64_PRIME1 = 0x9E3779B185EBCA87"
definition XXH64_PRIME2 :: u64 where "XXH64_PRIME2 = 0xC2B2AE3D27D4EB4F"
definition XXH64_PRIME3 :: u64 where "XXH64_PRIME3 = 0x165667B19E3779F9"
definition XXH64_PRIME4 :: u64 where "XXH64_PRIME4 = 0x85EBCA77C2B2AE63"
definition XXH64_PRIME5 :: u64 where "XXH64_PRIME5 = 0x27D4EB2F165667C5"

definition xxh64_rotl :: "u64 \<Rightarrow> nat \<Rightarrow> u64" where
  "xxh64_rotl x r = push_bit r x OR drop_bit (64 - r) x"

definition xxh64_round :: "u64 \<Rightarrow> u64 \<Rightarrow> u64" where
  "xxh64_round acc input = xxh64_rotl (acc + input * XXH64_PRIME2) 31 * XXH64_PRIME1"

definition xxh64_merge_round :: "u64 \<Rightarrow> u64 \<Rightarrow> u64" where
  "xxh64_merge_round acc val = (acc XOR xxh64_round 0 val) * XXH64_PRIME1 + XXH64_PRIME4"

definition xxh64_avalanche :: "u64 \<Rightarrow> u64" where
  "xxh64_avalanche h =
     (let h = h XOR drop_bit 33 h; h = h * XXH64_PRIME2; h = h XOR drop_bit 29 h;
          h = h * XXH64_PRIME3
      in h XOR drop_bit 32 h)"

text \<open>The do-while loop over 32-byte stripes; it returns the offset and the lanes.\<close>

function xxh64_stripes ::
  "bytes \<Rightarrow> nat \<Rightarrow> nat \<Rightarrow> u64 \<times> u64 \<times> u64 \<times> u64 \<Rightarrow> nat \<times> u64 \<times> u64 \<times> u64 \<times> u64" where
  "xxh64_stripes bs limit p (v1, v2, v3, v4) =
     (let v1 = xxh64_round v1 (le64 bs p); v2 = xxh64_round v2 (le64 bs (p + 8));
          v3 = xxh64_round v3 (le64 bs (p + 16)); v4 = xxh64_round v4 (le64 bs (p + 24));
          p = p + 32
      in if p \<le> limit then xxh64_stripes bs limit p (v1, v2, v3, v4) else (p, v1, v2, v3, v4))"
  by pat_completeness auto
termination
  by (relation "measure (\<lambda>(bs, limit, p, v). Suc limit - p)") auto

function xxh64_words :: "bytes \<Rightarrow> nat \<Rightarrow> nat \<Rightarrow> u64 \<Rightarrow> nat \<times> u64" where
  "xxh64_words bs lim p h64 =
     (if p + 8 \<le> lim then
        xxh64_words bs lim (p + 8)
          (xxh64_rotl (h64 XOR xxh64_round 0 (le64 bs p)) 27 * XXH64_PRIME1 + XXH64_PRIME4)
      else (p, h64))"
  by pat_completeness auto
termination
  by (relation "measure (\<lambda>(bs, e, p, h). e - p)") auto

function xxh64_tail :: "bytes \<Rightarrow> nat \<Rightarrow> nat \<Rightarrow> u64 \<Rightarrow> u64" where
  "xxh64_tail bs lim p h64 =
     (if p < lim then
        xxh64_tail bs lim (p + 1)
          (xxh64_rotl (h64 XOR ucast (bs ! p) * XXH64_PRIME5) 11 * XXH64_PRIME1)
      else h64)"
  by pat_completeness auto
termination
  by (relation "measure (\<lambda>(bs, e, p, h). e - p)") auto

declare xxh64_stripes.simps [simp del] xxh64_words.simps [simp del] xxh64_tail.simps [simp del]

definition xxhash64 :: "bytes \<Rightarrow> nat \<Rightarrow> u64 \<Rightarrow> u64" where
  "xxhash64 bs len seed =
     (let (p, h64) =
        (if 32 \<le> len then
           (let (p, v1, v2, v3, v4) =
              xxh64_stripes bs (len - 32) 0
                (seed + XXH64_PRIME1 + XXH64_PRIME2, seed + XXH64_PRIME2, seed, seed - XXH64_PRIME1);
              h64 = xxh64_rotl v1 1 + xxh64_rotl v2 7 + xxh64_rotl v3 12 + xxh64_rotl v4 18;
              h64 = xxh64_merge_round h64 v1; h64 = xxh64_merge_round h64 v2;
              h64 = xxh64_merge_round h64 v3; h64 = xxh64_merge_round h64 v4
            in (p, h64))
         else (0, seed + XXH64_PRIME5));
        h64 = h64 + of_nat len;
        (p, h64) = xxh64_words bs len p h64;
        (p, h64) =
          (if p + 4 \<le> len then
             (p + 4, xxh64_rotl (h64 XOR ucast (le32 bs p) * XXH64_PRIME1) 23 * XXH64_PRIME2
                       + XXH64_PRIME3)
           else (p, h64))
      in xxh64_avalanche (xxh64_tail bs len p h64))"

section \<open>MurmurHash3\<close>

definition MURMUR3_C1 :: u64 where "MURMUR3_C1 = 0x87c37b91114253d5"
definition MURMUR3_C2 :: u64 where "MURMUR3_C2 = 0x4cf5ad432745937f"

definition murmur3_rotl64 :: "u64 \<Rightarrow> nat \<Rightarrow> u64" where
  "murmur3_rotl64 x r = push_bit r x OR drop_bit (64 - r) x"

definition murmur3_fmix64 :: "u64 \<Rightarrow> u64" where
  "murmur3_fmix64 k =
     (let k = k XOR drop_bit 33 k; k = k * 0xff51afd7ed558ccd; k = k XOR drop_bit 33 k;
          k = k * 0xc4ceb9fe1a85ec53
      in k XOR drop_bit 33 k)"

definition murmur3_block :: "bytes \<Rightarrow> u64 \<times> u64 \<Rightarrow> nat \<Rightarrow> u64 \<times> u64" where
  "murmur3_block bs h i =
     (let (h1, h2) = h;
          k1 = murmur3_rotl64 (le64 bs (i * 16) * MURMUR3_C1) 31 * MURMUR3_C2;
          k2 = le64 bs (i * 16 + 8);
          h1 = h1 XOR k1;
          h1 = (murmur3_rotl64 h1 27 + h2) * 5 + 0x52dce729;
          k2 = murmur3_rotl64 (k2 * MURMUR3_C2) 33 * MURMUR3_C1;
          h2 = h2 XOR k2;
          h2 = (murmur3_rotl64 h2 31 + h1) * 5 + 0x38495ab5
      in (h1, h2))"

text \<open>The fall-through switch: byte \<open>i\<close> of the tail is folded into \<open>k1\<close> or \<open>k2\<close>
  when the tail is longer than \<open>i\<close>.\<close>

definition murmur3_fold :: "bytes \<Rightarrow> nat \<Rightarrow> nat \<Rightarrow> nat \<Rightarrow> nat \<Rightarrow> u64" where
  "murmur3_fold bs tail r lo hi =
     foldr (\<lambda>i k. if i < r then k XOR push_bit (8 * (i - lo)) (ucast (bs ! (tail + i))) else k)
       [lo..<hi] 0"

definition murmur3_64 :: "bytes \<Rightarrow> nat \<Rightarrow> u64 \<Rightarrow> u64" where
  "murmur3_64 bs len seed =
     (let nblocks = len div 16;
          (h1, h2) = foldl (murmur3_block bs) (seed, seed) [0..<nblocks];
          tail = nblocks * 16; r = len mod 16;
          h2 = (if 9 \<le> r
                then h2 XOR murmur3_rotl64 (murmur3_fold bs tail r 8 15 * MURMUR3_C2) 33 * MURMUR3_C1
                else h2);
          h1 = (if 1 \<le> r
                then h1 XOR murmur3_rotl64 (murmur3_fold bs tail r 0 8 * MURMUR3_C1) 31 * MURMUR3_C2
                else h1);
          h1 = h1 XOR of_nat len; h2 = h2 XOR of_nat len;
          h1 = h1 + h2; h2 = h2 + h1;
          h1 = murmur3_fmix64 h1; h2 = murmur3_fmix64 h2
      in h1 + h2)"

section \<open>wyhash\<close>

definition wyrot :: "u64 \<Rightarrow> u64" where
  "wyrot x = drop_bit 32 x OR push_bit 32 x"

definition wymum :: "u64 \<Rightarrow> u64 \<Rightarrow> u64 \<times> u64" where
  "wymum a b = (let r = (ucast a :: 128 word) * ucast b in (ucast r, ucast (drop_bit 64 r)))"

definition wymix :: "u64 \<Rightarrow> u64 \<Rightarrow> u64" where
  "wymix a b = (let (a, b) = wymum a b in a XOR b)"

definition wy_s0 :: u64 where "wy_s0 = 0xa0761d6478bd642f"
definition wy_s1 :: u64 where "wy_s1 = 0xe7037ed1a0b428db"
definition wy_s2 :: u64 where "wy_s2 = 0x8ebc6af09c88c6e3"
definition wy_s3 :: u64 where "wy_s3 = 0x589965cc75374cc3"

function wy_loop48 :: "bytes \<Rightarrow> nat \<Rightarrow> nat \<Rightarrow> u64 \<Rightarrow> nat \<times> nat \<times> u64" where
  "wy_loop48 bs p j seed =
     (if 48 < j then
        (let see1 = seed; see2 = seed;
             seed = wymix (le64 bs p XOR wy_s1) (le64 bs (p + 8) XOR seed);
             see1 = wymix (le64 bs (p + 16) XOR wy_s2) (le64 bs (p + 24) XOR see1);
             see2 = wymix (le64 bs (p + 32) XOR wy_s3) (le64 bs (p + 40) XOR see2)
         in wy_loop48 bs (p + 48) (j - 48) (seed XOR (see1 XOR see2)))
      else (p, j, seed))"
  by pat_completeness auto
termination
  by (relation "measure (\<lambda>(bs, p, j, s). j)") auto

function wy_loop16 :: "bytes \<Rightarrow> nat \<Rightarrow> nat \<Rightarrow> u64 \<Rightarrow> nat \<times> nat \<times> u64" where
  "wy_loop16 bs p j seed =
     (if 16 < j then
        wy_loop16 bs (p + 16) (j - 16) (wymix (le64 bs p XOR wy_s1) (le64 bs (p + 8) XOR seed))
      else (p, j, seed))"
  by pat_completeness auto
termination
  by (relation "measure (\<lambda>(bs, p, j, s). j)") auto

declare wy_loop48.simps [simp del] wy_loop16.simps [simp del]

definition ht_key_hash :: "bytes \<Rightarrow> nat \<Rightarrow> u64" where
  "ht_key_hash key len =
     (let (a, b, seed) =
        (if len \<le> 16 then
           (if 4 \<le> len then
              (let a = push_bit 32 (ucast (le32 key 0)) OR ucast (le32 key (len - 4))
               in (a,
                   if 8 < len
                   then push_bit 32 (ucast (le32 key 4)) OR ucast (le32 key (len - 8))
                   else wyrot a,
                   wy_s0))
            else if 0 < len then
              (push_bit 16 (ucast (key ! 0)) OR push_bit 8 (ucast (key ! (len div 2)))
                 OR ucast (key ! (len - 1)), 0, wy_s0)
            else (0, 0, wy_s0))
         else
           (let (p, j, seed) = wy_loop48 key 0 len wy_s0;
                (p, j, seed) = wy_loop16 key p j seed
            in (le64 key (p + j - 16), le64 key (p + j - 8), seed)))
      in wymix (wy_s1 XOR of_nat len) (wymix (a XOR wy_s1) (b XOR seed)))"

section \<open>Meta word\<close>

datatype val_type =
  VAL_TYPE_STRING | VAL_TYPE_LIST | VAL_TYPE_HASH | VAL_TYPE_SET | VAL_TYPE_ZSET

fun val_type_tag :: "val_type \<Rightarrow> u8" where
  "val_type_tag VAL_TYPE_STRING = 0"
| "val_type_tag VAL_TYPE_LIST = 1"
| "val_type_tag VAL_TYPE_HASH = 2"
| "val_type_tag VAL_TYPE_SET = 3"
| "val_type_tag VAL_TYPE_ZSET = 4"

definition ht_meta_pack :: "u64 \<Rightarrow> val_type \<Rightarrow> u64" where
  "ht_meta_pack h type =
     (let m = (h AND NOT 0xFF) OR ucast (val_type_tag type)
      in if m \<noteq> 0 then m else 1)"

definition ht_meta_empty :: "u64 \<Rightarrow> bool" where
  "ht_meta_empty m \<longleftrightarrow> m = 0"

definition ht_meta_type :: "u64 \<Rightarrow> u64" where
  "ht_meta_type m = m AND 0xFF"


section \<open>The hashes read only the buffer\<close>

lemma le32_append: "i + 4 \<le> length k \<Longrightarrow> le32 (k @ j) i = le32 k i"
  by (simp add: le32_def nth_append)

lemma le64_append: "i + 8 \<le> length k \<Longrightarrow> le64 (k @ j) i = le64 k i"
  by (simp add: le64_def nth_append)

lemma xxh64_stripes_append:
  "p + 32 \<le> length k \<Longrightarrow> limit + 32 \<le> length k \<Longrightarrow>
   xxh64_stripes (k @ j) limit p v = xxh64_stripes k limit p v"
proof (induction k limit p v rule: xxh64_stripes.induct)
  case (1 bs limit p v1 v2 v3 v4)
  then show ?case
    by (subst (1 2) xxh64_stripes.simps) (simp add: le64_append Let_def)
qed

lemma xxh64_words_append:
  "lim \<le> length k \<Longrightarrow> xxh64_words (k @ j) lim p h = xxh64_words k lim p h"
proof (induction k lim p h rule: xxh64_words.induct)
  case (1 bs lim p h)
  then show ?case
    by (subst (1 2) xxh64_words.simps) (simp add: le64_append)
qed

lemma xxh64_tail_append:
  "lim \<le> length k \<Longrightarrow> xxh64_tail (k @ j) lim p h = xxh64_tail k lim p h"
proof (induction k lim p h rule: xxh64_tail.induct)
  case (1 bs lim p h)
  then show ?case
    by (subst (1 2) xxh64_tail.simps) (simp add: nth_append)
qed

lemma xxhash64_append: "xxhash64 (k @ j) (length k) seed = xxhash64 k (length k) seed"
  by (simp add: xxhash64_def xxh64_stripes_append xxh64_words_append xxh64_tail_append
      le32_append split: prod.split)

lemma murmur3_block_append:
  "i * 16 + 16 \<le> length k \<Longrightarrow> murmur3_block (k @ j) h i = murmur3_block k h i"
  by (simp add: murmur3_block_def le64_append)

lemma murmur3_blocks_append:
  "n * 16 \<le> length k \<Longrightarrow>
   foldl (murmur3_block (k @ j)) h [0..<n] = foldl (murmur3_block k) h [0..<n]"
  by (rule foldl_cong) (auto intro!: murmur3_block_append)

lemma murmur3_fold_append:
  "tail + r \<le> length k \<Longrightarrow> murmur3_fold (k @ j) tail r lo hi = murmur3_fold k tail r lo hi"
  unfolding murmur3_fold_def by (intro foldr_cong) (auto simp: nth_append)

lemma murmur3_64_append: "murmur3_64 (k @ j) (length k) seed = murmur3_64 k (length k) seed"
proof -
  have "length k div 16 * 16 + length k mod 16 \<le> length k" by simp
  then show ?thesis
    by (simp add: murmur3_64_def murmur3_blocks_append murmur3_fold_append Let_def split: prod.split)
qed

lemma wy_loop48_append:
  "p + j \<le> length k \<Longrightarrow> wy_loop48 (k @ t) p j s = wy_loop48 k p j s"
proof (induction k p j s rule: wy_loop48.induct)
  case (1 bs p j s)
  then show ?case
    by (subst (1 2) wy_loop48.simps) (simp add: le64_append Let_def)
qed

lemma wy_loop16_append:
  "p + j \<le> length k \<Longrightarrow> wy_loop16 (k @ t) p j s = wy_loop16 k p j s"
proof (induction k p j s rule: wy_loop16.induct)
  case (1 bs p j s)
  then show ?case
    by (subst (1 2) wy_loop16.simps) (simp add: le64_append)
qed

lemma wy_loop48_sum: "case wy_loop48 k p j s of (p', j', s') \<Rightarrow> p' + j' = p + j"
proof (induction k p j s rule: wy_loop48.induct)
  case (1 bs p j s)
  then show ?case
    by (subst wy_loop48.simps) (auto simp: Let_def split: prod.splits)
qed

lemma wy_loop16_sum: "case wy_loop16 k p j s of (p', j', s') \<Rightarrow> p' + j' = p + j"
proof (induction k p j s rule: wy_loop16.induct)
  case (1 bs p j s)
  then show ?case
    by (subst wy_loop16.simps) (auto split: prod.splits)
qed

lemma ht_key_hash_append: "ht_key_hash (k @ t) (length k) = ht_key_hash k (length k)"
proof (cases "length k \<le> 16")
  case True
  then show ?thesis
    by (simp add: ht_key_hash_def le32_append nth_append Let_def)
next
  case False
  obtain p j s where l48: "wy_loop48 k 0 (length k) wy_s0 = (p, j, s)" by (metis prod_cases3)
  obtain p' j' s' where l16: "wy_loop16 k p j s = (p', j', s')" by (metis prod_cases3)
  have "p + j = length k" using wy_loop48_sum [where k = k and p = 0 and j = "length k" and s = wy_s0] by (simp add: l48)
  moreover have "p' + j' = p + j" using wy_loop16_sum [where k = k and p = p and j = j and s = s] by (simp add: l16)
  ultimately show ?thesis using False
    by (simp add: ht_key_hash_def wy_loop48_append l48 wy_loop16_append l16 le64_append Let_def)
qed

section \<open>Powers of two\<close>

lemma smear_step:
  fixes x n :: u64
  assumes "\<And>i. bit x i = (\<exists>d<k. bit n (i + d))"
  shows "bit (x OR drop_bit k x) i = (\<exists>d<2 * k. bit n (i + d))"
proof -
  have "bit (x OR drop_bit k x) i \<longleftrightarrow> (\<exists>d<k. bit n (i + d)) \<or> (\<exists>d<k. bit n (i + (k + d)))"
    by (simp add: bit_or_iff bit_drop_bit_eq assms ac_simps)
  also have "\<dots> \<longleftrightarrow> (\<exists>d<2 * k. bit n (i + d))"
  proof (intro iffI; elim disjE exE conjE)
    fix d assume "d < k" "bit n (i + d)"
    then show "\<exists>d<2 * k. bit n (i + d)" by (intro exI [of _ d]) auto
  next
    fix d assume "d < k" "bit n (i + (k + d))"
    then show "\<exists>d<2 * k. bit n (i + d)" by (intro exI [of _ "k + d"]) auto
  next
    fix d assume d: "d < 2 * k" "bit n (i + d)"
    show "(\<exists>d<k. bit n (i + d)) \<or> (\<exists>d<k. bit n (i + (k + d)))"
    proof (cases "d < k")
      case False
      with d have "d - k < k" "bit n (i + (k + (d - k)))" by auto
      then show ?thesis by blast
    qed (use d in blast)
  qed
  finally show ?thesis .
qed

lemma bit_pow2_smear: "bit (pow2_smear n) i \<longleftrightarrow> (\<exists>d<64. bit n (i + d))"
proof -
  define x1 where "x1 = n OR drop_bit 1 n"
  define x2 where "x2 = x1 OR drop_bit 2 x1"
  define x3 where "x3 = x2 OR drop_bit 4 x2"
  define x4 where "x4 = x3 OR drop_bit 8 x3"
  define x5 where "x5 = x4 OR drop_bit 16 x4"
  have "bit x1 i = (\<exists>d<2. bit n (i + d))" for i
    unfolding x1_def using smear_step [of n 1 n] by simp
  then have "bit x2 i = (\<exists>d<4. bit n (i + d))" for i
    unfolding x2_def using smear_step [of x1 2 n] by simp
  then have "bit x3 i = (\<exists>d<8. bit n (i + d))" for i
    unfolding x3_def using smear_step [of x2 4 n] by simp
  then have "bit x4 i = (\<exists>d<16. bit n (i + d))" for i
    unfolding x4_def using smear_step [of x3 8 n] by simp
  then have "bit x5 i = (\<exists>d<32. bit n (i + d))" for i
    unfolding x5_def using smear_step [of x4 16 n] by simp
  then have "bit (x5 OR drop_bit 32 x5) i = (\<exists>d<64. bit n (i + d))" for i
    using smear_step [of x5 32 n] by simp
  then show ?thesis
    by (simp add: pow2_smear_def Let_def x1_def x2_def x3_def x4_def x5_def)
qed

lemma highest_bit:
  fixes x :: nat assumes "0 < x" shows "\<exists>m. 2 ^ m \<le> x \<and> x < 2 ^ Suc m"
  using ex_power_ivl1 [of 2 x] assms by (auto simp: )

lemma pow2_smear_mask:
  assumes "2 ^ m \<le> unat x" "unat x < 2 ^ Suc m"
  shows "pow2_smear x = mask (Suc m)"
proof (rule bit_word_eqI)
  fix i assume i: "i < LENGTH(64)"
  have m: "m < 64"
  proof (rule ccontr)
    assume "\<not> m < 64" then have "(2::nat) ^ 64 \<le> 2 ^ m" by (intro power_increasing) auto
    then show False using assms(1) unat_u64_less [of x] by simp
  qed
  have top: "bit (unat x) m"
  proof -
    have "unat x div 2 ^ m = 1" using assms by (intro div_nat_eqI) auto
    then show ?thesis by (simp add: bit_iff_odd)
  qed
  have none: "\<not> bit (unat x) j" if "m < j" for j
  proof -
    have "(2::nat) ^ Suc m \<le> 2 ^ j" using that by (intro power_increasing) auto
    then have "unat x < 2 ^ j" using assms(2) by linarith
    then show ?thesis by (simp add: bit_iff_odd)
  qed
  have bx: "bit x j = bit (unat x) j" if "j < 64" for j using that by (simp add: bit_unsigned_iff)
  show "bit (pow2_smear x) i = bit (mask (Suc m) :: u64) i"
  proof (cases "i \<le> m")
    case True
    then have "bit x (i + (m - i))" using top m by (simp add: bx)
    then have "\<exists>d<64. bit x (i + d)" using True m by (intro exI [of _ "m - i"]) auto
    then show ?thesis using True i by (simp add: bit_pow2_smear bit_mask_iff)
  next
    case False
    then have "\<not> bit x (i + d)" for d
      using none [of "i + d"] bx [of "i + d"] bit_imp_le_length [of x "i + d"] by auto
    then show ?thesis using False by (simp add: bit_pow2_smear bit_mask_iff)
  qed
qed

lemma unat_exp: "m < 64 \<Longrightarrow> unat (2 ^ m :: u64) = 2 ^ m"
proof -
  assume "m < 64"
  then have "(2::nat) ^ m < 2 ^ 64" by (intro power_strict_increasing) auto
  then have "unat (of_nat (2 ^ m) :: u64) = 2 ^ m" by (subst unat_of_nat) simp
  then show ?thesis by simp
qed

lemma ht_pow2_next_Suc:
  assumes "2 ^ m < unat n" "unat n \<le> 2 ^ Suc m"
  shows "ht_pow2_next n = 2 ^ Suc m"
proof -
  have "n \<noteq> 0" using assms(1) by auto
  then have "unat (n - 1) = unat n - 1" by (rule unat_minus_one)
  then have "pow2_smear (n - 1) = mask (Suc m)" using assms by (intro pow2_smear_mask) auto
  then show ?thesis using \<open>n \<noteq> 0\<close> by (simp add: ht_pow2_next_def mask_eq_exp_minus_1)
qed

lemma ht_pow2_next_1: "ht_pow2_next 1 = 1"
  by (simp add: ht_pow2_next_def pow2_smear_def)

lemma next_power_of_2_eq: "next_power_of_2 = ht_pow2_next"
  by (simp add: fun_eq_iff next_power_of_2_def ht_pow2_next_def)

lemma ht_pow2_next_exp:
  assumes "0 < n" "unat n \<le> 2 ^ 63"
  obtains k where "unat (ht_pow2_next n) = 2 ^ k" "unat n \<le> 2 ^ k" "\<And>j. unat n \<le> 2 ^ j \<Longrightarrow> k \<le> j"
proof (cases "unat n = 1")
  case True
  then have "n = 1" by (metis unat_1 word_unat_eq_iff)
  then show ?thesis using that [of 0] by (simp add: ht_pow2_next_1)
next
  case False
  then have "0 < unat n - 1" using assms(1) unat_gt_0 [of n] by (auto simp: word_gt_0)
  then obtain m where m: "2 ^ m \<le> unat n - 1" "unat n - 1 < 2 ^ Suc m"
    using highest_bit by blast
  then have m': "2 ^ m < unat n" "unat n \<le> 2 ^ Suc m" using \<open>0 < unat n - 1\<close> by auto
  then have "(2::nat) ^ m < 2 ^ 63" using assms(2) by linarith
  then have "m < 63" by (rule power_less_imp_less_exp [rotated]) simp
  then have "unat (ht_pow2_next n) = 2 ^ Suc m" by (simp only: ht_pow2_next_Suc [OF m']) (simp add: unat_exp del: power_Suc)
  moreover have "Suc m \<le> j" if "unat n \<le> 2 ^ j" for j
  proof -
    have "(2::nat) ^ m < 2 ^ j" using m'(1) that by linarith
    then have "m < j" by (rule power_less_imp_less_exp [rotated]) simp
    then show ?thesis by simp
  qed
  ultimately show ?thesis using that m'(2) by blast
qed

lemma ht_pow2_next_wrap:
  assumes "2 ^ 63 < unat n"
  shows "ht_pow2_next n = 0"
proof -
  have "ht_pow2_next n = 2 ^ Suc 63"
    using assms unat_u64_less [of n] by (intro ht_pow2_next_Suc) simp_all
  then show ?thesis by simp
qed

text \<open>For every request from 1 to \<open>2^63\<close>, \<open>ht_pow2_next\<close> gives the least
  power of two that is not smaller; a larger request wraps around to 0.\<close>

theorem ht_pow2_next_least:
  "0 < n \<Longrightarrow>
   (if unat n \<le> 2 ^ 63
    then \<exists>k. unat (ht_pow2_next n) = 2 ^ k \<and> unat n \<le> 2 ^ k \<and> (\<forall>j. unat n \<le> 2 ^ j \<longrightarrow> k \<le> j)
    else ht_pow2_next n = 0)"
  using ht_pow2_next_exp [of n] ht_pow2_next_wrap [of n] by (metis not_le)

lemma ht_pow2_next_least_witness: "\<exists>k. unat (ht_pow2_next 5) = 2 ^ k \<and> 5 \<le> (2::nat) ^ k"
  using ht_pow2_next_least [of 5] by auto

section \<open>Meta word lemmas\<close>

lemma and_not_0xFF: "h AND NOT 0xFF = push_bit 8 (drop_bit 8 (h :: u64))"
proof -
  have "(0xFF :: u64) = mask 8" by (simp add: mask_eq_exp_minus_1)
  then have e: "h AND NOT 0xFF = h AND NOT (mask 8)" by (rule arg_cong)
  have "h AND NOT (mask 8) = push_bit 8 (drop_bit 8 h)"
    by (rule bit_word_eqI) (auto simp: bit_and_iff bit_not_iff bit_mask_iff bit_push_bit_iff bit_drop_bit_eq)
  then show ?thesis using e by (rule trans [rotated])
qed

lemma bit_val_type_tag: "bit (val_type_tag t) i \<Longrightarrow> i < 3"
proof (rule ccontr)
  assume b: "bit (val_type_tag t) i" and "\<not> i < 3"
  have "val_type_tag t = take_bit 3 (val_type_tag t)" by (cases t) simp_all
  then show False using b \<open>\<not> i < 3\<close> by (metis bit_take_bit_iff)
qed

lemma bit_meta_low: "bit (ucast (val_type_tag t) :: u64) i \<Longrightarrow> i < 3"
  by (auto simp: bit_unsigned_iff dest: bit_val_type_tag)

lemma ht_meta_pack_alt:
  "ht_meta_pack h t =
     (let m = push_bit 8 (drop_bit 8 h) OR ucast (val_type_tag t) in if m \<noteq> 0 then m else 1)"
  unfolding ht_meta_pack_def and_not_0xFF ..

lemma ht_meta_pack_nonzero [simp]: "ht_meta_pack h t \<noteq> 0"
  by (simp add: ht_meta_pack_alt Let_def)

lemma drop_bit_meta_low: "drop_bit 8 (ucast (val_type_tag t) :: u64) = 0"
  by (rule bit_word_eqI) (auto simp: bit_drop_bit_eq dest: bit_meta_low)

lemma drop_push_bit_8: "drop_bit 8 (push_bit 8 (drop_bit 8 h)) = drop_bit 8 (h :: u64)"
  by (rule bit_word_eqI) (auto simp: bit_drop_bit_eq bit_push_bit_iff dest: bit_imp_le_length)

lemma ht_meta_pack_hash56: "drop_bit 8 (ht_meta_pack h t) = drop_bit 8 h"
proof (cases "push_bit 8 (drop_bit 8 h) OR ucast (val_type_tag t) = 0")
  case True
  then have "drop_bit 8 (push_bit 8 (drop_bit 8 h) OR ucast (val_type_tag t)) = 0" by simp
  then have "drop_bit 8 h = 0" by (simp only: drop_bit_or drop_push_bit_8 drop_bit_meta_low or.right_neutral)
  then show ?thesis using True by (simp add: ht_meta_pack_alt)
next
  case False
  then show ?thesis
    by (simp add: ht_meta_pack_alt drop_bit_or drop_push_bit_8 drop_bit_meta_low)
qed

lemma ht_meta_pack_bit7: "\<not> bit (ht_meta_pack h t) 7"
  using bit_meta_low [of t 7]
  by (auto simp: ht_meta_pack_alt Let_def bit_or_iff bit_push_bit_iff bit_1_iff)

lemma ht_meta_type_string: "ht_meta_type (ht_meta_pack h VAL_TYPE_STRING) = (if drop_bit 8 h = 0 then 1 else 0)"
proof -
  have low: "push_bit 8 x AND 0xFF = (0 :: u64)" for x
  proof -
    have "(0xFF :: u64) = mask 8" by (simp add: mask_eq_exp_minus_1)
    moreover have "push_bit 8 x AND mask 8 = (0 :: u64)"
      by (rule bit_word_eqI) (auto simp: bit_and_iff bit_mask_iff bit_push_bit_iff)
    ultimately show ?thesis by simp
  qed
  have "push_bit 8 (drop_bit 8 h) = 0 \<longleftrightarrow> drop_bit 8 h = 0"
    using drop_push_bit_8 [of h] by (metis drop_bit_of_0 push_bit_of_0)
  then show ?thesis by (simp add: ht_meta_type_def ht_meta_pack_alt low)
qed

text \<open>C39: the meta word keeps the top 56 bits of the hash, is never the empty
  sentinel 0 and leaves the lock bit clear.  A string whose 56 hash bits are all
  zero gets the meta word 1: its hash56 is 0 and its type tag reads as LIST.\<close>

theorem ht_meta_pack_spec:
  "drop_bit 8 (ht_meta_pack h t) = drop_bit 8 h \<and> \<not> ht_meta_empty (ht_meta_pack h t) \<and>
   \<not> bit (ht_meta_pack h t) 7 \<and>
   ht_meta_type (ht_meta_pack h VAL_TYPE_STRING) =
     (if drop_bit 8 h = 0 then ucast (val_type_tag VAL_TYPE_LIST) else ucast (val_type_tag VAL_TYPE_STRING))"
  by (simp add: ht_meta_pack_hash56 ht_meta_empty_def ht_meta_pack_bit7 ht_meta_type_string)

text \<open>The three hash functions read no byte outside the \<open>len\<close> bytes they are
  given: whatever follows the buffer in memory, the result is the same.\<close>

theorem hashes_read_only_buffer:
  "ht_key_hash (k @ junk) (length k) = ht_key_hash k (length k) \<and>
   xxhash64 (k @ junk) (length k) seed = xxhash64 k (length k) seed \<and>
   murmur3_64 (k @ junk) (length k) seed = murmur3_64 k (length k) seed"
  by (simp add: ht_key_hash_append xxhash64_append murmur3_64_append)

lemma xxhash64_empty: "xxhash64 [] 0 0 = 0xEF46DB3751D8E999"
  by (simp add: xxhash64_def xxh64_words.simps xxh64_tail.simps xxh64_avalanche_def
      XXH64_PRIME5_def XXH64_PRIME2_def XXH64_PRIME3_def)

end
