(* ===== verification/Kv_Object.thy ===== *)
theory Kv_Object
  imports Hash
begin

text \<open>
  Model of \<open>core/object.h\<close>: the stored object with its key and value bytes in one
  flexible array.  Objects live in a store from addresses to objects; a pointer is
  an address or \<open>None\<close> for NULL.
\<close>

type_synonym addr = nat

definition HEAP_IDX_NONE :: u32 where "HEAP_IDX_NONE = 0xFFFFFFFF"

definition SNAP_FLAG_LIVE_FRESH :: u8 where "SNAP_FLAG_LIVE_FRESH = 0"
definition SNAP_FLAG_DEAD_SAFE :: u8 where "SNAP_FLAG_DEAD_SAFE = 1"
definition SNAP_FLAG_DEAD_PENDING :: u8 where "SNAP_FLAG_DEAD_PENDING = 2"
definition SNAP_FLAG_LIVE_VISITED :: u8 where "SNAP_FLAG_LIVE_VISITED = 3"

record kv_obj =
  heap_idx :: u32
  pool_idx :: u32
  lru_prev :: "addr option"
  lru_next :: "addr option"
  refcount :: u32
  val_len :: u32
  expire_ms :: u64
  key_len :: u16
  marked_deletion :: u8
  snap_flag :: u8
  data :: bytes

type_synonym objs = "addr \<Rightarrow> kv_obj"

definition obj_key_get :: "kv_obj \<Rightarrow> bytes" where
  "obj_key_get ob = take (unat (key_len ob)) (data ob)"

definition obj_val_get :: "kv_obj \<Rightarrow> bytes" where
  "obj_val_get ob = take (unat (val_len ob)) (drop (unat (key_len ob)) (data ob))"

definition obj_val_len_get :: "kv_obj \<Rightarrow> u32" where
  "obj_val_len_get ob = val_len ob"

definition obj_val_ptr_get :: "kv_obj \<Rightarrow> u64" where
  "obj_val_ptr_get ob = le64 (data ob) (unat (key_len ob))"

text \<open>The key bytes are present in the array.\<close>

definition obj_wf :: "kv_obj \<Rightarrow> bool" where
  "obj_wf ob \<longleftrightarrow> unat (key_len ob) \<le> length (data ob)"

lemma length_obj_key_get: "obj_wf ob \<Longrightarrow> length (obj_key_get ob) = unat (key_len ob)"
  by (simp add: obj_wf_def obj_key_get_def)

text \<open>An object with key \<open>foo\<close> and value \<open>1\<close>.\<close>

definition sample_obj :: kv_obj where
  "sample_obj = \<lparr>heap_idx = HEAP_IDX_NONE, pool_idx = 0, lru_prev = None, lru_next = None, refcount = 1,
     val_len = 1, expire_ms = 0, key_len = 3, marked_deletion = 0, snap_flag = 0,
     data = [0x66, 0x6f, 0x6f, 0x31, 0]\<rparr>"

lemma sample_obj_wf: "obj_wf sample_obj"
  by (simp add: obj_wf_def sample_obj_def)

end
