(* ===== verification/Htable.thy ===== *)
theory Htable
  imports Kv_Object
begin

text \<open>
  Model of \<open>hashtable/htable.c\<close>: the bucket array with overflow chains, put, get,
  lazy expiry, lock bit, take, expiry scan, flush, and the in-place incremental
  doubling.  Slot \<open>i\<close> of the array with its overflow chain is the list
  \<open>buckets ! i\<close>: the empty list is a primary bucket with meta word 0, the head of a
  non-empty list is the primary bucket and the tail are its overflow buckets in
  chain order.  The free list of overflow buckets is its length \<open>ovf_free\<close>.
  The outcome of \<open>linear_arena_grow\<close> for a requested number of bytes is an argument.
\<close>

section \<open>State\<close>

record bucket =
  b_meta :: u64
  b_expire :: u64
  b_obj :: addr

record hash_table =
  buckets :: "bucket list list"
  cap :: nat
  old_cap :: nat
  used :: nat
  rehash_idx :: int
  rehash_disabled :: bool
  ovf_pool_cap :: nat
  ovf_free :: nat
  ovf_reserved :: nat

definition BUCKET_SIZE :: nat where "BUCKET_SIZE = 32"
definition HT_OVF_RATIO :: nat where "HT_OVF_RATIO = 8"
definition HT_MIN_BUCKETS :: u64 where "HT_MIN_BUCKETS = 16"
definition HT_REHASH_STEP :: nat where "HT_REHASH_STEP = 64"
definition UINT32_MAX :: nat where "UINT32_MAX = 4294967295"

definition HT_META_LOCK_BIT :: u64 where "HT_META_LOCK_BIT = push_bit 7 1"

definition ht_meta_lock_set :: "u64 \<Rightarrow> u64" where
  "ht_meta_lock_set m = m OR HT_META_LOCK_BIT"

definition ht_meta_lock_clear :: "u64 \<Rightarrow> u64" where
  "ht_meta_lock_clear m = m AND NOT HT_META_LOCK_BIT"

definition ht_meta_is_locked :: "u64 \<Rightarrow> bool" where
  "ht_meta_is_locked m \<longleftrightarrow> m AND HT_META_LOCK_BIT \<noteq> 0"

text \<open>\<open>(meta >> 8) & (cap - 1)\<close>\<close>

definition ht_idx :: "u64 \<Rightarrow> nat \<Rightarrow> nat" where
  "ht_idx meta n = unat (drop_bit 8 meta AND (of_nat n - 1))"

section \<open>Overflow pool\<close>

definition ht_ovf_bucket_alloc :: "(nat \<Rightarrow> bool) \<Rightarrow> hash_table \<Rightarrow> bool \<times> hash_table" where
  "ht_ovf_bucket_alloc grow ht =
     (if ovf_free ht = 0 then
        (let old = ovf_pool_cap ht;
             maxcap = ovf_reserved ht div BUCKET_SIZE
         in if maxcap \<le> old then (False, ht)
            else
              (let newcap = (if old \<noteq> 0 then old * 2 else 16);
                   newcap = (if maxcap < newcap then maxcap else newcap)
               in if UINT32_MAX < newcap then (False, ht)
                  else if \<not> grow (newcap * BUCKET_SIZE) then (False, ht)
                  else (True, ht\<lparr>ovf_free := newcap - old - 1, ovf_pool_cap := newcap\<rparr>)))
      else (True, ht\<lparr>ovf_free := ovf_free ht - 1\<rparr>))"

definition ht_ovf_bucket_release :: "hash_table \<Rightarrow> hash_table" where
  "ht_ovf_bucket_release ht = ht\<lparr>ovf_free := ovf_free ht + 1\<rparr>"

definition ht_ovf_pool_init :: "hash_table \<Rightarrow> hash_table" where
  "ht_ovf_pool_init ht = ht\<lparr>ovf_free := ovf_pool_cap ht\<rparr>"

section \<open>Chains\<close>

definition ht_bucket_match :: "objs \<Rightarrow> u64 \<Rightarrow> bytes \<Rightarrow> bucket \<Rightarrow> bool" where
  "ht_bucket_match mem meta key b \<longleftrightarrow>
     ht_meta_lock_clear (b_meta b) = meta \<and>
     key_len (mem (b_obj b)) = of_nat (length key) \<and>
     take (length key) (data (mem (b_obj b))) = key"

text \<open>The position in the chain, that is, how many buckets precede the hit.\<close>

fun ht_chain_node_find :: "objs \<Rightarrow> u64 \<Rightarrow> bytes \<Rightarrow> bucket list \<Rightarrow> nat option" where
  "ht_chain_node_find mem meta key [] = None"
| "ht_chain_node_find mem meta key (b # bs) =
     (if ht_bucket_match mem meta key b then Some 0
      else map_option Suc (ht_chain_node_find mem meta key bs))"

definition set_chain :: "nat \<Rightarrow> bucket list \<Rightarrow> hash_table \<Rightarrow> hash_table" where
  "set_chain i c ht = ht\<lparr>buckets := (buckets ht)[i := c]\<rparr>"

definition ht_chain_node_insert ::
  "(nat \<Rightarrow> bool) \<Rightarrow> hash_table \<Rightarrow> nat \<Rightarrow> bucket \<Rightarrow> bool \<times> hash_table" where
  "ht_chain_node_insert grow ht idx b =
     (if buckets ht ! idx = [] then (True, set_chain idx [b] ht)
      else
        (case ht_ovf_bucket_alloc grow ht of
           (False, ht) \<Rightarrow> (False, ht)
         | (True, ht) \<Rightarrow> (True, set_chain idx (buckets ht ! idx @ [b]) ht)))"

section \<open>Create\<close>

definition ht_table_create ::
  "(nat \<Rightarrow> bool) \<Rightarrow> (nat \<Rightarrow> bool) \<Rightarrow> bool \<Rightarrow> nat \<Rightarrow> u64 \<Rightarrow> hash_table option" where
  "ht_table_create grow_ht grow_ovf malloc_ok arena_half initial_cap =
     (let initial_cap = unat (ht_pow2_next (if initial_cap < HT_MIN_BUCKETS then HT_MIN_BUCKETS
                                            else initial_cap));
          ovf_cap = (initial_cap div HT_OVF_RATIO) mod 2 ^ 32;
          ovf_cap = (if ovf_cap < 16 then 16 else ovf_cap)
      in if \<not> malloc_ok then None
         else if \<not> grow_ht (initial_cap * BUCKET_SIZE) then None
         else if \<not> grow_ovf (ovf_cap * BUCKET_SIZE) then None
         else Some (ht_ovf_pool_init
           \<lparr>buckets = replicate initial_cap [], cap = initial_cap, old_cap = 0, used = 0,
            rehash_idx = -1, rehash_disabled = False, ovf_pool_cap = ovf_cap, ovf_free = 0,
            ovf_reserved = arena_half\<rparr>))"

section \<open>Rehash\<close>

definition ht_rehash_start :: "(nat \<Rightarrow> bool) \<Rightarrow> hash_table \<Rightarrow> bool \<times> hash_table" where
  "ht_rehash_start grow ht =
     (let new_cap = cap ht * 2
      in if \<not> grow (new_cap * BUCKET_SIZE) then (False, ht)
         else (True, ht\<lparr>buckets := buckets ht @ replicate (new_cap - cap ht) [],
                        old_cap := cap ht, cap := new_cap, rehash_idx := 0\<rparr>))"

text \<open>One overflow bucket of the migrated chain.\<close>

definition ht_rehash_node :: "hash_table \<Rightarrow> bucket \<Rightarrow> hash_table" where
  "ht_rehash_node ht b =
     (let dst_idx = ht_idx (b_meta b) (cap ht)
      in if buckets ht ! dst_idx = []
         then ht_ovf_bucket_release (set_chain dst_idx [b] ht)
         else set_chain dst_idx (buckets ht ! dst_idx @ [b]) ht)"

text \<open>
  The body of the migration loop for slot \<open>i\<close>.  The second component is a ghost
  output: the bucket that the code drops because no overflow bucket was available
  (the result of \<open>ht_chain_node_insert\<close> is ignored there).
\<close>

definition ht_rehash_slot ::
  "(nat \<Rightarrow> bool) \<Rightarrow> hash_table \<Rightarrow> nat \<Rightarrow> hash_table \<times> bucket list" where
  "ht_rehash_slot grow ht i =
     (case buckets ht ! i of
        [] \<Rightarrow> (ht, [])
      | pri # chain \<Rightarrow>
          (let new_idx = ht_idx (b_meta pri) (cap ht);
               ht = set_chain i [pri] ht;
               (ht, lost) =
                 (if new_idx \<noteq> i then
                    (if buckets ht ! new_idx = [] then (set_chain i [] (set_chain new_idx [pri] ht), [])
                     else
                       (case ht_chain_node_insert grow ht new_idx pri of
                          (ok, ht) \<Rightarrow> (set_chain i [] ht, if ok then [] else [pri])))
                  else (ht, []))
           in (foldl ht_rehash_node ht chain, lost)))"

fun ht_rehash_loop ::
  "nat \<Rightarrow> (nat \<Rightarrow> bool) \<Rightarrow> hash_table \<Rightarrow> hash_table \<times> bucket list" where
  "ht_rehash_loop 0 grow ht = (ht, [])"
| "ht_rehash_loop (Suc n) grow ht =
     (if rehash_idx ht < int (old_cap ht) then
        (let i = nat (rehash_idx ht);
             (ht, lost) = ht_rehash_slot grow (ht\<lparr>rehash_idx := rehash_idx ht + 1\<rparr>) i;
             (ht, lost') = ht_rehash_loop n grow ht
         in (ht, lost @ lost'))
      else (ht, []))"

definition ht_rehash_tick ::
  "(nat \<Rightarrow> bool) \<Rightarrow> hash_table \<Rightarrow> hash_table \<times> bucket list" where
  "ht_rehash_tick grow ht =
     (let (ht, lost) = ht_rehash_loop HT_REHASH_STEP grow ht
      in (if int (old_cap ht) \<le> rehash_idx ht then ht\<lparr>old_cap := 0, rehash_idx := -1\<rparr> else ht,
          lost))"

section \<open>Lookup and unlink\<close>

text \<open>A hit is its slot and its position in the chain of the slot.\<close>

definition ht_find_at :: "objs \<Rightarrow> hash_table \<Rightarrow> nat \<Rightarrow> u64 \<Rightarrow> bytes \<Rightarrow> (nat \<times> nat) option" where
  "ht_find_at mem ht idx meta key =
     map_option (Pair idx) (ht_chain_node_find mem meta key (buckets ht ! idx))"

definition ht_key_lookup :: "objs \<Rightarrow> hash_table \<Rightarrow> u64 \<Rightarrow> bytes \<Rightarrow> (nat \<times> nat) option" where
  "ht_key_lookup mem ht meta key =
     (if rehash_idx ht < 0 then ht_find_at mem ht (ht_idx meta (cap ht)) meta key
      else
        (let old_idx = ht_idx meta (old_cap ht);
             new_idx = ht_idx meta (cap ht)
         in if int old_idx < rehash_idx ht then ht_find_at mem ht new_idx meta key
            else
              (case ht_find_at mem ht old_idx meta key of
                 Some f \<Rightarrow> Some f
               | None \<Rightarrow> ht_find_at mem ht new_idx meta key)))"

fun ht_at :: "hash_table \<Rightarrow> nat \<times> nat \<Rightarrow> bucket" where
  "ht_at ht (i, j) = buckets ht ! i ! j"

fun ht_set_at :: "hash_table \<Rightarrow> nat \<times> nat \<Rightarrow> bucket \<Rightarrow> hash_table" where
  "ht_set_at ht (i, j) b = set_chain i ((buckets ht ! i)[j := b]) ht"

fun ht_bucket_node_unlink :: "hash_table \<Rightarrow> nat \<times> nat \<Rightarrow> hash_table" where
  "ht_bucket_node_unlink ht (i, j) =
     (let c = buckets ht ! i;
          ht = set_chain i (take j c @ drop (Suc j) c) (ht\<lparr>used := used ht - 1\<rparr>)
      in if j = 0 \<and> length c = 1 then ht else ht_ovf_bucket_release ht)"

section \<open>Public operations\<close>

definition HT_PUT_NONE :: u32 where "HT_PUT_NONE = 0"
definition HT_PUT_NX :: u32 where "HT_PUT_NX = 1"
definition HT_PUT_XX :: u32 where "HT_PUT_XX = 2"

text \<open>The result of a put: NULL, the old object, and the codes -1 and -2.\<close>

datatype put_result = Put_New | Put_Old addr | Put_Full | Put_Cond

definition ht_meta_of :: "bytes \<Rightarrow> val_type \<Rightarrow> u64" where
  "ht_meta_of key type = ht_meta_pack (ht_key_hash key (length key)) type"

text \<open>\<open>used / cap > HT_LOAD_MAX\<close>: the quotient by a power of two is exact in double
  precision, and no such quotient lies between the constant and 6/5.\<close>

definition ht_overloaded :: "hash_table \<Rightarrow> bool" where
  "ht_overloaded ht \<longleftrightarrow> 6 * cap ht < 5 * used ht"

definition ht_put_prepare ::
  "(nat \<Rightarrow> bool) \<Rightarrow> (nat \<Rightarrow> bool) \<Rightarrow> hash_table \<Rightarrow> hash_table \<times> bucket list" where
  "ht_put_prepare grow_ht grow_ovf ht =
     (let (ht, lost) = (if 0 \<le> rehash_idx ht then ht_rehash_tick grow_ovf ht else (ht, []));
          ht = (if \<not> rehash_disabled ht \<and> rehash_idx ht < 0 \<and> ht_overloaded ht then
                  (case ht_rehash_start grow_ht ht of
                     (True, ht) \<Rightarrow> ht
                   | (False, ht) \<Rightarrow> ht\<lparr>rehash_disabled := True\<rparr>)
                else ht)
      in (ht, lost))"

definition ht_put_entry ::
  "objs \<Rightarrow> (nat \<Rightarrow> bool) \<Rightarrow> hash_table \<Rightarrow> addr \<Rightarrow> val_type \<Rightarrow> u64 \<Rightarrow> u32
    \<Rightarrow> put_result \<times> hash_table" where
  "ht_put_entry mem grow_ovf ht ob type expire flags =
     (let key = obj_key_get (mem ob);
          meta = ht_meta_of key type;
          found = ht_key_lookup mem ht meta key;
          b = \<lparr>b_meta = meta, b_expire = expire, b_obj = ob\<rparr>
      in if flags AND HT_PUT_NX \<noteq> 0 \<and> found \<noteq> None then (Put_Cond, ht)
         else if flags AND HT_PUT_NX = 0 \<and> flags AND HT_PUT_XX \<noteq> 0 \<and> found = None
         then (Put_Cond, ht)
         else
           (case found of
              Some f \<Rightarrow> (Put_Old (b_obj (ht_at ht f)), ht_set_at ht f b)
            | None \<Rightarrow>
                (case ht_chain_node_insert grow_ovf ht (ht_idx meta (cap ht)) b of
                   (False, ht) \<Rightarrow> (Put_Full, ht)
                 | (True, ht) \<Rightarrow> (Put_New, ht\<lparr>used := used ht + 1\<rparr>))))"

definition ht_bucket_put ::
  "objs \<Rightarrow> (nat \<Rightarrow> bool) \<Rightarrow> (nat \<Rightarrow> bool) \<Rightarrow> hash_table \<Rightarrow> addr \<Rightarrow> val_type \<Rightarrow> u64 \<Rightarrow> u32
    \<Rightarrow> put_result \<times> hash_table \<times> bucket list" where
  "ht_bucket_put mem grow_ht grow_ovf ht ob type expire flags =
     (let (ht, lost) = ht_put_prepare grow_ht grow_ovf ht;
          (r, ht) = ht_put_entry mem grow_ovf ht ob type expire flags
      in (r, ht, lost))"

definition ht_expired :: "bucket \<Rightarrow> u64 \<Rightarrow> bool" where
  "ht_expired b now \<longleftrightarrow> b_expire b \<noteq> 0 \<and> now \<noteq> 0 \<and> b_expire b \<le> now"

definition ht_bucket_get :: "objs \<Rightarrow> hash_table \<Rightarrow> bytes \<Rightarrow> val_type \<Rightarrow> u64 \<Rightarrow> addr option" where
  "ht_bucket_get mem ht key type now =
     (case ht_key_lookup mem ht (ht_meta_of key type) key of
        None \<Rightarrow> None
      | Some f \<Rightarrow> if ht_expired (ht_at ht f) now then None else Some (b_obj (ht_at ht f)))"

text \<open>The result, the object of an expired hit (\<open>*expired_out\<close>) and the table.\<close>

definition ht_bucket_get_lazy ::
  "objs \<Rightarrow> hash_table \<Rightarrow> bytes \<Rightarrow> val_type \<Rightarrow> u64 \<Rightarrow> addr option \<times> addr option \<times> hash_table" where
  "ht_bucket_get_lazy mem ht key type now =
     (case ht_key_lookup mem ht (ht_meta_of key type) key of
        None \<Rightarrow> (None, None, ht)
      | Some f \<Rightarrow>
          (let b = ht_at ht f
           in if b_expire b = 0 \<or> now = 0 \<or> now < b_expire b then (Some (b_obj b), None, ht)
              else if ht_meta_is_locked (b_meta b) then (Some (b_obj b), None, ht)
              else (None, Some (b_obj b), ht_bucket_node_unlink ht f)))"

definition ht_bucket_set_lock_status ::
  "objs \<Rightarrow> hash_table \<Rightarrow> bytes \<Rightarrow> val_type \<Rightarrow> bool \<Rightarrow> bool \<times> hash_table" where
  "ht_bucket_set_lock_status mem ht key type locked =
     (case ht_key_lookup mem ht (ht_meta_of key type) key of
        None \<Rightarrow> (False, ht)
      | Some f \<Rightarrow>
          (let b = ht_at ht f;
               m = (if locked then ht_meta_lock_set (b_meta b) else ht_meta_lock_clear (b_meta b))
           in (True, ht_set_at ht f (b\<lparr>b_meta := m\<rparr>))))"

definition ht_bucket_is_locked :: "objs \<Rightarrow> hash_table \<Rightarrow> bytes \<Rightarrow> val_type \<Rightarrow> bool" where
  "ht_bucket_is_locked mem ht key type =
     (case ht_key_lookup mem ht (ht_meta_of key type) key of
        None \<Rightarrow> False
      | Some f \<Rightarrow> ht_meta_is_locked (b_meta (ht_at ht f)))"

definition ht_bucket_take ::
  "objs \<Rightarrow> hash_table \<Rightarrow> bytes \<Rightarrow> val_type \<Rightarrow> addr option \<times> hash_table" where
  "ht_bucket_take mem ht key type =
     (case ht_key_lookup mem ht (ht_meta_of key type) key of
        None \<Rightarrow> (None, ht)
      | Some f \<Rightarrow> (Some (b_obj (ht_at ht f)), ht_bucket_node_unlink ht f))"

text \<open>The object, the flag \<open>*locked_out\<close> and the table.\<close>

definition ht_bucket_take_if_unlocked ::
  "objs \<Rightarrow> hash_table \<Rightarrow> bytes \<Rightarrow> val_type \<Rightarrow> addr \<Rightarrow> addr option \<times> bool \<times> hash_table" where
  "ht_bucket_take_if_unlocked mem ht key type expected =
     (case ht_key_lookup mem ht (ht_meta_of key type) key of
        None \<Rightarrow> (None, False, ht)
      | Some f \<Rightarrow>
          (let b = ht_at ht f
           in if b_obj b \<noteq> expected then (None, False, ht)
              else if ht_meta_is_locked (b_meta b) then (None, True, ht)
              else (Some (b_obj b), False, ht_bucket_node_unlink ht f)))"

definition ht_bucket_delete :: "objs \<Rightarrow> hash_table \<Rightarrow> bytes \<Rightarrow> val_type \<Rightarrow> bool \<times> hash_table" where
  "ht_bucket_delete mem ht key type =
     (case ht_key_lookup mem ht (ht_meta_of key type) key of
        None \<Rightarrow> (False, ht)
      | Some f \<Rightarrow> (True, ht_bucket_node_unlink ht f))"

definition ht_expire_get :: "objs \<Rightarrow> hash_table \<Rightarrow> bytes \<Rightarrow> val_type \<Rightarrow> u64" where
  "ht_expire_get mem ht key type =
     (case ht_key_lookup mem ht (ht_meta_of key type) key of
        None \<Rightarrow> - 1
      | Some f \<Rightarrow> b_expire (ht_at ht f))"

definition ht_rehash_status :: "hash_table \<Rightarrow> bool" where
  "ht_rehash_status ht \<longleftrightarrow> 0 \<le> rehash_idx ht"

text \<open>
  The expiry scan of one slot: first the loop on the primary bucket, then the walk
  over the overflow buckets, at position \<open>j\<close> of the chain.  Both collect the objects
  of the buckets they unlink.
\<close>

definition ht_due :: "u64 \<Rightarrow> bucket \<Rightarrow> bool" where
  "ht_due now b \<longleftrightarrow> b_expire b \<noteq> 0 \<and> b_expire b \<le> now"

function ht_expire_head ::
  "u64 \<Rightarrow> nat \<Rightarrow> hash_table \<Rightarrow> addr list \<Rightarrow> hash_table \<times> addr list" where
  "ht_expire_head now idx ht out =
     (if idx < length (buckets ht) \<and> buckets ht ! idx \<noteq> [] \<and> ht_due now (hd (buckets ht ! idx))
      then ht_expire_head now idx (ht_bucket_node_unlink ht (idx, 0))
             (out @ [b_obj (hd (buckets ht ! idx))])
      else (ht, out))"
  by pat_completeness auto
termination
  by (relation "measure (\<lambda>(now, idx, ht, out). length (buckets ht ! idx))")
    (auto simp: Let_def set_chain_def ht_ovf_bucket_release_def)

function ht_expire_rest ::
  "u64 \<Rightarrow> nat \<Rightarrow> nat \<Rightarrow> hash_table \<Rightarrow> addr list \<Rightarrow> hash_table \<times> addr list" where
  "ht_expire_rest now idx j ht out =
     (if idx < length (buckets ht) \<and> j < length (buckets ht ! idx) then
        (if ht_due now (buckets ht ! idx ! j)
         then ht_expire_rest now idx j (ht_bucket_node_unlink ht (idx, j))
                (out @ [b_obj (buckets ht ! idx ! j)])
         else ht_expire_rest now idx (Suc j) ht out)
      else (ht, out))"
  by pat_completeness auto
termination
  by (relation "measure (\<lambda>(now, idx, j, ht, out). length (buckets ht ! idx) - j)")
    (auto simp: Let_def set_chain_def ht_ovf_bucket_release_def)

declare ht_expire_head.simps [simp del] ht_expire_rest.simps [simp del]

text \<open>The count, the objects stored in \<open>out[]\<close> and the table.\<close>

definition ht_bucket_expire ::
  "hash_table \<Rightarrow> nat \<Rightarrow> u64 \<Rightarrow> nat \<Rightarrow> nat \<times> addr list \<times> hash_table" where
  "ht_bucket_expire ht idx now out_cap =
     (if cap ht \<le> idx then (0, [], ht)
      else
        (let (ht, out) = ht_expire_head now idx ht [];
             (ht, out) = (if buckets ht ! idx \<noteq> [] then ht_expire_rest now idx 1 ht out else (ht, out))
         in (length out, take out_cap out, ht)))"

text \<open>
  Flush: the objects passed to \<open>mem_free\<close> and the table, or \<open>None\<close> when the loop
  indexes past the bucket array.
\<close>

definition ht_flush_slot :: "addr list \<times> hash_table \<Rightarrow> nat \<Rightarrow> addr list \<times> hash_table" where
  "ht_flush_slot fh i =
     (let (freed, ht) = fh; c = buckets ht ! i
      in (freed @ map b_obj c,
          (set_chain i [] ht)\<lparr>ovf_free := ovf_free ht + (length c - 1)\<rparr>))"

definition ht_table_flush :: "hash_table \<Rightarrow> (addr list \<times> hash_table) option" where
  "ht_table_flush ht =
     (let total = (if old_cap ht \<noteq> 0 then old_cap ht + cap ht else cap ht)
      in if length (buckets ht) < total then None
         else
           (let (freed, ht) = foldl ht_flush_slot ([], ht) [0..<total];
                ht = (if 0 < old_cap ht then ht\<lparr>old_cap := 0, rehash_idx := -1\<rparr> else ht)
            in Some (freed, ht\<lparr>used := 0\<rparr>)))"

text \<open>The objects that \<open>ht_table_destroy\<close> frees.\<close>

definition ht_table_destroy :: "hash_table \<Rightarrow> addr list" where
  "ht_table_destroy ht = concat (map (\<lambda>i. map b_obj (buckets ht ! i)) [0..<cap ht])"

text \<open>The five draws of \<open>rand()\<close> are the first five elements of \<open>draws\<close>.\<close>

definition ht_bucket_random :: "nat list \<Rightarrow> hash_table \<Rightarrow> (nat \<times> nat) option" where
  "ht_bucket_random draws ht =
     (if used ht = 0 then None
      else
        (case find (\<lambda>i. buckets ht ! i \<noteq> []) (map (\<lambda>r. r mod cap ht) (take 5 draws) @ [0..<cap ht]) of
           None \<Rightarrow> None
         | Some i \<Rightarrow> Some (i, 0)))"

section \<open>Index and lock bit\<close>

lemma ht_idx_mod: "ht_idx m (2 ^ k) = unat (drop_bit 8 m) mod 2 ^ k"
proof (cases "k < 64")
  case True
  have "(of_nat (2 ^ k) - 1 :: u64) = mask k" by (simp add: mask_eq_exp_minus_1)
  then have "ht_idx m (2 ^ k) = unat (take_bit k (drop_bit 8 m))"
    by (simp add: ht_idx_def take_bit_eq_mask)
  then show ?thesis by (simp only: unsigned_take_bit_eq) (simp add: take_bit_eq_mod)
next
  case False
  then have e: "(of_nat (2 ^ k) - 1 :: u64) = - 1" by simp
  have "ht_idx m (2 ^ k) = unat (drop_bit 8 m)" unfolding ht_idx_def e by simp
  moreover have "unat (drop_bit 8 m) < 2 ^ k"
  proof -
    have "unat (drop_bit 8 m) < 2 ^ 64" using unat_u64_less [of "drop_bit 8 m"] by simp
    also have "(2::nat) ^ 64 \<le> 2 ^ k" using False by (intro power_increasing) auto
    finally show ?thesis .
  qed
  ultimately show ?thesis by simp
qed

lemma bit_lock_bit: "bit HT_META_LOCK_BIT i \<longleftrightarrow> i = 7"
  by (simp only: HT_META_LOCK_BIT_def bit_push_bit_iff bit_1_iff) auto

lemma lock_bit_set: "ht_meta_is_locked m \<longleftrightarrow> bit m 7"
proof -
  have "m AND HT_META_LOCK_BIT = 0 \<longleftrightarrow> \<not> bit m 7"
  proof
    assume "m AND HT_META_LOCK_BIT = 0"
    then have "\<not> bit (m AND HT_META_LOCK_BIT) 7" by simp
    then show "\<not> bit m 7" by (simp add: bit_and_iff bit_lock_bit)
  next
    assume "\<not> bit m 7"
    then show "m AND HT_META_LOCK_BIT = 0"
      by (intro bit_word_eqI) (auto simp: bit_and_iff bit_lock_bit)
  qed
  then show ?thesis by (simp add: ht_meta_is_locked_def)
qed

lemma drop_bit_lock_clear [simp]: "drop_bit 8 (ht_meta_lock_clear m) = drop_bit 8 m"
  by (rule bit_word_eqI)
    (auto simp: ht_meta_lock_clear_def bit_drop_bit_eq bit_and_iff bit_not_iff bit_lock_bit dest: bit_imp_le_length)

lemma lock_clear_set [simp]: "ht_meta_lock_clear (ht_meta_lock_set m) = ht_meta_lock_clear m"
  by (rule bit_word_eqI)
    (auto simp: ht_meta_lock_clear_def ht_meta_lock_set_def bit_and_iff bit_or_iff bit_not_iff bit_lock_bit)

lemma lock_clear_clear [simp]: "ht_meta_lock_clear (ht_meta_lock_clear m) = ht_meta_lock_clear m"
  by (rule bit_word_eqI) (auto simp: ht_meta_lock_clear_def bit_and_iff bit_not_iff bit_lock_bit)

lemma lock_clear_unlocked: "\<not> bit m 7 \<Longrightarrow> ht_meta_lock_clear m = m"
  by (rule bit_word_eqI) (auto simp: ht_meta_lock_clear_def bit_and_iff bit_not_iff bit_lock_bit)

lemma is_locked_set [simp]: "ht_meta_is_locked (ht_meta_lock_set m)"
  by (simp add: lock_bit_set ht_meta_lock_set_def bit_or_iff bit_lock_bit)

lemma is_locked_clear [simp]: "\<not> ht_meta_is_locked (ht_meta_lock_clear m)"
  by (simp add: lock_bit_set ht_meta_lock_clear_def bit_and_iff bit_not_iff bit_lock_bit)

lemma lock_clear_meta_of [simp]: "ht_meta_lock_clear (ht_meta_of key t) = ht_meta_of key t"
  by (simp add: ht_meta_of_def lock_clear_unlocked ht_meta_pack_bit7)

lemma is_locked_meta_of [simp]: "\<not> ht_meta_is_locked (ht_meta_of key t)"
  by (simp add: lock_bit_set ht_meta_of_def ht_meta_pack_bit7)

lemma ht_idx_lock_clear: "ht_idx (ht_meta_lock_clear m) n = ht_idx m n"
  by (simp add: ht_idx_def)

lemma ht_idx_less: "ht_idx m (2 ^ k) < 2 ^ k"
  by (simp add: ht_idx_mod)

section \<open>Invariant and abstraction\<close>

definition ht_entries :: "hash_table \<Rightarrow> bucket list" where
  "ht_entries ht = concat (buckets ht)"

definition bkey :: "objs \<Rightarrow> bucket \<Rightarrow> bytes" where
  "bkey mem b = obj_key_get (mem (b_obj b))"

definition bucket_ok :: "objs \<Rightarrow> bucket \<Rightarrow> bool" where
  "bucket_ok mem b \<longleftrightarrow> obj_wf (mem (b_obj b)) \<and>
     ht_meta_lock_clear (b_meta b) = ht_meta_of (bkey mem b) VAL_TYPE_STRING"

text \<open>Where a bucket may sit when the migration has passed the slots below \<open>r\<close>.\<close>

definition ht_placed :: "hash_table \<Rightarrow> int \<Rightarrow> nat \<Rightarrow> bucket \<Rightarrow> bool" where
  "ht_placed ht r i b \<longleftrightarrow> ht_idx (b_meta b) (cap ht) = i \<or>
     0 \<le> r \<and> ht_idx (b_meta b) (old_cap ht) = i \<and> r \<le> int i"

definition ht_slots :: "objs \<Rightarrow> hash_table \<Rightarrow> int \<Rightarrow> bool" where
  "ht_slots mem ht r \<longleftrightarrow> (\<forall>i < length (buckets ht). \<forall>b \<in> set (buckets ht ! i).
     bucket_ok mem b \<and> ht_placed ht r i b)"

definition ht_shape :: "hash_table \<Rightarrow> bool" where
  "ht_shape ht \<longleftrightarrow> length (buckets ht) = cap ht \<and> (\<exists>k. cap ht = 2 ^ k)"

definition ht_phase :: "hash_table \<Rightarrow> bool" where
  "ht_phase ht \<longleftrightarrow> rehash_idx ht = -1 \<and> old_cap ht = 0 \<or>
     0 \<le> rehash_idx ht \<and> rehash_idx ht < int (old_cap ht) \<and> cap ht = 2 * old_cap ht"

definition ovf_nodes :: "hash_table \<Rightarrow> nat" where
  "ovf_nodes ht = sum_list (map (\<lambda>c. length c - 1) (buckets ht))"

definition ht_inv :: "objs \<Rightarrow> hash_table \<Rightarrow> bool" where
  "ht_inv mem ht \<longleftrightarrow> ht_shape ht \<and> ht_phase ht \<and> ht_slots mem ht (rehash_idx ht) \<and>
     distinct (map (bkey mem) (ht_entries ht)) \<and> used ht = length (ht_entries ht) \<and>
     ovf_free ht + ovf_nodes ht = ovf_pool_cap ht"

definition ht_abs :: "objs \<Rightarrow> hash_table \<Rightarrow> bytes \<Rightarrow> bucket option" where
  "ht_abs mem ht = map_of (map (\<lambda>b. (bkey mem b, b)) (ht_entries ht))"

lemma ht_abs_iff:
  "distinct (map (bkey mem) (ht_entries ht)) \<Longrightarrow>
   ht_abs mem ht key = Some b \<longleftrightarrow> b \<in> set (ht_entries ht) \<and> bkey mem b = key"
  unfolding ht_abs_def
  by (subst map_of_eq_Some_iff) (auto simp: comp_def)

lemma ht_abs_None:
  "ht_abs mem ht key = None \<longleftrightarrow> (\<forall>b \<in> set (ht_entries ht). bkey mem b \<noteq> key)"
  unfolding ht_abs_def by (auto simp: map_of_eq_None_iff image_image)

lemma set_ht_entries: "set (ht_entries ht) = (\<Union>i<length (buckets ht). set (buckets ht ! i))"
  unfolding ht_entries_def by (rule set_concat_nth)

section \<open>Lookup\<close>

lemma ht_bucket_match_iff:
  assumes "bucket_ok mem b" "length key < 65536"
  shows "ht_bucket_match mem (ht_meta_of key VAL_TYPE_STRING) key b \<longleftrightarrow> bkey mem b = key"
proof -
  have len: "unat (of_nat (length key) :: u16) = length key"
    using assms(2) by (simp add: unat_of_nat)
  have wf: "unat (key_len (mem (b_obj b))) \<le> length (data (mem (b_obj b)))"
    using assms(1) by (simp add: bucket_ok_def obj_wf_def)
  show ?thesis
  proof
    assume "ht_bucket_match mem (ht_meta_of key VAL_TYPE_STRING) key b"
    then show "bkey mem b = key"
      by (simp add: ht_bucket_match_def bkey_def obj_key_get_def len)
  next
    assume k: "bkey mem b = key"
    then have "unat (key_len (mem (b_obj b))) = length key"
      using wf by (auto simp: bkey_def obj_key_get_def)
    moreover from this have "key_len (mem (b_obj b)) = of_nat (length key)"
      by (metis of_nat_unat ucast_id)
    ultimately show "ht_bucket_match mem (ht_meta_of key VAL_TYPE_STRING) key b"
      using assms(1) k by (auto simp: ht_bucket_match_def bucket_ok_def bkey_def obj_key_get_def)
  qed
qed

lemma ht_chain_node_find_Some:
  "\<lbrakk>ht_chain_node_find mem (ht_meta_of key VAL_TYPE_STRING) key c = Some j;
    \<forall>b \<in> set c. bucket_ok mem b; length key < 65536\<rbrakk>
   \<Longrightarrow> j < length c \<and> bkey mem (c ! j) = key"
  by (induction c arbitrary: j) (auto simp: ht_bucket_match_iff split: if_splits)

lemma ht_chain_node_find_None:
  "\<lbrakk>ht_chain_node_find mem (ht_meta_of key VAL_TYPE_STRING) key c = None;
    \<forall>b \<in> set c. bucket_ok mem b; length key < 65536; b \<in> set c\<rbrakk>
   \<Longrightarrow> bkey mem b \<noteq> key"
  by (induction c) (auto simp: ht_bucket_match_iff split: if_splits)

lemma bucket_ok_idx:
  "bucket_ok mem b \<Longrightarrow> bkey mem b = key \<Longrightarrow> ht_idx (b_meta b) n = ht_idx (ht_meta_of key VAL_TYPE_STRING) n"
  by (metis bucket_ok_def ht_idx_lock_clear)

lemma ht_slotsD:
  "\<lbrakk>ht_slots mem ht r; i < length (buckets ht); b \<in> set (buckets ht ! i)\<rbrakk>
   \<Longrightarrow> bucket_ok mem b \<and> ht_placed ht r i b"
  by (simp add: ht_slots_def)

lemma ht_find_at_Some:
  "\<lbrakk>ht_find_at mem ht i (ht_meta_of key VAL_TYPE_STRING) key = Some f; ht_slots mem ht r;
    i < length (buckets ht); length key < 65536\<rbrakk>
   \<Longrightarrow> \<exists>j. f = (i, j) \<and> j < length (buckets ht ! i) \<and> bkey mem (buckets ht ! i ! j) = key"
  unfolding ht_find_at_def
  using ht_chain_node_find_Some [of mem key "buckets ht ! i"] ht_slotsD [of mem ht r i] by auto

lemma ht_find_at_None:
  "\<lbrakk>ht_find_at mem ht i (ht_meta_of key VAL_TYPE_STRING) key = None; ht_slots mem ht r;
    i < length (buckets ht); length key < 65536; b \<in> set (buckets ht ! i)\<rbrakk>
   \<Longrightarrow> bkey mem b \<noteq> key"
  unfolding ht_find_at_def
  using ht_chain_node_find_None [of mem key "buckets ht ! i" b] ht_slotsD [of mem ht r i] by auto

lemma ht_idx_cap: "ht_shape ht \<Longrightarrow> ht_idx m (cap ht) < length (buckets ht)"
  by (auto simp: ht_shape_def ht_idx_less)

lemma ht_idx_old:
  assumes "ht_shape ht" "0 < old_cap ht" "cap ht = 2 * old_cap ht"
  shows "ht_idx m (old_cap ht) < old_cap ht"
proof -
  obtain k where "cap ht = 2 ^ k" using assms(1) by (auto simp: ht_shape_def)
  then obtain k' where "old_cap ht = 2 ^ k'" using assms(2,3) by (cases k) auto
  then show ?thesis by (simp add: ht_idx_less)
qed

lemma ht_key_lookup_Some:
  assumes inv: "ht_inv mem ht" and k: "length key < 65536"
    and f: "ht_key_lookup mem ht (ht_meta_of key VAL_TYPE_STRING) key = Some (i, j)"
  shows "i < length (buckets ht) \<and> j < length (buckets ht ! i) \<and> bkey mem (ht_at ht (i, j)) = key"
proof -
  have sh: "ht_shape ht" and sl: "ht_slots mem ht (rehash_idx ht)" and ph: "ht_phase ht"
    using inv by (auto simp: ht_inv_def)
  note new = ht_idx_cap [OF sh, of "ht_meta_of key VAL_TYPE_STRING"]
  have old: "ht_idx (ht_meta_of key VAL_TYPE_STRING) (old_cap ht) < length (buckets ht)"
    if "\<not> rehash_idx ht < 0"
    using that ph sh ht_idx_old [OF sh, of "ht_meta_of key VAL_TYPE_STRING"]
    by (auto simp: ht_phase_def ht_shape_def)
  show ?thesis
    using f ht_find_at_Some [OF _ sl _ k] new old
    by (auto simp: ht_key_lookup_def Let_def split: if_splits option.splits)
qed

lemma ht_key_lookup_None:
  assumes inv: "ht_inv mem ht" and k: "length key < 65536"
    and f: "ht_key_lookup mem ht (ht_meta_of key VAL_TYPE_STRING) key = None"
  shows "b \<in> set (ht_entries ht) \<Longrightarrow> bkey mem b \<noteq> key"
proof
  assume b: "b \<in> set (ht_entries ht)" and key: "bkey mem b = key"
  have sh: "ht_shape ht" and sl: "ht_slots mem ht (rehash_idx ht)" and ph: "ht_phase ht"
    using inv by (auto simp: ht_inv_def)
  obtain i where i: "i < length (buckets ht)" "b \<in> set (buckets ht ! i)"
    using b by (auto simp: set_ht_entries)
  have ok: "bucket_ok mem b" "ht_placed ht (rehash_idx ht) i b" using ht_slotsD [OF sl i] by auto
  have none: "ht_find_at mem ht i (ht_meta_of key VAL_TYPE_STRING) key \<noteq> None"
    using ht_find_at_None [OF _ sl i(1) k i(2)] key by blast
  show False
    using ok(2) f none bucket_ok_idx [OF ok(1) key]
    by (auto simp: ht_key_lookup_def ht_placed_def Let_def split: if_splits option.splits)
qed

lemma ht_key_lookup_abs:
  assumes inv: "ht_inv mem ht" and k: "length key < 65536"
  shows "ht_abs mem ht key =
    map_option (ht_at ht) (ht_key_lookup mem ht (ht_meta_of key VAL_TYPE_STRING) key)"
proof (cases "ht_key_lookup mem ht (ht_meta_of key VAL_TYPE_STRING) key")
  case None
  then show ?thesis using ht_key_lookup_None [OF inv k None] by (simp add: ht_abs_None)
next
  case (Some f)
  obtain i j where f: "f = (i, j)" by (cases f)
  have "i < length (buckets ht)" "j < length (buckets ht ! i)" "bkey mem (ht_at ht (i, j)) = key"
    using ht_key_lookup_Some [OF inv k] Some f by auto
  moreover from this have "ht_at ht (i, j) \<in> set (ht_entries ht)"
    by (auto simp: set_ht_entries intro!: bexI [of _ i])
  moreover have "distinct (map (bkey mem) (ht_entries ht))" using inv by (simp add: ht_inv_def)
  ultimately show ?thesis using Some f by (simp add: ht_abs_iff)
qed

section \<open>Changing one chain\<close>

lemma set_chain_simps [simp]:
  "buckets (set_chain i c ht) = (buckets ht)[i := c]"
  "cap (set_chain i c ht) = cap ht" "old_cap (set_chain i c ht) = old_cap ht"
  "used (set_chain i c ht) = used ht" "rehash_idx (set_chain i c ht) = rehash_idx ht"
  "rehash_disabled (set_chain i c ht) = rehash_disabled ht"
  "ovf_pool_cap (set_chain i c ht) = ovf_pool_cap ht" "ovf_free (set_chain i c ht) = ovf_free ht"
  "ovf_reserved (set_chain i c ht) = ovf_reserved ht"
  by (simp_all add: set_chain_def)

lemma mset_set_chain:
  "i < length (buckets ht) \<Longrightarrow>
   mset (ht_entries (set_chain i c ht)) + mset (buckets ht ! i) = mset (ht_entries ht) + mset c"
  by (simp add: ht_entries_def mset_concat_update)

lemma ovf_nodes_set_chain:
  "i < length (buckets ht) \<Longrightarrow>
   ovf_nodes (set_chain i c ht) + (length (buckets ht ! i) - 1) = ovf_nodes ht + (length c - 1)"
  unfolding ovf_nodes_def set_chain_simps by (rule sum_list_map_update [where f = "\<lambda>c. length c - 1"])

lemma ht_slots_set_chain:
  "ht_slots mem ht r \<Longrightarrow> \<forall>b \<in> set c. bucket_ok mem b \<and> ht_placed ht r i b
   \<Longrightarrow> ht_slots mem (set_chain i c ht) r"
  unfolding ht_slots_def ht_placed_def
  by (metis length_list_update nth_list_update_eq nth_list_update_neq set_chain_simps(1-3))

lemma ht_shape_set_chain [simp]: "ht_shape (set_chain i c ht) = ht_shape ht"
  by (simp add: ht_shape_def)

lemma ht_phase_set_chain [simp]: "ht_phase (set_chain i c ht) = ht_phase ht"
  by (simp add: ht_phase_def)

text \<open>Predicates that look at some of the fields only.\<close>

lemma ht_field_simps [simp]:
  "ht_entries (ht\<lparr>used := u\<rparr>) = ht_entries ht" "ht_entries (ht\<lparr>ovf_free := f\<rparr>) = ht_entries ht"
  "ht_entries (ht\<lparr>ovf_pool_cap := p\<rparr>) = ht_entries ht" "ht_entries (ht\<lparr>rehash_disabled := d\<rparr>) = ht_entries ht"
  "ht_entries (ht\<lparr>rehash_idx := r\<rparr>) = ht_entries ht" "ht_entries (ht\<lparr>old_cap := n\<rparr>) = ht_entries ht"
  "ovf_nodes (ht\<lparr>used := u\<rparr>) = ovf_nodes ht" "ovf_nodes (ht\<lparr>ovf_free := f\<rparr>) = ovf_nodes ht"
  "ovf_nodes (ht\<lparr>ovf_pool_cap := p\<rparr>) = ovf_nodes ht" "ovf_nodes (ht\<lparr>rehash_disabled := d\<rparr>) = ovf_nodes ht"
  "ovf_nodes (ht\<lparr>rehash_idx := r\<rparr>) = ovf_nodes ht" "ovf_nodes (ht\<lparr>old_cap := n\<rparr>) = ovf_nodes ht"
  "ht_shape (ht\<lparr>used := u\<rparr>) = ht_shape ht" "ht_shape (ht\<lparr>ovf_free := f\<rparr>) = ht_shape ht"
  "ht_shape (ht\<lparr>ovf_pool_cap := p\<rparr>) = ht_shape ht" "ht_shape (ht\<lparr>rehash_disabled := d\<rparr>) = ht_shape ht"
  "ht_shape (ht\<lparr>rehash_idx := r\<rparr>) = ht_shape ht" "ht_shape (ht\<lparr>old_cap := n\<rparr>) = ht_shape ht"
  "ht_phase (ht\<lparr>used := u\<rparr>) = ht_phase ht" "ht_phase (ht\<lparr>ovf_free := f\<rparr>) = ht_phase ht"
  "ht_phase (ht\<lparr>ovf_pool_cap := p\<rparr>) = ht_phase ht" "ht_phase (ht\<lparr>rehash_disabled := d\<rparr>) = ht_phase ht"
  "ht_slots mem (ht\<lparr>used := u\<rparr>) = ht_slots mem ht" "ht_slots mem (ht\<lparr>ovf_free := f\<rparr>) = ht_slots mem ht"
  "ht_slots mem (ht\<lparr>ovf_pool_cap := p\<rparr>) = ht_slots mem ht" "ht_slots mem (ht\<lparr>rehash_disabled := d\<rparr>) = ht_slots mem ht"
  "ht_slots mem (ht\<lparr>rehash_idx := r\<rparr>) = ht_slots mem ht"
  by (simp_all add: ht_entries_def ovf_nodes_def ht_shape_def ht_phase_def ht_slots_def ht_placed_def fun_eq_iff)

lemma ht_abs_eqI:
  assumes "distinct (map (bkey mem) (ht_entries ht))"
    and "\<And>b. (b \<in> set (ht_entries ht) \<and> bkey mem b = key) \<longleftrightarrow> r = Some b"
  shows "ht_abs mem ht key = r"
  using assms by (cases r) (auto simp: ht_abs_iff ht_abs_None)

lemma map_bkey_update:
  "j < length c \<Longrightarrow> bkey mem b = bkey mem (c ! j) \<Longrightarrow> map (bkey mem) (c[j := b]) = map (bkey mem) c"
  by (metis list_update_id map_update nth_map)

lemma distinct_map_unique:
  "distinct (map f xs) \<Longrightarrow> x \<in> set xs \<Longrightarrow> y \<in> set xs \<Longrightarrow> f x = f y \<Longrightarrow> x = y"
  by (simp add: distinct_map inj_on_def)

lemma ht_at_in: "i < length (buckets ht) \<Longrightarrow> j < length (buckets ht ! i) \<Longrightarrow> ht_at ht (i, j) \<in> set (ht_entries ht)"
  by (auto simp: set_ht_entries intro!: bexI [of _ i])

lemma mset_exchange:
  fixes M M' C C' X B :: "'a multiset"
  assumes "M' + C = M + C'" "C' + X = C + B"
  shows "M' + X = M + B"
proof -
  have "(M' + X) + C = (M' + C) + X" by (simp add: ac_simps)
  also have "\<dots> = M + (C' + X)" unfolding assms(1) by (simp only: add.assoc)
  also have "\<dots> = (M + B) + C" unfolding assms(2) by (simp only: ac_simps)
  finally show ?thesis by simp
qed

lemma mset_entries_set_at:
  assumes "i < length (buckets ht)" "j < length (buckets ht ! i)"
  shows "mset (ht_entries (ht_set_at ht (i, j) b)) + {#ht_at ht (i, j)#} = mset (ht_entries ht) + {#b#}"
proof -
  have "mset ((buckets ht ! i)[j := b]) + {#buckets ht ! i ! j#} = mset (buckets ht ! i) + {#b#}"
    using assms(2) by (simp add: mset_update)
  from mset_exchange [OF mset_set_chain [OF assms(1), of "(buckets ht ! i)[j := b]"] this]
  show ?thesis by simp
qed

lemma mset_entries_unlink:
  assumes "i < length (buckets ht)" "j < length (buckets ht ! i)"
  shows "mset (ht_entries (ht_bucket_node_unlink ht (i, j))) + {#ht_at ht (i, j)#} = mset (ht_entries ht)"
proof -
  let ?c = "buckets ht ! i"
  have "?c = take j ?c @ ?c ! j # drop (Suc j) ?c" using assms(2) by (rule id_take_nth_drop)
  then have "mset ?c = mset (take j ?c @ drop (Suc j) ?c) + {#?c ! j#}"
    by (metis add_mset_add_single mset.simps(2) mset_append union_mset_add_mset_right)
  moreover have "ht_entries (ht_bucket_node_unlink ht (i, j)) =
      ht_entries (set_chain i (take j ?c @ drop (Suc j) ?c) ht)"
    by (auto simp: ht_entries_def Let_def ht_ovf_bucket_release_def)
  ultimately show ?thesis
    using mset_set_chain [OF assms(1), of "take j ?c @ drop (Suc j) ?c"] by simp
qed

section \<open>Overflow allocation\<close>

lemma ht_ovf_bucket_alloc_ok:
  assumes "ht_ovf_bucket_alloc grow ht = (True, ht')"
  obtains f p where "ht' = ht\<lparr>ovf_free := f, ovf_pool_cap := p\<rparr>" "f + 1 + ovf_pool_cap ht = ovf_free ht + p"
proof
  show "ht' = ht\<lparr>ovf_free := ovf_free ht', ovf_pool_cap := ovf_pool_cap ht'\<rparr>"
    "ovf_free ht' + 1 + ovf_pool_cap ht = ovf_free ht + ovf_pool_cap ht'"
    using assms by (auto simp: ht_ovf_bucket_alloc_def Let_def split: if_splits)
qed

lemma ht_ovf_bucket_alloc_fail: "ht_ovf_bucket_alloc grow ht = (False, ht') \<Longrightarrow> ht' = ht \<and> ovf_free ht = 0"
  by (auto simp: ht_ovf_bucket_alloc_def Let_def split: if_splits)

lemma ht_chain_node_insert_ok:
  assumes "ht_chain_node_insert grow ht i b = (True, ht')" "i < length (buckets ht)"
  obtains f p where
    "ht' = (set_chain i (buckets ht ! i @ [b]) ht)\<lparr>ovf_free := f, ovf_pool_cap := p\<rparr>"
    "f + ovf_nodes ht' + ovf_pool_cap ht = ovf_free ht + ovf_nodes ht + p"
proof (cases "buckets ht ! i = []")
  case True
  then have ht': "ht' = set_chain i [b] ht" using assms(1) by (auto simp: ht_chain_node_insert_def)
  show ?thesis
    by (rule that [where f = "ovf_free ht" and p = "ovf_pool_cap ht"])
      (use ht' True ovf_nodes_set_chain [OF assms(2), of "[b]"] in \<open>simp_all add: set_chain_def\<close>)
next
  case False
  then obtain h where h: "ht_ovf_bucket_alloc grow ht = (True, h)"
    "ht' = set_chain i (buckets h ! i @ [b]) h"
    using assms(1) by (auto simp: ht_chain_node_insert_def split: prod.splits bool.splits)
  obtain f p where a: "h = ht\<lparr>ovf_free := f, ovf_pool_cap := p\<rparr>" "f + 1 + ovf_pool_cap ht = ovf_free ht + p"
    using h(1) by (rule ht_ovf_bucket_alloc_ok)
  have ht': "ht' = (set_chain i (buckets ht ! i @ [b]) ht)\<lparr>ovf_free := f, ovf_pool_cap := p\<rparr>"
    using h(2) a(1) by (simp add: set_chain_def)
  then have "ovf_nodes ht' = ovf_nodes ht + 1"
    using ovf_nodes_set_chain [OF assms(2), of "buckets ht ! i @ [b]"] False
    by (cases "buckets ht ! i") (simp_all add: set_chain_def)
  with that [OF ht'] a(2) show ?thesis by simp
qed

lemma ht_chain_node_insert_fail:
  "ht_chain_node_insert grow ht i b = (False, ht') \<Longrightarrow> ht' = ht"
  by (auto simp: ht_chain_node_insert_def dest: ht_ovf_bucket_alloc_fail split: prod.splits bool.splits if_splits)

lemma mset_entries_append:
  "i < length (buckets ht) \<Longrightarrow>
   mset (ht_entries (set_chain i (buckets ht ! i @ [b]) ht)) = mset (ht_entries ht) + {#b#}"
  using mset_exchange [OF mset_set_chain [of i ht "buckets ht ! i @ [b]"], of "{#}" "{#b#}"] by simp

section \<open>Replacing, inserting and unlinking\<close>

lemma ht_placed_same:
  "\<lbrakk>ht_placed ht r i b; bucket_ok mem b; bucket_ok mem b'; bkey mem b = bkey mem b'\<rbrakk> \<Longrightarrow> ht_placed ht r i b'"
  unfolding ht_placed_def by (metis bucket_ok_idx)

lemma ht_set_at_inv:
  assumes inv: "ht_inv mem ht" and i: "i < length (buckets ht)" and j: "j < length (buckets ht ! i)"
    and b: "bucket_ok mem b" "bkey mem b = bkey mem (ht_at ht (i, j))"
  shows "ht_inv mem (ht_set_at ht (i, j) b)"
    and "ht_abs mem (ht_set_at ht (i, j) b) = (ht_abs mem ht)(bkey mem b \<mapsto> b)"
proof -
  let ?c = "(buckets ht ! i)[j := b]" and ?h = "ht_set_at ht (i, j) b"
  have sl: "ht_slots mem ht (rehash_idx ht)" and d: "distinct (map (bkey mem) (ht_entries ht))"
    using inv by (auto simp: ht_inv_def)
  have old: "bucket_ok mem (ht_at ht (i, j))" "ht_placed ht (rehash_idx ht) i (ht_at ht (i, j))"
    using ht_slotsD [OF sl i, of "ht_at ht (i, j)"] j by auto
  have "ht_slots mem ?h (rehash_idx ht)"
    using sl ht_slotsD [OF sl i] ht_placed_same [OF old(2,1) b(1)] b
    by (auto intro!: ht_slots_set_chain dest!: set_update_subset_insert [THEN subsetD])
  moreover have k: "map (bkey mem) (ht_entries ?h) = map (bkey mem) (ht_entries ht)"
  proof -
    have "map (bkey mem) ?c = map (bkey mem) (buckets ht ! i)" using map_bkey_update [OF j] b(2) by simp
    then have "map (map (bkey mem)) ((buckets ht)[i := ?c]) = map (map (bkey mem)) (buckets ht)"
      by (simp add: map_update list_update_same_conv i)
    then show ?thesis by (simp add: ht_entries_def map_concat)
  qed
  moreover have "length (ht_entries ?h) = length (ht_entries ht)" using k by (metis length_map)
  moreover have "ovf_nodes ?h = ovf_nodes ht" using ovf_nodes_set_chain [OF i, of ?c] by simp
  ultimately show "ht_inv mem ?h" using inv by (simp add: ht_inv_def)
  show "ht_abs mem ?h = (ht_abs mem ht)(bkey mem b \<mapsto> b)"
  proof (rule ext, rule ht_abs_eqI)
    show "distinct (map (bkey mem) (ht_entries ?h))" using d k by simp
    fix key x
    have m: "mset (ht_entries ?h) + {#ht_at ht (i, j)#} = mset (ht_entries ht) + {#b#}"
      by (rule mset_entries_set_at [OF i j])
    have in1: "ht_at ht (i, j) \<in> set (ht_entries ht)" by (rule ht_at_in [OF i j])
    have s1: "insert (ht_at ht (i, j)) (set (ht_entries ?h)) = insert b (set (ht_entries ht))"
      using arg_cong [OF m, of set_mset] by simp
    have d': "distinct (map (bkey mem) (ht_entries ?h))" using d k by simp
    show "x \<in> set (ht_entries ?h) \<and> bkey mem x = key \<longleftrightarrow> ((ht_abs mem ht)(bkey mem b \<mapsto> b)) key = Some x"
    proof (cases "key = bkey mem b")
      case True
      have "b \<in> set (ht_entries ?h)"
        using ht_at_in [of i ?h j] i j by simp
      then show ?thesis using True distinct_map_unique [OF d'] by auto
    next
      case False
      then have "bkey mem x = key \<Longrightarrow> x \<in> set (ht_entries ?h) \<longleftrightarrow> x \<in> set (ht_entries ht)"
        using s1 b(2) by (metis insert_iff)
      then show ?thesis using False d by (auto simp: ht_abs_iff simp del: ht_set_at.simps)
    qed
  qed
qed

lemma ht_placed_home [simp]: "ht_placed ht r (ht_idx (b_meta b) (cap ht)) b"
  by (simp add: ht_placed_def)

lemma ht_insert_inv:
  assumes inv: "ht_inv mem ht" and b: "bucket_ok mem b" "ht_abs mem ht (bkey mem b) = None"
    and ins: "ht_chain_node_insert grow ht (ht_idx (b_meta b) (cap ht)) b = (True, ht')"
  shows "ht_inv mem (ht'\<lparr>used := used ht + 1\<rparr>)"
    and "ht_abs mem (ht'\<lparr>used := used ht + 1\<rparr>) = (ht_abs mem ht)(bkey mem b \<mapsto> b)"
proof -
  let ?i = "ht_idx (b_meta b) (cap ht)"
  have sh: "ht_shape ht" and sl: "ht_slots mem ht (rehash_idx ht)" and d: "distinct (map (bkey mem) (ht_entries ht))"
    using inv by (auto simp: ht_inv_def)
  have i: "?i < length (buckets ht)" by (rule ht_idx_cap [OF sh])
  obtain f p where ht': "ht' = (set_chain ?i (buckets ht ! ?i @ [b]) ht)\<lparr>ovf_free := f, ovf_pool_cap := p\<rparr>"
    and fp: "f + ovf_nodes ht' + ovf_pool_cap ht = ovf_free ht + ovf_nodes ht + p"
    using ins i by (rule ht_chain_node_insert_ok)
  have m: "mset (ht_entries ht') = mset (ht_entries ht) + {#b#}"
    using mset_entries_append [OF i, of b] by (simp add: ht')
  have d': "distinct (map (bkey mem) (ht_entries ht'))"
  proof -
    have "mset (map (bkey mem) (ht_entries ht')) = mset (bkey mem b # map (bkey mem) (ht_entries ht))"
      using m by simp
    moreover have "distinct (bkey mem b # map (bkey mem) (ht_entries ht))"
      using d b(2) by (auto simp: ht_abs_None)
    ultimately show ?thesis by (metis mset_eq_imp_distinct_iff)
  qed
  have "ht_slots mem ht' (rehash_idx ht)"
    unfolding ht' using ht_slotsD [OF sl i] b(1)
    by (auto intro!: ht_slots_set_chain [OF sl])
  moreover have "length (ht_entries ht') = length (ht_entries ht) + 1"
    using arg_cong [OF m, of size] by simp
  ultimately show "ht_inv mem (ht'\<lparr>used := used ht + 1\<rparr>)"
    using inv d' fp by (auto simp: ht_inv_def ht')
  show "ht_abs mem (ht'\<lparr>used := used ht + 1\<rparr>) = (ht_abs mem ht)(bkey mem b \<mapsto> b)"
  proof (rule ext, rule ht_abs_eqI)
    show "distinct (map (bkey mem) (ht_entries (ht'\<lparr>used := used ht + 1\<rparr>)))" using d' by simp
    fix key x
    have "set (ht_entries ht') = insert b (set (ht_entries ht))"
      using arg_cong [OF m, of set_mset] by simp
    then show "x \<in> set (ht_entries (ht'\<lparr>used := used ht + 1\<rparr>)) \<and> bkey mem x = key \<longleftrightarrow>
        ((ht_abs mem ht)(bkey mem b \<mapsto> b)) key = Some x"
      using d b(2) by (auto simp: ht_abs_iff ht_abs_None)
  qed
qed

lemma ht_unlink_inv:
  assumes inv: "ht_inv mem ht" and i: "i < length (buckets ht)" and j: "j < length (buckets ht ! i)"
  shows "ht_inv mem (ht_bucket_node_unlink ht (i, j))"
    and "ht_abs mem (ht_bucket_node_unlink ht (i, j)) = (ht_abs mem ht)(bkey mem (ht_at ht (i, j)) := None)"
proof -
  let ?h = "ht_bucket_node_unlink ht (i, j)" and ?c = "take j (buckets ht ! i) @ drop (Suc j) (buckets ht ! i)"
  have sl: "ht_slots mem ht (rehash_idx ht)" and d: "distinct (map (bkey mem) (ht_entries ht))"
    using inv by (auto simp: ht_inv_def)
  have m: "mset (ht_entries ?h) + {#ht_at ht (i, j)#} = mset (ht_entries ht)"
    by (rule mset_entries_unlink [OF i j])
  have s: "ht_slots mem (set_chain i ?c ht) (rehash_idx ht)"
    using ht_slotsD [OF sl i]
    by (intro ht_slots_set_chain [OF sl]) (auto dest: in_set_takeD in_set_dropD)
  have n: "ovf_nodes (set_chain i ?c ht) + (length (buckets ht ! i) - 1) = ovf_nodes ht + (length ?c - 1)"
    by (rule ovf_nodes_set_chain [OF i])
  have fields: "?h = (set_chain i ?c ht)\<lparr>used := used ht - 1,
      ovf_free := (if j = 0 \<and> length (buckets ht ! i) = 1 then ovf_free ht else ovf_free ht + 1)\<rparr>"
    by (simp add: Let_def ht_ovf_bucket_release_def set_chain_def)
  have k: "mset (bkey mem (ht_at ht (i, j)) # map (bkey mem) (ht_entries ?h)) = mset (map (bkey mem) (ht_entries ht))"
    using arg_cong [OF m, of "image_mset (bkey mem)"] by simp
  then have "distinct (bkey mem (ht_at ht (i, j)) # map (bkey mem) (ht_entries ?h))"
    using d by (metis mset_eq_imp_distinct_iff)
  then have d': "distinct (map (bkey mem) (ht_entries ?h))"
    and nin: "x \<in> set (ht_entries ?h) \<Longrightarrow> bkey mem x \<noteq> bkey mem (ht_at ht (i, j))" for x
    by (simp_all del: ht_bucket_node_unlink.simps ht_at.simps) (metis imageI)
  have len: "length (ht_entries ?h) + 1 = length (ht_entries ht)"
    using arg_cong [OF m, of size] by simp
  have "ovf_free ?h + ovf_nodes ?h = ovf_pool_cap ht"
    unfolding fields using inv n j by (auto simp: ht_inv_def)
  then show "ht_inv mem ?h"
    using inv s d' len unfolding ht_inv_def fields by simp
  have set: "set (ht_entries ht) = insert (ht_at ht (i, j)) (set (ht_entries ?h))"
    using arg_cong [OF m, of set_mset] by simp
  show "ht_abs mem ?h = (ht_abs mem ht)(bkey mem (ht_at ht (i, j)) := None)"
  proof (rule ext, rule ht_abs_eqI [OF d'])
    fix key x
    show "x \<in> set (ht_entries ?h) \<and> bkey mem x = key \<longleftrightarrow>
        ((ht_abs mem ht)(bkey mem (ht_at ht (i, j)) := None)) key = Some x"
      using nin [of x] set d
      by (cases "key = bkey mem (ht_at ht (i, j))") (auto simp: ht_abs_iff simp del: ht_bucket_node_unlink.simps ht_at.simps)
  qed
qed


section \<open>Operations\<close>

lemma ht_lookup_cases [consumes 2, case_names miss hit]:
  assumes "ht_inv mem ht" "length key < 65536"
  obtains (miss) "ht_key_lookup mem ht (ht_meta_of key VAL_TYPE_STRING) key = None" "ht_abs mem ht key = None"
  | (hit) i j where "ht_key_lookup mem ht (ht_meta_of key VAL_TYPE_STRING) key = Some (i, j)"
      "ht_abs mem ht key = Some (ht_at ht (i, j))" "i < length (buckets ht)" "j < length (buckets ht ! i)"
      "bkey mem (ht_at ht (i, j)) = key" "bucket_ok mem (ht_at ht (i, j))"
proof (cases "ht_key_lookup mem ht (ht_meta_of key VAL_TYPE_STRING) key")
  case None
  then show ?thesis using miss ht_key_lookup_abs [OF assms] by simp
next
  case (Some f)
  obtain i j where f: "f = (i, j)" by (cases f)
  have at: "i < length (buckets ht)" "j < length (buckets ht ! i)" "bkey mem (ht_at ht (i, j)) = key"
    using ht_key_lookup_Some [OF assms] Some f by auto
  moreover have "bucket_ok mem (ht_at ht (i, j))"
    using at assms(1) by (auto simp: ht_inv_def ht_slots_def)
  ultimately show ?thesis using hit Some f ht_key_lookup_abs [OF assms] by simp
qed

lemma ht_bucket_take_abs:
  assumes "ht_inv mem ht" "length key < 65536"
  shows "ht_inv mem (snd (ht_bucket_take mem ht key VAL_TYPE_STRING))"
    "ht_abs mem (snd (ht_bucket_take mem ht key VAL_TYPE_STRING)) = (ht_abs mem ht)(key := None)"
    "fst (ht_bucket_take mem ht key VAL_TYPE_STRING) = map_option b_obj (ht_abs mem ht key)"
  using assms
  by (cases rule: ht_lookup_cases [OF assms];
      simp add: ht_bucket_take_def ht_unlink_inv fun_upd_idem del: ht_bucket_node_unlink.simps ht_at.simps)+

lemma ht_bucket_delete_abs:
  assumes "ht_inv mem ht" "length key < 65536"
  shows "ht_inv mem (snd (ht_bucket_delete mem ht key VAL_TYPE_STRING))"
    "ht_abs mem (snd (ht_bucket_delete mem ht key VAL_TYPE_STRING)) = (ht_abs mem ht)(key := None)"
    "fst (ht_bucket_delete mem ht key VAL_TYPE_STRING) \<longleftrightarrow> ht_abs mem ht key \<noteq> None"
  using assms
  by (cases rule: ht_lookup_cases [OF assms];
      simp add: ht_bucket_delete_def ht_unlink_inv fun_upd_idem del: ht_bucket_node_unlink.simps ht_at.simps)+

lemma ht_bucket_get_abs:
  assumes "ht_inv mem ht" "length key < 65536"
  shows "ht_bucket_get mem ht key VAL_TYPE_STRING now =
    (case ht_abs mem ht key of None \<Rightarrow> None | Some b \<Rightarrow> if ht_expired b now then None else Some (b_obj b))"
  using assms
  by (cases rule: ht_lookup_cases [OF assms]; simp add: ht_bucket_get_def del: ht_at.simps)

lemma ht_expire_get_abs:
  assumes "ht_inv mem ht" "length key < 65536"
  shows "ht_expire_get mem ht key VAL_TYPE_STRING =
    (case ht_abs mem ht key of None \<Rightarrow> - 1 | Some b \<Rightarrow> b_expire b)"
  using assms
  by (cases rule: ht_lookup_cases [OF assms]; simp add: ht_expire_get_def del: ht_at.simps)

lemma ht_bucket_is_locked_abs:
  assumes "ht_inv mem ht" "length key < 65536"
  shows "ht_bucket_is_locked mem ht key VAL_TYPE_STRING =
    (case ht_abs mem ht key of None \<Rightarrow> False | Some b \<Rightarrow> ht_meta_is_locked (b_meta b))"
  using assms
  by (cases rule: ht_lookup_cases [OF assms]; simp add: ht_bucket_is_locked_def del: ht_at.simps)

definition bucket_set_lock :: "bool \<Rightarrow> bucket \<Rightarrow> bucket" where
  "bucket_set_lock l b = b\<lparr>b_meta := if l then ht_meta_lock_set (b_meta b) else ht_meta_lock_clear (b_meta b)\<rparr>"

lemma bucket_set_lock_ok [simp]:
  "bkey mem (bucket_set_lock l b) = bkey mem b" "bucket_ok mem (bucket_set_lock l b) = bucket_ok mem b"
  by (simp_all add: bucket_set_lock_def bkey_def bucket_ok_def)

lemma ht_bucket_set_lock_status_abs:
  assumes "ht_inv mem ht" "length key < 65536"
  shows "ht_inv mem (snd (ht_bucket_set_lock_status mem ht key VAL_TYPE_STRING l))"
    "ht_abs mem (snd (ht_bucket_set_lock_status mem ht key VAL_TYPE_STRING l)) =
       (ht_abs mem ht)(key := map_option (bucket_set_lock l) (ht_abs mem ht key))"
    "fst (ht_bucket_set_lock_status mem ht key VAL_TYPE_STRING l) \<longleftrightarrow> ht_abs mem ht key \<noteq> None"
proof -
  have e: "snd (ht_bucket_set_lock_status mem ht key VAL_TYPE_STRING l) =
      (case ht_key_lookup mem ht (ht_meta_of key VAL_TYPE_STRING) key of None \<Rightarrow> ht
       | Some f \<Rightarrow> ht_set_at ht f (bucket_set_lock l (ht_at ht f)))"
    by (simp add: ht_bucket_set_lock_status_def bucket_set_lock_def Let_def split: option.split)
  show "ht_inv mem (snd (ht_bucket_set_lock_status mem ht key VAL_TYPE_STRING l))"
    "ht_abs mem (snd (ht_bucket_set_lock_status mem ht key VAL_TYPE_STRING l)) =
       (ht_abs mem ht)(key := map_option (bucket_set_lock l) (ht_abs mem ht key))"
    unfolding e
    by (cases rule: ht_lookup_cases [OF assms];
        simp add: ht_set_at_inv assms(1) fun_upd_idem del: ht_set_at.simps ht_at.simps)+
  show "fst (ht_bucket_set_lock_status mem ht key VAL_TYPE_STRING l) \<longleftrightarrow> ht_abs mem ht key \<noteq> None"
    by (cases rule: ht_lookup_cases [OF assms])
      (simp_all add: ht_bucket_set_lock_status_def Let_def del: ht_set_at.simps ht_at.simps)
qed

section \<open>Incremental rehash\<close>

text \<open>The fields that the migration leaves alone.\<close>

definition ht_same :: "hash_table \<Rightarrow> hash_table \<Rightarrow> bool" where
  "ht_same ht ht' \<longleftrightarrow> cap ht' = cap ht \<and> old_cap ht' = old_cap ht \<and> used ht' = used ht \<and>
     rehash_disabled ht' = rehash_disabled ht \<and> ovf_reserved ht' = ovf_reserved ht \<and>
     length (buckets ht') = length (buckets ht)"

lemma ht_same_refl [simp]: "ht_same ht ht"
  by (simp add: ht_same_def)

lemma ht_same_trans [trans]: "ht_same a b \<Longrightarrow> ht_same b c \<Longrightarrow> ht_same a c"
  by (simp add: ht_same_def)

lemma ht_same_shape: "ht_same ht ht' \<Longrightarrow> ht_shape ht' = ht_shape ht"
  by (auto simp: ht_same_def ht_shape_def)

text \<open>Buckets and free overflow buckets against the size of the pool.\<close>

definition ovf_balance :: "hash_table \<Rightarrow> hash_table \<Rightarrow> nat \<Rightarrow> bool" where
  "ovf_balance ht ht' n \<longleftrightarrow>
     ovf_free ht' + ovf_nodes ht' + ovf_pool_cap ht = ovf_free ht + ovf_nodes ht + ovf_pool_cap ht' + n"

lemma ovf_balance_trans: "ovf_balance a b m \<Longrightarrow> ovf_balance b c n \<Longrightarrow> ovf_balance a c (m + n)"
  by (simp add: ovf_balance_def)

lemma ht_rehash_node_spec:
  assumes "ht_shape ht" "ht_slots mem ht r" "bucket_ok mem b"
  shows "ht_slots mem (ht_rehash_node ht b) r" "ht_same ht (ht_rehash_node ht b)"
    "rehash_idx (ht_rehash_node ht b) = rehash_idx ht"
    "mset (ht_entries (ht_rehash_node ht b)) = mset (ht_entries ht) + {#b#}"
    "ovf_balance ht (ht_rehash_node ht b) 1"
proof -
  let ?i = "ht_idx (b_meta b) (cap ht)"
  have i: "?i < length (buckets ht)" by (rule ht_idx_cap [OF assms(1)])
  obtain f where f: "ht_rehash_node ht b = (set_chain ?i (buckets ht ! ?i @ [b]) ht)\<lparr>ovf_free := f\<rparr>"
    "f = ovf_free ht + (if buckets ht ! ?i = [] then 1 else 0)"
    by (simp add: ht_rehash_node_def Let_def ht_ovf_bucket_release_def set_chain_def)
  show "ht_slots mem (ht_rehash_node ht b) r"
    unfolding f(1) using ht_slotsD [OF assms(2) i] assms(3)
    by (auto intro!: ht_slots_set_chain [OF assms(2)])
  show "ht_same ht (ht_rehash_node ht b)" "rehash_idx (ht_rehash_node ht b) = rehash_idx ht"
    by (simp_all add: f(1) ht_same_def)
  show "mset (ht_entries (ht_rehash_node ht b)) = mset (ht_entries ht) + {#b#}"
    unfolding f(1) ht_field_simps by (rule mset_entries_append [OF i])
  show "ovf_balance ht (ht_rehash_node ht b) 1"
    using ovf_nodes_set_chain [OF i, of "buckets ht ! ?i @ [b]"]
    unfolding ovf_balance_def f by (cases "buckets ht ! ?i") auto
qed

lemma ht_rehash_chain_spec:
  assumes "ht_shape ht" "ht_slots mem ht r" "\<forall>b \<in> set c. bucket_ok mem b"
  shows "ht_slots mem (foldl ht_rehash_node ht c) r \<and> ht_same ht (foldl ht_rehash_node ht c) \<and>
    rehash_idx (foldl ht_rehash_node ht c) = rehash_idx ht \<and>
    mset (ht_entries (foldl ht_rehash_node ht c)) = mset (ht_entries ht) + mset c \<and>
    ovf_balance ht (foldl ht_rehash_node ht c) (length c)"
  using assms
proof (induction c arbitrary: ht)
  case Nil
  then show ?case by (simp add: ovf_balance_def)
next
  case (Cons b c)
  have okb: "bucket_ok mem b" using Cons.prems(3) by simp
  note n = ht_rehash_node_spec [OF Cons.prems(1,2) okb]
  have sh: "ht_shape (ht_rehash_node ht b)" using Cons.prems(1) by (simp add: ht_same_shape [OF n(2)])
  have okc: "\<forall>b \<in> set c. bucket_ok mem b" using Cons.prems(3) by simp
  from Cons.IH [OF sh n(1) okc] show ?case
    using n(3,4) ht_same_trans [OF n(2)] ovf_balance_trans [OF n(5), of _ "length c"] by simp
qed

lemma ht_slots_advance:
  assumes "ht_slots mem ht (int i)" "\<forall>b \<in> set c. bucket_ok mem b \<and> ht_idx (b_meta b) (cap ht) = i"
  shows "ht_slots mem (set_chain i c ht) (int i + 1)"
proof -
  have "bucket_ok mem b \<and> ht_placed (set_chain i c ht) (int i + 1) j b"
    if j: "j < length (buckets ht)" "b \<in> set ((buckets ht)[i := c] ! j)" for j b
  proof (cases "j = i")
    case True
    then show ?thesis using j assms(2) by (auto simp: ht_placed_def)
  next
    case False
    then have "b \<in> set (buckets ht ! j)" using j by simp
    then have "bucket_ok mem b \<and> ht_placed ht (int i) j b" using ht_slotsD [OF assms(1) j(1)] by simp
    then show ?thesis using False by (auto simp: ht_placed_def)
  qed
  then show ?thesis by (simp add: ht_slots_def)
qed

lemma set_chain_swap: "i \<noteq> j \<Longrightarrow> set_chain i c (set_chain j d ht) = set_chain j d (set_chain i c ht)"
  by (simp add: set_chain_def list_update_swap)

lemma set_chain_twice [simp]: "set_chain i c (set_chain i d ht) = set_chain i c ht"
  by (simp add: set_chain_def)

lemma set_chain_free [simp]:
  "set_chain i c (ht\<lparr>ovf_free := f\<rparr>) = (set_chain i c ht)\<lparr>ovf_free := f\<rparr>"
  "set_chain i c (ht\<lparr>ovf_pool_cap := p\<rparr>) = (set_chain i c ht)\<lparr>ovf_pool_cap := p\<rparr>"
  by (simp_all add: set_chain_def)

lemma ht_ovf_bucket_alloc_set_chain:
  "ht_ovf_bucket_alloc grow (set_chain i c ht) = map_prod id (set_chain i c) (ht_ovf_bucket_alloc grow ht)"
  by (simp add: ht_ovf_bucket_alloc_def Let_def)

lemma ht_chain_node_insert_set_chain:
  "i \<noteq> n \<Longrightarrow> ht_chain_node_insert grow (set_chain i c ht) n b =
     map_prod id (set_chain i c) (ht_chain_node_insert grow ht n b)"
  by (auto simp: ht_chain_node_insert_def ht_ovf_bucket_alloc_set_chain set_chain_swap
      split: prod.split bool.split)

text \<open>The primary bucket of slot \<open>i\<close>: what is in the table before its chain follows.\<close>

lemma ht_rehash_primary:
  assumes sh: "ht_shape ht" and sl: "ht_slots mem ht (int i)" and i: "i < length (buckets ht)"
    and c: "buckets ht ! i = pri # chain"
  obtains h lost where
    "ht_rehash_slot grow ht i = (foldl ht_rehash_node h chain, lost)"
    "ht_slots mem h (int i + 1)" "ht_same ht h" "rehash_idx h = rehash_idx ht"
    "mset (ht_entries h) + mset lost + mset chain = mset (ht_entries ht)"
    "ovf_free h + ovf_nodes h + length chain + ovf_pool_cap ht = ovf_free ht + ovf_nodes ht + ovf_pool_cap h"
proof -
  let ?n = "ht_idx (b_meta pri) (cap ht)"
  have n: "?n < length (buckets ht)" by (rule ht_idx_cap [OF sh])
  have ok: "bucket_ok mem pri" using ht_slotsD [OF sl i] c by simp
  let ?e = "set_chain i [] ht"
  have e: "ht_slots mem ?e (int i + 1)" by (rule ht_slots_advance [OF sl]) simp
  have me: "mset (ht_entries ?e) + mset (pri # chain) = mset (ht_entries ht)"
    using mset_set_chain [OF i, of "[]"] c by simp
  have ne: "ovf_nodes ?e + length chain = ovf_nodes ht"
    using ovf_nodes_set_chain [OF i, of "[]"] c by simp
  show ?thesis
  proof (cases "?n = i")
    case True
    let ?h = "set_chain i [pri] ht"
    show ?thesis
    proof (rule that [of ?h "[]"])
      show "ht_rehash_slot grow ht i = (foldl ht_rehash_node ?h chain, [])"
        using True by (simp add: ht_rehash_slot_def c)
      show "ht_slots mem ?h (int i + 1)" using True ok by (intro ht_slots_advance [OF sl]) simp
      show "mset (ht_entries ?h) + mset [] + mset chain = mset (ht_entries ht)"
        using mset_set_chain [OF i, of "[pri]"] c by simp
      show "ovf_free ?h + ovf_nodes ?h + length chain + ovf_pool_cap ht = ovf_free ht + ovf_nodes ht + ovf_pool_cap ?h"
        using ovf_nodes_set_chain [OF i, of "[pri]"] c by simp
    qed (simp_all add: ht_same_def)
  next
    case False
    then have same: "buckets (set_chain i [pri] ht) ! ?n = buckets ?e ! ?n" by simp
    obtain ok' h1 where ins: "ht_chain_node_insert grow ?e ?n pri = (ok', h1)" by fastforce
    have slot: "ht_rehash_slot grow ht i = (foldl ht_rehash_node h1 chain, if ok' then [] else [pri])"
    proof (cases "buckets ht ! ?n = []")
      case True
      then have "ok'" "h1 = set_chain ?n [pri] ?e"
        using False ins by (auto simp: ht_chain_node_insert_def)
      then show ?thesis using False True by (simp add: ht_rehash_slot_def c Let_def set_chain_swap)
    next
      case ne: False
      have "map_prod id (set_chain i []) (ht_chain_node_insert grow (set_chain i [pri] ht) ?n pri) = (ok', h1)"
        using ins False by (simp add: ht_chain_node_insert_set_chain prod.map_comp comp_def id_def)
      then show ?thesis using False ne
        by (auto simp: ht_rehash_slot_def c Let_def map_prod_def split: prod.splits)
    qed
    show ?thesis
    proof (cases ok')
      case True
      obtain f p where h1: "h1 = (set_chain ?n (buckets ?e ! ?n @ [pri]) ?e)\<lparr>ovf_free := f, ovf_pool_cap := p\<rparr>"
        and fp: "f + ovf_nodes h1 + ovf_pool_cap ?e = ovf_free ?e + ovf_nodes ?e + p"
        using ins n True by (metis (full_types) ht_chain_node_insert_ok length_list_update set_chain_simps(1))
      have "ht_slots mem h1 (int i + 1)"
        unfolding h1 using ht_slotsD [OF e, of ?n] n ok ht_placed_home [of ?e "int i + 1" pri]
        by (auto intro!: ht_slots_set_chain [OF e])
      moreover have "mset (ht_entries h1) = mset (ht_entries ?e) + {#pri#}"
        unfolding h1 ht_field_simps by (rule mset_entries_append) (use n in simp)
      ultimately show ?thesis
        using fp me ne slot True
        by (intro that [of h1 "[]"]) (auto simp: h1 ht_same_def)
    next
      case False
      then have "h1 = ?e" using ins ht_chain_node_insert_fail by auto
      then show ?thesis
        using e me ne slot False
        by (intro that [of h1 "[pri]"]) (auto simp: ht_same_def)
    qed
  qed
qed


lemma ht_rehash_slot_spec:
  assumes sh: "ht_shape ht" and sl: "ht_slots mem ht (int i)" and i: "i < length (buckets ht)"
    and r: "ht_rehash_slot grow ht i = (ht', lost)"
  shows "ht_slots mem ht' (int i + 1) \<and> ht_same ht ht' \<and> rehash_idx ht' = rehash_idx ht \<and>
    mset (ht_entries ht') + mset lost = mset (ht_entries ht) \<and> ovf_balance ht ht' 0"
proof (cases "buckets ht ! i")
  case Nil
  then have "ht' = ht" "lost = []" using r by (simp_all add: ht_rehash_slot_def)
  moreover have "set_chain i [] ht = ht" using Nil i by (simp add: set_chain_def flip: Nil)
  ultimately show ?thesis using ht_slots_advance [OF sl, of "[]"] by (simp add: ovf_balance_def)
next
  case (Cons pri chain)
  obtain h lost' where p:
    "ht_rehash_slot grow ht i = (foldl ht_rehash_node h chain, lost')"
    "ht_slots mem h (int i + 1)" "ht_same ht h" "rehash_idx h = rehash_idx ht"
    "mset (ht_entries h) + mset lost' + mset chain = mset (ht_entries ht)"
    "ovf_free h + ovf_nodes h + length chain + ovf_pool_cap ht = ovf_free ht + ovf_nodes ht + ovf_pool_cap h"
    using ht_rehash_primary [OF sh sl i Cons, of grow] by blast
  have ok: "\<forall>b \<in> set chain. bucket_ok mem b" using ht_slotsD [OF sl i] Cons by simp
  have "ht_shape h" using sh by (simp add: ht_same_shape [OF p(3)])
  note ch = ht_rehash_chain_spec [OF this p(2) ok]
  show ?thesis
    using ch p r ht_same_trans [OF p(3)] by (auto simp: ovf_balance_def ac_simps)
qed

lemma ht_rehash_loop_spec:
  assumes "ht_shape ht" "cap ht = 2 * old_cap ht" "0 \<le> rehash_idx ht" "rehash_idx ht \<le> int (old_cap ht)"
    "ht_slots mem ht (rehash_idx ht)" "ht_rehash_loop n grow ht = (ht', lost)"
  shows "0 \<le> rehash_idx ht' \<and> rehash_idx ht' \<le> int (old_cap ht') \<and> ht_same ht ht' \<and>
    rehash_idx ht' = min (rehash_idx ht + int n) (int (old_cap ht)) \<and>
    ht_slots mem ht' (rehash_idx ht') \<and> mset (ht_entries ht') + mset lost = mset (ht_entries ht) \<and>
    ovf_balance ht ht' 0"
  using assms
proof (induction n arbitrary: ht ht' lost)
  case 0
  then show ?case by (auto simp: ovf_balance_def)
next
  case (Suc n)
  show ?case
  proof (cases "rehash_idx ht < int (old_cap ht)")
    case False
    then show ?thesis using Suc.prems by (auto simp: ovf_balance_def)
  next
    case True
    let ?i = "nat (rehash_idx ht)" and ?h = "ht\<lparr>rehash_idx := rehash_idx ht + 1\<rparr>"
    obtain h1 l1 where s: "ht_rehash_slot grow ?h ?i = (h1, l1)" by fastforce
    obtain h2 l2 where l: "ht_rehash_loop n grow h1 = (h2, l2)" by fastforce
    have res: "ht' = h2" "lost = l1 @ l2" using Suc.prems(6) True s l by auto
    have ri: "int ?i = rehash_idx ht" using Suc.prems by simp
    have "?i < length (buckets ht)" using Suc.prems(1-5) True by (auto simp: ht_shape_def)
    then have s1: "ht_slots mem h1 (int ?i + 1) \<and> ht_same ?h h1 \<and> rehash_idx h1 = rehash_idx ?h \<and>
      mset (ht_entries h1) + mset l1 = mset (ht_entries ?h) \<and> ovf_balance ?h h1 0"
      using Suc.prems(1-5) ri by (intro ht_rehash_slot_spec [OF _ _ _ s]) (simp_all)
    then have same: "ht_same ht h1" by (simp add: ht_same_def)
    have s2: "ht_slots mem h1 (rehash_idx h1)" "rehash_idx h1 = rehash_idx ht + 1"
      "mset (ht_entries h1) + mset l1 = mset (ht_entries ht)" "ovf_balance ht h1 0"
      using s1 unfolding ri by (simp_all add: ovf_balance_def)
    have h1: "ht_shape h1" "cap h1 = 2 * old_cap h1" "old_cap h1 = old_cap ht"
      using same Suc.prems(1,2) by (simp_all add: ht_same_shape [OF same]) (simp_all add: ht_same_def)
    have IH: "0 \<le> rehash_idx h2 \<and> rehash_idx h2 \<le> int (old_cap h2) \<and> ht_same h1 h2 \<and>
      rehash_idx h2 = min (rehash_idx h1 + int n) (int (old_cap h1)) \<and>
      ht_slots mem h2 (rehash_idx h2) \<and> mset (ht_entries h2) + mset l2 = mset (ht_entries h1) \<and>
      ovf_balance h1 h2 0"
      by (rule Suc.IH [OF h1(1,2) _ _ s2(1) l])
        (use Suc.prems(3) True s2(2) h1(3) in linarith)+
    have "ht_same ht h2" using IH same ht_same_trans by blast
    moreover have "mset (ht_entries h2) + mset (l1 @ l2) = mset (ht_entries ht)"
      using IH s2(3) by (simp add: ac_simps)
    moreover have "ovf_balance ht h2 0" using ovf_balance_trans [OF s2(4), of h2 0] IH by simp
    moreover have e: "min (rehash_idx h1 + int n) (int (old_cap h1)) =
        min (rehash_idx ht + int (Suc n)) (int (old_cap ht))"
      using s2(2) h1(3) by (simp add: add.assoc)
    ultimately show ?thesis
      using IH unfolding res e by blast
  qed
qed

lemma ht_rehash_tick_spec:
  assumes inv: "ht_inv mem ht" and re: "0 \<le> rehash_idx ht"
    and t: "ht_rehash_tick grow ht = (ht', lost)"
  shows "ht_shape ht' \<and> ht_phase ht' \<and> ht_slots mem ht' (rehash_idx ht') \<and> used ht' = used ht \<and>
    mset (ht_entries ht') + mset lost = mset (ht_entries ht) \<and>
    ovf_free ht' + ovf_nodes ht' = ovf_pool_cap ht' \<and> cap ht' = cap ht \<and>
    rehash_idx ht' = (if rehash_idx ht + 64 < int (old_cap ht) then rehash_idx ht + 64 else -1)"
proof -
  obtain h where l: "ht_rehash_loop HT_REHASH_STEP grow ht = (h, lost)"
    and ht': "ht' = (if int (old_cap h) \<le> rehash_idx h then h\<lparr>old_cap := 0, rehash_idx := -1\<rparr> else h)"
    using t by (auto simp: ht_rehash_tick_def split: prod.splits)
  have pre: "ht_shape ht" "cap ht = 2 * old_cap ht" "rehash_idx ht < int (old_cap ht)"
    "ht_slots mem ht (rehash_idx ht)" "ovf_free ht + ovf_nodes ht = ovf_pool_cap ht"
    using inv re by (auto simp: ht_inv_def ht_phase_def)
  note s = ht_rehash_loop_spec [OF pre(1,2) re less_imp_le [OF pre(3)] pre(4) l]
  then have same: "ht_same ht h" by simp
  then have sh: "ht_shape h" and cap: "cap h = cap ht" "old_cap h = old_cap ht" "used h = used ht"
    using pre(1) by (simp_all add: ht_same_shape [OF same]) (simp_all add: ht_same_def)
  have idx: "rehash_idx h = min (rehash_idx ht + 64) (int (old_cap ht))"
    using s by (simp add: HT_REHASH_STEP_def)
  show ?thesis
  proof (cases "int (old_cap h) \<le> rehash_idx h")
    case True
    have pl: "ht_placed (h\<lparr>old_cap := 0\<rparr>) (-1) i b" if "ht_placed h (rehash_idx h) i b" for i b
      using that True ht_idx_old [OF sh, of "b_meta b"] cap pre(2,3) re by (auto simp: ht_placed_def)
    have "ht_slots mem h (rehash_idx h)" using s by blast
    then have "ht_slots mem (h\<lparr>old_cap := 0\<rparr>) (-1)" unfolding ht_slots_def using pl by simp
    moreover have "\<not> rehash_idx ht + 64 < int (old_cap ht)" using True idx cap by (simp add: min_def split: if_splits)
    ultimately show ?thesis
      using True s sh cap pre(5) by (simp add: ht' ht_phase_def ovf_balance_def)
  next
    case False
    then have e: "rehash_idx h = rehash_idx ht + 64" "rehash_idx ht + 64 < int (old_cap ht)"
      using idx cap by (simp_all add: min_def split: if_splits)
    have "ht_slots mem h (rehash_idx h)" "mset (ht_entries h) + mset lost = mset (ht_entries ht)"
      "ovf_balance ht h 0"
      using s by blast+
    moreover have "ht' = h" using ht' False by metis
    ultimately show ?thesis
      using e sh cap pre re by (simp add: ht_phase_def ovf_balance_def)
  qed
qed


lemma ht_inv_mset:
  assumes "ht_inv mem ht" "ht_shape ht'" "ht_phase ht'" "ht_slots mem ht' (rehash_idx ht')"
    "used ht' = used ht" "mset (ht_entries ht') = mset (ht_entries ht)"
    "ovf_free ht' + ovf_nodes ht' = ovf_pool_cap ht'"
  shows "ht_inv mem ht'" "ht_abs mem ht' = ht_abs mem ht"
proof -
  have d: "distinct (map (bkey mem) (ht_entries ht))" using assms(1) by (simp add: ht_inv_def)
  have d': "distinct (map (bkey mem) (ht_entries ht'))"
    using d assms(6) by (metis mset_eq_imp_distinct_iff mset_map)
  have "length (ht_entries ht') = length (ht_entries ht)" using assms(6) by (metis size_mset)
  then show "ht_inv mem ht'" using assms d' by (simp add: ht_inv_def)
  have "set (ht_entries ht') = set (ht_entries ht)" using assms(6) by (metis set_mset_mset)
  then show "ht_abs mem ht' = ht_abs mem ht"
    by (intro ext ht_abs_eqI [OF d']) (simp add: ht_abs_iff [OF d])
qed

lemma ht_rehash_tick_abs:
  assumes "ht_inv mem ht" "0 \<le> rehash_idx ht" "ht_rehash_tick grow ht = (ht', [])"
  shows "ht_inv mem ht'" "ht_abs mem ht' = ht_abs mem ht"
  using ht_rehash_tick_spec [OF assms] by (auto intro!: ht_inv_mset [OF assms(1)])

lemma ht_rehash_start_inv:
  assumes inv: "ht_inv mem ht" and idle: "rehash_idx ht < 0"
    and st: "ht_rehash_start grow ht = (True, ht')"
  shows "ht_inv mem ht'" "ht_abs mem ht' = ht_abs mem ht"
proof -
  have pre: "length (buckets ht) = cap ht" "old_cap ht = 0" "ht_slots mem ht (-1)" "rehash_idx ht = -1"
    "ht_shape ht" "ovf_free ht + ovf_nodes ht = ovf_pool_cap ht"
    using inv idle by (auto simp: ht_inv_def ht_phase_def ht_shape_def)
  obtain k where k: "cap ht = 2 ^ k" using pre(5) by (auto simp: ht_shape_def)
  have ht': "ht' = ht\<lparr>buckets := buckets ht @ replicate (cap ht) [], old_cap := cap ht,
      cap := 2 * cap ht, rehash_idx := 0\<rparr>"
    using st by (auto simp: ht_rehash_start_def Let_def mult_2_right mult_2 split: if_splits)
  have "ht_shape ht'" using pre(1) k by (auto simp: ht' ht_shape_def intro!: exI [of _ "Suc k"])
  moreover have "ht_phase ht'" using k by (simp add: ht' ht_phase_def)
  moreover have "ht_slots mem ht' (rehash_idx ht')"
    using ht_slotsD [OF pre(3)] pre(1) by (auto simp: ht' ht_slots_def ht_placed_def nth_append)
  moreover have "ht_entries ht' = ht_entries ht" "ovf_nodes ht' = ovf_nodes ht"
    by (simp_all add: ht' ht_entries_def ovf_nodes_def sum_list_replicate)
  ultimately show "ht_inv mem ht'" "ht_abs mem ht' = ht_abs mem ht"
    using pre(6) by (auto intro!: ht_inv_mset [OF inv] simp: ht')
qed

lemma ht_put_prepare_abs:
  assumes inv: "ht_inv mem ht" and p: "ht_put_prepare grow_ht grow_ovf ht = (ht', [])"
  shows "ht_inv mem ht'" "ht_abs mem ht' = ht_abs mem ht"
proof -
  define t where "t = (if 0 \<le> rehash_idx ht then ht_rehash_tick grow_ovf ht else (ht, []))"
  obtain h where t: "t = (h, [])" using p by (auto simp: ht_put_prepare_def t_def split: prod.splits)
  have h: "ht_inv mem h" "ht_abs mem h = ht_abs mem ht"
    using t inv ht_rehash_tick_abs [OF inv] by (auto simp: t_def split: if_splits)
  have dis: "ht_inv mem (h\<lparr>rehash_disabled := True\<rparr>)" "ht_abs mem (h\<lparr>rehash_disabled := True\<rparr>) = ht_abs mem h"
    using h by (simp_all add: ht_inv_def ht_abs_def)
  obtain ok h2 where s: "ht_rehash_start grow_ht h = (ok, h2)" by fastforce
  have fail: "\<not> ok \<Longrightarrow> h2 = h" using s by (auto simp: ht_rehash_start_def Let_def split: if_splits)
  have start: "ht_inv mem h2 \<and> ht_abs mem h2 = ht_abs mem h" if "ok" "rehash_idx h < 0"
    using ht_rehash_start_inv [OF h(1), of grow_ht h2] s that by simp
  have ht': "ht' = (if \<not> rehash_disabled h \<and> rehash_idx h < 0 \<and> ht_overloaded h
      then if ok then h2 else h2\<lparr>rehash_disabled := True\<rparr> else h)"
    using p t s by (auto simp: ht_put_prepare_def t_def split: prod.splits bool.splits)
  show "ht_inv mem ht'" "ht_abs mem ht' = ht_abs mem ht"
    unfolding ht' using h dis start fail by (auto split: if_splits)
qed

section \<open>Put\<close>

definition new_bucket :: "objs \<Rightarrow> addr \<Rightarrow> u64 \<Rightarrow> bucket" where
  "new_bucket mem ob expire =
     \<lparr>b_meta = ht_meta_of (obj_key_get (mem ob)) VAL_TYPE_STRING, b_expire = expire, b_obj = ob\<rparr>"

lemma new_bucket_ok: "obj_wf (mem ob) \<Longrightarrow> bucket_ok mem (new_bucket mem ob e)"
  by (simp add: new_bucket_def bucket_ok_def bkey_def)

lemma new_bucket_key: "bkey mem (new_bucket mem ob e) = obj_key_get (mem ob)"
  by (simp add: new_bucket_def bkey_def)

lemma obj_key_len: "obj_wf x \<Longrightarrow> length (obj_key_get x) < 65536"
  using unat_u16_less [of "key_len x"] by (simp add: length_obj_key_get)

lemma ht_chain_node_insert_used: "ht_chain_node_insert grow ht i b = (ok, h) \<Longrightarrow> used h = used ht"
  by (auto simp: ht_chain_node_insert_def ht_ovf_bucket_alloc_def Let_def split: if_splits)

text \<open>What a put does to the map from keys to buckets, by its result.\<close>

definition put_abs ::
  "objs \<Rightarrow> (bytes \<Rightarrow> bucket option) \<Rightarrow> addr \<Rightarrow> u64 \<Rightarrow> put_result \<Rightarrow> bytes \<Rightarrow> bucket option" where
  "put_abs mem m ob expire r =
     (case r of
        Put_Full \<Rightarrow> m | Put_Cond \<Rightarrow> m
      | _ \<Rightarrow> m(obj_key_get (mem ob) \<mapsto> new_bucket mem ob expire))"

lemma ht_put_entry_abs:
  assumes inv: "ht_inv mem ht" and wf: "obj_wf (mem ob)"
    and p: "ht_put_entry mem grow ht ob VAL_TYPE_STRING expire flags = (r, ht')"
  shows "ht_inv mem ht' \<and> ht_abs mem ht' = put_abs mem (ht_abs mem ht) ob expire r \<and>
    (case r of
       Put_New \<Rightarrow> ht_abs mem ht (obj_key_get (mem ob)) = None
     | Put_Old old \<Rightarrow> map_option b_obj (ht_abs mem ht (obj_key_get (mem ob))) = Some old
     | Put_Full \<Rightarrow> ht_abs mem ht (obj_key_get (mem ob)) = None
     | Put_Cond \<Rightarrow> if flags AND HT_PUT_NX \<noteq> 0 then ht_abs mem ht (obj_key_get (mem ob)) \<noteq> None
         else flags AND HT_PUT_XX \<noteq> 0 \<and> ht_abs mem ht (obj_key_get (mem ob)) = None)"
proof -
  let ?key = "obj_key_get (mem ob)" and ?b = "new_bucket mem ob expire"
  note len = obj_key_len [OF wf]
  note b = new_bucket_ok [where mem = mem and ob = ob and e = expire, OF wf] new_bucket_key [of mem ob expire]
  have nb: "\<lparr>b_meta = ht_meta_of ?key VAL_TYPE_STRING, b_expire = expire, b_obj = ob\<rparr> = ?b"
    "b_meta ?b = ht_meta_of ?key VAL_TYPE_STRING"
    by (simp_all add: new_bucket_def)
  from inv len show ?thesis
  proof (cases rule: ht_lookup_cases)
    case miss
    show ?thesis
    proof (cases "flags AND HT_PUT_NX = 0 \<and> flags AND HT_PUT_XX \<noteq> 0")
      case True
      then show ?thesis using p miss inv by (auto simp: ht_put_entry_def Let_def put_abs_def)
    next
      case False
      obtain ok h where ins: "ht_chain_node_insert grow ht (ht_idx (b_meta ?b) (cap ht)) ?b = (ok, h)"
        by fastforce
      have r: "(r, ht') = (if ok then (Put_New, h\<lparr>used := used h + 1\<rparr>) else (Put_Full, h))"
        using p miss False ins by (auto simp: ht_put_entry_def Let_def nb)
      show ?thesis
      proof (cases ok)
        case True
        have "used h = used ht" by (rule ht_chain_node_insert_used [OF ins])
        moreover have "ht_chain_node_insert grow ht (ht_idx (b_meta ?b) (cap ht)) ?b = (True, h)"
          using ins True by simp
        ultimately show ?thesis
          using True r ht_insert_inv [OF inv b(1)] miss(2) b(2)
          by (simp add: put_abs_def)
      next
        case False
        then have "h = ht" using ins by (auto dest: ht_chain_node_insert_fail)
        then show ?thesis using False r inv miss by (simp add: put_abs_def)
      qed
    qed
  next
    case (hit i j)
    show ?thesis
    proof (cases "flags AND HT_PUT_NX \<noteq> 0")
      case True
      then show ?thesis using p hit inv by (auto simp: ht_put_entry_def Let_def put_abs_def)
    next
      case False
      have r: "r = Put_Old (b_obj (ht_at ht (i, j)))" "ht' = ht_set_at ht (i, j) ?b"
        using p hit False by (auto simp: ht_put_entry_def Let_def nb simp del: ht_set_at.simps ht_at.simps)
      show ?thesis
        using ht_set_at_inv [OF inv hit(3,4) b(1)] hit(2,5) b(2)
        by (simp add: r put_abs_def del: ht_set_at.simps ht_at.simps)
    qed
  qed
qed


section \<open>When the migration drops nothing\<close>

lemma ht_rehash_node_free: "ovf_free ht \<le> ovf_free (ht_rehash_node ht b)"
  by (simp add: ht_rehash_node_def Let_def ht_ovf_bucket_release_def)

lemma ht_rehash_chain_free: "ovf_free ht \<le> ovf_free (foldl ht_rehash_node ht c)"
  by (induction c arbitrary: ht) (auto intro: order_trans [OF ht_rehash_node_free])

lemma ht_rehash_slot_free:
  assumes "ht_rehash_slot grow ht i = (ht', lost)" "0 < ovf_free ht"
  shows "lost = [] \<and> ovf_free ht \<le> Suc (ovf_free ht')"
proof (cases "buckets ht ! i")
  case Nil
  then show ?thesis using assms(1) by (simp add: ht_rehash_slot_def)
next
  case (Cons pri chain)
  let ?h = "set_chain i [pri] ht" and ?n = "ht_idx (b_meta pri) (cap ht)"
  have ins: "ht_chain_node_insert grow ?h ?n pri = (ok, h) \<Longrightarrow> ok \<and> ovf_free ht \<le> Suc (ovf_free h)" for ok h
    using assms(2) by (auto simp: ht_chain_node_insert_def ht_ovf_bucket_alloc_def split: if_splits)
  obtain h where h: "ht' = foldl ht_rehash_node h chain" "ovf_free ht \<le> Suc (ovf_free h)" "lost = []"
  proof (cases "ht_chain_node_insert grow ?h ?n pri")
    case (Pair ok h)
    then show ?thesis using assms(1) Cons that ins [OF Pair]
      by (auto simp: ht_rehash_slot_def Let_def split: if_splits)
  qed
  then show ?thesis using ht_rehash_chain_free [of h chain] by simp
qed

lemma ht_rehash_loop_free:
  "ht_rehash_loop n grow ht = (ht', lost) \<Longrightarrow> n \<le> ovf_free ht \<Longrightarrow> lost = []"
proof (induction n arbitrary: ht ht' lost)
  case (Suc n)
  let ?h = "ht\<lparr>rehash_idx := rehash_idx ht + 1\<rparr>"
  obtain h1 l1 where s: "ht_rehash_slot grow ?h (nat (rehash_idx ht)) = (h1, l1)" by fastforce
  obtain h2 l2 where l: "ht_rehash_loop n grow h1 = (h2, l2)" by fastforce
  have "l1 = [] \<and> ovf_free ?h \<le> Suc (ovf_free h1)" using s Suc.prems(2) by (intro ht_rehash_slot_free) auto
  moreover from this have "l2 = []" using Suc.prems(2) by (intro Suc.IH [OF l]) simp
  ultimately show ?case using Suc.prems(1) s l by (auto split: if_splits)
qed simp

lemma ht_rehash_tick_no_loss:
  "64 \<le> ovf_free ht \<Longrightarrow> snd (ht_rehash_tick grow ht) = []"
  using ht_rehash_loop_free [of 64 grow ht]
  by (auto simp: ht_rehash_tick_def HT_REHASH_STEP_def split: prod.splits)


section \<open>Expiry scan and flush\<close>

lemma unlink_chain:
  "i < length (buckets ht) \<Longrightarrow>
   buckets (ht_bucket_node_unlink ht (i, j)) =
     (buckets ht)[i := take j (buckets ht ! i) @ drop (Suc j) (buckets ht ! i)]"
  by (simp add: Let_def ht_ovf_bucket_release_def)

lemma ht_expire_head_spec:
  assumes "ht_inv mem ht" "idx < length (buckets ht)" "ht_expire_head now idx ht out = (ht', out')"
  shows "ht_inv mem ht' \<and>
    buckets ht' = (buckets ht)[idx := dropWhile (ht_due now) (buckets ht ! idx)] \<and>
    out' = out @ map b_obj (takeWhile (ht_due now) (buckets ht ! idx))"
  using assms
proof (induction now idx ht out arbitrary: ht' out' rule: ht_expire_head.induct)
  case (1 now idx ht out)
  show ?case
  proof (cases "buckets ht ! idx \<noteq> [] \<and> ht_due now (hd (buckets ht ! idx))")
    case True
    then obtain b bs where c: "buckets ht ! idx = b # bs" "ht_due now b"
      by (cases "buckets ht ! idx") auto
    let ?h = "ht_bucket_node_unlink ht (idx, 0)"
    have inv: "ht_inv mem ?h" using 1(2,3) c by (intro ht_unlink_inv) auto
    have bk: "buckets ?h = (buckets ht)[idx := bs]" using unlink_chain [OF 1(3), of 0] c by simp
    have "ht_expire_head now idx ?h (out @ [b_obj b]) = (ht', out')"
      using 1(4) 1(3) c by (subst (asm) ht_expire_head.simps) (simp del: ht_bucket_node_unlink.simps)
    with 1(1) 1(3) c inv bk show ?thesis by (simp del: ht_bucket_node_unlink.simps)
  next
    case False
    then have "ht' = ht" "out' = out" using 1(4) by (subst (asm) ht_expire_head.simps; auto)+
    moreover have "dropWhile (ht_due now) (buckets ht ! idx) = buckets ht ! idx"
      "takeWhile (ht_due now) (buckets ht ! idx) = []"
      using False by (cases "buckets ht ! idx"; auto)+
    ultimately show ?thesis using 1(2) by simp
  qed
qed

lemma ht_expire_rest_spec:
  assumes "ht_inv mem ht" "idx < length (buckets ht)" "ht_expire_rest now idx j ht out = (ht', out')"
  shows "ht_inv mem ht' \<and>
    buckets ht' = (buckets ht)[idx := take j (buckets ht ! idx) @
                     filter (\<lambda>b. \<not> ht_due now b) (drop j (buckets ht ! idx))] \<and>
    out' = out @ map b_obj (filter (ht_due now) (drop j (buckets ht ! idx)))"
  using assms
proof (induction now idx j ht out arbitrary: ht' out' rule: ht_expire_rest.induct)
  case (1 now idx j ht out)
  let ?c = "buckets ht ! idx"
  show ?case
  proof (cases "j < length ?c")
    case False
    then show ?thesis using 1(3,5) by (subst (asm) ht_expire_rest.simps) (simp add: 1(4))
  next
    case j: True
    have d: "drop j ?c = ?c ! j # drop (Suc j) ?c" using j by (rule Cons_nth_drop_Suc [symmetric])
    show ?thesis
    proof (cases "ht_due now (?c ! j)")
      case True
      let ?h = "ht_bucket_node_unlink ht (idx, j)"
      have inv: "ht_inv mem ?h" using 1(3,4) j by (intro ht_unlink_inv) auto
      have bk: "buckets ?h = (buckets ht)[idx := take j ?c @ drop (Suc j) ?c]" by (rule unlink_chain [OF 1(4)])
      have "ht_expire_rest now idx j ?h (out @ [b_obj (?c ! j)]) = (ht', out')"
        using 1(5) 1(4) j True by (subst (asm) ht_expire_rest.simps) (simp del: ht_bucket_node_unlink.simps)
      with 1(1) [OF _ True inv] 1(4) j True bk d show ?thesis
        by (simp del: ht_bucket_node_unlink.simps)
    next
      case False
      have "ht_expire_rest now idx (Suc j) ht out = (ht', out')"
        using 1(5) 1(4) j False by (subst (asm) ht_expire_rest.simps) simp
      with 1(2) [OF _ False 1(3,4)] 1(4) j False d show ?thesis
        by (simp add: take_Suc_conv_app_nth)
    qed
  qed
qed

lemma ht_flush_loop:
  assumes "n \<le> length (buckets ht)"
  shows "foldl ht_flush_slot ([], ht) [0..<n] =
    (concat (map (\<lambda>i. map b_obj (buckets ht ! i)) [0..<n]),
     ht\<lparr>buckets := replicate n [] @ drop n (buckets ht),
        ovf_free := ovf_free ht + sum_list (map (\<lambda>c. length c - 1) (take n (buckets ht)))\<rparr>)"
  using assms
proof (induction n)
  case (Suc n)
  have "drop n (buckets ht) = buckets ht ! n # drop (Suc n) (buckets ht)"
    using Suc.prems by (simp add: Cons_nth_drop_Suc)
  with Suc show ?case
    by (simp add: ht_flush_slot_def set_chain_def nth_append take_Suc_conv_app_nth list_update_append
        replicate_app_Cons_same Let_def)
qed simp

lemma map_nth_concat: "concat (map (\<lambda>i. map f (xs ! i)) [0..<length xs]) = map f (concat xs)"
proof -
  have "map (\<lambda>i. map f (xs ! i)) [0..<length xs] = map (map f) (map ((!) xs) [0..<length xs])"
    by (simp add: comp_def)
  then show ?thesis by (simp only: map_nth map_concat)
qed

lemma ht_table_flush_idle:
  assumes inv: "ht_inv mem ht" and idle: "rehash_idx ht < 0"
  shows "\<exists>ht'. ht_table_flush ht = Some (map b_obj (ht_entries ht), ht') \<and> ht_inv mem ht' \<and>
    ht_abs mem ht' = Map.empty \<and> used ht' = 0"
proof -
  have pre: "length (buckets ht) = cap ht" "old_cap ht = 0" "ht_shape ht" "rehash_idx ht = -1"
    "ovf_free ht + ovf_nodes ht = ovf_pool_cap ht"
    using inv idle by (auto simp: ht_inv_def ht_phase_def ht_shape_def)
  let ?h = "ht\<lparr>buckets := replicate (cap ht) [], ovf_free := ovf_free ht + ovf_nodes ht, used := 0\<rparr>"
  have "ht_table_flush ht = Some (map b_obj (ht_entries ht), ?h)"
    using ht_flush_loop [of "cap ht" ht] pre map_nth_concat [of b_obj "buckets ht"]
    by (simp add: ht_table_flush_def ht_entries_def ovf_nodes_def)
  moreover have e: "ht_entries ?h = []" "ovf_nodes ?h = 0"
    by (simp_all add: ht_entries_def ovf_nodes_def sum_list_replicate)
  moreover have "ht_inv mem ?h"
    using pre e by (simp add: ht_inv_def ht_shape_def ht_phase_def ht_slots_def)
  ultimately show ?thesis by (simp add: ht_abs_def)
qed

lemma ht_table_flush_rehash:
  "ht_inv mem ht \<Longrightarrow> 0 \<le> rehash_idx ht \<Longrightarrow> ht_table_flush ht = None"
  by (auto simp: ht_inv_def ht_phase_def ht_shape_def ht_table_flush_def)

section \<open>Empty table\<close>

lemma ht_table_create_inv:
  assumes c: "ht_table_create grow_ht grow_ovf True half n = Some ht" and n: "unat n \<le> 2 ^ 63"
  shows "ht_inv mem ht" "ht_abs mem ht = Map.empty"
proof -
  let ?n = "if n < HT_MIN_BUCKETS then HT_MIN_BUCKETS else n"
  have "0 < ?n" "unat ?n \<le> 2 ^ 63" using n by (auto simp: HT_MIN_BUCKETS_def word_less_nat_alt)
  then obtain k where k: "unat (ht_pow2_next ?n) = 2 ^ k" by (rule ht_pow2_next_exp)
  obtain p r where ht: "ht = \<lparr>buckets = replicate (2 ^ k) [], cap = 2 ^ k, old_cap = 0, used = 0,
      rehash_idx = -1, rehash_disabled = False, ovf_pool_cap = p, ovf_free = p, ovf_reserved = r\<rparr>"
    using c by (auto simp: ht_table_create_def Let_def k ht_ovf_pool_init_def split: if_splits)
  have e: "ht_entries ht = []" "ovf_nodes ht = 0"
    by (simp_all add: ht ht_entries_def ovf_nodes_def sum_list_replicate)
  then show "ht_inv mem ht" by (simp add: ht ht_inv_def ht_shape_def ht_phase_def ht_slots_def)
  show "ht_abs mem ht = Map.empty" by (simp add: ht_abs_def e)
qed

section \<open>The table as a map\<close>

text \<open>
  What a client of the table relies on: keys of the modelled length, a map from keys
  to entries, a payload of an entry, and a liveness test of an entry at a time.
\<close>

locale entry_table =
  fixes invar :: "'t \<Rightarrow> bool" and entry :: "'t \<Rightarrow> 'k \<Rightarrow> 'e option" and valid :: "'k \<Rightarrow> bool"
    and payload :: "'e \<Rightarrow> 'o" and expired :: "'e \<Rightarrow> 'time \<Rightarrow> bool"
    and get :: "'t \<Rightarrow> 'k \<Rightarrow> 'time \<Rightarrow> 'o option" and tak :: "'t \<Rightarrow> 'k \<Rightarrow> 'o option \<times> 't"
  assumes get_entry: "invar t \<Longrightarrow> valid k \<Longrightarrow>
      get t k now = (case entry t k of None \<Rightarrow> None | Some e \<Rightarrow> if expired e now then None else Some (payload e))"
    and take_invar: "invar t \<Longrightarrow> valid k \<Longrightarrow> invar (snd (tak t k))"
    and take_entry: "invar t \<Longrightarrow> valid k \<Longrightarrow> entry (snd (tak t k)) = (entry t)(k := None)"
    and take_result: "invar t \<Longrightarrow> valid k \<Longrightarrow> fst (tak t k) = map_option payload (entry t k)"
begin

lemma get_after_take:
  "invar t \<Longrightarrow> valid k \<Longrightarrow> valid k' \<Longrightarrow>
   get (snd (tak t k)) k' now = (if k' = k then None else get t k' now)"
  by (simp add: get_entry take_invar take_entry)

lemma take_twice: "invar t \<Longrightarrow> valid k \<Longrightarrow> fst (tak (snd (tak t k)) k) = None"
  by (simp add: take_result take_invar take_entry)

lemma take_commute:
  "invar t \<Longrightarrow> valid k \<Longrightarrow> valid k' \<Longrightarrow>
   entry (snd (tak (snd (tak t k)) k')) = entry (snd (tak (snd (tak t k')) k))"
  by (simp add: take_entry take_invar fun_upd_twist fun_eq_iff)

lemma get_some_take:
  "invar t \<Longrightarrow> valid k \<Longrightarrow> get t k now = Some p \<Longrightarrow> fst (tak t k) = Some p"
  by (auto simp: get_entry take_result split: option.splits if_splits)

end

interpretation ht_map: entry_table "ht_inv mem" "ht_abs mem" "\<lambda>key. length key < 65536" b_obj ht_expired
  "\<lambda>ht key now. ht_bucket_get mem ht key VAL_TYPE_STRING now"
  "\<lambda>ht key. ht_bucket_take mem ht key VAL_TYPE_STRING"
  for mem
  by unfold_locales (auto simp: ht_bucket_get_abs ht_bucket_take_abs)

section \<open>Sample states\<close>

definition sample_table :: hash_table where
  "sample_table = \<lparr>buckets = replicate 16 [], cap = 16, old_cap = 0, used = 0, rehash_idx = -1,
     rehash_disabled = False, ovf_pool_cap = 16, ovf_free = 16, ovf_reserved = 4096\<rparr>"

lemma sample_table_create:
  "ht_table_create (\<lambda>_. True) (\<lambda>_. True) True 4096 16 = Some sample_table"
  by (simp add: ht_table_create_def sample_table_def HT_MIN_BUCKETS_def ht_pow2_next_def pow2_smear_def
      HT_OVF_RATIO_def ht_ovf_pool_init_def Let_def)

lemma sample_table_inv: "ht_inv mem sample_table" "ht_abs mem sample_table = Map.empty"
  using ht_table_create_inv [OF sample_table_create] by simp_all

section \<open>Properties of the table\<close>



text \<open>C6: every read and removal of the table is the one of the map it represents:
  get returns the bound object unless its expiry has passed, the expiry and the lock
  bit are those of the bound bucket, and take removes exactly the key and returns its
  object; afterwards a get of that key misses and a get of any other key is
  unchanged.\<close>

theorem ht_reads_refine:
  assumes "ht_inv mem ht" "length key < 65536" "length key' < 65536"
  shows "ht_bucket_get mem ht key VAL_TYPE_STRING now =
      (case ht_abs mem ht key of None \<Rightarrow> None | Some b \<Rightarrow> if ht_expired b now then None else Some (b_obj b)) \<and>
    ht_expire_get mem ht key VAL_TYPE_STRING = (case ht_abs mem ht key of None \<Rightarrow> - 1 | Some b \<Rightarrow> b_expire b) \<and>
    ht_bucket_is_locked mem ht key VAL_TYPE_STRING =
      (case ht_abs mem ht key of None \<Rightarrow> False | Some b \<Rightarrow> ht_meta_is_locked (b_meta b)) \<and>
    (case ht_bucket_take mem ht key VAL_TYPE_STRING of
       (r, ht') \<Rightarrow> ht_inv mem ht' \<and> r = map_option b_obj (ht_abs mem ht key) \<and>
         ht_abs mem ht' = (ht_abs mem ht)(key := None) \<and>
         ht_bucket_get mem ht' key' VAL_TYPE_STRING now =
           (if key' = key then None else ht_bucket_get mem ht key' VAL_TYPE_STRING now))"
  using ht_map.get_entry [OF assms(1,2)] ht_map.get_after_take [OF assms] ht_bucket_take_abs [OF assms(1,2)]
    ht_expire_get_abs [OF assms(1,2)] ht_bucket_is_locked_abs [OF assms(1,2)]
  by (simp add: case_prod_beta)

lemma ht_reads_refine_witness:
  "ht_bucket_get (\<lambda>_. sample_obj) sample_table [0x66, 0x6f, 0x6f] VAL_TYPE_STRING 0 = None"
  using ht_reads_refine [OF sample_table_inv(1), of "[0x66, 0x6f, 0x6f]" "[]" "\<lambda>_. sample_obj" 0]
  by (simp add: sample_table_inv(2))


text \<open>C7: one migration step of the incremental rehash changes no binding.  With at
  least 64 free overflow buckets (the number of slots a step handles) the step drops
  nothing, keeps the invariant and the map, and advances by 64 slots or ends the
  migration; so a rehash of \<open>n\<close> old slots ends after \<open>n / 64\<close> steps, rounded up.\<close>

theorem ht_rehash_tick_refines:
  assumes "ht_inv mem ht" "0 \<le> rehash_idx ht" "64 \<le> ovf_free ht"
  shows "case ht_rehash_tick grow ht of (ht', lost) \<Rightarrow>
    lost = [] \<and> ht_inv mem ht' \<and> ht_abs mem ht' = ht_abs mem ht \<and> cap ht' = cap ht \<and>
    rehash_idx ht' = (if rehash_idx ht + 64 < int (old_cap ht) then rehash_idx ht + 64 else -1)"
proof -
  obtain ht' lost where t: "ht_rehash_tick grow ht = (ht', lost)" by fastforce
  then have "lost = []" using ht_rehash_tick_no_loss [OF assms(3), of grow] by simp
  then show ?thesis
    using t ht_rehash_tick_abs [OF assms(1,2), of grow ht'] ht_rehash_tick_spec [OF assms(1,2) t] by simp
qed

lemma ht_rehash_tick_refines_witness:
  "let ht = sample_table\<lparr>rehash_idx := 0, old_cap := 8, ovf_free := 64, ovf_pool_cap := 64\<rparr>
   in rehash_idx (fst (ht_rehash_tick (\<lambda>_. False) ht)) = -1"
proof -
  let ?h = "sample_table\<lparr>rehash_idx := 0, old_cap := 8, ovf_free := 64, ovf_pool_cap := 64\<rparr>"
  have "ht_inv (\<lambda>_. sample_obj) ?h"
    using sample_table_inv(1) [of "\<lambda>_. sample_obj"]
    by (simp add: ht_inv_def ht_phase_def ht_slots_def sample_table_def ovf_nodes_def ht_entries_def ht_shape_def)
  from ht_rehash_tick_refines [OF this, of "\<lambda>_. False"] show ?thesis
    by (simp add: case_prod_beta)
qed

lemma ht_rehash_loop_done: "int (old_cap ht) \<le> rehash_idx ht \<Longrightarrow> ht_rehash_loop n grow ht = (ht, [])"
  by (cases n) auto

lemma rehash_step_unroll: "ht_rehash_loop HT_REHASH_STEP = ht_rehash_loop (Suc 63)"
  by (simp add: HT_REHASH_STEP_def)


text \<open>C8: lazy expiry.  A get at time \<open>now\<close> returns the bound object when it is
  live or when its bucket is locked; an expired, unlocked entry is unlinked and handed
  out for freeing, and exactly its key disappears.\<close>

theorem ht_get_lazy_refines:
  assumes "ht_inv mem ht" "length key < 65536"
  shows "case ht_bucket_get_lazy mem ht key VAL_TYPE_STRING now of (r, stale, ht') \<Rightarrow>
    ht_inv mem ht' \<and>
    (case ht_abs mem ht key of
       None \<Rightarrow> r = None \<and> stale = None \<and> ht' = ht
     | Some b \<Rightarrow>
         if ht_expired b now \<and> \<not> ht_meta_is_locked (b_meta b)
         then r = None \<and> stale = Some (b_obj b) \<and> ht_abs mem ht' = (ht_abs mem ht)(key := None)
         else r = Some (b_obj b) \<and> stale = None \<and> ht' = ht)"
  using assms
proof (cases rule: ht_lookup_cases)
  case miss
  then show ?thesis using assms(1) by (simp add: ht_bucket_get_lazy_def)
next
  case (hit i j)
  then show ?thesis
    using assms(1) ht_unlink_inv [OF assms(1) hit(3,4)]
    by (auto simp: ht_bucket_get_lazy_def Let_def ht_expired_def not_less
        simp del: ht_bucket_node_unlink.simps ht_at.simps split: if_splits)
qed

lemma ht_get_lazy_refines_witness:
  "fst (ht_bucket_get_lazy (\<lambda>_. sample_obj) sample_table [0x66] VAL_TYPE_STRING 5) = None"
  using ht_get_lazy_refines [OF sample_table_inv(1), of "[0x66]" "\<lambda>_. sample_obj" 5]
  by (simp add: sample_table_inv(2) case_prod_beta)

text \<open>C9: a flush outside a rehash frees every stored object once and leaves an empty
  table that satisfies the invariant.  During a rehash the loop runs over
  \<open>old_cap + cap\<close> slots of an array of \<open>cap\<close>: it indexes past the end.\<close>

theorem ht_table_flush_spec:
  assumes "ht_inv mem ht"
  shows "if rehash_idx ht < 0
    then \<exists>ht'. ht_table_flush ht = Some (map b_obj (ht_entries ht), ht') \<and> ht_inv mem ht' \<and>
           ht_abs mem ht' = Map.empty \<and> used ht' = 0
    else ht_table_flush ht = None \<and> length (buckets ht) < old_cap ht + cap ht"
  using ht_table_flush_idle [OF assms] ht_table_flush_rehash [OF assms] assms
  by (auto simp: ht_inv_def ht_phase_def ht_shape_def)

lemma ht_table_flush_spec_witness: "\<exists>f ht'. ht_table_flush sample_table = Some (f, ht') \<and> used ht' = 0"
  using ht_table_flush_spec [OF sample_table_inv(1) [of "\<lambda>_. sample_obj"]]
  by (cases "rehash_idx sample_table < 0") (auto, simp add: sample_table_def)



end
