(* ===== verification/Ttl_Index.thy ===== *)
theory Ttl_Index
  imports Kv_Object
begin

text \<open>
  Model of \<open>core/ttl_index.h\<close>: the binary min-heap of expiry times whose nodes point
  to objects and whose objects hold their position in \<open>heap_idx\<close>.  The first
  \<open>size\<close> cells of the array are the list \<open>theap\<close>.  The operations take and return
  the index together with the object store, whose \<open>heap_idx\<close> fields they maintain.
  Positions are natural numbers: with at most \<open>2^31\<close> nodes no 32-bit index expression
  of the code wraps around.
\<close>

record ttl_node =
  n_expire :: u64
  n_obj :: addr

record ttl_index =
  theap :: "ttl_node list"
  tcap :: nat

definition TTL_HEAP_INIT_CAP :: nat where "TTL_HEAP_INIT_CAP = 256"

type_synonym ttl_state = "ttl_node list \<times> objs"

definition set_heap_idx :: "addr \<Rightarrow> u32 \<Rightarrow> objs \<Rightarrow> objs" where
  "set_heap_idx a i mem = mem(a := (mem a)\<lparr>heap_idx := i\<rparr>)"

fun ttl_node_swap :: "ttl_state \<Rightarrow> nat \<Rightarrow> nat \<Rightarrow> ttl_state" where
  "ttl_node_swap (h, mem) a b =
     (let h = h[a := h ! b, b := h ! a]
      in (h, set_heap_idx (n_obj (h ! b)) (of_nat b) (set_heap_idx (n_obj (h ! a)) (of_nat a) mem)))"

function ttl_node_sift_up :: "ttl_state \<Rightarrow> nat \<Rightarrow> ttl_state" where
  "ttl_node_sift_up s i =
     (if 0 < i then
        (let p = (i - 1) div 2
         in if n_expire (fst s ! p) \<le> n_expire (fst s ! i) then s
            else ttl_node_sift_up (ttl_node_swap s p i) p)
      else s)"
  by pat_completeness auto
termination
  by (relation "measure snd") (auto simp: less_Suc_eq_le div_le_dividend le_diff_conv)

definition sift_down_pick :: "ttl_node list \<Rightarrow> nat \<Rightarrow> nat" where
  "sift_down_pick h i =
     (let s = i; l = 2 * i + 1; r = 2 * i + 2;
          s = (if l < length h \<and> n_expire (h ! l) < n_expire (h ! s) then l else s);
          s = (if r < length h \<and> n_expire (h ! r) < n_expire (h ! s) then r else s)
      in s)"

lemma sift_down_pick_cases:
  "sift_down_pick h i = i \<or> i < sift_down_pick h i \<and> sift_down_pick h i < length h"
  by (simp add: sift_down_pick_def Let_def)

lemma length_ttl_node_swap [simp]: "length (fst (ttl_node_swap s a b)) = length (fst s)"
  by (cases s) (simp add: Let_def)

function ttl_node_sift_down :: "ttl_state \<Rightarrow> nat \<Rightarrow> ttl_state" where
  "ttl_node_sift_down st i =
     (let s = sift_down_pick (fst st) i
      in if s = i then st else ttl_node_sift_down (ttl_node_swap st i s) s)"
  by pat_completeness auto
termination
proof (relation "measure (\<lambda>(st, i). length (fst st) - i)")
  fix st :: ttl_state and i x
  assume "x = sift_down_pick (fst st) i" "x \<noteq> i"
  then show "((ttl_node_swap st i x, x), (st, i)) \<in> measure (\<lambda>(st, i). length (fst st) - i)"
    using sift_down_pick_cases [of "fst st" i] by auto
qed simp

declare ttl_node_sift_up.simps [simp del] ttl_node_sift_down.simps [simp del]

definition ttl_node_fix :: "ttl_state \<Rightarrow> nat \<Rightarrow> ttl_state" where
  "ttl_node_fix s i =
     (if 0 < i \<and> n_expire (fst s ! i) < n_expire (fst s ! ((i - 1) div 2))
      then ttl_node_sift_up s i else ttl_node_sift_down s i)"

definition ttl_index_init :: ttl_index where
  "ttl_index_init = \<lparr>theap = [], tcap = 0\<rparr>"

text \<open>\<open>realloc_ok\<close> says whether \<open>realloc\<close> to the given number of nodes succeeds.\<close>

definition ttl_index_node_push ::
  "(nat \<Rightarrow> bool) \<Rightarrow> ttl_index \<Rightarrow> objs \<Rightarrow> addr \<Rightarrow> u64 \<Rightarrow> bool \<times> ttl_index \<times> objs" where
  "ttl_index_node_push realloc_ok idx mem ob expire =
     (let nc = (if tcap idx \<le> length (theap idx)
                then (if tcap idx \<noteq> 0 then tcap idx * 2 else TTL_HEAP_INIT_CAP) else tcap idx)
      in if tcap idx \<le> length (theap idx) \<and> \<not> realloc_ok nc then (False, idx, mem)
         else
           (let pos = length (theap idx);
                h = theap idx @ [\<lparr>n_expire = expire, n_obj = ob\<rparr>];
                (h, mem) = ttl_node_sift_up (h, set_heap_idx ob (of_nat pos) mem) pos
            in (True, \<lparr>theap = h, tcap = nc\<rparr>, mem)))"

definition ttl_index_node_update :: "ttl_index \<Rightarrow> objs \<Rightarrow> addr \<Rightarrow> u64 \<Rightarrow> ttl_index \<times> objs" where
  "ttl_index_node_update idx mem ob expire =
     (if heap_idx (mem ob) = HEAP_IDX_NONE then (idx, mem)
      else
        (let pos = unat (heap_idx (mem ob));
             h = (theap idx)[pos := (theap idx ! pos)\<lparr>n_expire := expire\<rparr>];
             (h, mem) = ttl_node_fix (h, mem) pos
         in (idx\<lparr>theap := h\<rparr>, mem)))"

definition ttl_index_node_remove :: "ttl_index \<Rightarrow> objs \<Rightarrow> addr \<Rightarrow> ttl_index \<times> objs" where
  "ttl_index_node_remove idx mem ob =
     (if heap_idx (mem ob) = HEAP_IDX_NONE then (idx, mem)
      else
        (let pos = unat (heap_idx (mem ob));
             size = length (theap idx) - 1;
             (h, mem) =
               (if pos < size then
                  (let h = take size ((theap idx)[pos := theap idx ! size])
                   in ttl_node_fix (h, set_heap_idx (n_obj (h ! pos)) (of_nat pos) mem) pos)
                else (take size (theap idx), mem))
         in (idx\<lparr>theap := h\<rparr>, set_heap_idx ob HEAP_IDX_NONE mem)))"

definition ttl_index_node_peek :: "ttl_index \<Rightarrow> u64" where
  "ttl_index_node_peek idx = (if theap idx \<noteq> [] then n_expire (theap idx ! 0) else - 1)"

definition ttl_index_node_count :: "ttl_index \<Rightarrow> nat" where
  "ttl_index_node_count idx = length (theap idx)"

definition ttl_index_node_pop :: "ttl_index \<Rightarrow> objs \<Rightarrow> (u64 \<times> addr) option \<times> ttl_index \<times> objs" where
  "ttl_index_node_pop idx mem =
     (if theap idx = [] then (None, idx, mem)
      else
        (let top = theap idx ! 0;
             mem = set_heap_idx (n_obj top) HEAP_IDX_NONE mem;
             size = length (theap idx) - 1;
             (h, mem) =
               (if 0 < size then
                  (let h = take size ((theap idx)[0 := theap idx ! size])
                   in ttl_node_sift_down (h, set_heap_idx (n_obj (h ! 0)) 0 mem) 0)
                else ([], mem))
         in (Some (n_expire top, n_obj top), idx\<lparr>theap := h\<rparr>, mem)))"

section \<open>Heap order\<close>

definition par :: "nat \<Rightarrow> nat" where "par i = (i - 1) div 2"

abbreviation ex :: "ttl_node list \<Rightarrow> nat \<Rightarrow> u64" where "ex h i \<equiv> n_expire (h ! i)"

definition heap_ok :: "ttl_node list \<Rightarrow> bool" where
  "heap_ok h \<longleftrightarrow> (\<forall>i. 0 < i \<and> i < length h \<longrightarrow> ex h (par i) \<le> ex h i)"

text \<open>The children of \<open>k\<close> are not below its parent.\<close>

definition bridge :: "ttl_node list \<Rightarrow> nat \<Rightarrow> bool" where
  "bridge h k \<longleftrightarrow> (\<forall>i. 0 < i \<and> i < length h \<and> par i = k \<and> 0 < k \<longrightarrow> ex h (par k) \<le> ex h i)"

definition heap_up_except :: "ttl_node list \<Rightarrow> nat \<Rightarrow> bool" where
  "heap_up_except h k \<longleftrightarrow>
     (\<forall>i. 0 < i \<and> i < length h \<and> i \<noteq> k \<longrightarrow> ex h (par i) \<le> ex h i) \<and> bridge h k"

definition heap_down_except :: "ttl_node list \<Rightarrow> nat \<Rightarrow> bool" where
  "heap_down_except h k \<longleftrightarrow>
     (\<forall>i. 0 < i \<and> i < length h \<and> par i \<noteq> k \<longrightarrow> ex h (par i) \<le> ex h i) \<and> bridge h k"

lemma par_less: "0 < i \<Longrightarrow> par i < i"
  by (auto simp: par_def)

lemma par_le: "par i \<le> i"
  by (auto simp: par_def)

lemma par_eq_iff: "0 < i \<Longrightarrow> par i = k \<longleftrightarrow> i = 2 * k + 1 \<or> i = 2 * k + 2"
  by (auto simp: par_def)

definition lswap :: "ttl_node list \<Rightarrow> nat \<Rightarrow> nat \<Rightarrow> ttl_node list" where
  "lswap h a b = h[a := h ! b, b := h ! a]"

lemma length_lswap [simp]: "length (lswap h a b) = length h"
  by (simp add: lswap_def)

lemma nth_lswap:
  "a < length h \<Longrightarrow> b < length h \<Longrightarrow> i < length h \<Longrightarrow>
   lswap h a b ! i = (if i = a then h ! b else if i = b then h ! a else h ! i)"
  by (auto simp: lswap_def nth_list_update)

lemma up_step:
  assumes u: "heap_up_except h k" and k: "0 < k" "k < length h" and lt: "ex h k < ex h (par k)"
  shows "heap_up_except (lswap h (par k) k) (par k)"
proof -
  let ?p = "par k" and ?h = "lswap h (par k) k"
  have p: "?p < k" "?p < length h" using par_less [OF k(1)] k(2) by auto
  note sw = nth_lswap [OF p(2) k(2)]
  have ord: "ex h (par i) \<le> ex h i" if "0 < i" "i < length h" "i \<noteq> k" for i
    using u that by (simp add: heap_up_except_def)
  have br: "ex h ?p \<le> ex h i" if "0 < i" "i < length h" "par i = k" for i
    using u that k by (simp add: heap_up_except_def bridge_def)
  have "ex ?h (par i) \<le> ex ?h i" if i: "0 < i" "i < length h" "i \<noteq> ?p" for i
  proof -
    have pi: "par i < length h" "par i \<noteq> i" using par_less [OF i(1)] i(2) by auto
    consider "i = k" | "i \<noteq> k" "par i = k" | "i \<noteq> k" "par i = ?p" | "i \<noteq> k" "par i \<noteq> k" "par i \<noteq> ?p" by blast
    then show ?thesis
    proof cases
      case 1 then show ?thesis using lt p k by (simp add: sw)
    next
      case 2 then show ?thesis using br i pi p by (simp add: sw)
    next
      case 3 then show ?thesis using ord [OF i(1,2)] lt i pi p by (simp add: sw)
    next
      case 4 then show ?thesis using ord [OF i(1,2)] i pi by (simp add: sw)
    qed
  qed
  moreover have "ex ?h (par ?p) \<le> ex ?h i" if i: "0 < i" "i < length h" "par i = ?p" "0 < ?p" for i
  proof -
    have pp: "par ?p < ?p" "par ?p < length h" using par_less [OF i(4)] p by auto
    have "ex h (par ?p) \<le> ex h ?p" using ord [of ?p] i(4) p by simp
    moreover have "i \<noteq> ?p" using par_less [OF i(1)] i(3) by simp
    ultimately show ?thesis using ord [OF i(1,2)] i p pp by (cases "i = k") (auto simp: sw)
  qed
  ultimately show ?thesis by (simp add: heap_up_except_def bridge_def)
qed

lemma up_stop:
  "heap_up_except h k \<Longrightarrow> k = 0 \<or> ex h (par k) \<le> ex h k \<Longrightarrow> heap_ok h"
  unfolding heap_up_except_def heap_ok_def by (metis less_numeral_extra(3))

lemma children_iff:
  "(\<forall>i. 0 < i \<and> i < length h \<and> par i = k \<longrightarrow> P i) \<longleftrightarrow>
   (2 * k + 1 < length h \<longrightarrow> P (2 * k + 1)) \<and> (2 * k + 2 < length h \<longrightarrow> P (2 * k + 2))"
proof -
  have "0 < i \<and> i < length h \<and> par i = k \<longleftrightarrow> i < length h \<and> (i = 2 * k + 1 \<or> i = 2 * k + 2)" for i
    using par_eq_iff [of i k] by (cases "i = 0") auto
  then show ?thesis by auto
qed

lemma pick_spec:
  assumes "k < length h"
  shows "sift_down_pick h k = k \<and> (\<forall>i. 0 < i \<and> i < length h \<and> par i = k \<longrightarrow> ex h k \<le> ex h i) \<or>
    sift_down_pick h k < length h \<and> 0 < sift_down_pick h k \<and> par (sift_down_pick h k) = k \<and>
    ex h (sift_down_pick h k) < ex h k \<and>
    (\<forall>i. 0 < i \<and> i < length h \<and> par i = k \<longrightarrow> ex h (sift_down_pick h k) \<le> ex h i)"
  unfolding children_iff by (auto simp: sift_down_pick_def Let_def par_def)

lemma down_step:
  assumes d: "heap_down_except h k" and s: "0 < s" "s < length h" "par s = k"
    and lt: "ex h s < ex h k" and min: "\<And>i. 0 < i \<Longrightarrow> i < length h \<Longrightarrow> par i = k \<Longrightarrow> ex h s \<le> ex h i"
  shows "heap_down_except (lswap h k s) s"
proof -
  let ?h = "lswap h k s"
  have k: "k < s" "k < length h" using par_less [OF s(1)] s by auto
  note sw = nth_lswap [OF k(2) s(2)]
  have ord: "ex h (par i) \<le> ex h i" if "0 < i" "i < length h" "par i \<noteq> k" for i
    using d that by (simp add: heap_down_except_def)
  have br: "ex h (par k) \<le> ex h i" if "0 < i" "i < length h" "par i = k" "0 < k" for i
    using d that by (simp add: heap_down_except_def bridge_def)
  have "ex ?h (par i) \<le> ex ?h i" if i: "0 < i" "i < length h" "par i \<noteq> s" for i
  proof -
    have pi: "par i < length h" "par i \<noteq> i" using par_less [OF i(1)] i(2) by auto
    consider "i = s" | "i \<noteq> s" "par i = k" | "i = k" | "i \<noteq> s" "i \<noteq> k" "par i \<noteq> k" by blast
    then show ?thesis
    proof cases
      case 1 then show ?thesis using lt k s by (simp add: sw)
    next
      case 2 then show ?thesis using min i pi k s by (simp add: sw)
    next
      case 3 then show ?thesis using br [of s] i pi k s by (simp add: sw)
    next
      case 4 then show ?thesis using ord i pi by (simp add: sw)
    qed
  qed
  moreover have "ex ?h (par s) \<le> ex ?h i" if i: "0 < i" "i < length h" "par i = s" for i
  proof -
    have "par i \<noteq> k" "i \<noteq> s" "i \<noteq> k" using par_less [OF i(1)] i(3) k by auto
    then show ?thesis using ord [OF i(1,2)] i s k by (simp add: sw)
  qed
  ultimately show ?thesis by (simp add: heap_down_except_def bridge_def)
qed

lemma down_stop:
  "heap_down_except h k \<Longrightarrow> \<forall>i. 0 < i \<and> i < length h \<and> par i = k \<longrightarrow> ex h k \<le> ex h i \<Longrightarrow> heap_ok h"
  unfolding heap_down_except_def heap_ok_def by blast


section \<open>Positions kept in the objects\<close>

definition idx_ok :: "ttl_state \<Rightarrow> bool" where
  "idx_ok s \<longleftrightarrow> length (fst s) < 2 ^ 32 - 1 \<and>
     (\<forall>i < length (fst s). heap_idx (snd s (n_obj (fst s ! i))) = of_nat i)"

text \<open>Only \<open>heap_idx\<close> fields of objects in \<open>A\<close> differ.\<close>

definition idx_frame :: "addr set \<Rightarrow> objs \<Rightarrow> objs \<Rightarrow> bool" where
  "idx_frame A mem mem' \<longleftrightarrow>
     (\<forall>a. (mem' a)\<lparr>heap_idx := 0\<rparr> = (mem a)\<lparr>heap_idx := 0\<rparr> \<and> (a \<notin> A \<longrightarrow> mem' a = mem a))"

lemma idx_frame_refl [simp]: "idx_frame A mem mem"
  by (simp add: idx_frame_def)

lemma idx_frame_trans: "idx_frame A a b \<Longrightarrow> idx_frame B b c \<Longrightarrow> idx_frame (A \<union> B) a c"
  by (simp add: idx_frame_def)

lemma idx_frame_set: "x \<in> A \<Longrightarrow> idx_frame A mem (set_heap_idx x i mem)"
  by (simp add: idx_frame_def set_heap_idx_def)

lemma idx_okD:
  "idx_ok s \<Longrightarrow> i < length (fst s) \<Longrightarrow> heap_idx (snd s (n_obj (fst s ! i))) = of_nat i \<and>
   unat (heap_idx (snd s (n_obj (fst s ! i)))) = i \<and> heap_idx (snd s (n_obj (fst s ! i))) \<noteq> HEAP_IDX_NONE"
  apply (simp add: idx_ok_def HEAP_IDX_NONE_def unat_of_nat)
  apply (simp add: word_unat_eq_iff unat_of_nat)
  done

lemma idx_ok_inj:
  assumes "idx_ok s" "i < length (fst s)" "j < length (fst s)" "n_obj (fst s ! i) = n_obj (fst s ! j)"
  shows "i = j"
  using idx_okD [OF assms(1,2)] idx_okD [OF assms(1,3)] assms(4) by metis

lemma ttl_node_swap_eq:
  assumes "idx_ok s" "a < length (fst s)" "b < length (fst s)" "a \<noteq> b"
  shows "fst (ttl_node_swap s a b) = lswap (fst s) a b" "idx_ok (ttl_node_swap s a b)"
    "mset (fst (ttl_node_swap s a b)) = mset (fst s)"
    "idx_frame (n_obj ` set (fst s)) (snd s) (snd (ttl_node_swap s a b))"
proof -
  obtain h mem where s: "s = (h, mem)" by (cases s)
  have ne: "n_obj (h ! a) \<noteq> n_obj (h ! b)" using idx_ok_inj [OF assms(1,2,3)] assms(4) s by auto
  show f: "fst (ttl_node_swap s a b) = lswap (fst s) a b" by (simp add: s Let_def lswap_def)
  have m: "snd (ttl_node_swap s a b) = set_heap_idx (n_obj (h ! a)) (of_nat b) (set_heap_idx (n_obj (h ! b)) (of_nat a) mem)"
    using assms by (simp add: s Let_def nth_list_update)
  show "mset (fst (ttl_node_swap s a b)) = mset (fst s)"
    unfolding f lswap_def using assms(2,3) by (simp add: mset_swap)
  show "idx_frame (n_obj ` set (fst s)) (snd s) (snd (ttl_node_swap s a b))"
    unfolding m using assms(2,3) by (auto simp: s idx_frame_def set_heap_idx_def)
  have "heap_idx (snd (ttl_node_swap s a b) (n_obj (lswap h a b ! i))) = of_nat i" if "i < length h" for i
  proof -
    have other: "n_obj (h ! i) \<noteq> n_obj (h ! a)" "n_obj (h ! i) \<noteq> n_obj (h ! b)" if "i \<noteq> a" "i \<noteq> b"
      using that idx_ok_inj [OF assms(1), of i a] idx_ok_inj [OF assms(1), of i b] assms s \<open>i < length h\<close> by auto
    show ?thesis
      unfolding m using that assms ne other idx_okD [OF assms(1), of i]
      by (auto simp: s nth_lswap set_heap_idx_def)
  qed
  then show "idx_ok (ttl_node_swap s a b)" using assms(1) f by (simp add: idx_ok_def s)
qed

text \<open>What every sift guarantees.\<close>

definition sifted :: "ttl_state \<Rightarrow> ttl_state \<Rightarrow> bool" where
  "sifted s s' \<longleftrightarrow> heap_ok (fst s') \<and> idx_ok s' \<and> mset (fst s') = mset (fst s) \<and>
     idx_frame (n_obj ` set (fst s)) (snd s) (snd s')"

lemma sifted_swap:
  assumes "idx_ok s" "a < length (fst s)" "b < length (fst s)" "a \<noteq> b" "sifted (ttl_node_swap s a b) s'"
  shows "sifted s s'"
proof -
  note sw = ttl_node_swap_eq [OF assms(1-4)]
  have "set (fst (ttl_node_swap s a b)) = set (fst s)" using sw(3) by (metis set_mset_mset)
  then show ?thesis using assms(5) sw idx_frame_trans [OF sw(4)] unfolding sifted_def by (metis Un_absorb)
qed

lemma sift_up_ok:
  assumes "idx_ok s" "i < length (fst s)" "heap_up_except (fst s) i"
  shows "sifted s (ttl_node_sift_up s i)"
  using assms
proof (induction s i rule: ttl_node_sift_up.induct)
  case (1 s i)
  show ?case
  proof (cases "0 < i \<and> ex (fst s) i < ex (fst s) (par i)")
    case True
    then have i: "0 < i" "par i < i" "par i < length (fst s)" using par_less 1(3) by (auto intro: less_trans)
    note sw = ttl_node_swap_eq [OF 1(2) i(3) 1(3)]
    have "sifted (ttl_node_swap s (par i) i) (ttl_node_sift_up (ttl_node_swap s (par i) i) (par i))"
      unfolding par_def
      using i sw up_step [OF 1(4) i(1) 1(3)] True
      by (intro 1(1)) (auto simp: par_def)
    then have "sifted s (ttl_node_sift_up (ttl_node_swap s (par i) i) (par i))"
      by (intro sifted_swap [OF 1(2) i(3) 1(3)]) (use i(2) in auto)
    moreover have "\<not> ex (fst s) (par i) \<le> ex (fst s) i" using True by (simp add: not_le)
    ultimately show ?thesis using i(1) by (subst ttl_node_sift_up.simps) (simp add: par_def Let_def)
  next
    case False
    then have "heap_ok (fst s)" using up_stop [OF 1(4)] by (auto simp: not_less)
    then show ?thesis using False 1(2)
      by (subst ttl_node_sift_up.simps) (auto simp: par_def Let_def sifted_def)
  qed
qed

lemma sift_down_ok:
  assumes "idx_ok s" "i < length (fst s)" "heap_down_except (fst s) i"
  shows "sifted s (ttl_node_sift_down s i)"
  using assms
proof (induction s i rule: ttl_node_sift_down.induct)
  case (1 s i)
  let ?k = "sift_down_pick (fst s) i"
  show ?case
  proof (cases "?k = i")
    case True
    then have "heap_ok (fst s)" using pick_spec [OF 1(3)] down_stop [OF 1(4)] by auto
    then show ?thesis using True 1(2) by (subst ttl_node_sift_down.simps) (simp add: sifted_def)
  next
    case False
    then have k: "?k < length (fst s)" "0 < ?k" "par ?k = i" "ex (fst s) ?k < ex (fst s) i"
      "\<And>j. 0 < j \<Longrightarrow> j < length (fst s) \<Longrightarrow> par j = i \<Longrightarrow> ex (fst s) ?k \<le> ex (fst s) j"
      using pick_spec [OF 1(3)] by auto
    have ne: "i \<noteq> ?k" using False by simp
    note sw = ttl_node_swap_eq [OF 1(2) 1(3) k(1) ne]
    have "sifted (ttl_node_swap s i ?k) (ttl_node_sift_down (ttl_node_swap s i ?k) ?k)"
      by (rule 1(1) [OF refl False sw(2)])
        (simp_all add: sw(1) k(1) down_step [OF 1(4) k(2,1,3,4,5)])
    then have "sifted s (ttl_node_sift_down (ttl_node_swap s i ?k) ?k)"
      by (rule sifted_swap [OF 1(2) 1(3) k(1) ne])
    then show ?thesis using False by (subst ttl_node_sift_down.simps) (simp add: Let_def)
  qed
qed


lemma fix_ok:
  assumes "idx_ok s" "i < length (fst s)"
    and "\<And>j. 0 < j \<Longrightarrow> j < length (fst s) \<Longrightarrow> j \<noteq> i \<Longrightarrow> par j \<noteq> i \<Longrightarrow> ex (fst s) (par j) \<le> ex (fst s) j"
    and b: "bridge (fst s) i"
  shows "sifted s (ttl_node_fix s i)"
proof (cases "0 < i \<and> ex (fst s) i < ex (fst s) (par i)")
  case True
  have "ex (fst s) (par j) \<le> ex (fst s) j" if "0 < j" "j < length (fst s)" "j \<noteq> i" for j
  proof (cases "par j = i")
    case pj: True
    then have "ex (fst s) (par i) \<le> ex (fst s) j" using b that True by (simp add: bridge_def)
    then have "ex (fst s) i \<le> ex (fst s) j" using True by (meson less_le_trans less_imp_le)
    then show ?thesis using pj by simp
  qed (use assms(3) that in blast)
  then have "heap_up_except (fst s) i" using b by (simp add: heap_up_except_def)
  then show ?thesis using sift_up_ok [OF assms(1,2)] True by (simp add: ttl_node_fix_def par_def)
next
  case False
  have "ex (fst s) (par j) \<le> ex (fst s) j" if "0 < j" "j < length (fst s)" "par j \<noteq> i" for j
    using assms(3) that False by (cases "j = i") (auto simp: not_less)
  then have "heap_down_except (fst s) i" using b by (simp add: heap_down_except_def)
  moreover have "ttl_node_fix s i = ttl_node_sift_down s i" using False by (auto simp: ttl_node_fix_def par_def)
  ultimately show ?thesis using sift_down_ok [OF assms(1,2)] by simp
qed

lemma heap_ok_root:
  assumes "heap_ok h" "i < length h" shows "ex h 0 \<le> ex h i"
  using assms(2)
proof (induction i rule: less_induct)
  case (less i)
  show ?case
  proof (cases "i = 0")
    case False
    then have "ex h (par i) \<le> ex h i" using assms(1) less.prems by (simp add: heap_ok_def)
    moreover have "ex h 0 \<le> ex h (par i)" using False less par_less by (meson less_trans neq0_conv)
    ultimately show ?thesis by (rule order_trans [rotated])
  qed simp
qed

lemma bridge_heap: "heap_ok h \<Longrightarrow> k < length h \<Longrightarrow> bridge h k"
  unfolding bridge_def
proof (intro allI impI)
  fix i assume h: "heap_ok h" and k: "k < length h" and i: "0 < i \<and> i < length h \<and> par i = k \<and> 0 < k"
  then have "ex h (par k) \<le> ex h k" "ex h k \<le> ex h i" by (auto simp: heap_ok_def)
  then show "ex h (par k) \<le> ex h i" by (rule order_trans)
qed

section \<open>Operations\<close>

definition ttl_inv :: "ttl_index \<Rightarrow> objs \<Rightarrow> bool" where
  "ttl_inv idx mem \<longleftrightarrow> heap_ok (theap idx) \<and> idx_ok (theap idx, mem) \<and> length (theap idx) \<le> tcap idx"

text \<open>The index as a multiset of pairs of expiry and object.\<close>

definition ttl_abs :: "ttl_index \<Rightarrow> ttl_node multiset" where
  "ttl_abs idx = mset (theap idx)"

definition ttl_objs :: "ttl_index \<Rightarrow> addr set" where
  "ttl_objs idx = n_obj ` set (theap idx)"

lemma push_ok:
  assumes inv: "ttl_inv idx mem" and new: "ob \<notin> ttl_objs idx" and room: "length (theap idx) < 2 ^ 32 - 2"
    and p: "ttl_index_node_push rk idx mem ob e = (True, idx', mem')"
  shows "ttl_inv idx' mem' \<and> ttl_abs idx' = ttl_abs idx + {#\<lparr>n_expire = e, n_obj = ob\<rparr>#} \<and>
    idx_frame (insert ob (ttl_objs idx)) mem mem'"
proof -
  let ?n = "length (theap idx)" and ?node = "\<lparr>n_expire = e, n_obj = ob\<rparr>"
  let ?s = "(theap idx @ [?node], set_heap_idx ob (of_nat ?n) mem)"
  let ?c = "if tcap idx \<le> ?n then (if tcap idx \<noteq> 0 then tcap idx * 2 else TTL_HEAP_INIT_CAP) else tcap idx"
  have h: "heap_ok (theap idx)" "idx_ok (theap idx, mem)" "?n \<le> tcap idx" using inv by (auto simp: ttl_inv_def)
  have ne: "n_obj (theap idx ! i) \<noteq> ob" if "i < ?n" for i using new that by (auto simp: ttl_objs_def)
  have ok: "idx_ok ?s"
    using h(2) ne room by (auto simp: idx_ok_def nth_append set_heap_idx_def less_Suc_eq)
  have "ex (fst ?s) (par i) \<le> ex (fst ?s) i" if "0 < i" "i < ?n" for i
    using h(1) par_less [OF that(1)] that by (simp add: heap_ok_def nth_append)
  moreover have "par i \<noteq> ?n" if "0 < i" "i < Suc ?n" for i using par_less [OF that(1)] that by simp
  ultimately have "heap_up_except (fst ?s) ?n" by (auto simp: heap_up_except_def bridge_def less_Suc_eq)
  then have s: "sifted ?s (ttl_node_sift_up ?s ?n)" using sift_up_ok [OF ok, of ?n] by simp
  have res: "theap idx' = fst (ttl_node_sift_up ?s ?n)" "mem' = snd (ttl_node_sift_up ?s ?n)" "tcap idx' = ?c"
    using p by (auto simp: ttl_index_node_push_def Let_def split: if_splits prod.splits)
  have "length (theap idx') = ?n + 1"
    using s res(1) by (metis fst_conv length_append_singleton sifted_def size_mset Suc_eq_plus1)
  moreover have "?n < ?c" using h(3) by (auto simp: TTL_HEAP_INIT_CAP_def)
  moreover have "idx_frame (insert ob (ttl_objs idx)) mem mem'"
    using idx_frame_trans [OF idx_frame_set [of ob "{ob}" mem "of_nat ?n"], of "n_obj ` set (fst ?s)" mem'] s res(2)
    by (auto simp: sifted_def ttl_objs_def insert_commute)
  ultimately show ?thesis
    using s res by (simp add: sifted_def ttl_inv_def ttl_abs_def)
qed


lemma set_key_fix:
  assumes "heap_ok h" "k < length h" "idx_ok (h[k := v], mem)"
  shows "sifted (h[k := v], mem) (ttl_node_fix (h[k := v], mem) k)"
proof (rule fix_ok [OF assms(3)])
  show "k < length (fst (h[k := v], mem))" using assms(2) by simp
  fix j assume j: "0 < j" "j < length (fst (h[k := v], mem))" "j \<noteq> k" "par j \<noteq> k"
  then show "ex (fst (h[k := v], mem)) (par j) \<le> ex (fst (h[k := v], mem)) j"
    using assms(1) by (simp add: heap_ok_def)
next
  show "bridge (fst (h[k := v], mem)) k"
    unfolding bridge_def
  proof (intro allI impI)
    fix i assume i: "0 < i \<and> i < length (fst (h[k := v], mem)) \<and> par i = k \<and> 0 < k"
    then have "ex h (par k) \<le> ex h i" using bridge_heap [OF assms(1,2)] by (simp add: bridge_def)
    moreover have "par k \<noteq> k" "i \<noteq> k" using i par_less [of k] par_less [of i] by auto
    ultimately show "ex (fst (h[k := v], mem)) (par k) \<le> ex (fst (h[k := v], mem)) i" by simp
  qed
qed

text \<open>The object's node, when the object is in the index.\<close>

lemma tracked_pos:
  assumes "idx_ok (h, mem)" "ob \<in> n_obj ` set h"
  obtains k where "k < length h" "n_obj (h ! k) = ob" "unat (heap_idx (mem ob)) = k"
    "heap_idx (mem ob) = of_nat k" "heap_idx (mem ob) \<noteq> HEAP_IDX_NONE"
proof -
  obtain k where k: "k < length h" "n_obj (h ! k) = ob" using assms(2) by (auto simp: in_set_conv_nth)
  then show ?thesis using that idx_okD [OF assms(1), of k] by auto
qed

lemma update_ok:
  assumes inv: "ttl_inv idx mem" and in_h: "ob \<in> ttl_objs idx"
    and u: "ttl_index_node_update idx mem ob e = (idx', mem')"
  shows "ttl_inv idx' mem' \<and> idx_frame (ttl_objs idx) mem mem' \<and>
    (\<exists>old. \<lparr>n_expire = old, n_obj = ob\<rparr> \<in># ttl_abs idx \<and> ttl_abs idx + {#\<lparr>n_expire = e, n_obj = ob\<rparr>#} = ttl_abs idx' + {#\<lparr>n_expire = old, n_obj = ob\<rparr>#})"
proof -
  let ?h = "theap idx"
  have h: "heap_ok ?h" "idx_ok (?h, mem)" "length ?h \<le> tcap idx" using inv by (auto simp: ttl_inv_def)
  obtain k where k: "k < length ?h" "n_obj (?h ! k) = ob" "unat (heap_idx (mem ob)) = k" "heap_idx (mem ob) \<noteq> HEAP_IDX_NONE"
    using tracked_pos [OF h(2), of ob] in_h unfolding ttl_objs_def by blast
  let ?v = "(?h ! k)\<lparr>n_expire := e\<rparr>" let ?s = "(?h[k := ?v], mem)"
  have objs: "n_obj (?h[k := ?v] ! i) = n_obj (?h ! i)" if "i < length ?h" for i
    using that k(1) by (simp add: nth_list_update)
  have ok: "idx_ok ?s" using h(2) objs by (simp add: idx_ok_def)
  note s = set_key_fix [OF h(1) k(1) ok]
  have res: "theap idx' = fst (ttl_node_fix ?s k)" "mem' = snd (ttl_node_fix ?s k)" "tcap idx' = tcap idx"
    using u k by (auto simp: ttl_index_node_update_def Let_def split: prod.splits)
  have img: "n_obj ` set (?h[k := ?v]) = ttl_objs idx"
  proof -
    have "map n_obj (?h[k := ?v]) = map n_obj ?h" by (rule nth_equalityI) (simp_all add: objs)
    then have "set (map n_obj (?h[k := ?v])) = set (map n_obj ?h)" by (rule arg_cong)
    then show ?thesis by (simp add: ttl_objs_def)
  qed
  have m: "mset (?h[k := ?v]) + {#?h ! k#} = mset ?h + {#?v#}" using k(1) by (simp add: mset_update)
  have v: "?v = \<lparr>n_expire = e, n_obj = ob\<rparr>" "\<lparr>n_expire = n_expire (?h ! k), n_obj = ob\<rparr> = ?h ! k" using k(2) by auto
  have m': "mset (theap idx') = mset (?h[k := ?v])" using s res(1) by (simp add: sifted_def)
  have "ttl_abs idx + {#\<lparr>n_expire = e, n_obj = ob\<rparr>#} = ttl_abs idx' + {#\<lparr>n_expire = n_expire (?h ! k), n_obj = ob\<rparr>#}"
    using m unfolding v ttl_abs_def m' by simp
  moreover have "\<lparr>n_expire = n_expire (?h ! k), n_obj = ob\<rparr> \<in># ttl_abs idx" unfolding v using k(1) by (simp add: ttl_abs_def)
  moreover have "length (theap idx') = length ?h" using m' by (metis length_list_update size_mset)
  moreover have "idx_frame (ttl_objs idx) mem mem'" using s img by (simp add: sifted_def res(2))
  ultimately show ?thesis
    using s res(1,2,3) h(3) by (auto simp: sifted_def ttl_inv_def)
qed

lemma idx_frame_mono: "idx_frame A a b \<Longrightarrow> A \<subseteq> B \<Longrightarrow> idx_frame B a b"
  by (auto simp: idx_frame_def)

lemma idx_frame_trans2: "idx_frame A a b \<Longrightarrow> idx_frame A b c \<Longrightarrow> idx_frame A a c"
  by (simp add: idx_frame_def)

lemma heap_ok_take: "heap_ok h \<Longrightarrow> heap_ok (take n h)"
  unfolding heap_ok_def
proof (intro allI impI)
  fix i assume h: "\<forall>i. 0 < i \<and> i < length h \<longrightarrow> ex h (par i) \<le> ex h i" and i: "0 < i \<and> i < length (take n h)"
  then have "par i < i" using par_less by blast
  then show "ex (take n h) (par i) \<le> ex (take n h) i" using h i by simp
qed

lemma idx_ok_take: "idx_ok (h, mem) \<Longrightarrow> idx_ok (take n h, mem)"
  by (auto simp: idx_ok_def)

lemma idx_ok_off: "idx_ok (h, mem) \<Longrightarrow> ob \<notin> n_obj ` set h \<Longrightarrow> idx_ok (h, set_heap_idx ob v mem)"
  by (auto simp: idx_ok_def set_heap_idx_def)

lemma idx_ok_sifted_off:
  "sifted (h, mem) s' \<Longrightarrow> ob \<notin> n_obj ` set h \<Longrightarrow> idx_ok (fst s', set_heap_idx ob v (snd s'))"
proof -
  assume s: "sifted (h, mem) s'" and ob: "ob \<notin> n_obj ` set h"
  then have "set (fst s') = set h" by (metis fst_conv set_mset_mset sifted_def)
  with s ob show ?thesis using idx_ok_off [of "fst s'" "snd s'"] by (simp add: sifted_def)
qed

text \<open>The last node moved to position \<open>k\<close> and the array shortened by one.\<close>

definition drop_node :: "ttl_node list \<Rightarrow> nat \<Rightarrow> ttl_node list" where
  "drop_node h k = (let n = length h - 1 in if k < n then (take n h)[k := h ! n] else take n h)"

lemma take_update: "k < n \<Longrightarrow> take n (h[k := v]) = (take n h)[k := v]"
  by (simp add: take_update_swap)

lemma mset_drop_node:
  assumes "k < length h" shows "mset (drop_node h k) + {#h ! k#} = mset h"
proof -
  let ?n = "length h - 1"
  have h: "mset h = mset (take ?n h) + {#h ! ?n#}"
    using assms by (metis One_nat_def Suc_pred' add_mset_add_single gr_implies_not0 lessI mset.simps(2)
        mset_append mset_single_iff_right neq0_conv take_Suc_conv_app_nth take_all_iff order_refl union_mset_add_mset_right)
  show ?thesis
  proof (cases "k < ?n")
    case True
    then have "mset ((take ?n h)[k := h ! ?n]) + {#take ?n h ! k#} = mset (take ?n h) + {#h ! ?n#}"
      by (intro mset_update_add) simp
    then show ?thesis using True h by (simp add: drop_node_def Let_def)
  next
    case False
    then have "k = ?n" using assms by simp
    then show ?thesis using h by (simp add: drop_node_def Let_def)
  qed
qed

lemma drop_node_objs:
  assumes ok: "idx_ok (h, mem)" and k: "k < length h"
  shows "n_obj (h ! k) \<notin> n_obj ` set (drop_node h k)"
proof -
  have d: "distinct (map n_obj h)" using idx_ok_inj [OF ok] by (auto simp: distinct_conv_nth)
  have "mset (map n_obj h) = mset (n_obj (h ! k) # map n_obj (drop_node h k))"
    using arg_cong [OF mset_drop_node [OF k], of "image_mset n_obj"] by simp
  then have "distinct (n_obj (h ! k) # map n_obj (drop_node h k))" using d by (metis mset_eq_imp_distinct_iff)
  then show ?thesis by simp
qed

lemma drop_node_idx:
  assumes ok: "idx_ok (h, mem)" and k: "k < length h - 1"
  shows "idx_ok (drop_node h k, set_heap_idx (n_obj (h ! (length h - 1))) (of_nat k) mem)"
proof -
  have ne: "n_obj (h ! i) \<noteq> n_obj (h ! (length h - 1))" if "i < length h - 1" for i
  proof -
    have "i < length h" "length h - 1 < length h" "i \<noteq> length h - 1" using that by simp_all
    then show ?thesis using idx_ok_inj [OF ok, of i "length h - 1"] by auto
  qed
  show ?thesis
    using ok k ne by (auto simp: idx_ok_def drop_node_def Let_def nth_list_update set_heap_idx_def)
qed

lemma remove_ok:
  assumes inv: "ttl_inv idx mem" and in_h: "ob \<in> ttl_objs idx"
    and u: "ttl_index_node_remove idx mem ob = (idx', mem')"
  shows "ttl_inv idx' mem' \<and> idx_frame (ttl_objs idx) mem mem' \<and> heap_idx (mem' ob) = HEAP_IDX_NONE \<and>
    (\<exists>e. ttl_abs idx = ttl_abs idx' + {#\<lparr>n_expire = e, n_obj = ob\<rparr>#}) \<and> ob \<notin> ttl_objs idx'"
proof -
  let ?h = "theap idx" and ?n = "length (theap idx) - 1"
  have h: "heap_ok ?h" "idx_ok (?h, mem)" "length ?h \<le> tcap idx" using inv by (auto simp: ttl_inv_def)
  obtain k where k: "k < length ?h" "n_obj (?h ! k) = ob" "unat (heap_idx (mem ob)) = k" "heap_idx (mem ob) \<noteq> HEAP_IDX_NONE"
    using tracked_pos [OF h(2), of ob] in_h unfolding ttl_objs_def by blast
  let ?d = "drop_node ?h k"
  define mem1 where "mem1 = (if k < ?n then set_heap_idx (n_obj (?h ! ?n)) (of_nat k) mem else mem)"
  define s where "s = (if k < ?n then ttl_node_fix (?d, mem1) k else (?d, mem1))"
  have d: "?d = (if k < ?n then (take ?n ?h)[k := ?h ! ?n] else take ?n ?h)" by (simp add: drop_node_def Let_def)
  have idx1: "idx_ok (?d, mem1)"
    using drop_node_idx [OF h(2), of k] idx_ok_take [OF h(2), of ?n] by (auto simp: mem1_def d)
  have sd: "sifted (?d, mem1) s"
  proof (cases "k < ?n")
    case True
    then show ?thesis
      using set_key_fix [OF heap_ok_take [OF h(1)], of k ?n "?h ! ?n" mem1] idx1 by (simp add: s_def d)
  next
    case False
    then show ?thesis using idx1 heap_ok_take [OF h(1)] by (simp add: s_def d sifted_def)
  qed
  have res: "theap idx' = fst s" "mem' = set_heap_idx ob HEAP_IDX_NONE (snd s)" "tcap idx' = tcap idx"
    using u k by (auto simp: ttl_index_node_remove_def Let_def s_def mem1_def d take_update split: prod.splits if_splits)
  have md: "mset ?d + {#?h ! k#} = mset ?h" by (rule mset_drop_node [OF k(1)])
  have ob: "ob \<notin> n_obj ` set ?d" using drop_node_objs [OF h(2) k(1)] k(2) by simp
  have m': "mset (theap idx') = mset ?d" using sd by (simp add: sifted_def res(1))
  then have set': "set (theap idx') = set ?d" by (metis set_mset_mset)
  have nk: "\<lparr>n_expire = n_expire (?h ! k), n_obj = ob\<rparr> = ?h ! k" using k(2) by auto
  have "ttl_abs idx = ttl_abs idx' + {#\<lparr>n_expire = n_expire (?h ! k), n_obj = ob\<rparr>#}"
    unfolding nk ttl_abs_def m' md ..
  then have "\<exists>e. ttl_abs idx = ttl_abs idx' + {#\<lparr>n_expire = e, n_obj = ob\<rparr>#}" by blast
  moreover have "ob \<notin> ttl_objs idx'" using ob by (simp add: ttl_objs_def set')
  moreover have "idx_ok (theap idx', mem')" unfolding res by (rule idx_ok_sifted_off [OF sd ob])
  moreover have "length (theap idx') \<le> tcap idx'" using m' h(3) res(3) md by (metis add_leD1 size_mset size_union)
  moreover have "idx_frame (ttl_objs idx) mem mem'"
  proof -
    have sub: "n_obj ` set ?d \<subseteq> ttl_objs idx" using arg_cong [OF md, of set_mset] by (auto simp: ttl_objs_def)
    have "?n < length ?h" using k(1) by simp
    then have "n_obj (?h ! ?n) \<in> ttl_objs idx" unfolding ttl_objs_def by (intro imageI nth_mem)
    then have "idx_frame (ttl_objs idx) mem mem1" by (simp add: mem1_def idx_frame_set)
    moreover have "idx_frame (ttl_objs idx) mem1 (snd s)"
      using sd idx_frame_mono [OF _ sub] by (simp add: sifted_def)
    moreover have "idx_frame (ttl_objs idx) (snd s) mem'" unfolding res(2) using in_h by (rule idx_frame_set)
    ultimately show ?thesis using idx_frame_trans2 by blast
  qed
  ultimately show ?thesis
    using sd res(1,2) by (simp add: ttl_inv_def sifted_def set_heap_idx_def)
qed


lemma pop_ok:
  assumes inv: "ttl_inv idx mem" and u: "ttl_index_node_pop idx mem = (r, idx', mem')"
  shows "case r of
      None \<Rightarrow> ttl_abs idx = {#} \<and> idx' = idx \<and> mem' = mem
    | Some (e, ob) \<Rightarrow> ttl_inv idx' mem' \<and> idx_frame (ttl_objs idx) mem mem' \<and>
        heap_idx (mem' ob) = HEAP_IDX_NONE \<and> ob \<in> ttl_objs idx \<and> ob \<notin> ttl_objs idx' \<and>
        ttl_abs idx = ttl_abs idx' + {#\<lparr>n_expire = e, n_obj = ob\<rparr>#} \<and>
        (\<forall>x \<in># ttl_abs idx. e \<le> n_expire x)"
proof (cases "theap idx = []")
  case True
  then show ?thesis using u by (auto simp: ttl_index_node_pop_def ttl_abs_def)
next
  case False
  let ?h = "theap idx" and ?n = "length (theap idx) - 1" and ?top = "theap idx ! 0"
  have k: "0 < length ?h" using False by simp
  have h: "heap_ok ?h" "idx_ok (?h, mem)" "length ?h \<le> tcap idx" using inv by (auto simp: ttl_inv_def)
  let ?d = "drop_node ?h 0" and ?ob = "n_obj (theap idx ! 0)"
  define mem0 where "mem0 = set_heap_idx ?ob HEAP_IDX_NONE mem"
  define mem1 where "mem1 = (if 0 < ?n then set_heap_idx (n_obj (?h ! ?n)) 0 mem0 else mem0)"
  define s where "s = (if 0 < ?n then ttl_node_sift_down (?d, mem1) 0 else (?d, mem1))"
  have d: "?d = (if 0 < ?n then (take ?n ?h)[0 := ?h ! ?n] else take ?n ?h)" by (simp add: drop_node_def Let_def)
  have ob: "?ob \<notin> n_obj ` set ?d" by (rule drop_node_objs [OF h(2) k])
  have idx1: "idx_ok (?d, mem1)"
  proof (cases "0 < ?n")
    case True
    then have ne: "?ob \<noteq> n_obj (?h ! ?n)" using idx_ok_inj [OF h(2), of 0 ?n] k by auto
    have "idx_ok (?d, set_heap_idx (n_obj (?h ! ?n)) 0 mem)" using drop_node_idx [OF h(2) True] by simp
    from idx_ok_off [OF this ob, of HEAP_IDX_NONE] show ?thesis
      using True ne by (simp add: mem1_def mem0_def set_heap_idx_def fun_upd_twist)
  next
    case False
    then show ?thesis using idx_ok_off [OF idx_ok_take [OF h(2), of ?n], of ?ob] ob by (simp add: mem1_def mem0_def d)
  qed
  have sd: "sifted (?d, mem1) s"
  proof (cases "0 < ?n")
    case True
    then have lt: "0 < length ?d" by (simp add: d)
    have "ex ?d (par i) \<le> ex ?d i" if i: "0 < i" "i < length ?d" "par i \<noteq> 0" for i
      using h(1) i par_less [OF i(1)] True by (simp add: heap_ok_def d)
    then have "heap_down_except ?d 0" by (simp add: heap_down_except_def bridge_def)
    then show ?thesis using sift_down_ok [of "(?d, mem1)" 0] idx1 lt True by (simp add: s_def)
  next
    case False
    then show ?thesis using idx1 heap_ok_take [OF h(1)] by (simp add: s_def d sifted_def heap_ok_def)
  qed
  have res: "r = Some (n_expire ?top, ?ob)" "theap idx' = fst s" "mem' = snd s" "tcap idx' = tcap idx"
    using u False by (auto simp: ttl_index_node_pop_def Let_def s_def mem1_def mem0_def d take_update split: prod.splits if_splits)
  have md: "mset ?d + {#?top#} = mset ?h" by (rule mset_drop_node [OF k])
  have m': "mset (theap idx') = mset ?d" using sd by (simp add: sifted_def res(2))
  then have set': "set (theap idx') = set ?d" by (metis set_mset_mset)
  have nk: "\<lparr>n_expire = n_expire ?top, n_obj = ?ob\<rparr> = ?top" by simp
  have "ttl_abs idx = ttl_abs idx' + {#\<lparr>n_expire = n_expire ?top, n_obj = ?ob\<rparr>#}"
    unfolding nk ttl_abs_def m' md ..
  moreover have "?ob \<in> ttl_objs idx" "?ob \<notin> ttl_objs idx'" using ob k by (simp_all add: ttl_objs_def set')
  moreover have "length (theap idx') \<le> tcap idx'" using m' h(3) res(4) md by (metis add_leD1 size_mset size_union)
  moreover have fr: "idx_frame (ttl_objs idx) mem mem'"
  proof -
    have sub: "n_obj ` set ?d \<subseteq> ttl_objs idx" using arg_cong [OF md, of set_mset] by (auto simp: ttl_objs_def)
    have "?n < length ?h" using k by simp
    then have "n_obj (?h ! ?n) \<in> ttl_objs idx" unfolding ttl_objs_def by (intro imageI nth_mem)
    then have "idx_frame (ttl_objs idx) mem0 mem1" by (simp add: mem1_def idx_frame_set)
    moreover have "idx_frame (ttl_objs idx) mem mem0" using k by (simp add: mem0_def idx_frame_set ttl_objs_def)
    moreover have "idx_frame (ttl_objs idx) mem1 (snd s)"
      using sd idx_frame_mono [OF _ sub] by (simp add: sifted_def)
    ultimately show ?thesis unfolding res(3) using idx_frame_trans2 by blast
  qed
  moreover have "heap_idx (mem' ?ob) = HEAP_IDX_NONE"
  proof -
    have e: "mem' ?ob = mem1 ?ob" using sd ob by (simp add: sifted_def idx_frame_def res(3))
    have m0: "heap_idx (mem0 ?ob) = HEAP_IDX_NONE" by (simp add: mem0_def set_heap_idx_def)
    show ?thesis
    proof (cases "0 < ?n")
      case True
      then have ne: "?ob \<noteq> n_obj (?h ! ?n)" using idx_ok_inj [OF h(2), of 0 ?n] k by auto
      have "mem1 = set_heap_idx (n_obj (?h ! ?n)) 0 mem0" using True by (simp add: mem1_def)
      then have "mem1 ?ob = mem0 ?ob" unfolding set_heap_idx_def using ne by (metis fun_upd_other)
      then show ?thesis using e m0 by metis
    next
      case False
      then have "mem1 = mem0" by (simp add: mem1_def)
      then show ?thesis using e m0 by metis
    qed
  qed
  moreover have "\<forall>x \<in># ttl_abs idx. n_expire ?top \<le> n_expire x"
    using heap_ok_root [OF h(1)] by (auto simp: ttl_abs_def in_set_conv_nth)
  ultimately show ?thesis
    using sd res by (simp add: ttl_inv_def sifted_def)
qed

lemma peek_ok:
  "ttl_inv idx mem \<Longrightarrow> ttl_index_node_peek idx =
     (if ttl_abs idx = {#} then - 1 else Min (n_expire ` set_mset (ttl_abs idx)))"
proof -
  assume inv: "ttl_inv idx mem"
  show ?thesis
  proof (cases "theap idx = []")
    case False
    have "Min (n_expire ` set (theap idx)) = n_expire (theap idx ! 0)"
      using inv False heap_ok_root [of "theap idx"]
      by (intro Min_eqI) (auto simp: ttl_inv_def dest!: in_set_conv_nth [THEN iffD1] intro!: imageI)
    then show ?thesis using False by (simp add: ttl_index_node_peek_def ttl_abs_def)
  qed (simp add: ttl_index_node_peek_def ttl_abs_def)
qed


section \<open>The index as a priority queue\<close>

text \<open>
  What a client of an expiry index relies on: the state carries a multiset of keyed
  items, pop takes one of the least key, peek reads that key.
\<close>

locale expiry_queue =
  fixes invar :: "'s \<Rightarrow> bool" and items :: "'s \<Rightarrow> 'i multiset" and key :: "'i \<Rightarrow> 'k::linorder"
    and pop :: "'s \<Rightarrow> ('i \<times> 's) option" and peek :: "'s \<Rightarrow> 'k" and never :: 'k
  assumes pop_None: "invar s \<Longrightarrow> pop s = None \<longleftrightarrow> items s = {#}"
    and pop_invar: "invar s \<Longrightarrow> pop s = Some (x, s') \<Longrightarrow> invar s'"
    and pop_items: "invar s \<Longrightarrow> pop s = Some (x, s') \<Longrightarrow> items s = items s' + {#x#}"
    and pop_min: "invar s \<Longrightarrow> pop s = Some (x, s') \<Longrightarrow> y \<in># items s \<Longrightarrow> key x \<le> key y"
    and peek_items: "invar s \<Longrightarrow> peek s = (if items s = {#} then never else Min (key ` set_mset (items s)))"
begin

text \<open>Popping until the queue is empty.\<close>

inductive drain :: "'s \<Rightarrow> 'i list \<Rightarrow> bool" where
  drain_stop: "pop s = None \<Longrightarrow> drain s []"
| drain_pop: "pop s = Some (x, s') \<Longrightarrow> drain s' xs \<Longrightarrow> drain s (x # xs)"

lemma drain_sorted: "drain s xs \<Longrightarrow> invar s \<Longrightarrow> mset xs = items s \<and> sorted (map key xs)"
proof (induction rule: drain.induct)
  case (drain_stop s)
  then show ?case using pop_None by auto
next
  case (drain_pop s x s' xs)
  then have xs: "mset xs = items s'" "sorted (map key xs)" using pop_invar by auto
  moreover have "items s = items s' + {#x#}" using pop_items drain_pop by blast
  moreover have "key x \<le> key y" if "y \<in> set xs" for y
    using pop_min [OF drain_pop(4,1), of y] that calculation by (metis set_mset_mset union_iff)
  ultimately show ?case by simp
qed

lemma drain_exists: "invar s \<Longrightarrow> \<exists>xs. drain s xs"
proof (induction "size (items s)" arbitrary: s)
  case 0
  then show ?case using pop_None drain_stop by auto
next
  case (Suc n)
  then have "pop s \<noteq> None" using pop_None by auto
  then obtain x s' where p: "pop s = Some (x, s')" by auto
  then have "n = size (items s')" using pop_items [OF Suc.prems p] Suc.hyps(2) by simp
  then show ?case using Suc.hyps(1) pop_invar [OF Suc.prems p] drain_pop [OF p] by blast
qed

lemma peek_pop: "invar s \<Longrightarrow> pop s = Some (x, s') \<Longrightarrow> peek s = key x"
proof -
  assume i: "invar s" and p: "pop s = Some (x, s')"
  have "x \<in># items s" using pop_items [OF i p] by simp
  then show ?thesis
    using pop_min [OF i p] peek_items [OF i] by (auto intro!: Min_eqI)
qed

end

definition ttl_pop :: "ttl_index \<times> objs \<Rightarrow> (ttl_node \<times> ttl_index \<times> objs) option" where
  "ttl_pop s =
     (case ttl_index_node_pop (fst s) (snd s) of
        (None, _) \<Rightarrow> None
      | (Some (e, ob), s') \<Rightarrow> Some (\<lparr>n_expire = e, n_obj = ob\<rparr>, s'))"

lemma ttl_pop_None: "ttl_inv (fst s) (snd s) \<Longrightarrow> ttl_pop s = None \<longleftrightarrow> ttl_abs (fst s) = {#}"
  by (simp add: ttl_pop_def ttl_index_node_pop_def ttl_abs_def Let_def split_beta)

lemma ttl_pop_Some:
  assumes "ttl_inv (fst s) (snd s)" "ttl_pop s = Some (x, s')"
  shows "ttl_inv (fst s') (snd s') \<and> ttl_abs (fst s) = ttl_abs (fst s') + {#x#} \<and>
    (\<forall>y \<in># ttl_abs (fst s). n_expire x \<le> n_expire y)"
proof -
  obtain e ob idx' mem' where "ttl_index_node_pop (fst s) (snd s) = (Some (e, ob), idx', mem')"
    "s' = (idx', mem')" "x = \<lparr>n_expire = e, n_obj = ob\<rparr>"
    using assms(2) by (cases s') (auto simp: ttl_pop_def split: prod.splits option.splits)
  then show ?thesis using pop_ok [OF assms(1), of "Some (e, ob)" idx' mem'] by simp
qed

interpretation ttl_queue: expiry_queue "\<lambda>s. ttl_inv (fst s) (snd s)" "\<lambda>s. ttl_abs (fst s)" n_expire
  ttl_pop "\<lambda>s. ttl_index_node_peek (fst s)" "- 1"
  by unfold_locales (auto simp: ttl_pop_None peek_ok dest: ttl_pop_Some)

section \<open>Properties of the index\<close>

lemma ttl_index_init_inv: "ttl_inv ttl_index_init mem" "ttl_objs ttl_index_init = {}"
  by (simp_all add: ttl_inv_def ttl_index_init_def heap_ok_def idx_ok_def ttl_objs_def)



text \<open>C20: changing the expiry of an indexed object, and removing it, keep the index
  well formed; the first replaces exactly its node, the second deletes exactly its node
  and marks the object as not indexed.\<close>

theorem ttl_update_remove_spec:
  assumes "ttl_inv idx mem" "ob \<in> ttl_objs idx"
  shows "(case ttl_index_node_update idx mem ob e of (idx', mem') \<Rightarrow>
      ttl_inv idx' mem' \<and> idx_frame (ttl_objs idx) mem mem' \<and>
      (\<exists>old. \<lparr>n_expire = old, n_obj = ob\<rparr> \<in># ttl_abs idx \<and> ttl_abs idx + {#\<lparr>n_expire = e, n_obj = ob\<rparr>#} = ttl_abs idx' + {#\<lparr>n_expire = old, n_obj = ob\<rparr>#})) \<and>
    (case ttl_index_node_remove idx mem ob of (idx', mem') \<Rightarrow>
      ttl_inv idx' mem' \<and> idx_frame (ttl_objs idx) mem mem' \<and> heap_idx (mem' ob) = HEAP_IDX_NONE \<and>
      (\<exists>old. ttl_abs idx = ttl_abs idx' + {#\<lparr>n_expire = old, n_obj = ob\<rparr>#}) \<and> ob \<notin> ttl_objs idx')"
  using update_ok [OF assms] remove_ok [OF assms] by (simp split: prod.split)

definition sample_index :: ttl_index where
  "sample_index = \<lparr>theap = [\<lparr>n_expire = 10, n_obj = 1\<rparr>, \<lparr>n_expire = 20, n_obj = 2\<rparr>], tcap = 256\<rparr>"

definition sample_objs :: objs where
  "sample_objs = (\<lambda>a. sample_obj\<lparr>heap_idx := if a = 1 then 0 else if a = 2 then 1 else HEAP_IDX_NONE\<rparr>)"

lemma sample_index_inv: "ttl_inv sample_index sample_objs" "ttl_objs sample_index = {1, 2}"
  by (auto simp: ttl_inv_def sample_index_def sample_objs_def heap_ok_def idx_ok_def ttl_objs_def
      less_Suc_eq par_def)

lemma ttl_update_remove_spec_witness:
  "1 \<notin> ttl_objs (fst (ttl_index_node_remove sample_index sample_objs 1)) \<and>
   heap_idx (snd (ttl_index_node_remove sample_index sample_objs 1) 1) = HEAP_IDX_NONE"
  using ttl_update_remove_spec [OF sample_index_inv(1), of 1 5]
  by (simp add: sample_index_inv(2) split_beta)

text \<open>C21: popping until the index is empty returns every node exactly once in the
  order of expiry, and such a run exists from every well-formed index; peek is the
  expiry that the next pop returns, and the largest 64-bit value when there is none.\<close>

theorem ttl_pops_in_order:
  assumes "ttl_inv idx mem"
  shows "(\<exists>xs. ttl_queue.drain (idx, mem) xs) \<and>
    (\<forall>xs. ttl_queue.drain (idx, mem) xs \<longrightarrow> mset xs = ttl_abs idx \<and> sorted (map n_expire xs)) \<and>
    ttl_index_node_peek idx = (case ttl_pop (idx, mem) of None \<Rightarrow> - 1 | Some (x, _) \<Rightarrow> n_expire x)"
proof (intro conjI)
  show "\<exists>xs. ttl_queue.drain (idx, mem) xs"
    by (rule ttl_queue.drain_exists) (simp add: assms)
  show "\<forall>xs. ttl_queue.drain (idx, mem) xs \<longrightarrow> mset xs = ttl_abs idx \<and> sorted (map n_expire xs)"
    using ttl_queue.drain_sorted [of "(idx, mem)"] assms by simp
  show "ttl_index_node_peek idx = (case ttl_pop (idx, mem) of None \<Rightarrow> - 1 | Some (x, _) \<Rightarrow> n_expire x)"
    using ttl_queue.peek_pop [of "(idx, mem)"] ttl_queue.peek_items [of "(idx, mem)"]
      ttl_pop_None [of "(idx, mem)"] assms
    by (auto split: option.split)
qed

lemma ttl_pops_in_order_witness: "ttl_index_node_peek sample_index = 10 \<and> (\<exists>xs. ttl_queue.drain (sample_index, sample_objs) xs)"
  using ttl_pops_in_order [OF sample_index_inv(1)]
  by (simp add: sample_index_def ttl_index_node_peek_def)

end
