(* ===== verification/Spsc.thy ===== *)
theory Spsc
  imports Prelude
begin

text \<open>
  Model of \<open>core/spsc.h\<close>: the expandable single-producer single-consumer queue, a
  circular list of segments of 4096 slots.  Segments live in a store from addresses to
  segments; a new segment is the address that the slab allocator returned, or \<open>None\<close>.
  Sequence numbers are natural numbers.  The messages are an arbitrary type.
\<close>

section \<open>State and operations\<close>

definition SPSC_SEG_SIZE :: nat where "SPSC_SEG_SIZE = 4096"

type_synonym seg_addr = nat

record 'm spsc_segment =
  seg_next :: seg_addr
  slots :: "nat \<Rightarrow> 'm"

record 'm spsc_queue =
  head :: nat
  p_seg :: seg_addr
  tail :: nat
  c_seg :: seg_addr
  c_seg_shared :: seg_addr
  wake_edge :: int
  segs :: "seg_addr \<Rightarrow> 'm spsc_segment"

definition set_next :: "seg_addr \<Rightarrow> seg_addr \<Rightarrow> 'm spsc_queue \<Rightarrow> 'm spsc_queue" where
  "set_next a n q = q\<lparr>segs := (segs q)(a := (segs q a)\<lparr>seg_next := n\<rparr>)\<rparr>"

definition set_slot :: "seg_addr \<Rightarrow> nat \<Rightarrow> 'm \<Rightarrow> 'm spsc_queue \<Rightarrow> 'm spsc_queue" where
  "set_slot a i m q = q\<lparr>segs := (segs q)(a := (segs q a)\<lparr>slots := (slots (segs q a))(i := m)\<rparr>)\<rparr>"

definition spsc_queue_init :: "seg_addr option \<Rightarrow> 'm spsc_queue \<Rightarrow> bool \<times> 'm spsc_queue" where
  "spsc_queue_init alloc q =
     (case alloc of
        None \<Rightarrow> (False, q)
      | Some seg \<Rightarrow>
          (True, set_next seg seg (q\<lparr>head := 0, tail := 0, p_seg := seg, c_seg := seg,
                                     c_seg_shared := seg, wake_edge := 0\<rparr>)))"

text \<open>Moving the producer to the next segment at a segment boundary.\<close>

definition spsc_push_move :: "seg_addr option \<Rightarrow> 'm spsc_queue \<Rightarrow> 'm spsc_queue option" where
  "spsc_push_move alloc q =
     (let next_seg = seg_next (segs q (p_seg q))
      in if next_seg = c_seg_shared q then
           (case alloc of
              None \<Rightarrow> None
            | Some new_seg \<Rightarrow>
                Some ((set_next (p_seg q) new_seg (set_next new_seg next_seg q))\<lparr>p_seg := new_seg\<rparr>))
         else Some (q\<lparr>p_seg := next_seg\<rparr>))"

definition spsc_queue_push :: "seg_addr option \<Rightarrow> 'm \<Rightarrow> 'm spsc_queue \<Rightarrow> bool \<times> 'm spsc_queue" where
  "spsc_queue_push alloc m q =
     (let h = head q
      in case (if 0 < h \<and> h mod SPSC_SEG_SIZE = 0 then spsc_push_move alloc q else Some q) of
           None \<Rightarrow> (False, q)
         | Some q \<Rightarrow> (True, (set_slot (p_seg q) (h mod SPSC_SEG_SIZE) m q)\<lparr>head := h + 1\<rparr>))"

definition spsc_queue_pop :: "'m spsc_queue \<Rightarrow> 'm option \<times> 'm spsc_queue" where
  "spsc_queue_pop q =
     (let t = tail q
      in if t = head q then (None, q)
         else
           (let q = (if 0 < t \<and> t mod SPSC_SEG_SIZE = 0
                     then q\<lparr>c_seg := seg_next (segs q (c_seg q)),
                             c_seg_shared := seg_next (segs q (c_seg q))\<rparr>
                     else q)
            in (Some (slots (segs q (c_seg q)) (t mod SPSC_SEG_SIZE)), q\<lparr>tail := t + 1\<rparr>)))"

definition spsc_queue_empty :: "'m spsc_queue \<Rightarrow> bool" where
  "spsc_queue_empty q \<longleftrightarrow> tail q = head q"

definition spsc_queue_try_disarm_wake :: "'m spsc_queue \<Rightarrow> bool \<times> 'm spsc_queue" where
  "spsc_queue_try_disarm_wake q =
     (let q = q\<lparr>wake_edge := 0\<rparr>
      in if spsc_queue_empty q then (True, q) else (False, q\<lparr>wake_edge := 1\<rparr>))"

text \<open>
  The segments freed by destroy: the do-while walk from \<open>p_seg\<close> (with fuel; \<open>destroy_frees\<close>
  shows that the number of segments is enough).  Address 0 is the null pointer.
\<close>

fun spsc_destroy_walk :: "nat \<Rightarrow> seg_addr \<Rightarrow> seg_addr \<Rightarrow> 'm spsc_queue \<Rightarrow> seg_addr list option" where
  "spsc_destroy_walk 0 start cur q = None"
| "spsc_destroy_walk (Suc n) start cur q =
     (let nxt = seg_next (segs q cur)
      in if nxt \<noteq> start \<and> nxt \<noteq> 0 then map_option ((#) cur) (spsc_destroy_walk n start nxt q)
         else Some [cur])"

definition spsc_queue_destroy :: "nat \<Rightarrow> 'm spsc_queue \<Rightarrow> (seg_addr list \<times> 'm spsc_queue) option" where
  "spsc_queue_destroy fuel q =
     (if p_seg q = 0 then Some ([], q)
      else map_option (\<lambda>freed. (freed, q\<lparr>p_seg := 0, c_seg := 0\<rparr>))
             (spsc_destroy_walk fuel (p_seg q) (p_seg q) q))"

section \<open>Ring and contents\<close>

text \<open>The segment \<open>k\<close> links after the consumer's, and the block of a cached pointer.\<close>

definition seg_walk :: "'m spsc_queue \<Rightarrow> nat \<Rightarrow> seg_addr" where
  "seg_walk q k = ((\<lambda>a. seg_next (segs q a)) ^^ k) (c_seg q)"

definition block_of :: "nat \<Rightarrow> nat" where
  "block_of n = (n - 1) div SPSC_SEG_SIZE"

definition slot_at :: "'m spsc_queue \<Rightarrow> nat \<Rightarrow> 'm" where
  "slot_at q n =
     slots (segs q (seg_walk q (n div SPSC_SEG_SIZE - block_of (tail q)))) (n mod SPSC_SEG_SIZE)"

definition spsc_items :: "'m spsc_queue \<Rightarrow> 'm list" where
  "spsc_items q = map (slot_at q) [tail q..<head q]"

text \<open>The ring has \<open>L\<close> segments and the producer is not a lap ahead.\<close>

definition spsc_ring :: "'m spsc_queue \<Rightarrow> nat \<Rightarrow> bool" where
  "spsc_ring q L \<longleftrightarrow> 0 < L \<and> inj_on (seg_walk q) {..<L} \<and> seg_walk q L = c_seg q \<and>
     block_of (head q) - block_of (tail q) < L \<and>
     p_seg q = seg_walk q (block_of (head q) - block_of (tail q))"

definition spsc_inv :: "'m spsc_queue \<Rightarrow> bool" where
  "spsc_inv q \<longleftrightarrow> tail q \<le> head q \<and> c_seg_shared q = c_seg q \<and> (\<exists>L. spsc_ring q L)"

definition spsc_segs :: "'m spsc_queue \<Rightarrow> seg_addr set" where
  "spsc_segs q = range (seg_walk q)"

lemma seg_size_pos [simp]: "0 < SPSC_SEG_SIZE"
  by (simp add: SPSC_SEG_SIZE_def)

lemma seg_walk_0 [simp]: "seg_walk q 0 = c_seg q"
  by (simp add: seg_walk_def)

lemma seg_walk_Suc: "seg_walk q (Suc k) = seg_next (segs q (seg_walk q k))"
  by (simp add: seg_walk_def)

lemma block_Suc: "block_of (Suc n) = n div SPSC_SEG_SIZE"
  by (simp add: block_of_def)

lemma block_inner: "\<not> (0 < n \<and> n mod SPSC_SEG_SIZE = 0) \<Longrightarrow> block_of n = n div SPSC_SEG_SIZE"
  by (cases n) (auto simp: block_of_def div_Suc mod_Suc split: if_splits)

lemma block_boundary: "0 < n \<Longrightarrow> n mod SPSC_SEG_SIZE = 0 \<Longrightarrow> n div SPSC_SEG_SIZE = Suc (block_of n)"
  by (cases n) (auto simp: block_of_def div_Suc mod_Suc split: if_splits)

lemma block_mono: "m \<le> n \<Longrightarrow> block_of m \<le> block_of n"
  by (simp add: block_of_def div_le_mono)

lemma block_le_div: "t \<le> n \<Longrightarrow> block_of t \<le> n div SPSC_SEG_SIZE"
  unfolding block_of_def by (intro div_le_mono) simp

lemma item_block: "t \<le> n \<Longrightarrow> n < h \<Longrightarrow> n div SPSC_SEG_SIZE \<le> block_of h"
  unfolding block_of_def by (intro div_le_mono) simp

text \<open>Writing a slot and publishing the new head.\<close>

lemma publish_ok:
  assumes th: "tail q \<le> head q" and sh: "c_seg_shared q = c_seg q"
    and L: "0 < L" "inj_on (seg_walk q) {..<L}" "seg_walk q L = c_seg q"
    and p: "head q div SPSC_SEG_SIZE - block_of (tail q) < L"
      "p_seg q = seg_walk q (head q div SPSC_SEG_SIZE - block_of (tail q))"
    and q'_def: "q' = (set_slot (p_seg q) (head q mod SPSC_SEG_SIZE) m q)\<lparr>head := head q + 1\<rparr>"
  shows "spsc_inv q' \<and> spsc_items q' = map (slot_at q) [tail q..<head q] @ [m]"
proof -
  let ?N = SPSC_SEG_SIZE
  have nx: "seg_next (segs q' a) = seg_next (segs q a)" for a
    by (simp add: q'_def set_slot_def)
  have w: "seg_walk q' = seg_walk q"
    by (rule ext) (simp add: seg_walk_def nx, simp add: q'_def set_slot_def)
  have f: "tail q' = tail q" "head q' = Suc (head q)" "p_seg q' = p_seg q" "c_seg q' = c_seg q" "c_seg_shared q' = c_seg_shared q"
    by (simp_all add: q'_def set_slot_def)
  have "spsc_ring q' L"
    using L p by (simp add: spsc_ring_def w f block_Suc)
  moreover have "slot_at q' n = slot_at q n" if n: "tail q \<le> n" "n < head q" for n
  proof -
    let ?k = "n div ?N - block_of (tail q)" and ?j = "head q div ?N - block_of (tail q)"
    have le: "block_of (tail q) \<le> n div ?N" "n div ?N \<le> head q div ?N"
      using n by (auto intro: block_le_div div_le_mono)
    have "seg_walk q ?k = p_seg q \<Longrightarrow> n mod ?N \<noteq> head q mod ?N"
    proof
      assume s: "seg_walk q ?k = p_seg q" and e: "n mod ?N = head q mod ?N"
      have "?k = ?j" using s p L(2) le by (auto dest!: inj_onD)
      then have "n div ?N = head q div ?N" using le by simp
      then show False using e n by (metis div_mult_mod_eq less_irrefl)
    qed
    then show ?thesis
      by (simp add: slot_at_def w f) (simp add: q'_def set_slot_def)
  qed
  moreover have "slot_at q' (head q) = m"
    using p by (simp add: slot_at_def w f) (simp add: q'_def set_slot_def)
  ultimately show ?thesis
    using th sh by (auto simp: spsc_inv_def spsc_items_def f)
qed

lemma push_move_ok:
  assumes inv: "tail q \<le> head q" "c_seg_shared q = c_seg q" and r: "spsc_ring q L"
    and b: "0 < head q" "head q mod SPSC_SEG_SIZE = 0" and fresh: "\<forall>a. alloc = Some a \<longrightarrow> a \<notin> spsc_segs q"
    and mv: "spsc_push_move alloc q = Some q'"
  shows "tail q' = tail q \<and> head q' = head q \<and> c_seg_shared q' = c_seg q' \<and>
    (\<forall>n. tail q \<le> n \<and> n < head q \<longrightarrow> slot_at q' n = slot_at q n) \<and>
    (\<exists>L'. 0 < L' \<and> inj_on (seg_walk q') {..<L'} \<and> seg_walk q' L' = c_seg q' \<and>
       head q div SPSC_SEG_SIZE - block_of (tail q) < L' \<and>
       p_seg q' = seg_walk q' (head q div SPSC_SEG_SIZE - block_of (tail q)))"
proof -
  let ?N = SPSC_SEG_SIZE and ?d = "block_of (head q) - block_of (tail q)"
  have L: "0 < L" "inj_on (seg_walk q) {..<L}" "seg_walk q L = c_seg q" "?d < L" "p_seg q = seg_walk q ?d"
    using r by (auto simp: spsc_ring_def)
  have hd: "head q div ?N - block_of (tail q) = Suc ?d"
    using block_boundary [OF b] block_mono [OF inv(1)] by simp
  have nxt: "seg_next (segs q (p_seg q)) = seg_walk q (Suc ?d)" by (simp add: seg_walk_Suc L(5))
  show ?thesis
  proof (cases "Suc ?d < L")
    case True
    then have "seg_walk q (Suc ?d) \<noteq> c_seg q" using L(1,2) by (metis inj_onD lessThan_iff seg_walk_0 nat.simps(3))
    then have q': "q' = q\<lparr>p_seg := seg_walk q (Suc ?d)\<rparr>" using mv inv(2) nxt by (simp add: spsc_push_move_def)
    have w: "seg_walk q' = seg_walk q" by (rule ext) (simp add: seg_walk_def q')
    have "slot_at q' n = slot_at q n" for n by (simp add: slot_at_def w) (simp add: q')
    then show ?thesis using True L inv(2) hd w by (auto simp: q' intro!: exI [of _ L])
  next
    case False
    then have Ld: "L = Suc ?d" using L(4) by simp
    then have "seg_next (segs q (p_seg q)) = c_seg_shared q" using nxt L(3) inv(2) by simp
    then obtain a where a: "alloc = Some a"
      and q': "q' = (set_next (p_seg q) a (set_next a (c_seg q) q))\<lparr>p_seg := a\<rparr>"
      using mv inv(2) by (auto simp: spsc_push_move_def split: option.splits)
    have na: "a \<noteq> seg_walk q k" for k using fresh a by (auto simp: spsc_segs_def)
    have np: "seg_walk q k \<noteq> p_seg q" if "k < ?d" for k
      using L(2,4,5) that by (metis inj_onD less_irrefl less_trans lessThan_iff)
    have nx: "seg_next (segs q' x) = (if x = p_seg q then a else if x = a then c_seg q else seg_next (segs q x))" for x
      using na [of ?d] L(5) by (simp add: q' set_next_def)
    have w: "seg_walk q' k = seg_walk q k" if "k < L" for k
      using that
    proof (induction k)
      case 0
      then show ?case by (simp add: seg_walk_def q' set_next_def)
    next
      case (Suc k)
      then show ?case using np [of k] na [of k] Ld by (simp add: seg_walk_Suc nx)
    qed
    have wL: "seg_walk q' L = a" using w [of ?d] L(5) by (simp add: Ld seg_walk_Suc nx)
    have wL1: "seg_walk q' (Suc L) = c_seg q" using na [of ?d] L(5) by (simp add: seg_walk_Suc wL nx)
    have "inj_on (seg_walk q') {..<Suc L}"
      unfolding lessThan_Suc
    proof (subst inj_on_insert, intro conjI)
      show "inj_on (seg_walk q') {..<L}" using L(2) w by (simp add: inj_on_def)
      show "seg_walk q' L \<notin> seg_walk q' ` ({..<L} - {L})" using wL w na by auto
    qed
    moreover have sl: "slots (segs q' x) = slots (segs q x)" for x by (simp add: q' set_next_def)
    have f: "c_seg q' = c_seg q" "tail q' = tail q" "head q' = head q" "c_seg_shared q' = c_seg_shared q" "p_seg q' = a"
      by (simp_all add: q' set_next_def)
    have "slot_at q' n = slot_at q n" if n: "tail q \<le> n" "n < head q" for n
    proof -
      have "n div ?N - block_of (tail q) < L" using item_block [OF n] L(4) by linarith
      then show ?thesis by (simp add: slot_at_def sl w f)
    qed
    ultimately show ?thesis
      using inv(2) wL wL1 Ld hd by (auto simp: f intro!: exI [of _ "Suc L"])
  qed
qed

lemma push_inner:
  assumes inv: "spsc_inv q" and b: "\<not> (0 < head q \<and> head q mod SPSC_SEG_SIZE = 0)"
    and p: "spsc_queue_push alloc m q = (True, q')"
  shows "spsc_inv q' \<and> spsc_items q' = spsc_items q @ [m]"
proof -
  obtain L where th: "tail q \<le> head q" and sh: "c_seg_shared q = c_seg q" and r: "spsc_ring q L"
    using inv unfolding spsc_inv_def by blast
  have q': "q' = (set_slot (p_seg q) (head q mod SPSC_SEG_SIZE) m q)\<lparr>head := head q + 1\<rparr>"
    using p unfolding spsc_queue_push_def Let_def if_not_P [OF b] by simp
  have L: "0 < L" "inj_on (seg_walk q) {..<L}" "seg_walk q L = c_seg q"
    "head q div SPSC_SEG_SIZE - block_of (tail q) < L"
    "p_seg q = seg_walk q (head q div SPSC_SEG_SIZE - block_of (tail q))"
    using r unfolding spsc_ring_def block_inner [OF b] by blast+
  show ?thesis unfolding spsc_items_def [of q] by (rule publish_ok [OF th sh L q'])
qed

lemma push_boundary:
  assumes inv: "spsc_inv q" and b: "0 < head q" "head q mod SPSC_SEG_SIZE = 0"
    and fresh: "\<forall>a. alloc = Some a \<longrightarrow> a \<notin> spsc_segs q"
    and p: "spsc_queue_push alloc m q = (True, q')"
  shows "spsc_inv q' \<and> spsc_items q' = spsc_items q @ [m]"
proof -
  obtain L where th: "tail q \<le> head q" and sh: "c_seg_shared q = c_seg q" and r: "spsc_ring q L"
    using inv unfolding spsc_inv_def by blast
  obtain q1 where mv: "spsc_push_move alloc q = Some q1"
    using p b by (cases "spsc_push_move alloc q") (simp_all add: spsc_queue_push_def Let_def)
  have q': "q' = (set_slot (p_seg q1) (head q mod SPSC_SEG_SIZE) m q1)\<lparr>head := head q + 1\<rparr>"
    using p b mv by (simp add: spsc_queue_push_def Let_def)
  note m1 = push_move_ok [OF th sh r b fresh mv]
  have f: "tail q1 = tail q" "head q1 = head q" "c_seg_shared q1 = c_seg q1"
    using m1 by blast+
  have s: "\<forall>n. tail q \<le> n \<and> n < head q \<longrightarrow> slot_at q1 n = slot_at q n"
    using m1 by blast
  obtain L' where L': "0 < L'" "inj_on (seg_walk q1) {..<L'}" "seg_walk q1 L' = c_seg q1"
    "head q div SPSC_SEG_SIZE - block_of (tail q) < L'"
    "p_seg q1 = seg_walk q1 (head q div SPSC_SEG_SIZE - block_of (tail q))"
    using m1 by blast
  have th1: "tail q1 \<le> head q1" using th by (simp only: f)
  have e: "map (slot_at q1) [tail q..<head q] = map (slot_at q) [tail q..<head q]"
    by (rule map_cong [OF refl]) (simp add: s)
  have "spsc_inv q' \<and> spsc_items q' = map (slot_at q1) [tail q1..<head q1] @ [m]"
    by (rule publish_ok [OF th1 f(3) L'(1,2,3) L'(4,5) [folded f(1,2)] q' [folded f(2)]])
  then show ?thesis unfolding f e spsc_items_def [of q] .
qed

lemma spsc_push_ok:
  assumes inv: "spsc_inv q" and fresh: "\<forall>a. alloc = Some a \<longrightarrow> a \<notin> spsc_segs q"
    and p: "spsc_queue_push alloc m q = (True, q')"
  shows "spsc_inv q' \<and> spsc_items q' = spsc_items q @ [m]"
proof (cases "0 < head q \<and> head q mod SPSC_SEG_SIZE = 0")
  case True
  then show ?thesis by (intro push_boundary [OF inv _ _ fresh p]) simp_all
next
  case False
  then show ?thesis by (rule push_inner [OF inv _ p])
qed

lemma spsc_pop_ok:
  assumes inv: "spsc_inv q" and p: "spsc_queue_pop q = (r, q')"
  shows "spsc_inv q' \<and> (case spsc_items q of [] \<Rightarrow> r = None \<and> q' = q
    | m # ms \<Rightarrow> r = Some m \<and> spsc_items q' = ms)"
proof (cases "tail q = head q")
  case True
  then show ?thesis using p inv by (simp add: spsc_queue_pop_def Let_def spsc_items_def)
next
  case False
  let ?N = SPSC_SEG_SIZE and ?t = "tail q"
  obtain L where i: "?t \<le> head q" "c_seg_shared q = c_seg q" "spsc_ring q L" using inv by (auto simp: spsc_inv_def)
  have lt: "?t < head q" using False i(1) by simp
  have items: "spsc_items q = slot_at q ?t # map (slot_at q) [Suc ?t..<head q]"
    using lt by (simp add: spsc_items_def upt_conv_Cons)
  have L: "0 < L" "inj_on (seg_walk q) {..<L}" "seg_walk q L = c_seg q"
    "block_of (head q) - block_of ?t < L" "p_seg q = seg_walk q (block_of (head q) - block_of ?t)"
    using i(3) by (auto simp: spsc_ring_def)
  show ?thesis
  proof (cases "0 < ?t \<and> ?t mod ?N = 0")
    case True
    let ?q1 = "q\<lparr>c_seg := seg_walk q 1, c_seg_shared := seg_walk q 1\<rparr>"
    have nb: "?t div ?N = Suc (block_of ?t)" by (rule block_boundary [OF conjunct1 [OF True] conjunct2 [OF True]])
    have q': "r = Some (slots (segs q (seg_walk q 1)) (?t mod ?N))" "q' = ?q1\<lparr>tail := ?t + 1\<rparr>"
      using p unfolding spsc_queue_pop_def Let_def if_P [OF True] if_not_P [OF False] by (simp_all add: seg_walk_def)
    have f: "tail q' = Suc ?t" "head q' = head q" "segs q' = segs q" "p_seg q' = p_seg q"
      "c_seg q' = seg_walk q 1" "c_seg_shared q' = seg_walk q 1"
      by (simp_all add: q'(2))
    have w: "seg_walk q' k = seg_walk q (Suc k)" for k
      by (induction k) (simp_all only: seg_walk_Suc f seg_walk_0 One_nat_def)
    have bt: "block_of (tail q') = Suc (block_of ?t)" by (simp add: f block_Suc nb)
    have hb: "Suc (block_of ?t) \<le> block_of (head q)" using item_block [OF order_refl lt] nb by simp
    then have L2: "1 < L" using L(4) by linarith
    have sl: "slot_at q' n = slot_at q n" if "?t \<le> n" for n
    proof -
      have "Suc (block_of ?t) \<le> n div ?N" using div_le_mono [OF that, of ?N] nb by simp
      then have "Suc (n div ?N - Suc (block_of ?t)) = n div ?N - block_of ?t" by simp
      then show ?thesis unfolding slot_at_def bt w f(3) by simp
    qed
    have "inj_on (seg_walk q') {..<L}"
    proof (rule inj_onI)
      fix x y assume xy: "x \<in> {..<L}" "y \<in> {..<L}" "seg_walk q' x = seg_walk q' y"
      define m where "m z = (if Suc z = L then 0 else Suc z)" for z
      have mw: "seg_walk q' z = seg_walk q (m z)" for z using L(3) by (simp add: w m_def)
      have "m x \<in> {..<L}" "m y \<in> {..<L}" using xy(1,2) L(1) by (simp_all add: m_def)
      moreover have "seg_walk q (m x) = seg_walk q (m y)" using xy(3) mw by simp
      ultimately have "m x = m y" using inj_onD [OF L(2)] by blast
      then show "x = y" by (auto simp: m_def split: if_splits)
    qed
    moreover have "seg_walk q' L = c_seg q'" by (simp add: w seg_walk_Suc L(3) f)
    moreover have "p_seg q' = seg_walk q' (block_of (head q') - block_of (tail q'))"
      using L(5) hb unfolding w bt f(2,4) by (simp add: Suc_diff_Suc Suc_le_eq)
    ultimately have "spsc_ring q' L"
      using L(1,4) hb bt by (auto simp: spsc_ring_def f)
    then have "spsc_inv q'" using lt by (auto simp: spsc_inv_def f)
    moreover have "slot_at q ?t = slots (segs q (seg_walk q 1)) (?t mod ?N)" by (simp add: slot_at_def nb)
    moreover have "spsc_items q' = map (slot_at q) [Suc ?t..<head q]"
      unfolding spsc_items_def f by (rule map_cong) (simp_all add: sl)
    ultimately show ?thesis using items q'(1) by simp
  next
    case F: False
    have nb: "?t div ?N = block_of ?t" using block_inner [OF F] by simp
    have q': "r = Some (slots (segs q (c_seg q)) (?t mod ?N))" "q' = q\<lparr>tail := ?t + 1\<rparr>"
      using p unfolding spsc_queue_pop_def Let_def if_not_P [OF F] if_not_P [OF False] by simp_all
    have f: "tail q' = Suc ?t" "head q' = head q" "segs q' = segs q" "p_seg q' = p_seg q"
      "c_seg q' = c_seg q" "c_seg_shared q' = c_seg_shared q"
      by (simp_all add: q'(2))
    have w: "seg_walk q' = seg_walk q" by (rule ext) (simp add: seg_walk_def f)
    have bt: "block_of (tail q') = block_of ?t" by (simp add: f block_Suc nb)
    have "slot_at q' = slot_at q" by (rule ext) (simp add: slot_at_def bt w f(3))
    moreover have "spsc_ring q' L" using L unfolding spsc_ring_def w bt f(2-6) by simp
    then have "spsc_inv q'" using lt i(2) by (auto simp: spsc_inv_def f)
    moreover have "slot_at q ?t = slots (segs q (c_seg q)) (?t mod ?N)" by (simp add: slot_at_def nb)
    ultimately show ?thesis
      using items q'(1) by (simp add: spsc_items_def f)
  qed
qed

section \<open>Initialisation, failure and destruction\<close>

lemma spsc_init_ok:
  assumes "spsc_queue_init alloc q = (True, q')"
  shows "spsc_inv q' \<and> spsc_items q' = [] \<and> wake_edge q' = 0"
proof -
  obtain a where a: "q' = set_next a a (q\<lparr>head := 0, tail := 0, p_seg := a, c_seg := a, c_seg_shared := a, wake_edge := 0\<rparr>)"
    using assms by (auto simp: spsc_queue_init_def split: option.splits)
  have f: "tail q' = 0" "head q' = 0" "p_seg q' = a" "c_seg q' = a" "c_seg_shared q' = a" "wake_edge q' = 0"
    "seg_next (segs q' a) = a"
    by (simp_all add: a set_next_def)
  have "seg_walk q' k = a" for k by (induction k) (simp_all add: seg_walk_Suc f)
  then have "spsc_ring q' 1" by (simp add: spsc_ring_def f inj_on_def)
  then show ?thesis by (auto simp: spsc_inv_def spsc_items_def f)
qed

lemma spsc_push_fails:
  assumes "spsc_queue_push alloc m q = (False, q')"
  shows "alloc = None \<and> q' = q \<and> head q mod SPSC_SEG_SIZE = 0 \<and> seg_next (segs q (p_seg q)) = c_seg_shared q"
  using assms
  by (simp add: spsc_queue_push_def spsc_push_move_def Let_def split: option.splits if_splits)

lemma seg_walk_add: "seg_walk q (k + n) = ((\<lambda>a. seg_next (segs q a)) ^^ k) (seg_walk q n)"
  by (simp add: seg_walk_def funpow_add)

lemma seg_walk_wrap:
  assumes "seg_walk q L = c_seg q"
  shows "seg_walk q (k + L) = seg_walk q k"
  by (simp only: seg_walk_add assms) (simp only: seg_walk_def)

lemma seg_walk_mod:
  assumes "seg_walk q L = c_seg q"
  shows "seg_walk q n = seg_walk q (n mod L)"
proof -
  have "seg_walk q (j + k * L) = seg_walk q j" for j k
    by (induction k) (simp_all add: seg_walk_wrap [OF assms] add.assoc [symmetric] add.commute [of L])
  from this [of "n mod L" "n div L"] show ?thesis by simp
qed

lemma seg_walk_inj:
  assumes L: "0 < L" "inj_on (seg_walk q) {..<L}" "seg_walk q L = c_seg q"
  shows "seg_walk q x = seg_walk q y \<longleftrightarrow> x mod L = y mod L"
  using inj_on_eq_iff [OF L(2), of "x mod L" "y mod L"] L(1)
  by (simp add: seg_walk_mod [OF L(3), of x] seg_walk_mod [OF L(3), of y])

lemma destroy_walk_from:
  assumes L: "0 < L" "inj_on (seg_walk q) {..<L}" "seg_walk q L = c_seg q" and z: "0 \<notin> spsc_segs q"
  shows "k < L \<Longrightarrow> L - k \<le> fuel \<Longrightarrow>
    spsc_destroy_walk fuel (seg_walk q d) (seg_walk q (d + k)) q = Some (map (\<lambda>i. seg_walk q (d + i)) [k..<L])"
proof (induction fuel arbitrary: k)
  case 0
  then show ?case by simp
next
  case (Suc fuel)
  have nz: "seg_walk q n \<noteq> 0" for n using z by (auto simp: spsc_segs_def)
  have nxt: "seg_next (segs q (seg_walk q (d + k))) = seg_walk q (d + Suc k)" by (simp add: seg_walk_Suc)
  show ?case
  proof (cases "Suc k = L")
    case True
    have "[k..<L] = [k]" using True by (auto simp: upt_conv_Cons)
    moreover have "seg_walk q (d + L) = seg_walk q d" by (rule seg_walk_wrap [OF L(3)])
    ultimately show ?thesis by (simp only: spsc_destroy_walk.simps Let_def nxt True) simp
  next
    case False
    then have lt: "Suc k < L" using Suc.prems(1) by simp
    have "(d + Suc k) mod L \<noteq> d mod L" using shift_mod_neq [OF zero_less_Suc lt, of d] by simp
    then have ne: "seg_walk q (d + Suc k) \<noteq> seg_walk q d" by (simp add: seg_walk_inj [OF L])
    have ih: "spsc_destroy_walk fuel (seg_walk q d) (seg_walk q (d + Suc k)) q
      = Some (map (\<lambda>i. seg_walk q (d + i)) [Suc k..<L])"
      by (rule Suc.IH [OF lt]) (use Suc.prems(2) in simp)
    have "spsc_destroy_walk (Suc fuel) (seg_walk q d) (seg_walk q (d + k)) q
      = map_option ((#) (seg_walk q (d + k))) (spsc_destroy_walk fuel (seg_walk q d) (seg_walk q (d + Suc k)) q)"
      by (simp only: spsc_destroy_walk.simps Let_def nxt ne nz simp_thms if_True not_False_eq_True)
    then show ?thesis unfolding ih using Suc.prems(1) by (simp add: upt_conv_Cons)
  qed
qed

lemma destroy_frees:
  assumes inv: "spsc_inv q" and z: "0 \<notin> spsc_segs q"
  shows "finite (spsc_segs q) \<and> (\<forall>fuel \<ge> card (spsc_segs q). \<exists>freed.
    spsc_queue_destroy fuel q = Some (freed, q\<lparr>p_seg := 0, c_seg := 0\<rparr>) \<and>
    distinct freed \<and> set freed = spsc_segs q)"
proof -
  obtain L where r: "spsc_ring q L" using inv by (auto simp: spsc_inv_def)
  define d where "d = block_of (head q) - block_of (tail q)"
  have L: "0 < L" "inj_on (seg_walk q) {..<L}" "seg_walk q L = c_seg q" and d: "p_seg q = seg_walk q d"
    using r by (simp_all add: spsc_ring_def d_def)
  let ?l = "map (\<lambda>i. seg_walk q (d + i)) [0..<L]"
  have segs: "spsc_segs q = seg_walk q ` {..<L}"
  proof
    show "spsc_segs q \<subseteq> seg_walk q ` {..<L}"
    proof
      fix a assume "a \<in> spsc_segs q"
      then obtain n where "a = seg_walk q n" by (auto simp: spsc_segs_def)
      then have "a = seg_walk q (n mod L)" using seg_walk_mod [OF L(3), of n] by simp
      then show "a \<in> seg_walk q ` {..<L}" using L(1) by simp
    qed
  qed (auto simp: spsc_segs_def)
  have card: "card (spsc_segs q) = L" unfolding segs using card_image [OF L(2)] by simp
  have inj: "inj_on (\<lambda>i. seg_walk q (d + i)) {0..<L}"
  proof (rule inj_onI)
    fix x y assume "x \<in> {0..<L}" "y \<in> {0..<L}" "seg_walk q (d + x) = seg_walk q (d + y)"
    then have "(d + x) mod L = (d + y) mod L" "x < L" "y < L" by (simp_all add: seg_walk_inj [OF L])
    then show "x = y" using shift_mod_neq [of x y L d] shift_mod_neq [of y x L d] by (cases x y rule: linorder_cases) simp_all
  qed
  then have dist: "distinct ?l" by (simp add: distinct_map)
  have "set ?l \<subseteq> spsc_segs q" by (auto simp: spsc_segs_def)
  moreover have "card (set ?l) = card (spsc_segs q)" using distinct_card [OF dist] card by simp
  ultimately have set: "set ?l = spsc_segs q" by (intro card_subset_eq) (simp_all add: segs)
  have walk: "spsc_destroy_walk fuel (p_seg q) (p_seg q) q = Some ?l" if "L \<le> fuel" for fuel
    using destroy_walk_from [OF L z L(1), of fuel d] that by (simp add: d)
  have nz: "p_seg q \<noteq> 0" using z d by (auto simp: spsc_segs_def)
  show ?thesis unfolding card
    using walk nz dist set by (auto simp: segs spsc_queue_destroy_def)
qed

section \<open>FIFO interface\<close>

text \<open>
  What the clients of a queue rely on: a successful push appends, a failed push changes nothing, a pop
  takes the front.  \<open>fresh al q\<close> says that the allocation handed to the push is not in use by \<open>q\<close>.
\<close>

locale fifo_channel =
  fixes inv :: "'q \<Rightarrow> bool" and items :: "'q \<Rightarrow> 'm list"
    and fresh :: "'al \<Rightarrow> 'q \<Rightarrow> bool"
    and push :: "'al \<Rightarrow> 'm \<Rightarrow> 'q \<Rightarrow> bool \<times> 'q" and pop :: "'q \<Rightarrow> 'm option \<times> 'q"
  assumes push_law: "inv q \<Longrightarrow> fresh al q \<Longrightarrow> push al m q = (True, q') \<Longrightarrow> inv q' \<and> items q' = items q @ [m]"
    and push_fail: "push al m q = (False, q') \<Longrightarrow> q' = q"
    and pop_law: "inv q \<Longrightarrow> pop q = (r, q') \<Longrightarrow> inv q' \<and>
      (case items q of [] \<Rightarrow> r = None \<and> q' = q | m # ms \<Rightarrow> r = Some m \<and> items q' = ms)"
begin

text \<open>The messages sent are those delivered followed by those queued.\<close>

definition in_order :: "'m list \<Rightarrow> 'm list \<Rightarrow> 'q \<Rightarrow> bool" where
  "in_order sent delivered q \<longleftrightarrow> inv q \<and> sent = delivered @ items q"

lemma in_order_push:
  assumes "in_order sent dl q" "fresh al q" "push al m q = (True, q')"
  shows "in_order (sent @ [m]) dl q'"
  using assms push_law [of q al m q'] by (simp add: in_order_def)

lemma in_order_push_fail:
  assumes "in_order sent dl q" "push al m q = (False, q')"
  shows "in_order sent dl q'"
  using assms push_fail [of al m q q'] by simp

lemma in_order_pop:
  assumes "in_order sent dl q" "pop q = (Some m, q')"
  shows "in_order sent (dl @ [m]) q'"
  using assms pop_law [of q "Some m" q'] by (simp add: in_order_def split: list.splits)

lemma pop_none:
  assumes "inv q" "pop q = (None, q')"
  shows "items q = [] \<and> q' = q"
  using pop_law [OF assms] by (simp split: list.splits)

lemma pop_some_nonempty:
  assumes "inv q" "pop q = (Some m, q')"
  shows "items q = m # items q'"
  using pop_law [OF assms] by (simp split: list.splits)

end

definition spsc_fresh :: "seg_addr option \<Rightarrow> 'm spsc_queue \<Rightarrow> bool" where
  "spsc_fresh alloc q \<longleftrightarrow> (\<forall>a. alloc = Some a \<longrightarrow> a \<notin> spsc_segs q)"

interpretation fifo: fifo_channel spsc_inv spsc_items spsc_fresh spsc_queue_push spsc_queue_pop
proof
  fix al :: "seg_addr option" and m :: 'a and q q'
  show "spsc_inv q \<Longrightarrow> spsc_fresh al q \<Longrightarrow> spsc_queue_push al m q = (True, q') \<Longrightarrow>
    spsc_inv q' \<and> spsc_items q' = spsc_items q @ [m]"
    unfolding spsc_fresh_def by (rule spsc_push_ok)
  show "spsc_queue_push al m q = (False, q') \<Longrightarrow> q' = q" using spsc_push_fails [of al m q q'] by simp
next
  fix q q' :: "'a spsc_queue" and r
  show "spsc_inv q \<Longrightarrow> spsc_queue_pop q = (r, q') \<Longrightarrow> spsc_inv q' \<and>
      (case spsc_items q of [] \<Rightarrow> r = None \<and> q' = q | m # ms \<Rightarrow> r = Some m \<and> spsc_items q' = ms)"
    by (rule spsc_pop_ok)
qed

lemma spsc_empty_iff: "spsc_inv q \<Longrightarrow> spsc_queue_empty q \<longleftrightarrow> spsc_items q = []"
  by (auto simp: spsc_queue_empty_def spsc_items_def spsc_inv_def)

lemma wake_edge_frame:
  "spsc_inv (q\<lparr>wake_edge := e\<rparr>) = spsc_inv q" "spsc_items (q\<lparr>wake_edge := e\<rparr>) = spsc_items q"
  "spsc_queue_empty (q\<lparr>wake_edge := e\<rparr>) = spsc_queue_empty q" "spsc_fresh al (q\<lparr>wake_edge := e\<rparr>) = spsc_fresh al q"
proof -
  have w: "seg_walk (q\<lparr>wake_edge := e\<rparr>) = seg_walk q" by (rule ext) (simp add: seg_walk_def)
  then have "slot_at (q\<lparr>wake_edge := e\<rparr>) = slot_at q" by (simp add: fun_eq_iff slot_at_def)
  with w show "spsc_inv (q\<lparr>wake_edge := e\<rparr>) = spsc_inv q" "spsc_items (q\<lparr>wake_edge := e\<rparr>) = spsc_items q"
    "spsc_queue_empty (q\<lparr>wake_edge := e\<rparr>) = spsc_queue_empty q" "spsc_fresh al (q\<lparr>wake_edge := e\<rparr>) = spsc_fresh al q"
    by (simp_all add: spsc_inv_def spsc_ring_def spsc_items_def spsc_queue_empty_def spsc_fresh_def spsc_segs_def)
qed

lemma wake_edge_kept:
  "wake_edge (snd (spsc_queue_push al m q)) = wake_edge q" "wake_edge (snd (spsc_queue_pop q)) = wake_edge q"
  by (auto simp: spsc_queue_push_def spsc_push_move_def spsc_queue_pop_def set_slot_def set_next_def Let_def
      split: option.splits)

section \<open>Properties\<close>

text \<open>
  C17: The segmented ring refines a FIFO list.  On a well-formed queue, a push appends its message (and fails,
  changing nothing, only when it stands on a segment boundary, the next segment is the consumer's and the
  allocation failed); a pop returns the oldest message and fails exactly on the empty queue.  Both keep
  the ring well-formed, whatever the number of segments and wherever the boundary falls.
\<close>
theorem spsc_refines_fifo:
  assumes inv: "spsc_inv q" and fresh: "\<forall>a. alloc = Some a \<longrightarrow> a \<notin> spsc_segs q"
  shows "(case spsc_queue_push alloc m q of
       (True, q') \<Rightarrow> spsc_inv q' \<and> spsc_items q' = spsc_items q @ [m]
     | (False, q') \<Rightarrow> q' = q \<and> alloc = None \<and> head q mod SPSC_SEG_SIZE = 0 \<and>
         seg_next (segs q (p_seg q)) = c_seg_shared q) \<and>
    (case spsc_queue_pop q of
       (None, q') \<Rightarrow> spsc_items q = [] \<and> q' = q
     | (Some x, q') \<Rightarrow> spsc_inv q' \<and> spsc_items q = x # spsc_items q')"
proof (intro conjI)
  show "case spsc_queue_push alloc m q of
       (True, q') \<Rightarrow> spsc_inv q' \<and> spsc_items q' = spsc_items q @ [m]
     | (False, q') \<Rightarrow> q' = q \<and> alloc = None \<and> head q mod SPSC_SEG_SIZE = 0 \<and>
         seg_next (segs q (p_seg q)) = c_seg_shared q"
    using spsc_push_ok [OF inv fresh, of m] spsc_push_fails [of alloc m q] by (simp split: prod.split bool.split)
  show "case spsc_queue_pop q of
       (None, q') \<Rightarrow> spsc_items q = [] \<and> q' = q
     | (Some x, q') \<Rightarrow> spsc_inv q' \<and> spsc_items q = x # spsc_items q'"
    using fifo.pop_none [OF inv] fifo.pop_some_nonempty [OF inv] spsc_pop_ok [OF inv]
    by (simp split: prod.split option.split)
qed

text \<open>A queue whose single segment is full: the next push is on a boundary and expands the ring.\<close>

definition sample_queue :: "nat spsc_queue" where
  "sample_queue = \<lparr>head = 4096, p_seg = 1, tail = 0, c_seg = 1, c_seg_shared = 1, wake_edge = 0,
     segs = (\<lambda>a. \<lparr>seg_next = 1, slots = (\<lambda>i. i)\<rparr>)\<rparr>"

lemma sample_queue_walk: "seg_walk sample_queue k = 1"
  by (induction k) (simp_all add: seg_walk_Suc, simp_all add: sample_queue_def)

lemma sample_queue_inv: "spsc_inv sample_queue"
proof -
  have "spsc_ring sample_queue 1"
    by (simp add: spsc_ring_def sample_queue_walk inj_on_def)
      (simp add: sample_queue_def block_of_def SPSC_SEG_SIZE_def)
  then show ?thesis unfolding spsc_inv_def by (auto simp: sample_queue_def)
qed

lemma spsc_refines_fifo_witness:
  "fst (spsc_queue_push (Some 2) 7 sample_queue) \<and>
   spsc_items (snd (spsc_queue_push (Some 2) 7 sample_queue)) = spsc_items sample_queue @ [7] \<and>
   \<not> fst (spsc_queue_push None 7 sample_queue)"
proof -
  have "\<forall>a. Some 2 = Some a \<longrightarrow> a \<notin> spsc_segs sample_queue" by (auto simp: spsc_segs_def sample_queue_walk)
  note r = spsc_refines_fifo [OF sample_queue_inv this, of 7]
  have "fst (spsc_queue_push (Some 2) 7 sample_queue)" "\<not> fst (spsc_queue_push None 7 sample_queue)"
    by (simp_all add: spsc_queue_push_def spsc_push_move_def sample_queue_def SPSC_SEG_SIZE_def)
  with r show ?thesis by (simp split: prod.splits bool.splits)
qed

text \<open>
  Initialisation makes a well-formed empty queue, and destruction with fuel for the segments of the
  ring returns, frees every segment of the ring, and frees none twice.
\<close>
theorem spsc_lifecycle:
  "(spsc_queue_init (Some a) q0 = (True, q1) \<longrightarrow> spsc_inv q1 \<and> spsc_items q1 = []) \<and>
   (spsc_inv q \<and> 0 \<notin> spsc_segs q \<longrightarrow> finite (spsc_segs q) \<and>
     (\<forall>fuel \<ge> card (spsc_segs q). \<exists>freed. spsc_queue_destroy fuel q = Some (freed, q\<lparr>p_seg := 0, c_seg := 0\<rparr>) \<and>
       distinct freed \<and> set freed = spsc_segs q))"
  using spsc_init_ok [of "Some a" q0 q1] destroy_frees [of q] by simp

lemma spsc_lifecycle_witness:
  "spsc_items (snd (spsc_queue_init (Some 3) sample_queue)) = [] \<and>
   (\<exists>freed. spsc_queue_destroy 1 sample_queue = Some (freed, sample_queue\<lparr>p_seg := 0, c_seg := 0\<rparr>) \<and> set freed = {1})"
proof -
  have s: "spsc_segs sample_queue = {1}" by (auto simp: spsc_segs_def sample_queue_walk)
  obtain q1 where q1: "spsc_queue_init (Some 3) sample_queue = (True, q1)" by (simp add: spsc_queue_init_def)
  from spsc_lifecycle [of 3 sample_queue q1 sample_queue] show ?thesis
    by (simp add: q1 sample_queue_inv s) blast
qed

end
