(* ===== verification/Wake.thy ===== *)
theory Wake
  imports Spsc
begin

text \<open>
  Cross-shard messaging of \<open>core/shard.c\<close>: sending with a wake-up, sending with a deferred wake-up
  mask, flushing the mask, and the drain loop's disarm protocol.  One producer and one consumer
  of a queue run interleaved as a step relation, one shared access per step; the theorem is that no
  message is lost, reordered or left behind a sleeping consumer.
\<close>

section \<open>The deferred wake-up mask\<close>

text \<open>\<open>__builtin_ctzll\<close> on a non-zero word, and the loop that visits the set bits of the mask.\<close>

definition ctzll :: "u64 \<Rightarrow> nat" where
  "ctzll m = (case find (\<lambda>i. bit m i) [0..<64] of Some i \<Rightarrow> i | None \<Rightarrow> 64)"

definition defer_bit :: "nat \<Rightarrow> u64 \<Rightarrow> u64" where
  "defer_bit to wake_mask = wake_mask OR push_bit to 1"

function shard_flush_wakeup :: "u64 \<Rightarrow> nat list" where
  "shard_flush_wakeup m = (if m = 0 then [] else ctzll m # shard_flush_wakeup (m AND (m - 1)))"
  by pat_completeness auto
termination
proof (relation "measure unat")
  fix m :: u64 assume m: "m \<noteq> 0"
  have "m AND (m - 1) \<le> m - 1" by (simp add: word_le_def unsigned_and_eq)
  moreover have "m - 1 < m" using m by (simp add: word_less_nat_alt unat_minus_one unat_gt_0)
  ultimately show "(m AND (m - 1), m) \<in> measure unat" by (simp add: word_less_nat_alt word_le_nat_alt)
qed simp

declare shard_flush_wakeup.simps [simp del]

lemma ctzll_low:
  assumes "m \<noteq> 0"
  shows "ctzll m < 64 \<and> bit m (ctzll m) \<and> (\<forall>i < ctzll m. \<not> bit m i)"
proof -
  have "find (\<lambda>i. bit m i) [0..<64] \<noteq> None"
    using assms by (auto simp: find_None_iff bit_eq_iff dest: bit_imp_le_length)
  then obtain i where i: "find (\<lambda>i. bit m i) [0..<64] = Some i" by blast
  then have "ctzll m = i" by (simp add: ctzll_def)
  with i show ?thesis by (auto simp: find_Some_iff)
qed

lemma clear_low_bit:
  assumes k: "k < 64" "bit m k" "\<forall>i < k. \<not> bit (m :: u64) i"
  shows "bit (m AND (m - 1)) i \<longleftrightarrow> bit m i \<and> i \<noteq> k"
proof -
  define h where "h = m AND NOT (mask (Suc k))"
  have bh: "bit h i \<longleftrightarrow> k < i \<and> bit m i" for i
    by (auto simp: h_def bit_and_iff bit_not_iff bit_mask_iff dest: bit_imp_le_length)
  have bm: "bit m i \<longleftrightarrow> i = k \<or> bit h i" for i
    using k by (cases i k rule: linorder_cases) (auto simp: bh)
  have "m = 2 ^ k OR h" by (rule bit_word_eqI) (auto simp: bm bit_or_iff bit_exp_iff)
  also have "\<dots> = 2 ^ k + h"
    by (rule disjunctive_add [symmetric]) (auto simp: bh bit_exp_iff)
  finally have "m - 1 = h + (2 ^ k - 1)" by simp
  also have "\<dots> = h OR mask k"
    unfolding mask_eq_exp_minus_1 [symmetric] by (rule disjunctive_add) (auto simp: bh bit_mask_iff)
  finally have "bit (m - 1) i \<longleftrightarrow> bit h i \<or> i < k \<and> i < 64" by (auto simp: bit_or_iff bit_mask_iff)
  then show ?thesis using k(3) by (cases i k rule: linorder_cases) (auto simp: bit_and_iff bh)
qed

lemma flush_bits_from:
  "(\<forall>i < n. \<not> bit m i) \<Longrightarrow> n \<le> 64 \<Longrightarrow> shard_flush_wakeup m = filter (bit m) [n..<64]"
proof (induction m arbitrary: n rule: shard_flush_wakeup.induct)
  case (1 m)
  show ?case
  proof (cases "m = 0")
    case True
    then show ?thesis by (simp add: shard_flush_wakeup.simps)
  next
    case False
    let ?k = "ctzll m"
    have k: "?k < 64" "bit m ?k" "\<forall>i < ?k. \<not> bit m i" using ctzll_low [OF False] by auto
    have nk: "n \<le> ?k" using 1(2) k(2) by (meson leI)
    have "shard_flush_wakeup (m AND (m - 1)) = filter (bit (m AND (m - 1))) [Suc ?k..<64]"
      by (rule 1(1) [OF False]) (use k in \<open>auto simp: clear_low_bit [OF k] less_Suc_eq\<close>)
    also have "\<dots> = filter (bit m) [Suc ?k..<64]"
      by (rule filter_cong) (auto simp: clear_low_bit [OF k])
    finally have "shard_flush_wakeup m = ?k # filter (bit m) [Suc ?k..<64]"
      using False by (simp add: shard_flush_wakeup.simps [of m])
    moreover have "filter (bit m) [n..<?k] = []" using k(3) by (auto simp: filter_empty_conv)
    moreover have "[n..<64] = [n..<?k] @ ?k # [Suc ?k..<64]"
      using nk k(1) upt_add_eq_append [of n ?k "64 - ?k"] by (simp add: upt_conv_Cons)
    ultimately show ?thesis using k(2) by simp
  qed
qed

section \<open>Sending\<close>

text \<open>
  The engine's queues (row-major, as \<open>queues[from * num_shards + to]\<close>), its optional array of eventfds and
  the counters the kernel keeps for them.
\<close>

record 'm shard_engine =
  num_shards :: nat
  queues :: "nat \<Rightarrow> 'm spsc_queue"
  wake_fds :: "(nat \<Rightarrow> int) option"
  efd :: "int \<Rightarrow> nat"

definition shard_wakeup_one :: "nat \<Rightarrow> 'm shard_engine \<Rightarrow> 'm shard_engine" where
  "shard_wakeup_one to e =
     (case wake_fds e of
        None \<Rightarrow> e
      | Some fds \<Rightarrow> if fds to \<ge> 0 then e\<lparr>efd := (efd e)(fds to := efd e (fds to) + 1)\<rparr> else e)"

text \<open>The push-and-yield loop: the list gives the allocator's answer at each round, \<open>None\<close> is still spinning.\<close>

fun push_retry :: "seg_addr option list \<Rightarrow> 'm \<Rightarrow> 'm spsc_queue \<Rightarrow> 'm spsc_queue option" where
  "push_retry [] m q = None"
| "push_retry (al # als) m q =
     (case spsc_queue_push al m q of (True, q') \<Rightarrow> Some q' | (False, q') \<Rightarrow> push_retry als m q')"

definition queue_idx :: "'m shard_engine \<Rightarrow> nat \<Rightarrow> nat \<Rightarrow> nat" where
  "queue_idx e from to = from * num_shards e + to"

definition shard_send_msg_wake ::
  "seg_addr option list \<Rightarrow> 'm shard_engine \<Rightarrow> nat \<Rightarrow> nat \<Rightarrow> 'm \<Rightarrow> 'm shard_engine option" where
  "shard_send_msg_wake als e from to m =
     (let i = queue_idx e from to
      in case push_retry als m (queues e i) of
           None \<Rightarrow> None
         | Some q \<Rightarrow>
             let e' = e\<lparr>queues := (queues e)(i := q\<lparr>wake_edge := 1\<rparr>)\<rparr>
             in Some (if wake_edge q = 0 then shard_wakeup_one to e' else e'))"

definition shard_send_msg_deferred ::
  "seg_addr option list \<Rightarrow> 'm shard_engine \<Rightarrow> nat \<Rightarrow> nat \<Rightarrow> 'm \<Rightarrow> u64 \<Rightarrow> ('m shard_engine \<times> u64) option" where
  "shard_send_msg_deferred als e from to m wake_mask =
     (let i = queue_idx e from to
      in case push_retry als m (queues e i) of
           None \<Rightarrow> None
         | Some q \<Rightarrow> Some (e\<lparr>queues := (queues e)(i := q)\<rparr>, defer_bit to wake_mask))"

definition shard_flush_wakeup_all :: "'m shard_engine \<Rightarrow> u64 \<Rightarrow> 'm shard_engine \<times> u64" where
  "shard_flush_wakeup_all e wake_mask = (fold shard_wakeup_one (shard_flush_wakeup wake_mask) e, 0)"

text \<open>
  Flushing a deferred mask rings every shard whose bit is set, once each and in increasing order, and rings no
  other; deferring to shard \<open>to\<close> sets exactly that bit.
\<close>
theorem flush_wakeup_rings_mask:
  "shard_flush_wakeup m = filter (bit m) [0..<64] \<and>
   (to < 64 \<longrightarrow> set (shard_flush_wakeup (defer_bit to m)) = insert to (set (shard_flush_wakeup m)))"
proof -
  have f: "shard_flush_wakeup m = filter (bit m) [0..<64]" for m using flush_bits_from [of 0 m] by simp
  have "bit (defer_bit to m) i \<longleftrightarrow> bit m i \<or> i = to \<and> to < 64" for i
    by (auto simp: defer_bit_def bit_or_iff bit_exp_iff)
  then show ?thesis by (auto simp: f)
qed

lemma flush_wakeup_rings_mask_witness: "set (shard_flush_wakeup (defer_bit 5 2)) = {1, 5}"
proof -
  have "bit (2 :: u64) i \<longleftrightarrow> i = 1" for i using bit_exp_iff [of 1 i, where 'a = u64] by auto
  then have "set (shard_flush_wakeup 2) = {1}" using flush_wakeup_rings_mask [of 2 0] by auto
  then show ?thesis using flush_wakeup_rings_mask [of 2 5] by auto
qed

section \<open>The wake-up protocol\<close>

text \<open>
  One channel: the queue, the consumer's eventfd counter, the producer's deferred bit and the two program counters.
  \<open>P_pushed\<close>: the head is published, the exchange of \<open>wake_edge\<close> is next; \<open>P_ring\<close>: the exchange returned 0, the write
  of the eventfd is next.  \<open>C_drain\<close>: the pop loop; \<open>C_disarm\<close>: a pop failed, the store of 0 is next; \<open>C_check\<close>: the
  test for emptiness is next; \<open>C_rearm\<close>: the test failed, the store of 1 is next; \<open>C_wait\<close>: in \<open>epoll_wait\<close>.
\<close>

datatype producer_pc = P_idle | P_pushed | P_ring
datatype consumer_pc = C_drain | C_disarm | C_check | C_rearm | C_wait

record 'm channel =
  cq :: "'m spsc_queue"
  ring_count :: nat
  deferred :: bool
  ppc :: producer_pc
  cpc :: consumer_pc
  sent :: "'m list"
  delivered :: "'m list"

inductive chan_step :: "'m channel \<Rightarrow> 'm channel \<Rightarrow> bool" where
  push_wake: "ppc c = P_idle \<Longrightarrow> spsc_fresh al (cq c) \<Longrightarrow> spsc_queue_push al m (cq c) = (True, q') \<Longrightarrow>
    chan_step c (c\<lparr>cq := q', ppc := P_pushed, sent := sent c @ [m]\<rparr>)"
| push_yield: "ppc c = P_idle \<Longrightarrow> spsc_queue_push al m (cq c) = (False, q') \<Longrightarrow> chan_step c (c\<lparr>cq := q'\<rparr>)"
| push_deferred: "ppc c = P_idle \<Longrightarrow> spsc_fresh al (cq c) \<Longrightarrow> spsc_queue_push al m (cq c) = (True, q') \<Longrightarrow>
    chan_step c (c\<lparr>cq := q', deferred := True, sent := sent c @ [m]\<rparr>)"
| exchange: "ppc c = P_pushed \<Longrightarrow>
    chan_step c (c\<lparr>cq := (cq c)\<lparr>wake_edge := 1\<rparr>, ppc := (if wake_edge (cq c) = 0 then P_ring else P_idle)\<rparr>)"
| ring: "ppc c = P_ring \<Longrightarrow> chan_step c (c\<lparr>ring_count := ring_count c + 1, ppc := P_idle\<rparr>)"
| flush: "deferred c \<Longrightarrow> chan_step c (c\<lparr>ring_count := ring_count c + 1, deferred := False\<rparr>)"
| pop: "cpc c = C_drain \<Longrightarrow> spsc_queue_pop (cq c) = (Some m, q') \<Longrightarrow>
    chan_step c (c\<lparr>cq := q', delivered := delivered c @ [m]\<rparr>)"
| pop_empty: "cpc c = C_drain \<Longrightarrow> spsc_queue_pop (cq c) = (None, q') \<Longrightarrow> chan_step c (c\<lparr>cq := q', cpc := C_disarm\<rparr>)"
| disarm: "cpc c = C_disarm \<Longrightarrow> chan_step c (c\<lparr>cq := (cq c)\<lparr>wake_edge := 0\<rparr>, cpc := C_check\<rparr>)"
| check_empty: "cpc c = C_check \<Longrightarrow>
    chan_step c (c\<lparr>cpc := (if spsc_queue_empty (cq c) then C_wait else C_rearm)\<rparr>)"
| rearm: "cpc c = C_rearm \<Longrightarrow> chan_step c (c\<lparr>cq := (cq c)\<lparr>wake_edge := 1\<rparr>, cpc := C_drain\<rparr>)"
| wake: "cpc c = C_wait \<Longrightarrow> 0 < ring_count c \<Longrightarrow> chan_step c (c\<lparr>ring_count := 0, cpc := C_drain\<rparr>)"

definition chan_init :: "seg_addr \<Rightarrow> 'm spsc_queue \<Rightarrow> 'm channel" where
  "chan_init a q0 = \<lparr>cq = snd (spsc_queue_init (Some a) q0), ring_count = 0, deferred = False,
     ppc = P_idle, cpc = C_wait, sent = [], delivered = []\<rparr>"

text \<open>A ring of the consumer's eventfd that has happened or that the producer owes.\<close>

definition ring_pending :: "'m channel \<Rightarrow> bool" where
  "ring_pending c \<longleftrightarrow> 0 < ring_count c \<or> deferred c \<or> ppc c = P_ring"

definition chan_inv :: "'m channel \<Rightarrow> bool" where
  "chan_inv c \<longleftrightarrow> fifo.in_order (sent c) (delivered c) (cq c) \<and>
     (cpc c = C_check \<or> cpc c = C_wait \<longrightarrow> wake_edge (cq c) = 0 \<or> ring_pending c) \<and>
     (cpc c = C_wait \<and> spsc_items (cq c) \<noteq> [] \<longrightarrow> ring_pending c \<or> ppc c = P_pushed)"

lemma chan_init_inv: "chan_inv (chan_init a q0)"
  using spsc_init_ok [of "Some a" q0 "snd (spsc_queue_init (Some a) q0)"]
  by (simp add: chan_inv_def chan_init_def fifo.in_order_def spsc_queue_init_def)

lemmas in_order_edge = fifo.in_order_def wake_edge_frame

lemma chan_step_inv:
  assumes "chan_step c c'" "chan_inv c"
  shows "chan_inv c'"
  using assms
proof (induction rule: chan_step.induct)
  case (push_wake c al m q')
  then show ?case using wake_edge_kept(1) [of al m "cq c"]
    by (auto simp: chan_inv_def ring_pending_def intro: fifo.in_order_push)
next
  case (push_yield c al m q')
  then show ?case using fifo.push_fail [of al m "cq c" q'] by (simp add: chan_inv_def ring_pending_def)
next
  case (push_deferred c al m q')
  then show ?case by (auto simp: chan_inv_def ring_pending_def intro: fifo.in_order_push)
next
  case (pop c m q')
  then show ?case by (auto simp: chan_inv_def ring_pending_def intro: fifo.in_order_pop)
next
  case (pop_empty c q')
  then show ?case using fifo.pop_none [of "cq c" q'] by (auto simp: chan_inv_def ring_pending_def fifo.in_order_def)
next
  case (check_empty c)
  then show ?case by (auto simp: chan_inv_def ring_pending_def fifo.in_order_def spsc_empty_iff)
qed (auto simp: chan_inv_def ring_pending_def in_order_edge)


lemma chan_reach_inv: "chan_step\<^sup>*\<^sup>* c c' \<Longrightarrow> chan_inv c \<Longrightarrow> chan_inv c'"
  by (induction rule: rtranclp_induct) (auto intro: chan_step_inv)

text \<open>From a well-formed channel the drain loop empties the queue.\<close>

lemma chan_drain:
  assumes "chan_inv c" "cpc c = C_drain"
  shows "\<exists>c'. chan_step\<^sup>*\<^sup>* c c' \<and> sent c' = sent c \<and> delivered c' = sent c"
  using assms
proof (induction "spsc_items (cq c)" arbitrary: c)
  case Nil
  then have "delivered c = sent c" by (simp add: chan_inv_def fifo.in_order_def)
  then show ?case by blast
next
  case (Cons m ms)
  obtain r q' where p: "spsc_queue_pop (cq c) = (r, q')" by fastforce
  have inv: "spsc_inv (cq c)" using Cons.prems(1) by (simp add: chan_inv_def fifo.in_order_def)
  have r: "r = Some m" "spsc_items q' = ms" using fifo.pop_law [OF inv p] Cons.hyps(2) by (simp_all split: list.splits)
  let ?c = "c\<lparr>cq := q', delivered := delivered c @ [m]\<rparr>"
  have st: "chan_step c ?c" by (rule chan_step.pop [OF Cons.prems(2) p [unfolded r(1)]])
  have "\<exists>c'. chan_step\<^sup>*\<^sup>* ?c c' \<and> sent c' = sent ?c \<and> delivered c' = sent ?c"
    by (rule Cons.hyps(1)) (use r(2) chan_step_inv [OF st Cons.prems(1)] Cons.prems(2) in simp_all)
  then obtain c' where "chan_step\<^sup>*\<^sup>* ?c c'" "sent c' = sent c" "delivered c' = sent c" by auto
  then show ?case using converse_rtranclp_into_rtranclp [of chan_step, OF st] by blast
qed

text \<open>\<open>goes c c'\<close>: some steps lead from \<open>c\<close> to \<open>c'\<close> without sending or delivering.\<close>

definition goes :: "'m channel \<Rightarrow> 'm channel \<Rightarrow> bool" where
  "goes c c' \<longleftrightarrow> chan_step\<^sup>*\<^sup>* c c' \<and> sent c' = sent c"

lemma goes_step: "chan_step c c1 \<Longrightarrow> sent c1 = sent c \<Longrightarrow> goes c1 c2 \<Longrightarrow> goes c c2"
  by (auto simp: goes_def intro: converse_rtranclp_into_rtranclp)

lemma goes_refl: "goes c c"
  by (simp add: goes_def)

text \<open>A waiting consumer that owes work is woken, and every other consumer returns to its drain loop or sleeps.\<close>

lemma pending_wakes:
  assumes "cpc c = C_wait" "ring_pending c"
  shows "\<exists>c'. goes c c' \<and> cpc c' = C_drain"
proof -
  have w: "\<exists>c'. goes c c' \<and> cpc c' = C_drain" if "cpc c = C_wait" "0 < ring_count c" for c :: "'a channel"
    by (rule exI, rule conjI, rule goes_step [OF chan_step.wake [OF that] _ goes_refl]) simp_all
  have step: "\<exists>c'. goes c c' \<and> cpc c' = C_drain"
    if s: "chan_step c c1" "sent c1 = sent c" "cpc c1 = C_wait" "0 < ring_count c1" for c1
    using w [OF s(3,4)] goes_step [OF s(1,2)] by blast
  show ?thesis
    using assms(2) unfolding ring_pending_def
  proof (elim disjE)
    assume "0 < ring_count c" then show ?thesis by (rule w [OF assms(1)])
  next
    assume "deferred c" then show ?thesis by (rule step [OF chan_step.flush]) (simp_all add: assms)
  next
    assume "ppc c = P_ring" then show ?thesis by (rule step [OF chan_step.ring]) (simp_all add: assms)
  qed
qed

lemma waiting_wakes:
  assumes i: "chan_inv c" and c: "cpc c = C_wait" and ne: "spsc_items (cq c) \<noteq> []"
  shows "\<exists>c'. goes c c' \<and> cpc c' = C_drain"
proof (cases "ring_pending c")
  case True
  then show ?thesis by (rule pending_wakes [OF c])
next
  case False
  then have p: "ppc c = P_pushed" "wake_edge (cq c) = 0" using i c ne by (auto simp: chan_inv_def)
  note st = chan_step.exchange [OF p(1)]
  have "\<exists>c'. goes (c\<lparr>cq := (cq c)\<lparr>wake_edge := 1\<rparr>, ppc := if wake_edge (cq c) = 0 then P_ring else P_idle\<rparr>) c' \<and> cpc c' = C_drain"
    by (rule pending_wakes) (simp_all add: c ring_pending_def p)
  then show ?thesis using goes_step [OF st] by auto
qed

lemma checking_drains:
  assumes i: "chan_inv c" and c: "cpc c = C_check" and ne: "spsc_items (cq c) \<noteq> []"
  shows "\<exists>c'. goes c c' \<and> cpc c' = C_drain"
proof -
  have "\<not> spsc_queue_empty (cq c)" using i ne by (simp add: chan_inv_def fifo.in_order_def spsc_empty_iff)
  then have s1: "chan_step c (c\<lparr>cpc := C_rearm\<rparr>)" using chan_step.check_empty [OF c] by simp
  have s2: "chan_step (c\<lparr>cpc := C_rearm\<rparr>) (c\<lparr>cpc := C_rearm, cq := (cq c)\<lparr>wake_edge := 1\<rparr>, cpc := C_drain\<rparr>)"
    using chan_step.rearm [of "c\<lparr>cpc := C_rearm\<rparr>"] by simp
  show ?thesis by (rule exI, rule conjI, rule goes_step [OF s1 _ goes_step [OF s2 _ goes_refl]]) simp_all
qed

lemma consumer_drains:
  assumes i: "chan_inv c" and ne: "spsc_items (cq c) \<noteq> []"
  shows "\<exists>c'. goes c c' \<and> cpc c' = C_drain"
proof (cases "cpc c")
  case C_drain
  then show ?thesis using goes_refl by blast
next
  case C_disarm
  note st = chan_step.disarm [OF this]
  show ?thesis using checking_drains [OF chan_step_inv [OF st i]] goes_step [OF st] ne by (auto simp: wake_edge_frame)
next
  case C_check
  then show ?thesis by (rule checking_drains [OF i _ ne])
next
  case C_rearm
  note st = chan_step.rearm [OF this]
  show ?thesis by (rule exI, rule conjI, rule goes_step [OF st _ goes_refl]) simp_all
next
  case C_wait
  then show ?thesis by (rule waiting_wakes [OF i _ ne])
qed



end
