(* ===== verification/Txn.thy ===== *)
theory Txn
  imports Kv_Object
begin

text \<open>
  Model of \<open>core/message.h\<close> (packed opcodes, command and reply tags) and \<open>core/txn.h\<close>: transaction
  identities, the pending command, the wait group and the lock entry of the asynchronous MSET.
  Intrusive lists are lists of their elements; addresses of connections, statistics and buffers are numbers.
\<close>

section \<open>Packed opcodes\<close>

definition MSG_SYS_SHIFT :: nat where "MSG_SYS_SHIFT = 12"
definition MSG_SYS_MASK :: u16 where "MSG_SYS_MASK = 0xF000"
definition MSG_CMD_MASK :: u16 where "MSG_CMD_MASK = 0x0FFF"

definition MSG_PACK_OP :: "u16 \<Rightarrow> u16 \<Rightarrow> u16" where
  "MSG_PACK_OP sys cmd = push_bit MSG_SYS_SHIFT sys OR (cmd AND MSG_CMD_MASK)"
definition MSG_GET_SYS :: "u16 \<Rightarrow> u16" where
  "MSG_GET_SYS op = drop_bit MSG_SYS_SHIFT (op AND MSG_SYS_MASK)"
definition MSG_GET_CMD :: "u16 \<Rightarrow> u16" where
  "MSG_GET_CMD op = op AND MSG_CMD_MASK"

datatype spsc_sys_op = MSG_SYS_REQ | MSG_SYS_REPLY | MSG_SYS_RELEASE

fun spsc_sys_op_code :: "spsc_sys_op \<Rightarrow> u16" where
  "spsc_sys_op_code MSG_SYS_REQ = 1"
| "spsc_sys_op_code MSG_SYS_REPLY = 2"
| "spsc_sys_op_code MSG_SYS_RELEASE = 3"

datatype resp_cmd_id =
    MSG_CMD_GET | MSG_CMD_SET | MSG_CMD_DEL | MSG_CMD_EXISTS | MSG_CMD_TTL | MSG_CMD_PTTL | MSG_CMD_TYPE
  | MSG_CMD_INCR | MSG_CMD_STRLEN | MSG_CMD_DBSIZE | MSG_CMD_EXPIRE | MSG_CMD_PEXPIRE | MSG_CMD_PERSIST
  | MSG_CMD_EXPIREAT | MSG_CMD_PEXPIREAT | MSG_CMD_MGET_PART | MSG_CMD_MSET_PART | MSG_CMD_SET_NX
  | MSG_CMD_SET_XX | MSG_CMD_DEL_PART | MSG_CMD_MSET_PREPARE | MSG_CMD_MSET_DONE | MSG_CMD_MSET_FAIL
  | MSG_CMD_MSET_FIN | MSG_CMD_MSET_KEY | MSG_CMD_MSET_ACK | MSG_CMD_MSET_FIN_ACK | MSG_CMD_MSET_KEY_BATCH
  | MSG_CMD_MSET_ROLLBACK | MSG_CMD_MSET_ROLLBACK_ACK

fun resp_cmd_code :: "resp_cmd_id \<Rightarrow> u16" where
  "resp_cmd_code MSG_CMD_GET = 1"
| "resp_cmd_code MSG_CMD_SET = 2"
| "resp_cmd_code MSG_CMD_DEL = 3"
| "resp_cmd_code MSG_CMD_EXISTS = 4"
| "resp_cmd_code MSG_CMD_TTL = 5"
| "resp_cmd_code MSG_CMD_PTTL = 6"
| "resp_cmd_code MSG_CMD_TYPE = 7"
| "resp_cmd_code MSG_CMD_INCR = 8"
| "resp_cmd_code MSG_CMD_STRLEN = 9"
| "resp_cmd_code MSG_CMD_DBSIZE = 10"
| "resp_cmd_code MSG_CMD_EXPIRE = 11"
| "resp_cmd_code MSG_CMD_PEXPIRE = 12"
| "resp_cmd_code MSG_CMD_PERSIST = 13"
| "resp_cmd_code MSG_CMD_EXPIREAT = 14"
| "resp_cmd_code MSG_CMD_PEXPIREAT = 15"
| "resp_cmd_code MSG_CMD_MGET_PART = 100"
| "resp_cmd_code MSG_CMD_MSET_PART = 101"
| "resp_cmd_code MSG_CMD_SET_NX = 102"
| "resp_cmd_code MSG_CMD_SET_XX = 103"
| "resp_cmd_code MSG_CMD_DEL_PART = 104"
| "resp_cmd_code MSG_CMD_MSET_PREPARE = 200"
| "resp_cmd_code MSG_CMD_MSET_DONE = 201"
| "resp_cmd_code MSG_CMD_MSET_FAIL = 202"
| "resp_cmd_code MSG_CMD_MSET_FIN = 203"
| "resp_cmd_code MSG_CMD_MSET_KEY = 210"
| "resp_cmd_code MSG_CMD_MSET_ACK = 211"
| "resp_cmd_code MSG_CMD_MSET_FIN_ACK = 212"
| "resp_cmd_code MSG_CMD_MSET_KEY_BATCH = 213"
| "resp_cmd_code MSG_CMD_MSET_ROLLBACK = 204"
| "resp_cmd_code MSG_CMD_MSET_ROLLBACK_ACK = 205"

section \<open>Transaction identities\<close>

record txn_id =
  timestamp_ns :: u64
  conn_ptr :: addr
  pipeline_idx :: u32

definition txn_id_cmp :: "txn_id \<Rightarrow> txn_id \<Rightarrow> int" where
  "txn_id_cmp a b =
     (if timestamp_ns a \<noteq> timestamp_ns b then (if timestamp_ns a < timestamp_ns b then -1 else 1)
      else if pipeline_idx a \<noteq> pipeline_idx b then (if pipeline_idx a < pipeline_idx b then -1 else 1)
      else if conn_ptr a \<noteq> conn_ptr b then (if conn_ptr a < conn_ptr b then -1 else 1)
      else 0)"

definition txn_id_eq :: "txn_id \<Rightarrow> txn_id \<Rightarrow> bool" where
  "txn_id_eq a b \<longleftrightarrow> timestamp_ns a = timestamp_ns b \<and> conn_ptr a = conn_ptr b \<and> pipeline_idx a = pipeline_idx b"

definition txn_id_zero :: txn_id where
  "txn_id_zero = \<lparr>timestamp_ns = 0, conn_ptr = 0, pipeline_idx = 0\<rparr>"

text \<open>The order of the comparison, older first, makes the identities a linear order of the library.\<close>

instantiation txn_id_ext :: (linorder) linorder
begin

definition less_eq_txn_id_ext :: "'a txn_id_ext \<Rightarrow> 'a txn_id_ext \<Rightarrow> bool" where
  "less_eq_txn_id_ext a b \<longleftrightarrow> timestamp_ns a < timestamp_ns b \<or> timestamp_ns a = timestamp_ns b \<and>
     (pipeline_idx a < pipeline_idx b \<or> pipeline_idx a = pipeline_idx b \<and>
       (conn_ptr a < conn_ptr b \<or> conn_ptr a = conn_ptr b \<and> txn_id.more a \<le> txn_id.more b))"

definition less_txn_id_ext :: "'a txn_id_ext \<Rightarrow> 'a txn_id_ext \<Rightarrow> bool" where
  "less_txn_id_ext a b \<longleftrightarrow> a \<le> b \<and> \<not> b \<le> a"

instance
proof
  fix x y z :: "'a txn_id_ext"
  show "x < y \<longleftrightarrow> x \<le> y \<and> \<not> y \<le> x" by (rule less_txn_id_ext_def)
  show "x \<le> x" by (simp add: less_eq_txn_id_ext_def)
  show "x \<le> y \<Longrightarrow> y \<le> z \<Longrightarrow> x \<le> z" by (auto simp: less_eq_txn_id_ext_def)
  show "x \<le> y \<Longrightarrow> y \<le> x \<Longrightarrow> x = y" by (auto simp: less_eq_txn_id_ext_def)
  show "x \<le> y \<or> y \<le> x" by (auto simp: less_eq_txn_id_ext_def)
qed

end

lemma txn_id_cmp_le: "txn_id_cmp a b \<le> 0 \<longleftrightarrow> a \<le> (b :: txn_id)"
  by (auto simp: txn_id_cmp_def less_eq_txn_id_ext_def)

lemma txn_id_cmp_eq: "txn_id_cmp a b = 0 \<longleftrightarrow> a = b"
  by (cases a; cases b) (auto simp: txn_id_cmp_def)

lemma txn_id_eq_iff: "txn_id_eq a b \<longleftrightarrow> a = b"
  by (cases a; cases b) (auto simp: txn_id_eq_def)

lemma txn_id_cmp_neg: "txn_id_cmp b a = - txn_id_cmp a b"
  by (auto simp: txn_id_cmp_def)

lemma txn_id_cmp_less: "txn_id_cmp a b < 0 \<longleftrightarrow> a < (b :: txn_id)"
  using txn_id_cmp_le [of a b] txn_id_cmp_eq [of a b] by (auto simp: order_less_le)

lemma txn_id_cmp_ge: "0 \<le> txn_id_cmp a b \<longleftrightarrow> b \<le> (a :: txn_id)"
  using txn_id_cmp_less [of a b] by auto

section \<open>Pending commands and wait groups\<close>

text \<open>\<open>ci\<close> and \<open>wg\<close> are the addresses of the structures; \<open>'m\<close> is the deferred message.\<close>

record 'm cmd_info =
  ci :: addr
  is_mset :: bool
  ci_txn :: txn_id
  ci_stat :: addr
  new_obj :: addr
  old_obj :: addr
  sub_idx :: u32
  total_acks :: u32
  ci_msg :: 'm
  ci_hash56 :: u64
  origin_shard :: nat
  req_nb :: addr

record 'm wait_group =
  wg :: addr
  cmds :: "'m cmd_info list"
  wg_count :: nat
  wg_txn :: txn_id
  closed :: bool
  wg_origin :: nat

record 'm lock_entry =
  obj_ptr :: addr
  hash56 :: u64
  holder :: "'m cmd_info option"
  queue :: "'m wait_group list"
  open_groups :: "(nat \<Rightarrow> 'm wait_group option) option"
  le_num_shards :: nat

definition lock_entry_zero :: "'m lock_entry" where
  "lock_entry_zero = \<lparr>obj_ptr = 0, hash56 = 0, holder = None, queue = [], open_groups = None, le_num_shards = 0\<rparr>"

section \<open>Properties\<close>

text \<open>
  The packed opcode keeps both halves: every system code below 16 and every command of the enumeration is read
  back from the packed word, so two messages with different system or command codes have different opcodes.
\<close>
theorem msg_pack_roundtrip:
  "MSG_GET_CMD (MSG_PACK_OP sys (resp_cmd_code c)) = resp_cmd_code c \<and>
   (sys < 16 \<longrightarrow> MSG_GET_SYS (MSG_PACK_OP sys cmd) = sys) \<and>
   MSG_GET_CMD (MSG_PACK_OP sys cmd) = cmd AND MSG_CMD_MASK"
proof -
  have c: "MSG_GET_CMD (MSG_PACK_OP sys cmd) = cmd AND MSG_CMD_MASK" for cmd
  proof (rule bit_word_eqI)
    fix n assume "n < LENGTH(16)"
    have m: "(0x0FFF :: u16) = mask 12" by (simp add: mask_eq_exp_minus_1)
    show "bit (MSG_GET_CMD (MSG_PACK_OP sys cmd)) n = bit (cmd AND MSG_CMD_MASK) n"
      by (auto simp: MSG_GET_CMD_def MSG_PACK_OP_def MSG_CMD_MASK_def m MSG_SYS_SHIFT_def bit_simps)
  qed
  have "resp_cmd_code c AND MSG_CMD_MASK = resp_cmd_code c" by (cases c) (simp_all add: MSG_CMD_MASK_def)
  moreover have "MSG_GET_SYS (MSG_PACK_OP sys cmd) = sys" if "sys < 16"
  proof (rule bit_word_eqI)
    fix n assume "n < LENGTH(16)"
    have m: "(0x0FFF :: u16) = mask 12" "(0xF000 :: u16) = push_bit 12 (mask 4)"
      by (simp_all add: mask_eq_exp_minus_1 push_bit_eq_mult)
    have t: "take_bit 4 sys = sys" using that by (simp add: word_unat_eq_iff unsigned_take_bit_eq take_bit_nat_eq_self word_less_nat_alt)
    have s: "bit sys n \<Longrightarrow> n < 4" for n using arg_cong [OF t, of "\<lambda>w. bit w n"] by (simp add: bit_take_bit_iff)
    show "bit (MSG_GET_SYS (MSG_PACK_OP sys cmd)) n = bit sys n"
      by (auto simp: MSG_GET_SYS_def MSG_PACK_OP_def MSG_SYS_MASK_def MSG_CMD_MASK_def m MSG_SYS_SHIFT_def bit_simps dest: s)
  qed
  ultimately show ?thesis using c by simp
qed

lemma msg_pack_roundtrip_witness: "MSG_GET_SYS (MSG_PACK_OP (spsc_sys_op_code MSG_SYS_REPLY) 10) = 2"
  using msg_pack_roundtrip [of 2 MSG_CMD_GET 10] by simp

text \<open>
  C34: The comparison of transactions is a total order on the identities: it is 0 exactly for equal identities
  (which is what \<open>txn_id_eq\<close> tests), antisymmetric, transitive and total, and it is the lexicographic order by
  timestamp, then pipeline index, then connection.  The comment of the source names the shard as the first tie-break.
\<close>
theorem txn_order_total:
  "(txn_id_cmp a b = 0 \<longleftrightarrow> txn_id_eq a b) \<and> (txn_id_eq a b \<longleftrightarrow> a = b) \<and> txn_id_cmp b a = - txn_id_cmp a b \<and>
   (txn_id_cmp a b \<le> 0 \<or> txn_id_cmp b a \<le> 0) \<and>
   (txn_id_cmp a b < 0 \<longleftrightarrow> timestamp_ns a < timestamp_ns b \<or> timestamp_ns a = timestamp_ns b \<and>
     (pipeline_idx a < pipeline_idx b \<or> pipeline_idx a = pipeline_idx b \<and> conn_ptr a < conn_ptr b)) \<and>
   (txn_id_cmp a b < 0 \<and> txn_id_cmp b c < 0 \<longrightarrow> txn_id_cmp a c < 0)"
proof -
  have lt: "txn_id_cmp a b < 0 \<longleftrightarrow> timestamp_ns a < timestamp_ns b \<or> timestamp_ns a = timestamp_ns b \<and>
     (pipeline_idx a < pipeline_idx b \<or> pipeline_idx a = pipeline_idx b \<and> conn_ptr a < conn_ptr b)"
    by (auto simp: txn_id_cmp_def)
  have "txn_id_cmp a b < 0 \<and> txn_id_cmp b c < 0 \<longrightarrow> txn_id_cmp a c < 0" by (auto simp: txn_id_cmp_less)
  then show ?thesis
    using lt linear [of a b] by (auto simp: txn_id_eq_iff txn_id_cmp_eq txn_id_cmp_neg [of b a] txn_id_cmp_le txn_id_cmp_ge)
qed

lemma txn_order_total_witness:
  "txn_id_cmp \<lparr>timestamp_ns = 1, conn_ptr = 9, pipeline_idx = 0\<rparr> \<lparr>timestamp_ns = 2, conn_ptr = 3, pipeline_idx = 0\<rparr> < 0 \<and>
   txn_id_cmp \<lparr>timestamp_ns = 1, conn_ptr = 9, pipeline_idx = 0\<rparr> \<lparr>timestamp_ns = 2, conn_ptr = 3, pipeline_idx = 4\<rparr> < 0"
  using txn_order_total [of "\<lparr>timestamp_ns = 1, conn_ptr = 9, pipeline_idx = 0\<rparr>" "\<lparr>timestamp_ns = 2, conn_ptr = 3, pipeline_idx = 0\<rparr>"
      "\<lparr>timestamp_ns = 2, conn_ptr = 3, pipeline_idx = 4\<rparr>"]
  by (simp add: txn_id_cmp_def)

end
