(* ===== verification/Lock_Manager.thy ===== *)
theory Lock_Manager
  imports Txn
begin

text \<open>
  Model of \<open>core/lock_manager.c\<close>: the group-probed table from objects to lock entries, and the wait
  queues of a locked key.  A 16-bit match mask is the ascending list of its set bits, so that the
  count of trailing zeros is its head and clearing the lowest bit its tail.
\<close>

section \<open>The lock table\<close>

definition LOCK_TABLE_CAPACITY :: nat where "LOCK_TABLE_CAPACITY = 65536"
definition LOCK_TABLE_GROUP_SIZE :: nat where "LOCK_TABLE_GROUP_SIZE = 16"
definition LOCK_TABLE_NUM_GROUPS :: nat where
  "LOCK_TABLE_NUM_GROUPS = LOCK_TABLE_CAPACITY div LOCK_TABLE_GROUP_SIZE"
definition LOCK_TABLE_MAX_OCCUPANCY :: nat where
  "LOCK_TABLE_MAX_OCCUPANCY = LOCK_TABLE_CAPACITY * 3 div 4"
definition LOCK_CTRL_EMPTY :: u8 where "LOCK_CTRL_EMPTY = 0xFF"
definition LOCK_CTRL_DELETED :: u8 where "LOCK_CTRL_DELETED = 0x80"

record 'm lock_manager =
  entries :: "nat \<Rightarrow> 'm lock_entry"
  ctrl :: "nat \<Rightarrow> u8"
  lm_count :: nat
  deleted_count :: nat
  lm_shards :: nat

definition lm_h2 :: "u64 \<Rightarrow> u8" where
  "lm_h2 h = ucast (h AND 0x7F)"

definition lm_group :: "u64 \<Rightarrow> nat" where
  "lm_group h = unat (drop_bit 7 h) mod LOCK_TABLE_NUM_GROUPS"

definition lm_group_base :: "nat \<Rightarrow> nat" where
  "lm_group_base grp = grp * LOCK_TABLE_GROUP_SIZE"

definition lm_match_byte_mask :: "(nat \<Rightarrow> u8) \<Rightarrow> nat \<Rightarrow> u8 \<Rightarrow> nat list" where
  "lm_match_byte_mask cs base byte = filter (\<lambda>i. cs (base + i) = byte) [0..<LOCK_TABLE_GROUP_SIZE]"

text \<open>The scan of one group, and the probe loop with the number of groups left.\<close>

definition lm_scan_group :: "'m lock_manager \<Rightarrow> addr \<Rightarrow> u8 \<Rightarrow> nat \<Rightarrow> nat option" where
  "lm_scan_group lm p h2 base =
     map_option ((+) base)
       (find (\<lambda>i. obj_ptr (entries lm (base + i)) = p) (lm_match_byte_mask (ctrl lm) base h2))"

fun lm_find_from :: "'m lock_manager \<Rightarrow> addr \<Rightarrow> u8 \<Rightarrow> nat \<Rightarrow> nat \<Rightarrow> nat option" where
  "lm_find_from lm p h2 0 grp = None"
| "lm_find_from lm p h2 (Suc n) grp =
     (let base = lm_group_base grp
      in case lm_scan_group lm p h2 base of
           Some slot \<Rightarrow> Some slot
         | None \<Rightarrow>
             if lm_match_byte_mask (ctrl lm) base LOCK_CTRL_EMPTY \<noteq> [] then None
             else lm_find_from lm p h2 n ((grp + 1) mod LOCK_TABLE_NUM_GROUPS))"

definition lm_find_slot :: "'m lock_manager \<Rightarrow> addr \<Rightarrow> u64 \<Rightarrow> nat option" where
  "lm_find_slot lm p h = lm_find_from lm p (lm_h2 h) LOCK_TABLE_NUM_GROUPS (lm_group h)"

definition lm_reset_ctrl_if_empty :: "'m lock_manager \<Rightarrow> 'm lock_manager" where
  "lm_reset_ctrl_if_empty lm =
     (if lm_count lm \<noteq> 0 then lm else lm\<lparr>ctrl := (\<lambda>_. LOCK_CTRL_EMPTY), deleted_count := 0\<rparr>)"

text \<open>\<open>alloc\<close> is the result of the allocation of the array of open groups.\<close>

definition lm_insert_at ::
  "bool \<Rightarrow> 'm lock_manager \<Rightarrow> nat \<Rightarrow> addr \<Rightarrow> u64 \<Rightarrow> 'm cmd_info option \<Rightarrow> u8 \<Rightarrow> nat option \<times> 'm lock_manager" where
  "lm_insert_at alloc lm slot p h hold h2 =
     (let lm = lm\<lparr>entries := (entries lm)(slot := lock_entry_zero)\<rparr>
      in if \<not> alloc then (None, lm)
         else (Some slot, lm\<lparr>
           entries := (entries lm)(slot := \<lparr>obj_ptr = p, hash56 = h, holder = hold, queue = [],
             open_groups = Some (\<lambda>_. None), le_num_shards = lm_shards lm\<rparr>),
           deleted_count := (if ctrl lm slot = LOCK_CTRL_DELETED then deleted_count lm - 1 else deleted_count lm),
           ctrl := (ctrl lm)(slot := h2),
           lm_count := lm_count lm + 1\<rparr>))"

definition lock_manager_init :: "bool \<Rightarrow> bool \<Rightarrow> bool \<Rightarrow> nat \<Rightarrow> 'm lock_manager option" where
  "lock_manager_init arena_ok entries_ok ctrl_ok n =
     (if \<not> arena_ok then None else if \<not> entries_ok then None else if \<not> ctrl_ok then None
      else Some \<lparr>entries = (\<lambda>_. lock_entry_zero), ctrl = (\<lambda>_. LOCK_CTRL_EMPTY), lm_count = 0, deleted_count = 0, lm_shards = n\<rparr>)"

text \<open>The slots whose array of open groups destroy frees.\<close>

definition lock_manager_destroy :: "'m lock_manager \<Rightarrow> nat list" where
  "lock_manager_destroy lm =
     filter (\<lambda>i. ctrl lm i < LOCK_CTRL_DELETED \<and> open_groups (entries lm i) \<noteq> None) [0..<LOCK_TABLE_CAPACITY]"

definition lock_manager_lookup :: "'m lock_manager \<Rightarrow> addr \<Rightarrow> u64 \<Rightarrow> nat option" where
  "lock_manager_lookup lm p h = (if p = 0 then None else lm_find_slot lm p h)"

text \<open>The probe loop of insert: \<open>fd\<close> is \<open>first_deleted\<close>.\<close>

datatype insert_at = Existing nat | Free nat | No_slot

fun lm_insert_from :: "'m lock_manager \<Rightarrow> addr \<Rightarrow> u8 \<Rightarrow> nat option \<Rightarrow> nat \<Rightarrow> nat \<Rightarrow> insert_at" where
  "lm_insert_from lm p h2 fd 0 grp = (case fd of Some s \<Rightarrow> Free s | None \<Rightarrow> No_slot)"
| "lm_insert_from lm p h2 fd (Suc n) grp =
     (let base = lm_group_base grp
      in case lm_scan_group lm p h2 base of
           Some slot \<Rightarrow> Existing slot
         | None \<Rightarrow>
             let deleted_mask = lm_match_byte_mask (ctrl lm) base LOCK_CTRL_DELETED;
                 fd = (if fd = None \<and> deleted_mask \<noteq> [] then Some (base + hd deleted_mask) else fd);
                 empty_mask = lm_match_byte_mask (ctrl lm) base LOCK_CTRL_EMPTY
             in if empty_mask \<noteq> []
                then Free (case fd of Some s \<Rightarrow> s | None \<Rightarrow> base + hd empty_mask)
                else lm_insert_from lm p h2 fd n ((grp + 1) mod LOCK_TABLE_NUM_GROUPS))"

definition lock_manager_insert ::
  "bool \<Rightarrow> 'm lock_manager \<Rightarrow> addr \<Rightarrow> u64 \<Rightarrow> 'm cmd_info option \<Rightarrow> nat option \<times> 'm lock_manager" where
  "lock_manager_insert alloc lm p h hold =
     (if LOCK_TABLE_MAX_OCCUPANCY \<le> lm_count lm then (None, lm)
      else case lm_insert_from lm p (lm_h2 h) None LOCK_TABLE_NUM_GROUPS (lm_group h) of
             Existing s \<Rightarrow> (Some s, lm)
           | Free s \<Rightarrow> lm_insert_at alloc lm s p h hold (lm_h2 h)
           | No_slot \<Rightarrow> (None, lm))"

definition lock_manager_update_ptr :: "'m lock_manager \<Rightarrow> addr \<Rightarrow> addr \<Rightarrow> u64 \<Rightarrow> 'm lock_manager" where
  "lock_manager_update_ptr lm old_ptr new_ptr h =
     (case lock_manager_lookup lm old_ptr h of
        None \<Rightarrow> lm
      | Some s \<Rightarrow> lm\<lparr>entries := (entries lm)(s := (entries lm s)\<lparr>obj_ptr := new_ptr\<rparr>)\<rparr>)"

definition lock_manager_remove :: "'m lock_manager \<Rightarrow> addr \<Rightarrow> u64 \<Rightarrow> 'm lock_manager" where
  "lock_manager_remove lm p h =
     (case lm_find_slot lm p h of
        None \<Rightarrow> lm
      | Some s \<Rightarrow>
          lm_reset_ctrl_if_empty (lm\<lparr>entries := (entries lm)(s := lock_entry_zero),
            ctrl := (ctrl lm)(s := LOCK_CTRL_DELETED),
            lm_count := lm_count lm - 1, deleted_count := deleted_count lm + 1\<rparr>))"

section \<open>Invariant\<close>

definition live :: "'m lock_manager \<Rightarrow> nat \<Rightarrow> bool" where
  "live lm s \<longleftrightarrow> s < LOCK_TABLE_CAPACITY \<and> ctrl lm s < LOCK_CTRL_DELETED"

definition probe :: "u64 \<Rightarrow> nat \<Rightarrow> nat" where
  "probe h j = (lm_group h + j) mod LOCK_TABLE_NUM_GROUPS"

definition no_empty :: "'m lock_manager \<Rightarrow> nat \<Rightarrow> bool" where
  "no_empty lm g \<longleftrightarrow> (\<forall>i < LOCK_TABLE_GROUP_SIZE. ctrl lm (lm_group_base g + i) \<noteq> LOCK_CTRL_EMPTY)"

text \<open>Slot \<open>s\<close> is found from hash \<open>h\<close>: no group before its own has an empty slot.\<close>

definition reaches :: "'m lock_manager \<Rightarrow> u64 \<Rightarrow> nat \<Rightarrow> bool" where
  "reaches lm h s \<longleftrightarrow> (\<exists>d < LOCK_TABLE_NUM_GROUPS. s div LOCK_TABLE_GROUP_SIZE = probe h d \<and> (\<forall>j < d. no_empty lm (probe h j)))"

definition lm_inv :: "'m lock_manager \<Rightarrow> bool" where
  "lm_inv lm \<longleftrightarrow>
     (\<forall>s < LOCK_TABLE_CAPACITY. LOCK_CTRL_DELETED \<le> ctrl lm s \<longrightarrow> ctrl lm s = LOCK_CTRL_DELETED \<or> ctrl lm s = LOCK_CTRL_EMPTY) \<and>
     (\<forall>s. live lm s \<longrightarrow> obj_ptr (entries lm s) \<noteq> 0 \<and> ctrl lm s = lm_h2 (hash56 (entries lm s)) \<and>
        reaches lm (hash56 (entries lm s)) s) \<and>
     (\<forall>s t. live lm s \<and> live lm t \<and> obj_ptr (entries lm s) = obj_ptr (entries lm t) \<longrightarrow> s = t) \<and>
     lm_count lm = card {s. live lm s} \<and>
     deleted_count lm = card {s. s < LOCK_TABLE_CAPACITY \<and> ctrl lm s = LOCK_CTRL_DELETED}"

text \<open>The entry of an object.\<close>

definition lm_abs :: "'m lock_manager \<Rightarrow> addr \<Rightarrow> 'm lock_entry option" where
  "lm_abs lm p = (if \<exists>s. live lm s \<and> obj_ptr (entries lm s) = p
     then Some (entries lm (THE s. live lm s \<and> obj_ptr (entries lm s) = p)) else None)"

text \<open>The caller's hash of the object is the one its entry was made with.\<close>

definition hash_ok :: "'m lock_manager \<Rightarrow> addr \<Rightarrow> u64 \<Rightarrow> bool" where
  "hash_ok lm p h \<longleftrightarrow> (\<forall>s. live lm s \<and> obj_ptr (entries lm s) = p \<longrightarrow> hash56 (entries lm s) = h)"

section \<open>Probing\<close>

lemmas lock_consts = LOCK_TABLE_NUM_GROUPS_def LOCK_TABLE_CAPACITY_def LOCK_TABLE_GROUP_SIZE_def

lemma group_slot: "g < LOCK_TABLE_NUM_GROUPS \<Longrightarrow> i < LOCK_TABLE_GROUP_SIZE \<Longrightarrow>
    lm_group_base g + i < LOCK_TABLE_CAPACITY \<and> (lm_group_base g + i) div LOCK_TABLE_GROUP_SIZE = g"
  by (simp add: lock_consts lm_group_base_def)

lemma slot_group: "s < LOCK_TABLE_CAPACITY \<Longrightarrow> s div LOCK_TABLE_GROUP_SIZE < LOCK_TABLE_NUM_GROUPS \<and>
    s mod LOCK_TABLE_GROUP_SIZE < LOCK_TABLE_GROUP_SIZE \<and> s = lm_group_base (s div LOCK_TABLE_GROUP_SIZE) + s mod LOCK_TABLE_GROUP_SIZE"
  by (simp add: lock_consts lm_group_base_def less_mult_imp_div_less)

lemma mod_groups_less [simp]: "n mod LOCK_TABLE_NUM_GROUPS < LOCK_TABLE_NUM_GROUPS"
  by (simp add: lock_consts)

lemma match_mask_Nil: "lm_match_byte_mask c base b = [] \<longleftrightarrow> (\<forall>i < LOCK_TABLE_GROUP_SIZE. c (base + i) \<noteq> b)"
  by (auto simp: lm_match_byte_mask_def filter_empty_conv)

lemma no_empty_mask: "lm_match_byte_mask (ctrl lm) (lm_group_base g) LOCK_CTRL_EMPTY = [] \<longleftrightarrow> no_empty lm g"
  by (simp add: match_mask_Nil no_empty_def)

lemma match_mask_hd:
  assumes "lm_match_byte_mask c base b \<noteq> []"
  shows "hd (lm_match_byte_mask c base b) < LOCK_TABLE_GROUP_SIZE \<and> c (base + hd (lm_match_byte_mask c base b)) = b"
  using hd_in_set [OF assms] by (simp add: lm_match_byte_mask_def)

lemma scan_Some:
  assumes "lm_scan_group lm p h2 base = Some s"
  shows "\<exists>i < LOCK_TABLE_GROUP_SIZE. s = base + i \<and> ctrl lm s = h2 \<and> obj_ptr (entries lm s) = p"
proof -
  obtain i where i: "find (\<lambda>i. obj_ptr (entries lm (base + i)) = p) (lm_match_byte_mask (ctrl lm) base h2) = Some i" "s = base + i"
    using assms by (auto simp: lm_scan_group_def)
  then have "i \<in> set (lm_match_byte_mask (ctrl lm) base h2)" "obj_ptr (entries lm (base + i)) = p"
    by (auto simp: find_Some_iff in_set_conv_nth)
  then show ?thesis using i(2) by (auto simp: lm_match_byte_mask_def)
qed

lemma scan_None:
  "lm_scan_group lm p h2 base = None \<longleftrightarrow> (\<forall>i < LOCK_TABLE_GROUP_SIZE. ctrl lm (base + i) = h2 \<longrightarrow> obj_ptr (entries lm (base + i)) \<noteq> p)"
  by (auto simp: lm_scan_group_def find_None_iff lm_match_byte_mask_def)

lemma find_from_sound:
  assumes "g < LOCK_TABLE_NUM_GROUPS" "lm_find_from lm p h2 n g = Some s"
  shows "s < LOCK_TABLE_CAPACITY \<and> ctrl lm s = h2 \<and> obj_ptr (entries lm s) = p"
  using assms
proof (induction n arbitrary: g)
  case (Suc n)
  show ?case
  proof (cases "lm_scan_group lm p h2 (lm_group_base g)")
    case None
    then show ?thesis using Suc.prems(2) by (auto simp: Let_def split: if_splits intro!: Suc.IH)
  next
    case (Some t)
    then have "s = t" using Suc.prems(2) by (simp add: Let_def)
    then show ?thesis using scan_Some [OF Some] group_slot [OF Suc.prems(1)] by auto
  qed
qed simp

lemma find_from_complete:
  assumes "d < n" "s < LOCK_TABLE_CAPACITY" "s div LOCK_TABLE_GROUP_SIZE = (g + d) mod LOCK_TABLE_NUM_GROUPS"
    and "\<forall>j < d. no_empty lm ((g + j) mod LOCK_TABLE_NUM_GROUPS)" "ctrl lm s = h2" "obj_ptr (entries lm s) = p"
    and "g < LOCK_TABLE_NUM_GROUPS"
  shows "lm_find_from lm p h2 n g \<noteq> None"
  using assms
proof (induction n arbitrary: g d)
  case (Suc n)
  show ?case
  proof (cases d)
    case 0
    then have "s div LOCK_TABLE_GROUP_SIZE = g" using Suc.prems by simp
    then have "lm_scan_group lm p h2 (lm_group_base g) \<noteq> None"
      using slot_group [OF Suc.prems(2)] Suc.prems(5,6) by (auto simp: scan_None)
    then show ?thesis by (auto simp: Let_def)
  next
    case (Suc d')
    let ?g = "(g + 1) mod LOCK_TABLE_NUM_GROUPS"
    have sh: "(?g + j) mod LOCK_TABLE_NUM_GROUPS = (g + Suc j) mod LOCK_TABLE_NUM_GROUPS" for j
      by (simp add: mod_simps)
    have "no_empty lm g" using Suc.prems(4,7) Suc by force
    moreover have "lm_find_from lm p h2 n ?g \<noteq> None"
      by (rule Suc.IH [of d']) (use Suc.prems Suc sh in auto)
    ultimately show ?thesis by (simp add: Let_def no_empty_mask split: option.split)
  qed
qed simp

lemma h2_live: "lm_h2 h < LOCK_CTRL_DELETED"
proof -
  have "h AND 0x7F \<le> 0x7F" by (simp add: word_le_def unsigned_and_eq)
  then have "unat (h AND 0x7F) \<le> 127" by (simp add: word_le_nat_alt)
  then show ?thesis by (simp add: lm_h2_def LOCK_CTRL_DELETED_def word_less_nat_alt unsigned_ucast_eq take_bit_nat_eq_self)
qed

lemma lm_group_less [simp]: "lm_group h < LOCK_TABLE_NUM_GROUPS"
  by (simp add: lm_group_def)

lemma find_slot_sound: "lm_find_slot lm p h = Some s \<Longrightarrow> live lm s \<and> ctrl lm s = lm_h2 h \<and> obj_ptr (entries lm s) = p"
  using find_from_sound [of "lm_group h" lm p "lm_h2 h" LOCK_TABLE_NUM_GROUPS s] h2_live [of h]
  by (simp add: lm_find_slot_def live_def)

lemma find_slot_iff:
  assumes inv: "lm_inv lm" and h: "hash_ok lm p h"
  shows "lm_find_slot lm p h = Some s \<longleftrightarrow> live lm s \<and> obj_ptr (entries lm s) = p"
proof
  assume s: "live lm s \<and> obj_ptr (entries lm s) = p"
  then have hs: "hash56 (entries lm s) = h" using h by (simp add: hash_ok_def)
  then obtain d where d: "d < LOCK_TABLE_NUM_GROUPS" "s div LOCK_TABLE_GROUP_SIZE = probe h d" "\<forall>j < d. no_empty lm (probe h j)"
    and c: "ctrl lm s = lm_h2 h"
    using inv s by (auto simp: lm_inv_def reaches_def)
  have "lm_find_slot lm p h \<noteq> None"
    unfolding lm_find_slot_def
    by (rule find_from_complete [OF d(1) _ d(2,3) [unfolded probe_def] c]) (use s in \<open>simp_all add: live_def\<close>)
  then obtain t where t: "lm_find_slot lm p h = Some t" by blast
  have "t = s" using find_slot_sound [OF t] s inv by (simp add: lm_inv_def)
  then show "lm_find_slot lm p h = Some s" using t by simp
qed (simp add: find_slot_sound)

lemma lm_abs_live:
  assumes "lm_inv lm" "live lm s"
  shows "lm_abs lm (obj_ptr (entries lm s)) = Some (entries lm s)"
proof -
  have "(THE t. live lm t \<and> obj_ptr (entries lm t) = obj_ptr (entries lm s)) = s"
    using assms by (intro the_equality) (auto simp: lm_inv_def)
  then show ?thesis using assms by (auto simp: lm_abs_def)
qed

lemma lm_abs_None: "lm_abs lm p = None \<longleftrightarrow> (\<forall>s. live lm s \<longrightarrow> obj_ptr (entries lm s) \<noteq> p)"
  by (auto simp: lm_abs_def)

lemma lookup_abs:
  assumes inv: "lm_inv lm" and h: "hash_ok lm p h"
  shows "lm_abs lm p = map_option (entries lm) (lock_manager_lookup lm p h)"
proof (cases "lm_find_slot lm p h")
  case None
  then have "\<forall>s. live lm s \<longrightarrow> obj_ptr (entries lm s) \<noteq> p" using find_slot_iff [OF inv h] by auto
  then show ?thesis using None by (auto simp: lock_manager_lookup_def lm_abs_None)
next
  case (Some s)
  then have s: "live lm s" "obj_ptr (entries lm s) = p" using find_slot_iff [OF inv h] by auto
  then have "p \<noteq> 0" using inv by (auto simp: lm_inv_def)
  then show ?thesis using Some lm_abs_live [OF inv s(1)] s(2) by (simp add: lock_manager_lookup_def)
qed


section \<open>Updates\<close>

lemma finite_slots: "finite {s. s < LOCK_TABLE_CAPACITY \<and> P s}"
  by simp

lemma finite_live: "finite {s. live lm s}"
  by (rule finite_subset [of _ "{..<LOCK_TABLE_CAPACITY}"]) (auto simp: live_def)

text \<open>What the probe loop of insert returns, from \<open>k\<close> groups already passed.\<close>

definition free_slot :: "'m lock_manager \<Rightarrow> u64 \<Rightarrow> nat \<Rightarrow> bool" where
  "free_slot lm h s \<longleftrightarrow> s < LOCK_TABLE_CAPACITY \<and> (ctrl lm s = LOCK_CTRL_EMPTY \<or> ctrl lm s = LOCK_CTRL_DELETED) \<and> reaches lm h s"

definition passed :: "'m lock_manager \<Rightarrow> u64 \<Rightarrow> nat option \<Rightarrow> nat \<Rightarrow> bool" where
  "passed lm h fd k \<longleftrightarrow> (\<forall>j < k. no_empty lm (probe h j) \<and>
       (fd = None \<longrightarrow> lm_match_byte_mask (ctrl lm) (lm_group_base (probe h j)) LOCK_CTRL_DELETED = [])) \<and>
     (\<forall>s. fd = Some s \<longrightarrow> free_slot lm h s)"

lemma passed_all_full:
  assumes p: "passed lm h None LOCK_TABLE_NUM_GROUPS" and inv: "lm_inv lm" and s: "s < LOCK_TABLE_CAPACITY"
  shows "live lm s"
proof -
  let ?N = LOCK_TABLE_NUM_GROUPS and ?g = "s div LOCK_TABLE_GROUP_SIZE"
  have g: "?g < ?N" "s = lm_group_base ?g + s mod LOCK_TABLE_GROUP_SIZE" "s mod LOCK_TABLE_GROUP_SIZE < LOCK_TABLE_GROUP_SIZE"
    using slot_group [OF s] by auto
  let ?j = "(?g + ?N - lm_group h) mod ?N"
  have "lm_group h + (?g + ?N - lm_group h) = ?g + ?N" using lm_group_less [of h] by linarith
  then have "probe h ?j = ?g" unfolding probe_def mod_add_right_eq using g(1) by simp
  moreover have "?j < ?N" by simp
  ultimately have "no_empty lm ?g" "lm_match_byte_mask (ctrl lm) (lm_group_base ?g) LOCK_CTRL_DELETED = []"
    using p unfolding passed_def by (metis)+
  then have "ctrl lm s \<noteq> LOCK_CTRL_EMPTY" "ctrl lm s \<noteq> LOCK_CTRL_DELETED"
    using g(2,3) unfolding no_empty_def match_mask_Nil by metis+
  then show ?thesis using inv s by (auto simp: lm_inv_def live_def)
qed

lemma insert_from_existing:
  "lm_insert_from lm p h2 fd n g = Existing s \<longleftrightarrow> lm_find_from lm p h2 n g = Some s"
proof (induction n arbitrary: fd g)
  case 0
  then show ?case by (simp split: option.split)
next
  case (Suc n)
  show ?case
    by (cases "lm_scan_group lm p h2 (lm_group_base g)") (simp_all only: lm_insert_from.simps lm_find_from.simps Let_def
      option.case Suc.IH insert_at.inject insert_at.distinct option.inject option.distinct if_split_eq1 simp_thms split: if_split)
qed

lemma probe_Suc: "(probe h k + 1) mod LOCK_TABLE_NUM_GROUPS = probe h (Suc k)"
  by (simp add: probe_def mod_simps)

lemma probe_less [simp]: "probe h k < LOCK_TABLE_NUM_GROUPS"
  by (simp add: probe_def)

lemma passed_free:
  assumes "passed lm h fd k" "k < LOCK_TABLE_NUM_GROUPS" "b = LOCK_CTRL_EMPTY \<or> b = LOCK_CTRL_DELETED"
    and m: "lm_match_byte_mask (ctrl lm) (lm_group_base (probe h k)) b \<noteq> []"
  shows "free_slot lm h (lm_group_base (probe h k) + hd (lm_match_byte_mask (ctrl lm) (lm_group_base (probe h k)) b))"
proof -
  let ?i = "hd (lm_match_byte_mask (ctrl lm) (lm_group_base (probe h k)) b)"
  have i: "?i < LOCK_TABLE_GROUP_SIZE" "ctrl lm (lm_group_base (probe h k) + ?i) = b" using match_mask_hd [OF m] by simp_all
  have "\<forall>j < k. no_empty lm (probe h j)" using assms(1) by (simp add: passed_def)
  then show ?thesis using group_slot [OF probe_less [of h k] i(1)] i(2) assms(2,3)
    unfolding free_slot_def reaches_def by (intro conjI exI [of _ k]) simp_all
qed

definition next_deleted :: "'m lock_manager \<Rightarrow> u64 \<Rightarrow> nat option \<Rightarrow> nat \<Rightarrow> nat option" where
  "next_deleted lm h fd k =
     (let m = lm_match_byte_mask (ctrl lm) (lm_group_base (probe h k)) LOCK_CTRL_DELETED
      in if fd = None \<and> m \<noteq> [] then Some (lm_group_base (probe h k) + hd m) else fd)"

lemma passed_next:
  assumes p: "passed lm h fd k" and k: "k < LOCK_TABLE_NUM_GROUPS"
  shows "\<forall>s. next_deleted lm h fd k = Some s \<longrightarrow> free_slot lm h s"
    and "no_empty lm (probe h k) \<Longrightarrow> passed lm h (next_deleted lm h fd k) (Suc k)"
proof -
  show f: "\<forall>s. next_deleted lm h fd k = Some s \<longrightarrow> free_slot lm h s"
    using p passed_free [OF p k, of LOCK_CTRL_DELETED] by (auto simp: next_deleted_def Let_def passed_def)
  assume "no_empty lm (probe h k)"
  then show "passed lm h (next_deleted lm h fd k) (Suc k)"
    using f p by (auto simp: passed_def less_Suc_eq next_deleted_def Let_def)
qed

lemma insert_from_spec:
  assumes "passed lm h fd k" "k + n = LOCK_TABLE_NUM_GROUPS"
  shows "case lm_insert_from lm p (lm_h2 h) fd n (probe h k) of
      Existing s \<Rightarrow> True | Free s \<Rightarrow> free_slot lm h s | No_slot \<Rightarrow> passed lm h None LOCK_TABLE_NUM_GROUPS"
  using assms
proof (induction n arbitrary: fd k)
  case 0
  then show ?case by (auto simp: passed_def split: option.splits)
next
  case (Suc n)
  have k: "k < LOCK_TABLE_NUM_GROUPS" using Suc.prems(2) by simp
  let ?fd = "next_deleted lm h fd k" and ?b = "lm_group_base (probe h k)"
  let ?e = "lm_match_byte_mask (ctrl lm) ?b LOCK_CTRL_EMPTY"
  have step: "lm_insert_from lm p (lm_h2 h) fd (Suc n) (probe h k) =
    (case lm_scan_group lm p (lm_h2 h) ?b of Some s \<Rightarrow> Existing s
     | None \<Rightarrow> if ?e \<noteq> [] then Free (case ?fd of Some s \<Rightarrow> s | None \<Rightarrow> ?b + hd ?e)
         else lm_insert_from lm p (lm_h2 h) ?fd n (probe h (Suc k)))"
    by (simp only: lm_insert_from.simps Let_def next_deleted_def probe_Suc)
  show ?case
  proof (cases "lm_scan_group lm p (lm_h2 h) ?b")
    case None
    show ?thesis
    proof (cases "?e = []")
      case True
      then have "passed lm h ?fd (Suc k)" using passed_next(2) [OF Suc.prems(1) k] by (simp add: no_empty_mask)
      then show ?thesis unfolding step using Suc.IH [of ?fd "Suc k"] Suc.prems(2) None True by simp
    next
      case False
      have "free_slot lm h (case ?fd of Some s \<Rightarrow> s | None \<Rightarrow> ?b + hd ?e)"
        using passed_next(1) [OF Suc.prems(1) k] passed_free [OF Suc.prems(1) k _ False] by (auto split: option.split)
      then show ?thesis unfolding step using None False by simp
    qed
  qed (simp add: step)
qed

lemma option_eqI: "(\<And>x. a = Some x \<longleftrightarrow> b = Some x) \<Longrightarrow> a = b"
  by (cases a; cases b) auto

lemma lm_invD:
  assumes "lm_inv lm"
  shows "s < LOCK_TABLE_CAPACITY \<Longrightarrow> LOCK_CTRL_DELETED \<le> ctrl lm s \<Longrightarrow> ctrl lm s = LOCK_CTRL_DELETED \<or> ctrl lm s = LOCK_CTRL_EMPTY"
    and "live lm s \<Longrightarrow> obj_ptr (entries lm s) \<noteq> 0"
    and "live lm s \<Longrightarrow> ctrl lm s = lm_h2 (hash56 (entries lm s))"
    and "live lm s \<Longrightarrow> reaches lm (hash56 (entries lm s)) s"
    and "live lm s \<Longrightarrow> live lm t \<Longrightarrow> obj_ptr (entries lm s) = obj_ptr (entries lm t) \<Longrightarrow> s = t"
    and "lm_count lm = card {s. live lm s}"
    and "deleted_count lm = card {s. s < LOCK_TABLE_CAPACITY \<and> ctrl lm s = LOCK_CTRL_DELETED}"
  using assms unfolding lm_inv_def by simp_all

lemma lm_invI:
  assumes "\<And>s. s < LOCK_TABLE_CAPACITY \<Longrightarrow> LOCK_CTRL_DELETED \<le> ctrl lm s \<Longrightarrow> ctrl lm s = LOCK_CTRL_DELETED \<or> ctrl lm s = LOCK_CTRL_EMPTY"
    and "\<And>s. live lm s \<Longrightarrow> obj_ptr (entries lm s) \<noteq> 0 \<and> ctrl lm s = lm_h2 (hash56 (entries lm s)) \<and> reaches lm (hash56 (entries lm s)) s"
    and "\<And>s t. live lm s \<Longrightarrow> live lm t \<Longrightarrow> obj_ptr (entries lm s) = obj_ptr (entries lm t) \<Longrightarrow> s = t"
    and "lm_count lm = card {s. live lm s}"
    and "deleted_count lm = card {s. s < LOCK_TABLE_CAPACITY \<and> ctrl lm s = LOCK_CTRL_DELETED}"
  shows "lm_inv lm"
  unfolding lm_inv_def using assms by blast

lemma lm_abs_Some_iff:
  assumes "lm_inv lm"
  shows "lm_abs lm p = Some e \<longleftrightarrow> (\<exists>s. live lm s \<and> obj_ptr (entries lm s) = p \<and> entries lm s = e)"
proof (cases "\<exists>s. live lm s \<and> obj_ptr (entries lm s) = p")
  case True
  then obtain s where s: "live lm s" "obj_ptr (entries lm s) = p" by blast
  have u: "live lm t \<Longrightarrow> obj_ptr (entries lm t) = p \<Longrightarrow> t = s" for t using assms s by (simp add: lm_inv_def)
  have "lm_abs lm p = Some (entries lm s)" using lm_abs_live [OF assms s(1)] s(2) by simp
  then show ?thesis using s u by (metis option.inject)
next
  case False
  then have "lm_abs lm p = None" by (simp add: lm_abs_None)
  then show ?thesis using False by auto
qed

lemma reaches_mono:
  assumes "\<And>t. ctrl lm' t = LOCK_CTRL_EMPTY \<Longrightarrow> ctrl lm t = LOCK_CTRL_EMPTY" "reaches lm h s"
  shows "reaches lm' h s"
proof -
  have "no_empty lm g \<Longrightarrow> no_empty lm' g" for g using assms(1) by (auto simp: no_empty_def)
  then show ?thesis using assms(2) by (auto simp: reaches_def)
qed

lemma ctrl_codes: "LOCK_CTRL_EMPTY \<noteq> LOCK_CTRL_DELETED" "\<not> LOCK_CTRL_EMPTY < LOCK_CTRL_DELETED"
  "lm_h2 h \<noteq> LOCK_CTRL_EMPTY" "lm_h2 h \<noteq> LOCK_CTRL_DELETED"
  using h2_live [of h] by (auto simp: LOCK_CTRL_EMPTY_def LOCK_CTRL_DELETED_def)

lemma free_not_live: "free_slot lm h s \<Longrightarrow> \<not> live lm s"
  using ctrl_codes(2) by (auto simp: free_slot_def live_def)

text \<open>Writing a fresh entry into a free slot.\<close>

lemma insert_at_ok:
  assumes inv: "lm_inv lm" and f: "free_slot lm h s" and p: "p \<noteq> 0" and new: "lm_abs lm p = None"
    and e: "lm_insert_at True lm s p h hold (lm_h2 h) = (r, lm')"
  defines "le \<equiv> \<lparr>obj_ptr = p, hash56 = h, holder = hold, queue = [], open_groups = Some (\<lambda>_. None), le_num_shards = lm_shards lm\<rparr>"
  shows "r = Some s \<and> entries lm' s = le \<and> lm_inv lm' \<and> lm_abs lm' = (lm_abs lm)(p \<mapsto> le) \<and> lm_count lm' = lm_count lm + 1"
proof -
  have en: "entries lm' = (entries lm)(s := le)" and ct: "ctrl lm' = (ctrl lm)(s := lm_h2 h)"
    and co: "lm_count lm' = lm_count lm + 1" and r: "r = Some s"
    and de: "deleted_count lm' = (if ctrl lm s = LOCK_CTRL_DELETED then deleted_count lm - 1 else deleted_count lm)"
    using e by (auto simp: lm_insert_at_def le_def Let_def)
  have s: "s < LOCK_TABLE_CAPACITY" "ctrl lm s = LOCK_CTRL_EMPTY \<or> ctrl lm s = LOCK_CTRL_DELETED" "reaches lm h s"
    using f by (simp_all add: free_slot_def)
  have nl: "\<not> live lm s" by (rule free_not_live [OF f])
  have lv: "live lm' t \<longleftrightarrow> live lm t \<or> t = s" for t using s(1) h2_live [of h] nl by (auto simp: live_def ct)
  have mono: "reaches lm k t \<Longrightarrow> reaches lm' k t" for k t
    by (rule reaches_mono) (auto simp: ct ctrl_codes split: if_splits)
  have np: "live lm t \<Longrightarrow> obj_ptr (entries lm t) \<noteq> p" for t using new by (simp add: lm_abs_None)
  have les: "obj_ptr le = p" "hash56 le = h" by (simp_all add: le_def)
  have "{t. live lm' t} = insert s {t. live lm t}" by (auto simp: lv)
  then have c1: "card {t. live lm' t} = Suc (card {t. live lm t})" using nl by (simp add: finite_live)
  let ?D = "\<lambda>lm :: 'a lock_manager. {t. t < LOCK_TABLE_CAPACITY \<and> ctrl lm t = LOCK_CTRL_DELETED}"
  have "?D lm' = ?D lm - {s}" by (auto simp: ct ctrl_codes)
  then have c2: "card (?D lm') = (if ctrl lm s = LOCK_CTRL_DELETED then card (?D lm) - 1 else card (?D lm))"
    using s(1) by (simp add: card_Diff_singleton_if)
  have inv': "lm_inv lm'"
  proof (rule lm_invI)
    fix t assume t: "live lm' t"
    show "obj_ptr (entries lm' t) \<noteq> 0 \<and> ctrl lm' t = lm_h2 (hash56 (entries lm' t)) \<and> reaches lm' (hash56 (entries lm' t)) t"
      using t p s(3) lm_invD(2-4) [OF inv, of t] by (cases "t = s") (simp_all add: en lv les ct mono)
    fix u assume "live lm' u" "obj_ptr (entries lm' t) = obj_ptr (entries lm' u)"
    then show "t = u" using t np [of t] np [of u] lm_invD(5) [OF inv, of t u] by (auto simp: en lv les split: if_splits)
  next
    fix t assume "t < LOCK_TABLE_CAPACITY" "LOCK_CTRL_DELETED \<le> ctrl lm' t"
    then show "ctrl lm' t = LOCK_CTRL_DELETED \<or> ctrl lm' t = LOCK_CTRL_EMPTY"
      using lm_invD(1) [OF inv, of t] h2_live [of h] by (auto simp: ct split: if_splits)
  qed (simp_all add: co c1 de c2 lm_invD(6,7) [OF inv])
  have "lm_abs lm' q = ((lm_abs lm)(p \<mapsto> le)) q" for q
  proof (cases "q = p")
    case True
    then show ?thesis using lm_abs_live [OF inv', of s] by (simp add: lv en les)
  next
    case False
    have "lm_abs lm' q = lm_abs lm q"
      by (rule option_eqI, unfold lm_abs_Some_iff [OF inv] lm_abs_Some_iff [OF inv'])
        (use False nl les in \<open>auto simp: lv en\<close>)
    then show ?thesis using False by simp
  qed
  then show ?thesis using inv' r co by (auto simp: en)
qed


lemma insert_at_fail:
  assumes inv: "lm_inv lm" and f: "free_slot lm h s" and e: "lm_insert_at False lm s p h hold h2 = (r, lm')"
  shows "r = None \<and> lm_inv lm' \<and> lm_abs lm' = lm_abs lm"
proof -
  have lm': "lm' = lm\<lparr>entries := (entries lm)(s := lock_entry_zero)\<rparr>" and r: "r = None"
    using e by (auto simp: lm_insert_at_def Let_def)
  have lv: "live lm' t \<longleftrightarrow> live lm t" for t by (simp add: lm' live_def)
  have en: "live lm t \<Longrightarrow> entries lm' t = entries lm t" for t using free_not_live [OF f] by (auto simp: lm')
  have re: "reaches lm' k t \<longleftrightarrow> reaches lm k t" for k t by (simp add: lm' reaches_def no_empty_def)
  have f: "ctrl lm' = ctrl lm" "lm_count lm' = lm_count lm" "deleted_count lm' = deleted_count lm" by (simp_all add: lm')
  have inv': "lm_inv lm'"
    by (rule lm_invI, unfold lv re f) (use lm_invD [OF inv] en in simp_all)
  have "lm_abs lm' = lm_abs lm"
    by (rule ext, rule option_eqI, unfold lm_abs_Some_iff [OF inv] lm_abs_Some_iff [OF inv'] lv) (use en in auto)
  then show ?thesis using r inv' by simp
qed

lemma passed_0: "passed lm h None 0"
  by (simp add: passed_def)

lemma capacity_card: "card {s. s < LOCK_TABLE_CAPACITY} = LOCK_TABLE_CAPACITY"
  by simp

lemma insert_search:
  assumes inv: "lm_inv lm" and h: "hash_ok lm p h" and c: "lm_count lm < LOCK_TABLE_MAX_OCCUPANCY"
  obtains (existing) s where "lm_insert_from lm p (lm_h2 h) None LOCK_TABLE_NUM_GROUPS (lm_group h) = Existing s"
      "live lm s" "obj_ptr (entries lm s) = p"
    | (free) s where "lm_insert_from lm p (lm_h2 h) None LOCK_TABLE_NUM_GROUPS (lm_group h) = Free s"
      "free_slot lm h s" "lm_abs lm p = None"
proof -
  let ?r = "lm_insert_from lm p (lm_h2 h) None LOCK_TABLE_NUM_GROUPS (lm_group h)"
  have ex: "?r = Existing s \<longleftrightarrow> lm_find_slot lm p h = Some s" for s
    by (simp only: insert_from_existing lm_find_slot_def)
  have pr: "probe h 0 = lm_group h" by (simp add: probe_def lm_group_def)
  note spec = insert_from_spec [OF passed_0, of LOCK_TABLE_NUM_GROUPS lm h p, unfolded pr]
  show thesis
  proof (cases ?r)
    case (Existing s)
    then show thesis using find_slot_sound [of lm p h s] ex existing by blast
  next
    case (Free s)
    then have "lm_find_slot lm p h \<noteq> Some t" for t using ex [of t] by simp
    then have "lm_find_slot lm p h = None" by blast
    then have "lm_abs lm p = None" using find_slot_iff [OF inv h] by (auto simp: lm_abs_None)
    then show thesis using Free spec free by simp
  next
    case No_slot
    then have "passed lm h None LOCK_TABLE_NUM_GROUPS" using spec by simp
    then have "{s. live lm s} = {s. s < LOCK_TABLE_CAPACITY}" using passed_all_full [OF _ inv] by (auto simp: live_def)
    then have "lm_count lm = LOCK_TABLE_CAPACITY" using inv capacity_card by (simp add: lm_inv_def)
    then show thesis using c by (simp add: LOCK_TABLE_MAX_OCCUPANCY_def LOCK_TABLE_CAPACITY_def)
  qed
qed

text \<open>Removal turns the slot into a tombstone; the last removal clears all tombstones.\<close>

lemma remove_slot_ok:
  assumes inv: "lm_inv lm" and s: "live lm s"
  defines "lm' \<equiv> lm\<lparr>entries := (entries lm)(s := lock_entry_zero), ctrl := (ctrl lm)(s := LOCK_CTRL_DELETED),
      lm_count := lm_count lm - 1, deleted_count := deleted_count lm + 1\<rparr>"
  shows "lm_inv lm' \<and> lm_abs lm' = (lm_abs lm)(obj_ptr (entries lm s) := None)"
proof -
  have en: "entries lm' = (entries lm)(s := lock_entry_zero)" and ct: "ctrl lm' = (ctrl lm)(s := LOCK_CTRL_DELETED)"
    and co: "lm_count lm' = lm_count lm - 1" and de: "deleted_count lm' = deleted_count lm + 1"
    by (simp_all add: lm'_def)
  have lv: "live lm' t \<longleftrightarrow> live lm t \<and> t \<noteq> s" for t by (auto simp: live_def ct)
  have sl: "s < LOCK_TABLE_CAPACITY" "ctrl lm s \<noteq> LOCK_CTRL_DELETED" using s by (auto simp: live_def)
  have mono: "reaches lm k t \<Longrightarrow> reaches lm' k t" for k t
    by (rule reaches_mono) (use ctrl_codes(1) in \<open>auto simp: ct split: if_splits\<close>)
  have "{t. live lm' t} = {t. live lm t} - {s}" by (auto simp: lv)
  then have c1: "card {t. live lm' t} = card {t. live lm t} - 1" using s by (simp add: finite_live)
  let ?D = "\<lambda>lm :: 'a lock_manager. {t. t < LOCK_TABLE_CAPACITY \<and> ctrl lm t = LOCK_CTRL_DELETED}"
  have "?D lm' = insert s (?D lm)" using sl by (auto simp: ct)
  then have c2: "card (?D lm') = Suc (card (?D lm))" using sl by simp
  have inv': "lm_inv lm'"
  proof (rule lm_invI)
    fix t assume t: "live lm' t"
    show "obj_ptr (entries lm' t) \<noteq> 0 \<and> ctrl lm' t = lm_h2 (hash56 (entries lm' t)) \<and> reaches lm' (hash56 (entries lm' t)) t"
      using t lm_invD(2-4) [OF inv, of t] by (simp add: en lv ct mono)
    fix u assume "live lm' u" "obj_ptr (entries lm' t) = obj_ptr (entries lm' u)"
    then show "t = u" using t lm_invD(5) [OF inv, of t u] by (simp add: en lv)
  next
    fix t assume "t < LOCK_TABLE_CAPACITY" "LOCK_CTRL_DELETED \<le> ctrl lm' t"
    then show "ctrl lm' t = LOCK_CTRL_DELETED \<or> ctrl lm' t = LOCK_CTRL_EMPTY"
      using lm_invD(1) [OF inv, of t] by (auto simp: ct split: if_splits)
  qed (simp_all add: co c1 de c2 lm_invD(6,7) [OF inv])
  have u: "live lm t \<Longrightarrow> obj_ptr (entries lm t) = obj_ptr (entries lm s) \<Longrightarrow> t = s" for t using lm_invD(5) [OF inv _ s] by blast
  have "lm_abs lm' q = ((lm_abs lm)(obj_ptr (entries lm s) := None)) q" for q
  proof (cases "q = obj_ptr (entries lm s)")
    case True
    have "lm_abs lm' q = None" unfolding lm_abs_None lv True en using u by auto
    then show ?thesis using True by simp
  next
    case False
    have "lm_abs lm' q = lm_abs lm q"
      by (rule option_eqI, unfold lm_abs_Some_iff [OF inv] lm_abs_Some_iff [OF inv'] lv en) (use False in auto)
    then show ?thesis using False by simp
  qed
  then show ?thesis using inv' by blast
qed

lemma reset_if_empty_ok:
  assumes inv: "lm_inv lm"
  shows "lm_inv (lm_reset_ctrl_if_empty lm) \<and> lm_abs (lm_reset_ctrl_if_empty lm) = lm_abs lm"
proof (cases "lm_count lm = 0")
  case True
  let ?lm = "lm\<lparr>ctrl := (\<lambda>_. LOCK_CTRL_EMPTY), deleted_count := 0\<rparr>"
  have nl: "\<not> live lm s" for s using True inv finite_live [of lm] by (auto simp: lm_inv_def)
  have nl': "\<not> live ?lm s" for s using ctrl_codes(2) by (simp add: live_def)
  have "lm_inv ?lm" using True nl' ctrl_codes(1) by (auto simp: lm_inv_def)
  moreover have "lm_abs ?lm = lm_abs lm" using nl nl' by (auto simp: lm_abs_def)
  ultimately show ?thesis using True by (simp add: lm_reset_ctrl_if_empty_def)
qed (simp add: lm_reset_ctrl_if_empty_def inv)

lemma lm_remove_ok:
  assumes inv: "lm_inv lm" and h: "hash_ok lm p h"
  shows "lm_inv (lock_manager_remove lm p h) \<and> lm_abs (lock_manager_remove lm p h) = (lm_abs lm)(p := None)"
proof (cases "lm_find_slot lm p h")
  case None
  then have "lm_abs lm p = None" using find_slot_iff [OF inv h] by (auto simp: lm_abs_None)
  then show ?thesis using None inv by (simp add: lock_manager_remove_def fun_upd_idem)
next
  case (Some s)
  then have s: "live lm s" "obj_ptr (entries lm s) = p" using find_slot_sound by auto
  note r = remove_slot_ok [OF inv s(1)]
  show ?thesis using r reset_if_empty_ok [OF conjunct1 [OF r]] by (simp add: lock_manager_remove_def Some s(2))
qed

lemma lm_update_ptr_ok:
  assumes inv: "lm_inv lm" and h: "hash_ok lm p h" and p': "p' \<noteq> 0" "p' = p \<or> lm_abs lm p' = None"
    and e: "lm_abs lm p = Some e"
  shows "lm_inv (lock_manager_update_ptr lm p p' h) \<and>
    lm_abs (lock_manager_update_ptr lm p p' h) = (lm_abs lm)(p := None, p' \<mapsto> e\<lparr>obj_ptr := p'\<rparr>)"
proof -
  obtain s where s: "lock_manager_lookup lm p h = Some s" "entries lm s = e" using lookup_abs [OF inv h] e by (cases "lock_manager_lookup lm p h") simp_all
  then have l: "live lm s" "obj_ptr e = p" using find_slot_sound [of lm p h s] by (auto simp: lock_manager_lookup_def split: if_splits)
  let ?lm = "lock_manager_update_ptr lm p p' h"
  have en: "entries ?lm = (entries lm)(s := e\<lparr>obj_ptr := p'\<rparr>)" and f: "ctrl ?lm = ctrl lm" "lm_count ?lm = lm_count lm" "deleted_count ?lm = deleted_count lm"
    using s by (simp_all add: lock_manager_update_ptr_def)
  have lv: "live ?lm t \<longleftrightarrow> live lm t" for t by (simp add: live_def f)
  have re: "reaches ?lm k t \<longleftrightarrow> reaches lm k t" for k t by (simp add: f reaches_def no_empty_def)
  have u: "live lm t \<Longrightarrow> obj_ptr (entries lm t) = p \<Longrightarrow> t = s" for t using lm_invD(5) [OF inv _ l(1)] l(2) s(2) by simp
  have np: "live lm t \<Longrightarrow> obj_ptr (entries lm t) = p' \<Longrightarrow> t = s" for t using p'(2) u by (auto simp: lm_abs_None)
  have inv': "lm_inv ?lm"
  proof (rule lm_invI, unfold lv re f)
    fix t assume t: "live lm t"
    show "obj_ptr (entries ?lm t) \<noteq> 0 \<and> ctrl lm t = lm_h2 (hash56 (entries ?lm t)) \<and> reaches lm (hash56 (entries ?lm t)) t"
      using t p'(1) s(2) lm_invD(2-4) [OF inv, of t] by (cases "t = s") (simp_all add: en)
    fix w assume "live lm w" "obj_ptr (entries ?lm t) = obj_ptr (entries ?lm w)"
    then show "t = w" using t np [of t] np [of w] lm_invD(5) [OF inv, of t w] by (auto simp: en split: if_splits)
  qed (use lm_invD(1,6,7) [OF inv] in simp_all)
  have "lm_abs ?lm q = ((lm_abs lm)(p := None, p' \<mapsto> e\<lparr>obj_ptr := p'\<rparr>)) q" for q
  proof (cases "q = p'")
    case True
    then show ?thesis using lm_abs_live [OF inv', of s] l(1) by (simp add: lv en)
  next
    case F: False
    show ?thesis
    proof (cases "q = p")
      case True
      have "lm_abs ?lm q = None" unfolding lm_abs_None lv en using F True u by auto
      then show ?thesis using True F by simp
    next
      case False
      have "lm_abs ?lm q = lm_abs lm q"
        by (rule option_eqI, unfold lm_abs_Some_iff [OF inv] lm_abs_Some_iff [OF inv'] lv en) (use False F l s(2) in auto)
      then show ?thesis using False F by simp
    qed
  qed
  then show ?thesis using inv' by blast
qed

section \<open>The lock directory\<close>

text \<open>
  What the MSET participant relies on: a lookup sees what was inserted, removed and re-pointed.
  \<open>agrees t p h\<close> says that \<open>h\<close> is the hash under which \<open>p\<close> is locked, if it is.
\<close>

locale lock_directory =
  fixes inv :: "'t \<Rightarrow> bool" and abs :: "'t \<Rightarrow> 'k \<Rightarrow> 'e option" and agrees :: "'t \<Rightarrow> 'k \<Rightarrow> 'h \<Rightarrow> bool"
    and look :: "'t \<Rightarrow> 'k \<Rightarrow> 'h \<Rightarrow> 'e option" and del :: "'t \<Rightarrow> 'k \<Rightarrow> 'h \<Rightarrow> 't"
  assumes look_law: "inv t \<Longrightarrow> agrees t k h \<Longrightarrow> look t k h = abs t k"
    and del_law: "inv t \<Longrightarrow> agrees t k h \<Longrightarrow> inv (del t k h) \<and> abs (del t k h) = (abs t)(k := None)"
    and agrees_absent: "inv t \<Longrightarrow> abs t k = None \<Longrightarrow> agrees t k h"
    and agrees_same: "inv t \<Longrightarrow> inv t' \<Longrightarrow> abs t k = abs t' k \<Longrightarrow> agrees t k h = agrees t' k h"
begin

lemma del_look_same:
  assumes "inv t" "agrees t k h"
  shows "look (del t k h) k h' = None"
  using del_law [OF assms] look_law [of "del t k h" k h'] agrees_absent [of "del t k h" k h'] by simp

lemma del_look_other:
  assumes i: "inv t" "agrees t k h" and k: "k' \<noteq> k" "agrees t k' h'"
  shows "look (del t k h) k' h' = look t k' h'"
proof -
  note d = del_law [OF i]
  have "agrees (del t k h) k' h'" using agrees_same [of t "del t k h" k' h'] i(1) d k by simp
  then show ?thesis using look_law [of "del t k h" k' h'] look_law [OF i(1) k(2)] d k(1) by simp
qed

end

definition lookup_entry :: "'m lock_manager \<Rightarrow> addr \<Rightarrow> u64 \<Rightarrow> 'm lock_entry option" where
  "lookup_entry lm p h = map_option (entries lm) (lock_manager_lookup lm p h)"

lemma hash_ok_abs:
  assumes "lm_inv lm"
  shows "hash_ok lm p h \<longleftrightarrow> (\<forall>e. lm_abs lm p = Some e \<longrightarrow> hash56 e = h)"
  by (auto simp: hash_ok_def lm_abs_Some_iff [OF assms])

interpretation lock_dir: lock_directory lm_inv lm_abs hash_ok lookup_entry lock_manager_remove
proof
  fix lm lm' :: "'m lock_manager" and p h
  show "lm_inv lm \<Longrightarrow> hash_ok lm p h \<Longrightarrow> lookup_entry lm p h = lm_abs lm p"
    by (simp add: lookup_entry_def lookup_abs)
  show "lm_inv lm \<Longrightarrow> hash_ok lm p h \<Longrightarrow>
    lm_inv (lock_manager_remove lm p h) \<and> lm_abs (lock_manager_remove lm p h) = (lm_abs lm)(p := None)"
    by (rule lm_remove_ok)
  show "lm_inv lm \<Longrightarrow> lm_abs lm p = None \<Longrightarrow> hash_ok lm p h" by (simp add: hash_ok_abs)
  show "lm_inv lm \<Longrightarrow> lm_inv lm' \<Longrightarrow> lm_abs lm p = lm_abs lm' p \<Longrightarrow> hash_ok lm p h = hash_ok lm' p h"
    by (simp add: hash_ok_abs)
qed

lemma lm_insert_ok:
  assumes inv: "lm_inv lm" and h: "hash_ok lm p h" and p: "p \<noteq> 0"
    and r: "lock_manager_insert alloc lm p h hold = (r, lm')"
  shows "lm_inv lm' \<and>
    (case r of
       None \<Rightarrow> lm_abs lm' = lm_abs lm \<and> (LOCK_TABLE_MAX_OCCUPANCY \<le> lm_count lm \<or> \<not> alloc \<and> lm_abs lm p = None)
     | Some s \<Rightarrow> if lm_abs lm p = None
         then alloc \<and> lm_abs lm' = (lm_abs lm)(p \<mapsto> \<lparr>obj_ptr = p, hash56 = h, holder = hold, queue = [],
                open_groups = Some (\<lambda>_. None), le_num_shards = lm_shards lm\<rparr>) \<and> lm_count lm' = lm_count lm + 1
         else lm' = lm \<and> lm_abs lm p = Some (entries lm s))"
proof (cases "lm_count lm < LOCK_TABLE_MAX_OCCUPANCY")
  case False
  then show ?thesis using r inv by (auto simp: lock_manager_insert_def)
next
  case True
  show ?thesis using inv h True
  proof (cases rule: insert_search)
    case (existing s)
    then have "lm_abs lm p = Some (entries lm s)" using lm_abs_live [OF inv existing(2)] by simp
    then show ?thesis using r inv True existing(1) by (auto simp: lock_manager_insert_def)
  next
    case (free s)
    then have i: "lm_insert_at alloc lm s p h hold (lm_h2 h) = (r, lm')" using r True by (simp add: lock_manager_insert_def)
    show ?thesis
    proof (cases alloc)
      case True
      then show ?thesis using insert_at_ok [OF inv free(2) p free(3), of hold r lm'] i free(3) by simp
    next
      case False
      then show ?thesis using insert_at_fail [OF inv free(2), of p hold "lm_h2 h" r lm'] i free(3) by simp
    qed
  qed
qed

text \<open>
  C22: The group-probed lock table is a map from locked objects to lock entries.  On a table that satisfies the
  invariant (every live slot is reached from its hash before an empty slot, no object twice, exact counts) and
  for a hash that agrees with the object's entry: lookup returns the object's entry; insert adds a fresh entry (no
  waiters, the given holder), or returns the existing one unchanged, and fails only at three quarters of the
  capacity or when the allocation of the open groups fails; remove and re-point act on that object
  only; and all of them keep the invariant, tombstones and the reset of an empty table included.
\<close>
theorem lock_table_refines:
  assumes inv: "lm_inv lm" and h: "hash_ok lm p h" and p: "p \<noteq> 0"
  shows "lookup_entry lm p h = lm_abs lm p \<and>
    (case lock_manager_insert alloc lm p h hold of (r, lm') \<Rightarrow> lm_inv lm' \<and>
      (case r of
         None \<Rightarrow> lm_abs lm' = lm_abs lm \<and> (LOCK_TABLE_MAX_OCCUPANCY \<le> lm_count lm \<or> \<not> alloc \<and> lm_abs lm p = None)
       | Some s \<Rightarrow> if lm_abs lm p = None
           then alloc \<and> lm_abs lm' = (lm_abs lm)(p \<mapsto> \<lparr>obj_ptr = p, hash56 = h, holder = hold, queue = [],
                  open_groups = Some (\<lambda>_. None), le_num_shards = lm_shards lm\<rparr>) \<and> lm_count lm' = lm_count lm + 1
           else lm' = lm \<and> lm_abs lm p = Some (entries lm s))) \<and>
    lm_inv (lock_manager_remove lm p h) \<and> lm_abs (lock_manager_remove lm p h) = (lm_abs lm)(p := None) \<and>
    (\<forall>p' e. p' \<noteq> 0 \<and> (p' = p \<or> lm_abs lm p' = None) \<and> lm_abs lm p = Some e \<longrightarrow>
      lm_inv (lock_manager_update_ptr lm p p' h) \<and>
      lm_abs (lock_manager_update_ptr lm p p' h) = (lm_abs lm)(p := None, p' \<mapsto> e\<lparr>obj_ptr := p'\<rparr>))"
proof (intro conjI)
  show "lookup_entry lm p h = lm_abs lm p" by (rule lock_dir.look_law [OF inv h])
  show "lm_inv (lock_manager_remove lm p h)" "lm_abs (lock_manager_remove lm p h) = (lm_abs lm)(p := None)"
    using lock_dir.del_law [OF inv h] by simp_all
  show "\<forall>p' e. p' \<noteq> 0 \<and> (p' = p \<or> lm_abs lm p' = None) \<and> lm_abs lm p = Some e \<longrightarrow>
      lm_inv (lock_manager_update_ptr lm p p' h) \<and>
      lm_abs (lock_manager_update_ptr lm p p' h) = (lm_abs lm)(p := None, p' \<mapsto> e\<lparr>obj_ptr := p'\<rparr>)"
    using lm_update_ptr_ok [OF inv h] by blast
  obtain r lm' where r: "lock_manager_insert alloc lm p h hold = (r, lm')" by fastforce
  show "case lock_manager_insert alloc lm p h hold of (r, lm') \<Rightarrow> lm_inv lm' \<and>
      (case r of
         None \<Rightarrow> lm_abs lm' = lm_abs lm \<and> (LOCK_TABLE_MAX_OCCUPANCY \<le> lm_count lm \<or> \<not> alloc \<and> lm_abs lm p = None)
       | Some s \<Rightarrow> if lm_abs lm p = None
           then alloc \<and> lm_abs lm' = (lm_abs lm)(p \<mapsto> \<lparr>obj_ptr = p, hash56 = h, holder = hold, queue = [],
                  open_groups = Some (\<lambda>_. None), le_num_shards = lm_shards lm\<rparr>) \<and> lm_count lm' = lm_count lm + 1
           else lm' = lm \<and> lm_abs lm p = Some (entries lm s))"
    unfolding r prod.case by (rule lm_insert_ok [OF inv h p r])
qed

lemma lm_init_ok:
  assumes "lock_manager_init a b c n = Some lm"
  shows "lm_inv lm \<and> lm_abs lm = Map.empty"
proof -
  have lm: "lm = \<lparr>entries = (\<lambda>_. lock_entry_zero), ctrl = (\<lambda>_. LOCK_CTRL_EMPTY), lm_count = 0, deleted_count = 0, lm_shards = n\<rparr>"
    using assms by (simp add: lock_manager_init_def split: if_splits)
  have nl: "\<not> live lm s" for s using ctrl_codes(2) by (simp add: lm live_def)
  have "lm_inv lm" by (rule lm_invI) (use nl ctrl_codes(1) in \<open>simp_all add: lm\<close>)
  then show ?thesis using nl by (auto simp: lm_abs_def)
qed

definition sample_locks :: "nat lock_manager" where
  "sample_locks = the (lock_manager_init True True True 4)"

lemma sample_locks_inv: "lm_inv sample_locks \<and> lm_abs sample_locks = Map.empty"
  by (rule lm_init_ok [of True True True 4]) (simp add: sample_locks_def lock_manager_init_def)

lemma lock_table_refines_witness:
  "lm_abs (snd (lock_manager_insert True sample_locks 5 77 None)) 5 \<noteq> None \<and>
   lm_abs (snd (lock_manager_insert False sample_locks 5 77 None)) 5 = None"
proof -
  have h: "hash_ok sample_locks 5 77" using sample_locks_inv by (simp add: hash_ok_abs)
  have c: "lm_count sample_locks = 0" by (simp add: sample_locks_def lock_manager_init_def)
  note t = lock_table_refines [OF conjunct1 [OF sample_locks_inv] h, of True None]
    lock_table_refines [OF conjunct1 [OF sample_locks_inv] h, of False None]
  obtain r lm where r: "lock_manager_insert True sample_locks 5 77 None = (r, lm)" by fastforce
  obtain q lq where q: "lock_manager_insert False sample_locks 5 77 None = (q, lq)" by fastforce
  show ?thesis using t sample_locks_inv by (simp add: r q c LOCK_TABLE_MAX_OCCUPANCY_def LOCK_TABLE_CAPACITY_def split: option.splits)
qed

end
