(* ===== verification/Wait_Queue.thy ===== *)
theory Wait_Queue
  imports Txn
begin

text \<open>
  Model of the wait-queue half of \<open>core/lock_manager.c\<close>: per locked key, one open group of deferred commands per
  shard and a queue of closed groups (each ended by an MSET) sorted by transaction.
\<close>

section \<open>Operations\<close>

text \<open>Reading and writing \<open>open_groups[sid]\<close>.\<close>

definition og_at :: "'m lock_entry \<Rightarrow> nat \<Rightarrow> 'm wait_group option" where
  "og_at le sid = (case open_groups le of Some og \<Rightarrow> og sid | None \<Rightarrow> None)"

definition og_set :: "nat \<Rightarrow> 'm wait_group option \<Rightarrow> 'm lock_entry \<Rightarrow> 'm lock_entry" where
  "og_set sid g le = le\<lparr>open_groups := map_option (\<lambda>og. og(sid := g)) (open_groups le)\<rparr>"

definition wq_sorted_insert :: "'m lock_entry \<Rightarrow> 'm wait_group \<Rightarrow> 'm lock_entry" where
  "wq_sorted_insert le g =
     (let q = queue le
      in if q = [] then le\<lparr>queue := [g]\<rparr>
         else if 0 \<le> txn_id_cmp (wg_txn g) (wg_txn (last q)) then le\<lparr>queue := q @ [g]\<rparr>
         else
           (let before = (\<lambda>c. txn_id_cmp (wg_txn c) (wg_txn g) < 0)
            in le\<lparr>queue := takeWhile before q @ g # dropWhile before q\<rparr>))"

definition wq_detach :: "'m lock_entry \<Rightarrow> 'm wait_group \<Rightarrow> 'm lock_entry" where
  "wq_detach le g = le\<lparr>queue := filter (\<lambda>x. wg x \<noteq> wg g) (queue le)\<rparr>"

definition wg_append :: "'m cmd_info \<Rightarrow> 'm wait_group \<Rightarrow> 'm wait_group" where
  "wg_append cmd g = g\<lparr>cmds := cmds g @ [cmd], wg_count := wg_count g + 1\<rparr>"

text \<open>\<open>alloc\<close>: the address of a new wait group, or \<open>None\<close>; a failed allocation drops the command.\<close>

definition lock_wq_add_regular :: "addr option \<Rightarrow> 'm lock_entry \<Rightarrow> 'm cmd_info \<Rightarrow> 'm lock_entry" where
  "lock_wq_add_regular alloc le cmd =
     (let sid = origin_shard cmd
      in case og_at le sid of
           None \<Rightarrow>
             (case alloc of
                None \<Rightarrow> le
              | Some a \<Rightarrow> og_set sid (Some \<lparr>wg = a, cmds = [cmd], wg_count = 1, wg_txn = txn_id_zero,
                                           closed = False, wg_origin = sid\<rparr>) le)
         | Some og \<Rightarrow> og_set sid (Some (wg_append cmd og)) le)"

definition lock_wq_add_mset :: "addr option \<Rightarrow> 'm lock_entry \<Rightarrow> 'm cmd_info \<Rightarrow> 'm lock_entry" where
  "lock_wq_add_mset alloc le cmd =
     (let sid = origin_shard cmd
      in case og_at le sid of
           Some og \<Rightarrow> wq_sorted_insert (og_set sid None le) ((wg_append cmd og)\<lparr>wg_txn := ci_txn cmd, closed := True\<rparr>)
         | None \<Rightarrow>
             (case alloc of
                None \<Rightarrow> le
              | Some a \<Rightarrow> wq_sorted_insert le \<lparr>wg = a, cmds = [cmd], wg_count = 1, wg_txn = ci_txn cmd,
                                             closed = True, wg_origin = sid\<rparr>))"

definition find_mset :: "txn_id \<Rightarrow> 'm wait_group \<Rightarrow> 'm cmd_info option" where
  "find_mset txn g = find (\<lambda>c. is_mset c \<and> txn_id_eq (ci_txn c) txn) (cmds g)"

fun find_closed :: "txn_id \<Rightarrow> 'm wait_group list \<Rightarrow> ('m cmd_info \<times> 'm wait_group) option" where
  "find_closed txn [] = None"
| "find_closed txn (g # gs) =
     (if txn_id_eq (wg_txn g) txn
      then (case find_mset txn g of Some c \<Rightarrow> Some (c, g) | None \<Rightarrow> find_closed txn gs)
      else find_closed txn gs)"

fun find_open :: "'m lock_entry \<Rightarrow> txn_id \<Rightarrow> nat list \<Rightarrow> ('m cmd_info \<times> 'm wait_group) option" where
  "find_open le txn [] = None"
| "find_open le txn (i # is) =
     (case og_at le i of
        None \<Rightarrow> find_open le txn is
      | Some og \<Rightarrow> (case find_mset txn og of Some c \<Rightarrow> Some (c, og) | None \<Rightarrow> find_open le txn is))"

definition lock_wq_find_txn :: "'m lock_entry \<Rightarrow> txn_id \<Rightarrow> ('m cmd_info \<times> 'm wait_group) option" where
  "lock_wq_find_txn le txn =
     (case find_closed txn (queue le) of
        Some r \<Rightarrow> Some r
      | None \<Rightarrow> find_open le txn [0..<le_num_shards le])"

text \<open>Unlinking a command from its group, and storing the changed group where it was.\<close>

definition wg_unlink :: "'m cmd_info \<Rightarrow> 'm wait_group \<Rightarrow> 'm wait_group" where
  "wg_unlink cmd g = g\<lparr>cmds := filter (\<lambda>c. ci c \<noteq> ci cmd) (cmds g), wg_count := wg_count g - 1\<rparr>"

definition put_group :: "'m wait_group \<Rightarrow> 'm lock_entry \<Rightarrow> 'm lock_entry" where
  "put_group g le =
     (if closed g then le\<lparr>queue := map (\<lambda>x. if wg x = wg g then g else x) (queue le)\<rparr>
      else og_set (wg_origin g) (Some g) le)"

definition wq_reopen :: "'m wait_group \<Rightarrow> 'm lock_entry \<Rightarrow> 'm lock_entry" where
  "wq_reopen g le =
     (let sid = wg_origin g
      in if sid < le_num_shards le
         then (case og_at le sid of
                 None \<Rightarrow> og_set sid (Some g) le
               | Some ex \<Rightarrow> og_set sid (Some (ex\<lparr>cmds := cmds g @ cmds ex, wg_count := wg_count ex + wg_count g\<rparr>)) le)
         else le)"

definition lock_wq_remove_cmd :: "'m lock_entry \<Rightarrow> 'm wait_group \<Rightarrow> 'm cmd_info \<Rightarrow> 'm lock_entry" where
  "lock_wq_remove_cmd le g cmd =
     (let g' = wg_unlink cmd g
      in if wg_count g' = 0
         then (if closed g then wq_detach le g
               else if wg_origin g < le_num_shards le then og_set (wg_origin g) None le else le)
         else if closed g \<and> is_mset cmd
         then wq_reopen (g'\<lparr>closed := False, wg_txn := txn_id_zero\<rparr>) (wq_detach le g)
         else put_group g' le)"

section \<open>Invariant\<close>

text \<open>
  A closed group ends in its MSET and holds no other; an open group holds no MSET and stands at its shard's
  index.  No two groups and no two waiting commands have the same address.
\<close>

definition group_ok :: "'m wait_group \<Rightarrow> bool" where
  "group_ok g \<longleftrightarrow> cmds g \<noteq> [] \<and> wg_count g = length (cmds g) \<and>
     (\<forall>c \<in> set (cmds g). origin_shard c = wg_origin g) \<and>
     (\<forall>c \<in> set (butlast (cmds g)). \<not> is_mset c) \<and>
     (if closed g then is_mset (last (cmds g)) \<and> ci_txn (last (cmds g)) = wg_txn g else \<not> is_mset (last (cmds g)))"

definition og_cmds :: "'m wait_group option \<Rightarrow> 'm cmd_info multiset" where
  "og_cmds og = (case og of None \<Rightarrow> {#} | Some g \<Rightarrow> mset (cmds g))"

text \<open>All commands that wait, as a multiset.\<close>

definition waiting :: "'m lock_entry \<Rightarrow> 'm cmd_info multiset" where
  "waiting le = mset (concat (map cmds (queue le))) + (\<Sum>i < le_num_shards le. og_cmds (og_at le i))"

definition wq_inv :: "'m lock_entry \<Rightarrow> bool" where
  "wq_inv le \<longleftrightarrow> open_groups le \<noteq> None \<and> sorted (map wg_txn (queue le)) \<and> distinct (map wg (queue le)) \<and>
     (\<forall>g \<in> set (queue le). group_ok g \<and> closed g) \<and>
     (\<forall>i g. og_at le i = Some g \<longrightarrow>
        i < le_num_shards le \<and> group_ok g \<and> \<not> closed g \<and> wg_origin g = i \<and> wg g \<notin> wg ` set (queue le)) \<and>
     (\<forall>i j g h. og_at le i = Some g \<and> og_at le j = Some h \<and> wg g = wg h \<longrightarrow> i = j) \<and>
     (\<forall>a. count (image_mset ci (waiting le)) a \<le> 1)"

lemma wq_invD:
  assumes "wq_inv le"
  shows "open_groups le \<noteq> None" "sorted (map wg_txn (queue le))" "distinct (map wg (queue le))"
    and "g \<in> set (queue le) \<Longrightarrow> group_ok g" "g \<in> set (queue le) \<Longrightarrow> closed g"
    and "og_at le i = Some g \<Longrightarrow> i < le_num_shards le" "og_at le i = Some g \<Longrightarrow> group_ok g"
      "og_at le i = Some g \<Longrightarrow> \<not> closed g" "og_at le i = Some g \<Longrightarrow> wg_origin g = i"
      "og_at le i = Some g \<Longrightarrow> wg g \<notin> wg ` set (queue le)"
    and "og_at le i = Some g \<Longrightarrow> og_at le j = Some h \<Longrightarrow> wg g = wg h \<Longrightarrow> i = j"
    and "count (image_mset ci (waiting le)) a \<le> 1"
  using assms unfolding wq_inv_def by blast+

lemma wq_invI:
  assumes "open_groups le \<noteq> None" "sorted (map wg_txn (queue le))" "distinct (map wg (queue le))"
    and "\<And>g. g \<in> set (queue le) \<Longrightarrow> group_ok g \<and> closed g"
    and "\<And>i g. og_at le i = Some g \<Longrightarrow>
        i < le_num_shards le \<and> group_ok g \<and> \<not> closed g \<and> wg_origin g = i \<and> wg g \<notin> wg ` set (queue le)"
    and "\<And>i j g h. og_at le i = Some g \<Longrightarrow> og_at le j = Some h \<Longrightarrow> wg g = wg h \<Longrightarrow> i = j"
    and "\<And>a. count (image_mset ci (waiting le)) a \<le> 1"
  shows "wq_inv le"
  unfolding wq_inv_def using assms by blast

lemma og_set_simps [simp]:
  "queue (og_set i X le) = queue le" "le_num_shards (og_set i X le) = le_num_shards le"
  "open_groups (og_set i X le) = None \<longleftrightarrow> open_groups le = None"
  by (simp_all add: og_set_def)

lemma og_at_set: "open_groups le \<noteq> None \<Longrightarrow> og_at (og_set i X le) j = (if j = i then X else og_at le j)"
  by (auto simp: og_at_def og_set_def)

lemma waiting_og_set:
  assumes "open_groups le \<noteq> None" "i < le_num_shards le"
  shows "waiting (og_set i X le) + og_cmds (og_at le i) = waiting le + og_cmds X"
proof -
  let ?n = "le_num_shards le"
  have i: "i \<in> {..<?n}" using assms(2) by simp
  have eq: "(\<Sum>j \<in> {..<?n} - {i}. og_cmds (og_at (og_set i X le) j)) = (\<Sum>j \<in> {..<?n} - {i}. og_cmds (og_at le j))"
    by (rule sum.cong) (auto simp: og_at_set [OF assms(1)])
  have "(\<Sum>j < ?n. og_cmds (og_at (og_set i X le) j)) = og_cmds X + (\<Sum>j \<in> {..<?n} - {i}. og_cmds (og_at le j))"
    using sum.remove [OF finite_lessThan i, of "\<lambda>j. og_cmds (og_at (og_set i X le) j)"] eq og_at_set [OF assms(1), of i X i] by simp
  moreover have "(\<Sum>j < ?n. og_cmds (og_at le j)) = og_cmds (og_at le i) + (\<Sum>j \<in> {..<?n} - {i}. og_cmds (og_at le j))"
    by (rule sum.remove [OF finite_lessThan i])
  ultimately show ?thesis by (simp add: waiting_def)
qed

lemma waiting_queue_only:
  assumes "open_groups le' = open_groups le" "le_num_shards le' = le_num_shards le"
    and "mset (concat (map cmds (queue le'))) + A = mset (concat (map cmds (queue le))) + B"
  shows "waiting le' + A = waiting le + B"
  using assms(3) by (simp add: waiting_def og_at_def assms(1,2))

section \<open>The sorted queue\<close>

lemma sorted_insert_queue:
  "open_groups (wq_sorted_insert le g) = open_groups le" "le_num_shards (wq_sorted_insert le g) = le_num_shards le"
  "mset (queue (wq_sorted_insert le g)) = add_mset g (mset (queue le))"
proof -
  have "mset (takeWhile P q) + mset (dropWhile P q) = mset q" for P and q :: "'a wait_group list"
    using mset_append [of "takeWhile P q" "dropWhile P q"] by (simp only: takeWhile_dropWhile_id)
  then show "mset (queue (wq_sorted_insert le g)) = add_mset g (mset (queue le))"
    by (simp add: wq_sorted_insert_def Let_def)
qed (simp_all add: wq_sorted_insert_def Let_def)

lemma sorted_split_insert:
  assumes "sorted (map f q)"
  shows "sorted (map f (takeWhile (\<lambda>c. f c < f g) q @ g # dropWhile (\<lambda>c. f c < (f g :: 'k :: linorder)) q))"
  using assms
proof (induction q)
  case (Cons c q)
  show ?case
  proof (cases "f c < f g")
    case True
    have "\<forall>x \<in> set (takeWhile (\<lambda>c. f c < f g) q @ g # dropWhile (\<lambda>c. f c < f g) q). f c \<le> f x"
      using Cons.prems True by (auto dest: set_takeWhileD set_dropWhileD)
    then show ?thesis using Cons True by auto
  next
    case False
    then show ?thesis using Cons.prems by auto
  qed
qed simp

lemma sorted_map_last: "sorted (map f q) \<Longrightarrow> x \<in> set q \<Longrightarrow> f x \<le> f (last q)"
  by (induction q rule: rev_induct) (auto simp: sorted_append)

lemma sorted_insert_sorted:
  assumes "sorted (map wg_txn (queue le))"
  shows "sorted (map wg_txn (queue (wq_sorted_insert le g)))"
proof -
  have "sorted (map wg_txn (queue le @ [g]))" if "queue le \<noteq> []" "wg_txn (last (queue le)) \<le> wg_txn g"
  proof -
    have "\<forall>x \<in> set (queue le). wg_txn x \<le> wg_txn (last (queue le))"
      using sorted_map_last [OF assms] by blast
    then show ?thesis using assms that(2) by (auto simp: sorted_append)
  qed
  then show ?thesis
    using sorted_split_insert [OF assms, of g] by (auto simp: wq_sorted_insert_def Let_def txn_id_cmp_ge txn_id_cmp_less)
qed

lemma mset_concat_map: "mset (concat (map f q)) = (\<Sum>x \<in># mset q. mset (f x))"
  by (induction q) simp_all

lemma mset_concat_add: "mset q' = add_mset g (mset q) \<Longrightarrow> mset (concat (map f q')) = mset (f g) + mset (concat (map f q))"
  by (simp add: mset_concat_map)

section \<open>Every operation keeps the invariant\<close>

lemma ids_add:
  assumes "\<And>a. count (image_mset ci W) a \<le> 1" "ci c \<notin> ci ` set_mset W"
  shows "count (image_mset ci (add_mset c W)) a \<le> 1"
proof -
  have "count (image_mset ci W) (ci c) = 0" using assms(2) by (simp add: count_eq_zero_iff)
  then show ?thesis using assms(1) [of a] by auto
qed

lemma ids_sub:
  assumes "\<And>a. count (image_mset ci W) a \<le> 1" "W' \<subseteq># W"
  shows "count (image_mset ci W') a \<le> 1"
  using mset_subset_eq_count [OF image_mset_subseteq_mono [OF assms(2)], of ci a] assms(1) [of a] by linarith

lemma og_set_ok:
  assumes inv: "wq_inv le" and i: "i < le_num_shards le"
    and X: "\<And>g. X = Some g \<Longrightarrow> group_ok g \<and> \<not> closed g \<and> wg_origin g = i \<and> wg g \<notin> wg ` set (queue le) \<and>
      (\<forall>j h. og_at le j = Some h \<and> wg h = wg g \<longrightarrow> j = i)"
    and ids: "\<And>a. count (image_mset ci (waiting (og_set i X le))) a \<le> 1"
  shows "wq_inv (og_set i X le)"
proof (rule wq_invI)
  note at = og_at_set [OF wq_invD(1) [OF inv], of i X]
  fix j g assume g: "og_at (og_set i X le) j = Some g"
  show "j < le_num_shards (og_set i X le) \<and> group_ok g \<and> \<not> closed g \<and> wg_origin g = j \<and> wg g \<notin> wg ` set (queue (og_set i X le))"
    using g X [of g] i wq_invD(6-10) [OF inv, of j g] by (cases "j = i") (simp_all add: at)
  fix k h assume h: "og_at (og_set i X le) k = Some h" "wg g = wg h"
  show "j = k"
  proof (cases "j = i")
    case True
    then have Xg: "X = Some g" using g by (simp add: at)
    show ?thesis
    proof (rule ccontr)
      assume "j \<noteq> k"
      then have "og_at le k = Some h" using h(1) True by (simp add: at)
      then show False using X [OF Xg] h(2) True \<open>j \<noteq> k\<close> by auto
    qed
  next
    case False
    then show ?thesis using g h X [of h] wq_invD(11) [OF inv, of j g k h] by (cases "k = i") (simp_all add: at)
  qed
qed (use wq_invD(1-5) [OF inv] ids in simp_all)

lemma sorted_insert_ok:
  assumes inv: "wq_inv le" and g: "group_ok g" "closed g" "wg g \<notin> wg ` set (queue le)"
    and o: "\<And>j h. og_at le j = Some h \<Longrightarrow> wg h \<noteq> wg g"
    and ids: "\<And>a. count (image_mset ci (waiting le + mset (cmds g))) a \<le> 1"
  shows "wq_inv (wq_sorted_insert le g)" "waiting (wq_sorted_insert le g) = waiting le + mset (cmds g)"
proof -
  let ?l = "wq_sorted_insert le g"
  have f: "open_groups ?l = open_groups le" "le_num_shards ?l = le_num_shards le" by (simp_all add: sorted_insert_queue)
  have m: "mset (queue ?l) = mset (g # queue le)" by (simp add: sorted_insert_queue)
  have s: "set (queue ?l) = insert g (set (queue le))" using mset_eq_setD [OF m] by simp
  have at: "og_at ?l = og_at le" by (rule ext) (simp add: og_at_def f)
  have d: "distinct (map wg (queue ?l))"
  proof -
    have "mset (map wg (queue ?l)) = mset (map wg (g # queue le))" by (simp only: mset_map m)
    then have "distinct (map wg (queue ?l)) = distinct (map wg (g # queue le))" by (rule mset_eq_imp_distinct_iff)
    then show ?thesis using wq_invD(3) [OF inv] g(3) by simp
  qed
  show w: "waiting ?l = waiting le + mset (cmds g)"
    by (simp add: waiting_def f at mset_concat_add [of "queue ?l" g "queue le"] sorted_insert_queue)
  show "wq_inv ?l"
    by (rule wq_invI, unfold f at s w)
      (use wq_invD(1,4-11) [OF inv] g o ids d sorted_insert_sorted [OF wq_invD(2) [OF inv]] in auto)
qed


lemma group_append_regular:
  assumes "group_ok g" "\<not> closed g" "\<not> is_mset c" "origin_shard c = wg_origin g"
  shows "group_ok (wg_append c g)"
proof -
  have "\<forall>x \<in> set (cmds g). \<not> is_mset x"
    using assms(1,2) by (cases "cmds g" rule: rev_cases) (auto simp: group_ok_def)
  then show ?thesis using assms by (simp add: group_ok_def wg_append_def butlast_append)
qed

lemma group_append_mset:
  assumes "group_ok g" "\<not> closed g" "is_mset c" "origin_shard c = wg_origin g"
  shows "group_ok ((wg_append c g)\<lparr>wg_txn := ci_txn c, closed := True\<rparr>)"
proof -
  have "\<forall>x \<in> set (cmds g). \<not> is_mset x"
    using assms(1,2) by (cases "cmds g" rule: rev_cases) (auto simp: group_ok_def)
  then show ?thesis using assms by (simp add: group_ok_def wg_append_def butlast_append)
qed

text \<open>A new group's address is not in use in the entry, and a new command's is not waiting.\<close>

definition wg_fresh :: "addr option \<Rightarrow> 'm lock_entry \<Rightarrow> bool" where
  "wg_fresh alloc le \<longleftrightarrow> (\<forall>a. alloc = Some a \<longrightarrow> a \<notin> wg ` set (queue le) \<and> (\<forall>j h. og_at le j = Some h \<longrightarrow> wg h \<noteq> a))"

definition cmd_fresh :: "'m cmd_info \<Rightarrow> 'm lock_entry \<Rightarrow> bool" where
  "cmd_fresh c le \<longleftrightarrow> ci c \<notin> ci ` set_mset (waiting le) \<and> origin_shard c < le_num_shards le"

lemma og_cmds_append: "og_cmds (Some (wg_append c g)) = add_mset c (mset (cmds g))"
  by (simp add: og_cmds_def wg_append_def)

lemma add_regular_ok:
  assumes inv: "wq_inv le" and c: "\<not> is_mset c" "cmd_fresh c le" and fr: "wg_fresh alloc le"
    and ok: "alloc \<noteq> None \<or> og_at le (origin_shard c) \<noteq> None"
  shows "wq_inv (lock_wq_add_regular alloc le c)" "waiting (lock_wq_add_regular alloc le c) = add_mset c (waiting le)"
proof -
  let ?i = "origin_shard c"
  have i: "?i < le_num_shards le" and fc: "ci c \<notin> ci ` set_mset (waiting le)" using c(2) by (simp_all add: cmd_fresh_def)
  note w = waiting_og_set [OF wq_invD(1) [OF inv] i]
  have go: "wq_inv (og_set ?i (Some g) le) \<and> waiting (og_set ?i (Some g) le) = add_mset c (waiting le)"
    if g: "group_ok g" "\<not> closed g" "wg_origin g = ?i" "wg g \<notin> wg ` set (queue le)"
      and u: "\<And>j h. og_at le j = Some h \<Longrightarrow> wg h = wg g \<Longrightarrow> j = ?i"
      and cm: "mset (cmds g) = add_mset c (og_cmds (og_at le ?i))" for g
  proof -
    have e: "waiting (og_set ?i (Some g) le) = add_mset c (waiting le)"
      using w [of "Some g"] cm by (simp add: og_cmds_def)
    have "wq_inv (og_set ?i (Some g) le)"
      by (rule og_set_ok [OF inv i]) (use g u in blast, unfold e, rule ids_add [OF wq_invD(12) [OF inv] fc])
    then show ?thesis using e by simp
  qed
  have "wq_inv (lock_wq_add_regular alloc le c) \<and> waiting (lock_wq_add_regular alloc le c) = add_mset c (waiting le)"
  proof (cases "og_at le ?i")
    case None
    then obtain a where a: "alloc = Some a" using ok by auto
    let ?g = "\<lparr>wg = a, cmds = [c], wg_count = 1, wg_txn = txn_id_zero, closed = False, wg_origin = ?i\<rparr>"
    have "wq_inv (og_set ?i (Some ?g) le) \<and> waiting (og_set ?i (Some ?g) le) = add_mset c (waiting le)"
      by (rule go) (use c(1) fr a None in \<open>auto simp: group_ok_def wg_fresh_def og_cmds_def\<close>)
    then show ?thesis by (simp add: lock_wq_add_regular_def None a Let_def)
  next
    case (Some og)
    have o: "group_ok og" "\<not> closed og" "wg_origin og = ?i" "wg og \<notin> wg ` set (queue le)"
      using wq_invD(7-10) [OF inv Some] by simp_all
    have "wq_inv (og_set ?i (Some (wg_append c og)) le) \<and> waiting (og_set ?i (Some (wg_append c og)) le) = add_mset c (waiting le)"
    proof (rule go)
      show "group_ok (wg_append c og)" by (rule group_append_regular [OF o(1,2) c(1)]) (simp add: o)
      show "mset (cmds (wg_append c og)) = add_mset c (og_cmds (og_at le ?i))" by (simp add: Some wg_append_def og_cmds_def)
      show "j = ?i" if "og_at le j = Some h" "wg h = wg (wg_append c og)" for j h
        using wq_invD(11) [OF inv that(1) Some] that(2) by (simp add: wg_append_def)
    qed (use o in \<open>simp_all add: wg_append_def\<close>)
    then show ?thesis by (simp add: lock_wq_add_regular_def Some Let_def)
  qed
  then show "wq_inv (lock_wq_add_regular alloc le c)" "waiting (lock_wq_add_regular alloc le c) = add_mset c (waiting le)"
    by simp_all
qed

lemma add_mset_ok:
  assumes inv: "wq_inv le" and c: "is_mset c" "cmd_fresh c le" and fr: "wg_fresh alloc le"
    and ok: "alloc \<noteq> None \<or> og_at le (origin_shard c) \<noteq> None"
  shows "wq_inv (lock_wq_add_mset alloc le c)" "waiting (lock_wq_add_mset alloc le c) = add_mset c (waiting le)"
proof -
  let ?i = "origin_shard c"
  have i: "?i < le_num_shards le" and fc: "ci c \<notin> ci ` set_mset (waiting le)" using c(2) by (simp_all add: cmd_fresh_def)
  note ids = ids_add [OF wq_invD(12) [OF inv] fc]
  have "wq_inv (lock_wq_add_mset alloc le c) \<and> waiting (lock_wq_add_mset alloc le c) = add_mset c (waiting le)"
  proof (cases "og_at le ?i")
    case None
    then obtain a where a: "alloc = Some a" using ok by auto
    let ?g = "\<lparr>wg = a, cmds = [c], wg_count = 1, wg_txn = ci_txn c, closed = True, wg_origin = ?i\<rparr>"
    have g: "group_ok ?g" "closed ?g" "wg ?g \<notin> wg ` set (queue le)" "\<And>j h. og_at le j = Some h \<Longrightarrow> wg h \<noteq> wg ?g"
      using c(1) fr a by (auto simp: group_ok_def wg_fresh_def)
    have "count (image_mset ci (waiting le + mset (cmds ?g))) x \<le> 1" for x using ids [of x] by simp
    from sorted_insert_ok [OF inv g this] show ?thesis by (simp add: lock_wq_add_mset_def None a Let_def)
  next
    case (Some og)
    let ?le = "og_set ?i None le" and ?g = "(wg_append c og)\<lparr>wg_txn := ci_txn c, closed := True\<rparr>"
    have o: "group_ok og" "\<not> closed og" "wg_origin og = ?i" "wg og \<notin> wg ` set (queue le)"
      using wq_invD(7-10) [OF inv Some] by simp_all
    have w: "waiting ?le + mset (cmds og) = waiting le"
      using waiting_og_set [OF wq_invD(1) [OF inv] i, of None] by (simp add: Some og_cmds_def)
    have i1: "wq_inv ?le"
      by (rule og_set_ok [OF inv i]) (simp, rule ids_sub [OF wq_invD(12) [OF inv]], simp add: w [symmetric])
    have w2: "waiting ?le + mset (cmds ?g) = add_mset c (waiting le)" using w by (simp add: wg_append_def flip: w)
    have g: "group_ok ?g" by (rule group_append_mset [OF o(1,2) c(1)]) (simp add: o)
    have oth: "wg h \<noteq> wg ?g" if "og_at ?le j = Some h" for j h
      using that wq_invD(11) [OF inv _ Some, of j h] by (auto simp: og_at_set [OF wq_invD(1) [OF inv]] wg_append_def split: if_splits)
    have "count (image_mset ci (waiting ?le + mset (cmds ?g))) x \<le> 1" for x unfolding w2 by (rule ids)
    from sorted_insert_ok [OF i1 g _ _ oth this] show ?thesis
      using w2 o(4) by (simp add: lock_wq_add_mset_def Some wg_append_def Let_def)
  qed
  then show "wq_inv (lock_wq_add_mset alloc le c)" "waiting (lock_wq_add_mset alloc le c) = add_mset c (waiting le)"
    by simp_all
qed


text \<open>Removing an element by its address.\<close>

lemma mset_filter_addr:
  "distinct (map f xs) \<Longrightarrow> x \<in> set xs \<Longrightarrow> mset xs = add_mset x (mset (filter (\<lambda>y. f y \<noteq> f x) xs))"
proof (induction xs)
  case (Cons a xs)
  show ?case
  proof (cases "a = x")
    case True
    then have "filter (\<lambda>y. f y \<noteq> f x) xs = xs" using Cons.prems(1) by (auto simp: filter_id_conv intro: rev_image_eqI)
    then show ?thesis using True by simp
  next
    case False
    then have "x \<in> set xs" "f a \<noteq> f x" using Cons.prems by auto
    then show ?thesis using Cons by simp
  qed
qed simp

lemma group_in_waiting:
  assumes "wq_inv le" "g \<in> set (queue le) \<or> og_at le i = Some g"
  shows "mset (cmds g) \<subseteq># waiting le"
  using assms(2)
proof
  assume "g \<in> set (queue le)"
  then obtain a b where q: "queue le = a @ g # b" by (auto dest: split_list)
  show ?thesis unfolding waiting_def q by simp
next
  assume g: "og_at le i = Some g"
  have "waiting (og_set i None le) + mset (cmds g) = waiting le"
    using waiting_og_set [OF wq_invD(1) [OF assms(1)] wq_invD(6) [OF assms(1) g], of None] by (simp add: g og_cmds_def)
  then show ?thesis by (metis mset_subset_eq_add_right)
qed

lemma group_ids:
  assumes "wq_inv le" "mset (cmds g) \<subseteq># waiting le"
  shows "distinct (map ci (cmds g))"
proof -
  have "count (image_mset ci (mset (cmds g))) a \<le> 1" for a by (rule ids_sub [OF wq_invD(12) [OF assms(1)] assms(2)])
  then have c: "count (mset (map ci (cmds g))) a \<le> 1" for a by simp
  have "0 < count (mset (map ci (cmds g))) a" if "a \<in> set (map ci (cmds g))" for a using that by (simp only: count_greater_zero_iff set_mset_mset)
  then show ?thesis unfolding distinct_count_atmost_1 using c
    by (metis (no_types, lifting) One_nat_def Suc_leI count_mset_0_iff le_antisym)
qed

lemma unlink_simps [simp]:
  "wg (wg_unlink c g) = wg g" "wg_origin (wg_unlink c g) = wg_origin g" "closed (wg_unlink c g) = closed g"
  "wg_txn (wg_unlink c g) = wg_txn g" "cmds (wg_unlink c g) = filter (\<lambda>x. ci x \<noteq> ci c) (cmds g)"
  "wg_count (wg_unlink c g) = wg_count g - 1"
  by (simp_all add: wg_unlink_def)

lemma unlink_mset:
  assumes "distinct (map ci (cmds g))" "c \<in> set (cmds g)"
  shows "mset (cmds g) = add_mset c (mset (cmds (wg_unlink c g)))"
  using mset_filter_addr [OF assms] by simp

lemma unlink_count:
  assumes "group_ok g" "distinct (map ci (cmds g))" "c \<in> set (cmds g)"
  shows "wg_count (wg_unlink c g) = length (cmds (wg_unlink c g))"
proof -
  have "length (cmds g) = Suc (length (cmds (wg_unlink c g)))"
    using arg_cong [OF unlink_mset [OF assms(2,3)], of size] by (simp only: size_mset size_add_mset)
  then show ?thesis using assms(1) by (simp add: group_ok_def)
qed

lemma unlink_last:
  assumes "group_ok g" "distinct (map ci (cmds g))" "c \<in> set (cmds g)" "wg_count (wg_unlink c g) = 0"
  shows "mset (cmds g) = {#c#}"
proof -
  have "cmds (wg_unlink c g) = []" using unlink_count [OF assms(1-3)] assms(4) by (metis length_0_conv)
  then show ?thesis using unlink_mset [OF assms(2,3)] by (simp only: mset.simps)
qed

text \<open>A regular command leaves its group as it was; the MSET that leaves a closed group leaves only regular ones.\<close>

lemma unlink_regular:
  assumes g: "group_ok g" "distinct (map ci (cmds g))" "c \<in> set (cmds g)" and r: "\<not> is_mset c" and ne: "wg_count (wg_unlink c g) \<noteq> 0"
  shows "group_ok (wg_unlink c g)"
proof -
  obtain ys z where yz: "cmds g = ys @ [z]" using g(1) by (cases "cmds g" rule: rev_cases) (auto simp: group_ok_def)
  have n: "filter (\<lambda>x. ci x \<noteq> ci c) (cmds g) \<noteq> []" using ne unlink_count [OF g] by (metis list.size(3) unlink_simps(5))
  have ys: "\<forall>x \<in> set ys. \<not> is_mset x" using g(1) yz by (simp add: group_ok_def)
  let ?f = "filter (\<lambda>x. ci x \<noteq> ci c) ys"
  have sub: "set ?f \<subseteq> set ys" "set (butlast ?f) \<subseteq> set ys" "?f \<noteq> [] \<Longrightarrow> last ?f \<in> set ys"
  proof -
    show "set (butlast ?f) \<subseteq> set ys" by (rule subsetI, drule in_set_butlastD) simp
    show "?f \<noteq> [] \<Longrightarrow> last ?f \<in> set ys" by (drule last_in_set) simp
  qed simp
  have og: "\<forall>x \<in> set ys. origin_shard x = wg_origin g" "origin_shard z = wg_origin g" using g(1) yz by (simp_all add: group_ok_def)
  show ?thesis
  proof (cases "ci z = ci c")
    case True
    then have e: "cmds (wg_unlink c g) = ?f" by (simp add: yz)
    have "inj_on ci (set (cmds g))" "z \<in> set (cmds g)" using g(2) yz by (simp_all only: distinct_map) simp_all
    then have "z = c" using inj_onD True g(3) by metis
    then have nc: "\<not> closed g" using r g(1) yz by (simp add: group_ok_def split: if_splits)
    have fn: "?f \<noteq> []" using n True by (simp add: yz)
    show ?thesis unfolding group_ok_def unlink_count [OF g] unfolding e using fn sub(1,2) sub(3) [OF fn] ys og nc by auto
  next
    case False
    then have e: "cmds (wg_unlink c g) = ?f @ [z]" by (simp add: yz)
    have l: "if closed g then is_mset z \<and> ci_txn z = wg_txn g else \<not> is_mset z" using g(1) unfolding group_ok_def yz last_snoc by blast
    show ?thesis unfolding group_ok_def unlink_count [OF g] unfolding e unfolding butlast_snoc last_snoc unlink_simps(1-4)
      using sub(1) ys og l by auto
  qed
qed

lemma unlink_anchor:
  assumes g: "group_ok g" "distinct (map ci (cmds g))" "c \<in> set (cmds g)" and r: "is_mset c"
  shows "c = last (cmds g)" "\<forall>x \<in> set (cmds (wg_unlink c g)). \<not> is_mset x \<and> origin_shard x = wg_origin g"
proof -
  obtain ys z where yz: "cmds g = ys @ [z]" using g(1) by (cases "cmds g" rule: rev_cases) (auto simp: group_ok_def)
  have ys: "\<forall>x \<in> set ys. \<not> is_mset x" using g(1) yz by (simp add: group_ok_def)
  then have "c = z" using g(3) r yz by auto
  then show "c = last (cmds g)" "\<forall>x \<in> set (cmds (wg_unlink c g)). \<not> is_mset x \<and> origin_shard x = wg_origin g"
    using yz ys g(1) by (auto simp: group_ok_def)
qed


lemma detach_ok:
  assumes inv: "wq_inv le" and g: "g \<in> set (queue le)"
  shows "wq_inv (wq_detach le g)" "waiting (wq_detach le g) + mset (cmds g) = waiting le"
    and "og_at (wq_detach le g) = og_at le" "wg g \<notin> wg ` set (queue (wq_detach le g))"
proof -
  let ?l = "wq_detach le g"
  have f: "queue ?l = filter (\<lambda>x. wg x \<noteq> wg g) (queue le)" "open_groups ?l = open_groups le" "le_num_shards ?l = le_num_shards le"
    by (simp_all add: wq_detach_def)
  show at: "og_at ?l = og_at le" by (rule ext) (simp add: og_at_def f)
  have m: "mset (queue le) = add_mset g (mset (queue ?l))"
    unfolding f by (rule mset_filter_addr [OF wq_invD(3) [OF inv] g])
  show w: "waiting ?l + mset (cmds g) = waiting le"
    by (simp add: waiting_def f at mset_concat_add [OF m, unfolded f])
  show "wg g \<notin> wg ` set (queue ?l)" by (auto simp: f)
  have ids: "count (image_mset ci (waiting ?l)) a \<le> 1" for a
    by (rule ids_sub [OF wq_invD(12) [OF inv]]) (simp add: w [symmetric])
  have d: "distinct (map wg (queue ?l))" "sorted (map wg_txn (queue ?l))"
    using wq_invD(2,3) [OF inv] by (simp_all add: f sorted_filter distinct_map_filter)
  show "wq_inv ?l"
  proof (rule wq_invI)
    fix i x assume x: "og_at ?l i = Some x"
    then have "og_at le i = Some x" by (simp add: at)
    from wq_invD(6-10) [OF inv this]
    show "i < le_num_shards ?l \<and> group_ok x \<and> \<not> closed x \<and> wg_origin x = i \<and> wg x \<notin> wg ` set (queue ?l)" by (auto simp: f)
    fix j h assume "og_at ?l j = Some h" "wg x = wg h"
    then show "i = j" using wq_invD(11) [OF inv, of i x j h] x by (simp add: at)
  qed (use wq_invD(1,4,5) [OF inv] d ids in \<open>simp_all add: f\<close>)
qed

lemma reopen_ok:
  assumes inv: "wq_inv le" and g: "group_ok g" "\<not> closed g" "wg_origin g < le_num_shards le" "wg g \<notin> wg ` set (queue le)"
    and o: "\<And>j h. og_at le j = Some h \<Longrightarrow> wg h \<noteq> wg g"
    and ids: "\<And>a. count (image_mset ci (waiting le + mset (cmds g))) a \<le> 1"
  shows "wq_inv (wq_reopen g le)" "waiting (wq_reopen g le) = waiting le + mset (cmds g)"
proof -
  let ?i = "wg_origin g"
  note w = waiting_og_set [OF wq_invD(1) [OF inv] g(3)]
  have "wq_inv (wq_reopen g le) \<and> waiting (wq_reopen g le) = waiting le + mset (cmds g)"
  proof (cases "og_at le ?i")
    case None
    have e: "waiting (og_set ?i (Some g) le) = waiting le + mset (cmds g)" using w [of "Some g"] by (simp add: None og_cmds_def)
    have "wq_inv (og_set ?i (Some g) le)"
      by (rule og_set_ok [OF inv g(3)]) (use g o in blast, unfold e, rule ids)
    then show ?thesis using e by (simp add: wq_reopen_def Let_def None g(3))
  next
    case (Some ex)
    let ?x = "ex\<lparr>cmds := cmds g @ cmds ex, wg_count := wg_count ex + wg_count g\<rparr>"
    have x: "group_ok ex" "\<not> closed ex" "wg_origin ex = ?i" "wg ex \<notin> wg ` set (queue le)" using wq_invD(7-10) [OF inv Some] by simp_all
    have nm: "\<forall>c \<in> set (cmds g). \<not> is_mset c"
      using g(1,2) by (cases "cmds g" rule: rev_cases) (auto simp: group_ok_def)
    have ok: "group_ok ?x" using x g(1) nm by (auto simp: group_ok_def butlast_append)
    have e: "waiting (og_set ?i (Some ?x) le) = waiting le + mset (cmds g)"
      using w [of "Some ?x"] by (simp add: Some og_cmds_def)
    have "wq_inv (og_set ?i (Some ?x) le)"
    proof (rule og_set_ok [OF inv g(3)])
      fix y assume "Some ?x = Some y"
      then show "group_ok y \<and> \<not> closed y \<and> wg_origin y = ?i \<and> wg y \<notin> wg ` set (queue le) \<and>
          (\<forall>j h. og_at le j = Some h \<and> wg h = wg y \<longrightarrow> j = ?i)"
        using ok x wq_invD(11) [OF inv _ Some] by auto
    qed (unfold e, rule ids)
    then show ?thesis using e by (simp add: wq_reopen_def Let_def Some g(3))
  qed
  then show "wq_inv (wq_reopen g le)" "waiting (wq_reopen g le) = waiting le + mset (cmds g)" by simp_all
qed


lemma put_closed_ok:
  assumes inv: "wq_inv le" and g: "g \<in> set (queue le)"
    and h: "group_ok h" "closed h" "wg h = wg g" "wg_txn h = wg_txn g" "mset (cmds g) = add_mset c (mset (cmds h))"
  shows "wq_inv (put_group h le)" "waiting le = add_mset c (waiting (put_group h le))"
proof -
  let ?l = "put_group h le" and ?f = "\<lambda>x. if wg x = wg g then h else x"
  have f: "queue ?l = map ?f (queue le)" "open_groups ?l = open_groups le" "le_num_shards ?l = le_num_shards le"
    using h(2,3) by (simp_all add: put_group_def)
  have at: "og_at ?l = og_at le" by (rule ext) (simp add: og_at_def f)
  have u: "x \<in> set (queue le) \<Longrightarrow> wg x = wg g \<Longrightarrow> x = g" for x
    using wq_invD(3) [OF inv] g by (auto simp: distinct_map dest: inj_onD)
  have wgs: "map wg (queue ?l) = map wg (queue le)" using h(3) by (simp add: f)
  have txns: "map wg_txn (queue ?l) = map wg_txn (queue le)" using h(4) u by (auto simp: f)
  have fe: "map ?f (filter (\<lambda>x. wg x \<noteq> wg g) (queue le)) = filter (\<lambda>x. wg x \<noteq> wg g) (queue le)"
    by (rule map_idI) simp
  have m: "mset (queue le) = add_mset g (mset (filter (\<lambda>x. wg x \<noteq> wg g) (queue le)))"
    by (rule mset_filter_addr [OF wq_invD(3) [OF inv] g])
  have "mset (queue ?l) = image_mset ?f (mset (queue le))" by (simp add: f)
  also have "\<dots> = add_mset h (mset (map ?f (filter (\<lambda>x. wg x \<noteq> wg g) (queue le))))"
    by (subst m) (simp only: image_mset_add_mset mset_map if_True simp_thms)
  finally have m': "mset (queue ?l) = add_mset h (mset (filter (\<lambda>x. wg x \<noteq> wg g) (queue le)))" unfolding fe .
  show w: "waiting le = add_mset c (waiting ?l)"
    by (simp add: waiting_def at f(2,3) mset_concat_add [OF m] mset_concat_add [OF m'] h(5))
  have ids: "count (image_mset ci (waiting ?l)) a \<le> 1" for a by (rule ids_sub [OF wq_invD(12) [OF inv]]) (simp add: w)
  have gs: "wg ` set (queue ?l) = wg ` set (queue le)" using arg_cong [OF wgs, of set] by simp
  show "wq_inv ?l"
  proof (rule wq_invI, unfold wgs txns gs at f(2,3))
    fix x assume "x \<in> set (queue ?l)"
    then show "group_ok x \<and> closed x" using h(1,2) wq_invD(4,5) [OF inv] by (auto simp: f split: if_splits)
  next
    fix i x assume x: "og_at le i = Some x"
    from wq_invD(6-10) [OF inv x]
    show "i < le_num_shards le \<and> group_ok x \<and> \<not> closed x \<and> wg_origin x = i \<and> wg x \<notin> wg ` set (queue le)" by simp
  qed (use wq_invD(1-3,11) [OF inv] ids in simp_all)
qed

lemma remove_closed_ok:
  assumes inv: "wq_inv le" and g: "g \<in> set (queue le)" and c: "c \<in> set (cmds g)" and sh: "wg_origin g < le_num_shards le"
  shows "wq_inv (lock_wq_remove_cmd le g c) \<and> waiting le = add_mset c (waiting (lock_wq_remove_cmd le g c))"
proof -
  have ok: "group_ok g" "closed g" using wq_invD(4,5) [OF inv g] by simp_all
  have di: "distinct (map ci (cmds g))" using group_ids [OF inv group_in_waiting [OF inv, of g]] g by blast
  note um = unlink_mset [OF di c] and uc = unlink_count [OF ok(1) di c] and de = detach_ok [OF inv g]
  consider (empty) "wg_count (wg_unlink c g) = 0" | (anchor) "wg_count (wg_unlink c g) \<noteq> 0" "is_mset c"
    | (regular) "wg_count (wg_unlink c g) \<noteq> 0" "\<not> is_mset c" by blast
  then show ?thesis
  proof cases
    case empty
    then have "mset (cmds g) = {#c#}" by (rule unlink_last [OF ok(1) di c])
    then have "waiting le = add_mset c (waiting (wq_detach le g))" using de(2) by simp
    then show ?thesis using de(1) empty ok by (simp add: lock_wq_remove_cmd_def Let_def)
  next
    case anchor
    let ?g = "(wg_unlink c g)\<lparr>closed := False, wg_txn := txn_id_zero\<rparr>"
    have ne: "cmds (wg_unlink c g) \<noteq> []" using uc anchor(1) by (metis list.size(3))
    have al: "\<forall>x \<in> set (cmds ?g). \<not> is_mset x \<and> origin_shard x = wg_origin g" using unlink_anchor(2) [OF ok(1) di c anchor(2)] by simp
    have gok: "group_ok ?g"
      unfolding group_ok_def using ne uc al last_in_set [OF ne] by (auto dest: in_set_butlastD)
    have w: "waiting le = add_mset c (waiting (wq_detach le g) + mset (cmds ?g))"
    proof -
      define U where "U = mset (cmds (wg_unlink c g))"
      have "mset (cmds g) = add_mset c U" unfolding U_def by (rule um)
      moreover have "mset (cmds ?g) = U" by (simp add: U_def)
      ultimately show ?thesis using de(2) by simp
    qed
    have ids: "count (image_mset ci (waiting (wq_detach le g) + mset (cmds ?g))) a \<le> 1" for a
      by (rule ids_sub [OF wq_invD(12) [OF inv]]) (simp add: w)
    have oth: "wg h \<noteq> wg ?g" if "og_at (wq_detach le g) j = Some h" for j h
      using wq_invD(10) [OF inv, of j h] that g by (auto simp: de(3))
    have "wq_inv (wq_reopen ?g (wq_detach le g))" "waiting (wq_reopen ?g (wq_detach le g)) = waiting (wq_detach le g) + mset (cmds ?g)"
      by (rule reopen_ok [OF de(1) gok _ _ _ oth ids]; use sh de(4) in \<open>simp add: wq_detach_def\<close>)+
    then show ?thesis using w anchor ok(2) by (simp add: lock_wq_remove_cmd_def Let_def)
  next
    case regular
    have "group_ok (wg_unlink c g)" by (rule unlink_regular [OF ok(1) di c regular(2,1)])
    from put_closed_ok [OF inv g this _ _ _ um] show ?thesis
      using regular ok(2) by (simp add: lock_wq_remove_cmd_def Let_def)
  qed
qed

lemma remove_open_ok:
  assumes inv: "wq_inv le" and g: "og_at le i = Some g" and c: "c \<in> set (cmds g)"
  shows "wq_inv (lock_wq_remove_cmd le g c) \<and> waiting le = add_mset c (waiting (lock_wq_remove_cmd le g c))"
proof -
  have ok: "group_ok g" "\<not> closed g" "wg_origin g = i" "i < le_num_shards le" "wg g \<notin> wg ` set (queue le)"
    using wq_invD(6-10) [OF inv g] by simp_all
  have di: "distinct (map ci (cmds g))" using group_ids [OF inv group_in_waiting [OF inv, of g i]] g by blast
  have nm: "\<not> is_mset c" using ok(1,2) c by (cases "cmds g" rule: rev_cases) (auto simp: group_ok_def)
  note um = unlink_mset [OF di c] and uc = unlink_count [OF ok(1) di c] and w = waiting_og_set [OF wq_invD(1) [OF inv] ok(4)]
  show ?thesis
  proof (cases "wg_count (wg_unlink c g) = 0")
    case True
    then have "mset (cmds g) = {#c#}" by (rule unlink_last [OF ok(1) di c])
    then have e: "waiting le = add_mset c (waiting (og_set i None le))" using w [of None] by (simp add: g og_cmds_def)
    have "wq_inv (og_set i None le)"
      by (rule og_set_ok [OF inv ok(4)]) (simp, rule ids_sub [OF wq_invD(12) [OF inv]], simp add: e)
    then show ?thesis using True ok e by (simp add: lock_wq_remove_cmd_def Let_def)
  next
    case False
    let ?g = "wg_unlink c g"
    have e: "waiting le = add_mset c (waiting (og_set i (Some ?g) le))"
    proof -
      define U where "U = mset (cmds ?g)"
      have "waiting (og_set i (Some ?g) le) + mset (cmds g) = waiting le + U"
        using w [of "Some ?g"] by (simp add: g og_cmds_def U_def)
      moreover have "mset (cmds g) = add_mset c U" unfolding U_def by (rule um)
      ultimately show ?thesis by simp
    qed
    have "wq_inv (og_set i (Some ?g) le)"
    proof (rule og_set_ok [OF inv ok(4)])
      fix y assume "Some ?g = Some y"
      then show "group_ok y \<and> \<not> closed y \<and> wg_origin y = i \<and> wg y \<notin> wg ` set (queue le) \<and>
          (\<forall>j h. og_at le j = Some h \<and> wg h = wg y \<longrightarrow> j = i)"
        using unlink_regular [OF ok(1) di c nm False] ok wq_invD(11) [OF inv _ g] by auto
    next
      fix a show "count (image_mset ci (waiting (og_set i (Some ?g) le))) a \<le> 1"
        by (rule ids_sub [OF wq_invD(12) [OF inv]]) (simp add: e)
    qed
    then show ?thesis using False ok e nm by (simp add: lock_wq_remove_cmd_def Let_def put_group_def)
  qed
qed

section \<open>Search\<close>

lemma find_mset_Some: "find_mset txn g = Some c \<Longrightarrow> c \<in> set (cmds g) \<and> is_mset c \<and> ci_txn c = txn"
  by (auto simp: find_mset_def find_Some_iff txn_id_eq_iff)

lemma find_mset_None: "find_mset txn g = None \<longleftrightarrow> (\<forall>c \<in> set (cmds g). is_mset c \<longrightarrow> ci_txn c \<noteq> txn)"
  by (auto simp: find_mset_def find_None_iff txn_id_eq_iff)

lemma find_closed_Some: "find_closed txn gs = Some (c, g) \<Longrightarrow> g \<in> set gs \<and> find_mset txn g = Some c"
  by (induction gs) (auto split: if_splits option.splits)

lemma find_open_Some: "find_open le txn is = Some (c, g) \<Longrightarrow> \<exists>i. og_at le i = Some g \<and> find_mset txn g = Some c"
  by (induction "is") (auto split: option.splits)

lemma find_closed_None: "find_closed txn gs = None \<Longrightarrow> g \<in> set gs \<Longrightarrow> wg_txn g = txn \<Longrightarrow> find_mset txn g = None"
  by (induction gs) (auto simp: txn_id_eq_iff split: if_splits option.splits)

lemma closed_mset_txn:
  assumes "group_ok g" "closed g" "c \<in> set (cmds g)" "is_mset c"
  shows "ci_txn c = wg_txn g"
proof -
  obtain ys z where yz: "cmds g = ys @ [z]" using assms(1) by (cases "cmds g" rule: rev_cases) (auto simp: group_ok_def)
  then show ?thesis using assms by (auto simp: group_ok_def)
qed

lemma open_no_mset: "group_ok g \<Longrightarrow> \<not> closed g \<Longrightarrow> c \<in> set (cmds g) \<Longrightarrow> \<not> is_mset c"
  by (cases "cmds g" rule: rev_cases) (auto simp: group_ok_def)

lemma waiting_in_group:
  assumes "c \<in># waiting le"
  shows "(\<exists>g \<in> set (queue le). c \<in> set (cmds g)) \<or> (\<exists>i g. og_at le i = Some g \<and> c \<in> set (cmds g))"
proof -
  have "c \<in># mset (concat (map cmds (queue le))) \<or> c \<in># (\<Sum>i < le_num_shards le. og_cmds (og_at le i))"
    using assms by (simp add: waiting_def)
  then show ?thesis
  proof
    assume "c \<in># (\<Sum>i < le_num_shards le. og_cmds (og_at le i))"
    then obtain i where "c \<in># og_cmds (og_at le i)" by (auto simp: set_mset_sum)
    then show ?thesis by (auto simp: og_cmds_def split: option.splits)
  qed auto
qed

section \<open>Properties\<close>



definition sample_entry :: "nat lock_entry" where
  "sample_entry = \<lparr>obj_ptr = 5, hash56 = 77, holder = None, queue = [], open_groups = Some (\<lambda>_. None), le_num_shards = 4\<rparr>"

definition sample_cmd :: "addr \<Rightarrow> bool \<Rightarrow> nat cmd_info" where
  "sample_cmd a m = \<lparr>ci = a, is_mset = m, ci_txn = \<lparr>timestamp_ns = 9, conn_ptr = 1, pipeline_idx = 0\<rparr>, ci_stat = 0, new_obj = 0,
     old_obj = 0, sub_idx = 0, total_acks = 1, ci_msg = 0, ci_hash56 = 77, origin_shard = 2, req_nb = 0\<rparr>"

lemma sample_entry_inv: "wq_inv sample_entry" "waiting sample_entry = {#}"
proof -
  have at: "og_at sample_entry i = None" for i by (simp add: og_at_def sample_entry_def)
  show w: "waiting sample_entry = {#}" by (simp add: waiting_def og_cmds_def at) (simp add: sample_entry_def)
  show "wq_inv sample_entry" unfolding wq_inv_def w at by (simp add: sample_entry_def)
qed

lemma sample_fresh: "cmd_fresh (sample_cmd 6 True) sample_entry" "wg_fresh (Some 8) sample_entry"
proof -
  show "cmd_fresh (sample_cmd 6 True) sample_entry"
    by (simp add: cmd_fresh_def sample_entry_inv) (simp add: sample_cmd_def sample_entry_def)
qed (simp add: wg_fresh_def sample_entry_def og_at_def)



end
