(* ===== verification/Resp.thy ===== *)
theory Resp
  imports Prelude
begin

text \<open>
  Model of the request parser: \<open>protocol/resp.h\<close> (parser state, growth of the argument vector) and the buffer growth,
  reset and parse loop of \<open>protocol/resp_handler.h\<close>.  The read buffer is the list of its bytes; the argument vector holds
  offsets into it instead of pointers.  What is done with a command is the parameter \<open>exec\<close>.
\<close>

section \<open>State\<close>

type_synonym s32 = "32 word"

datatype resp_state = RESP_PARSE_ARRAY_LEN | RESP_PARSE_BULK_LEN | RESP_PARSE_BULK_DATA

record resp_parser =
  rbuf :: bytes
  rcap :: nat
  rbuf_parsed :: nat
  cmd_start :: nat
  parse_state :: resp_state
  argc_expected :: s32
  argc_got :: nat
  argv :: "(nat \<times> u64) list"
  argv_cap :: s32
  bulk_len :: s32

definition RESP_RBUF_INIT :: nat where "RESP_RBUF_INIT = 4096"

text \<open>The doubling loop of \<open>resp_argv_ensure\<close> on \<open>int\<close> with wrap-around, with fuel.\<close>

fun argv_newcap :: "nat \<Rightarrow> s32 \<Rightarrow> s32 \<Rightarrow> s32 option" where
  "argv_newcap 0 newcap needed = None"
| "argv_newcap (Suc n) newcap needed =
     (if sint newcap < sint needed then argv_newcap n (newcap * 2) needed else Some newcap)"

text \<open>The allocations are a Boolean: both of them succeed, or one fails.\<close>

definition resp_argv_ensure :: "nat \<Rightarrow> bool \<Rightarrow> s32 \<Rightarrow> s32 \<Rightarrow> (bool \<times> s32) option" where
  "resp_argv_ensure fuel alloc cap needed =
     (if sint needed \<le> sint cap then Some (True, cap)
      else case argv_newcap fuel (if cap = 0 then 8 else cap * 2) needed of
             None \<Rightarrow> None
           | Some newcap \<Rightarrow> Some (if alloc then (True, newcap) else (False, cap)))"

text \<open>Growing the buffer keeps the bytes from the start of the current command.\<close>

function double_until :: "nat \<Rightarrow> nat \<Rightarrow> nat" where
  "double_until cap need = (if cap < need \<and> 0 < cap then double_until (cap * 2) need else cap)"
  by pat_completeness auto
termination by (relation "measure (\<lambda>(cap, need). need - cap)") auto

declare double_until.simps [simp del]

definition net_rbuf_grow :: "bool \<Rightarrow> nat \<Rightarrow> resp_parser \<Rightarrow> resp_parser option" where
  "net_rbuf_grow alloc need c =
     (if length (rbuf c) + need \<le> rcap c then Some c
      else
        (let partial = drop (cmd_start c) (rbuf c);
             min_cap = length partial + need;
             newcap = double_until (if rcap c \<noteq> 0 then rcap c * 2 else RESP_RBUF_INIT) min_cap
         in if \<not> alloc then None
            else Some (c\<lparr>rbuf := partial, rcap := newcap,
              argv := map (\<lambda>(off, len). (off - cmd_start c, len)) (argv c),
              rbuf_parsed := rbuf_parsed c - cmd_start c, cmd_start := 0\<rparr>)))"

definition resp_parser_reset :: "resp_parser \<Rightarrow> resp_parser" where
  "resp_parser_reset c =
     (let c = (if length (rbuf c) \<le> rbuf_parsed c then c\<lparr>rbuf := [], rbuf_parsed := 0, cmd_start := 0\<rparr>
               else c\<lparr>cmd_start := rbuf_parsed c\<rparr>)
      in c\<lparr>parse_state := RESP_PARSE_ARRAY_LEN, argc_expected := 0, argc_got := 0, argv := [], bulk_len := 0\<rparr>)"

section \<open>The parse loop\<close>

datatype resp_event = Ev_ping | Ev_cmd "(nat \<times> u64) list" bytes

datatype exec_ret = Exec_done | Exec_pause | Exec_fail

datatype 's outcome =
    Continue resp_parser 's
  | Wait resp_parser 's
  | Paused resp_parser 's
  | Closed 's
  | Hang
  | Fault

text \<open>The digits loop: every byte from \<open>'0'\<close> on counts, the arithmetic is that of \<open>int\<close>.\<close>

function scan_len :: "bytes \<Rightarrow> nat \<Rightarrow> s32 \<Rightarrow> nat \<times> s32" where
  "scan_len buf pos val =
     (if pos < length buf - 1 \<and> 48 \<le> buf ! pos
      then scan_len buf (pos + 1) (val * 10 + (ucast (buf ! pos) - 48)) else (pos, val))"
  by pat_completeness auto
termination by (relation "measure (\<lambda>(buf, pos, val). length buf - pos)") auto

declare scan_len.simps [simp del]

definition read_len :: "bytes \<Rightarrow> nat \<Rightarrow> (nat \<times> s32) option" where
  "read_len buf pos =
     (case scan_len buf pos 0 of (q, val) \<Rightarrow>
        if length buf - 1 \<le> q \<or> buf ! q \<noteq> 13 \<or> buf ! (q + 1) \<noteq> 10 then None else Some (q + 2, val))"

definition tolower :: "u8 \<Rightarrow> u8" where
  "tolower b = (if 65 \<le> b \<and> b \<le> 90 then b + 32 else b)"

definition is_inline_ping :: "bytes \<Rightarrow> bool" where
  "is_inline_ping b \<longleftrightarrow> 4 \<le> length b \<and> map tolower (take 4 b) = [112, 105, 110, 103]"

function skip_crlf :: "bytes \<Rightarrow> nat \<Rightarrow> nat" where
  "skip_crlf buf pos = (if pos < length buf \<and> (buf ! pos = 13 \<or> buf ! pos = 10) then skip_crlf buf (pos + 1) else pos)"
  by pat_completeness auto
termination by (relation "measure (\<lambda>(buf, pos). length buf - pos)") auto

declare skip_crlf.simps [simp del]

definition parse_array_len ::
  "bool \<Rightarrow> ('s \<Rightarrow> resp_event \<Rightarrow> 's \<times> exec_ret) \<Rightarrow> resp_parser \<Rightarrow> 's \<Rightarrow> 's outcome" where
  "parse_array_len alloc exec c s =
     (let buf = rbuf c; pos = rbuf_parsed c; avail = length buf - pos
      in if 2 \<le> avail \<and> buf ! pos = 13 \<and> buf ! (pos + 1) = 10 then Continue (c\<lparr>rbuf_parsed := pos + 2\<rparr>) s
         else if buf ! pos = 13 then Wait c s
         else
           (let c = c\<lparr>cmd_start := pos\<rparr>
            in if buf ! pos \<noteq> 42 then
                 (if is_inline_ping (drop pos buf)
                  then Continue (c\<lparr>rbuf_parsed := skip_crlf buf (pos + 4)\<rparr>) (fst (exec s Ev_ping))
                  else Closed s)
               else
                 (case read_len buf (pos + 1) of
                    None \<Rightarrow> Wait c s
                  | Some (q, val) \<Rightarrow>
                      (case resp_argv_ensure 64 alloc (argv_cap c) val of
                         None \<Rightarrow> Hang
                       | Some (ok, cap) \<Rightarrow>
                           if \<not> ok then Closed s
                           else Continue (c\<lparr>rbuf_parsed := q, argc_expected := val, argc_got := 0, argv := [], argv_cap := cap,
                                            parse_state := RESP_PARSE_BULK_LEN\<rparr>) s))))"

definition parse_bulk_len :: "resp_parser \<Rightarrow> 's \<Rightarrow> 's outcome" where
  "parse_bulk_len c s =
     (if rbuf c ! rbuf_parsed c \<noteq> 36 then Closed s
      else case read_len (rbuf c) (rbuf_parsed c + 1) of
             None \<Rightarrow> Wait c s
           | Some (q, val) \<Rightarrow> Continue (c\<lparr>rbuf_parsed := q, bulk_len := val, parse_state := RESP_PARSE_BULK_DATA\<rparr>) s)"

text \<open>A write beyond the argument vector is \<open>Fault\<close>.\<close>

definition parse_bulk_data :: "('s \<Rightarrow> resp_event \<Rightarrow> 's \<times> exec_ret) \<Rightarrow> resp_parser \<Rightarrow> 's \<Rightarrow> 's outcome" where
  "parse_bulk_data exec c s =
     (let need = (scast (bulk_len c) :: u64) + 2
      in if length (rbuf c) - rbuf_parsed c < unat need then Wait c s
         else if sint (argv_cap c) \<le> int (argc_got c) then Fault
         else
           (let c = c\<lparr>argv := argv c @ [(rbuf_parsed c, scast (bulk_len c))], argc_got := argc_got c + 1,
                      rbuf_parsed := rbuf_parsed c + unat need\<rparr>
            in if sint (argc_expected c) \<le> int (argc_got c) then
                 (case exec s (Ev_cmd (argv c) (rbuf c)) of
                    (s, Exec_done) \<Rightarrow> Continue (resp_parser_reset c) s
                  | (s, Exec_pause) \<Rightarrow> Paused (resp_parser_reset c) s
                  | (s, Exec_fail) \<Rightarrow> Closed s)
               else Continue (c\<lparr>parse_state := RESP_PARSE_BULK_LEN\<rparr>) s))"

definition parse_step ::
  "bool \<Rightarrow> ('s \<Rightarrow> resp_event \<Rightarrow> 's \<times> exec_ret) \<Rightarrow> resp_parser \<Rightarrow> 's \<Rightarrow> 's outcome" where
  "parse_step alloc exec c s =
     (if length (rbuf c) \<le> rbuf_parsed c then Wait c s
      else case parse_state c of
             RESP_PARSE_ARRAY_LEN \<Rightarrow> parse_array_len alloc exec c s
           | RESP_PARSE_BULK_LEN \<Rightarrow> parse_bulk_len c s
           | RESP_PARSE_BULK_DATA \<Rightarrow> parse_bulk_data exec c s)"

section \<open>Termination\<close>

lemma scan_len_bounds: "scan_len buf pos v = (q, w) \<Longrightarrow> pos \<le> q \<and> (pos \<le> length buf - 1 \<longrightarrow> q \<le> length buf - 1)"
proof (induction buf pos v rule: scan_len.induct)
  case (1 buf pos v)
  then show ?case by (cases "pos < length buf - 1 \<and> 48 \<le> buf ! pos") (auto simp: scan_len.simps [of buf pos v])
qed

lemma read_len_Some:
  assumes "read_len buf pos = Some (q, v)"
  shows "pos + 2 \<le> q \<and> q \<le> length buf"
proof -
  obtain r where r: "scan_len buf pos 0 = (r, v)" "q = r + 2" "r < length buf - 1"
    using assms by (auto simp: read_len_def split: prod.splits if_splits)
  then show ?thesis using scan_len_bounds [OF r(1)] by auto
qed

lemma skip_crlf_bounds: "pos \<le> skip_crlf buf pos \<and> (pos \<le> length buf \<longrightarrow> skip_crlf buf pos \<le> length buf)"
proof (induction buf pos rule: skip_crlf.induct)
  case (1 buf pos)
  then show ?case by (cases "pos < length buf \<and> (buf ! pos = 13 \<or> buf ! pos = 10)") (auto simp: skip_crlf.simps [of buf pos])
qed

definition remaining :: "resp_parser \<Rightarrow> nat" where
  "remaining c = length (rbuf c) - rbuf_parsed c"

lemma remaining_reset: "remaining (resp_parser_reset c) = remaining c" "parse_state (resp_parser_reset c) = RESP_PARSE_ARRAY_LEN"
  by (simp_all add: remaining_def resp_parser_reset_def Let_def)

lemma parse_array_len_less:
  assumes "parse_array_len alloc exec c s = Continue c' s'" "rbuf_parsed c < length (rbuf c)"
  shows "remaining c' < remaining c"
proof -
  consider "rbuf c' = rbuf c" "rbuf_parsed c' = rbuf_parsed c + 2" "2 \<le> length (rbuf c) - rbuf_parsed c"
    | "rbuf c' = rbuf c" "rbuf_parsed c' = skip_crlf (rbuf c) (rbuf_parsed c + 4)"
    | v where "rbuf c' = rbuf c" "read_len (rbuf c) (rbuf_parsed c + 1) = Some (rbuf_parsed c', v)"
    using assms(1) by (auto simp: parse_array_len_def Let_def split: if_splits option.splits)
  then show ?thesis
  proof cases
    case 1
    then show ?thesis by (simp add: remaining_def)
  next
    case 2
    then show ?thesis using skip_crlf_bounds [of "rbuf_parsed c + 4" "rbuf c"] assms(2) unfolding remaining_def 2 by linarith
  next
    case 3
    then show ?thesis using read_len_Some [OF 3(2)] assms(2) unfolding remaining_def 3(1) by linarith
  qed
qed

lemma parse_bulk_len_less:
  assumes "parse_bulk_len c s = Continue c' s'" "rbuf_parsed c < length (rbuf c)"
  shows "remaining c' < remaining c"
proof -
  obtain q v where q: "read_len (rbuf c) (rbuf_parsed c + 1) = Some (q, v)" "rbuf c' = rbuf c" "rbuf_parsed c' = q"
    using assms(1) by (auto simp: parse_bulk_len_def split: if_splits option.splits)
  then show ?thesis using read_len_Some [OF q(1)] assms(2) unfolding remaining_def q(2,3) by linarith
qed

lemma parse_bulk_data_le:
  assumes "parse_bulk_data exec c s = Continue c' s'"
  shows "remaining c' \<le> remaining c \<and> parse_state c' \<noteq> RESP_PARSE_BULK_DATA"
proof -
  let ?c = "c\<lparr>argv := argv c @ [(rbuf_parsed c, scast (bulk_len c))], argc_got := argc_got c + 1,
    rbuf_parsed := rbuf_parsed c + unat ((scast (bulk_len c) :: u64) + 2)\<rparr>"
  have "c' = resp_parser_reset ?c \<or> c' = ?c\<lparr>parse_state := RESP_PARSE_BULK_LEN\<rparr>"
    using assms by (auto simp: parse_bulk_data_def Let_def split: if_splits prod.splits exec_ret.splits)
  then show ?thesis by (auto simp: remaining_reset) (simp_all add: remaining_def)
qed

definition parse_measure :: "((resp_parser \<times> 's) \<times> (resp_parser \<times> 's)) set" where
  "parse_measure = measures [\<lambda>(c, s). remaining c, \<lambda>(c, s). if parse_state c = RESP_PARSE_BULK_DATA then 1 else 0]"

lemma parse_step_less:
  assumes "parse_step alloc exec c s = Continue c' s'"
  shows "((c', s'), (c, s)) \<in> parse_measure"
proof -
  have lt: "rbuf_parsed c < length (rbuf c)" using assms by (auto simp: parse_step_def split: if_splits)
  show ?thesis
  proof (cases "parse_state c")
    case RESP_PARSE_ARRAY_LEN
    then show ?thesis using assms lt parse_array_len_less [OF _ lt] by (simp add: parse_measure_def parse_step_def)
  next
    case RESP_PARSE_BULK_LEN
    then show ?thesis using assms lt parse_bulk_len_less [OF _ lt] by (simp add: parse_measure_def parse_step_def)
  next
    case RESP_PARSE_BULK_DATA
    then have "parse_bulk_data exec c s = Continue c' s'" using assms lt by (simp add: parse_step_def)
    from parse_bulk_data_le [OF this] show ?thesis using RESP_PARSE_BULK_DATA by (auto simp: parse_measure_def)
  qed
qed

function parse_loop :: "bool \<Rightarrow> ('s \<Rightarrow> resp_event \<Rightarrow> 's \<times> exec_ret) \<Rightarrow> resp_parser \<Rightarrow> 's \<Rightarrow> 's outcome" where
  "parse_loop alloc exec c s =
     (case parse_step alloc exec c s of Continue c' s' \<Rightarrow> parse_loop alloc exec c' s' | r \<Rightarrow> r)"
  by pat_completeness auto
termination
proof (relation "inv_image parse_measure (\<lambda>(alloc, exec, c, s). (c, s))")
  show "wf (inv_image parse_measure (\<lambda>(alloc, exec, c, s). (c, s)))" by (simp add: parse_measure_def)
qed (simp add: parse_step_less)

declare parse_loop.simps [simp del]

section \<open>Decimal numbers\<close>

text \<open>The digits of \<open>resp_u64dec\<close> in the order of its scratch array, and the reversed copy.\<close>

function dec_digits :: "u64 \<Rightarrow> bytes" where
  "dec_digits v = (if v = 0 then [] else (48 + ucast (v mod 10)) # dec_digits (v div 10))"
  by pat_completeness auto
termination
proof (relation "measure unat")
  fix v :: u64 assume "v \<noteq> 0"
  then have "0 < unat v" by (simp add: unat_gt_0)
  then show "(v div 10, v) \<in> measure unat" by (simp add: unat_div)
qed simp

declare dec_digits.simps [simp del]

definition resp_u64dec :: "u64 \<Rightarrow> bytes" where
  "resp_u64dec v = (if v = 0 then [48] else rev (dec_digits v))"

definition digit_val :: "nat \<Rightarrow> u8 \<Rightarrow> nat" where
  "digit_val a d = a * 10 + (unat d - 48)"

lemma dec_digit: "unat (48 + ucast (v mod 10 :: u64) :: u8) = 48 + unat v mod 10"
proof -
  have "unat (v mod 10) = unat v mod 10" by (simp add: unat_mod)
  then have "unat (ucast (v mod 10) :: u8) = unat v mod 10" by (subst unat_ucast_down) simp_all
  then show ?thesis by (subst unat_add_nowrap) simp_all
qed

lemma dec_digits_range: "d \<in> set (dec_digits v) \<Longrightarrow> 48 \<le> unat d \<and> unat d \<le> 57"
proof (induction v rule: dec_digits.induct)
  case (1 v)
  then show ?case by (cases "v = 0") (auto simp: dec_digits.simps [of v] dec_digit dec_digits.simps [of 0])
qed

lemma dec_digits_val: "foldr (\<lambda>d a. digit_val a d) (dec_digits v) 0 = unat v"
proof (induction v rule: dec_digits.induct)
  case (1 v)
  show ?case
  proof (cases "v = 0")
    case False
    have "foldr (\<lambda>d a. digit_val a d) (dec_digits (v div 10)) 0 = unat v div 10" using 1 [OF False] by (simp add: unat_div)
    then show ?thesis using False by (simp add: dec_digits.simps [of v] digit_val_def dec_digit)
  qed (simp add: dec_digits.simps)
qed

lemma dec_digits_length: "v \<noteq> 0 \<Longrightarrow> 10 ^ (length (dec_digits v) - 1) \<le> unat v"
proof (induction v rule: dec_digits.induct)
  case (1 v)
  show ?case
  proof (cases "v div 10 = 0")
    case True
    then have "dec_digits (v div 10) = []" by (simp add: dec_digits.simps)
    then show ?thesis using 1(2) by (simp add: dec_digits.simps [of v] Suc_leI unat_gt_0)
  next
    case False
    have ih: "10 ^ (length (dec_digits (v div 10)) - 1) \<le> unat v div 10" using 1(1) [OF 1(2) False] by (simp add: unat_div)
    have "0 < length (dec_digits (v div 10))" using False by (simp add: dec_digits.simps)
    then have "(10::nat) ^ (length (dec_digits v) - 1) = 10 * 10 ^ (length (dec_digits (v div 10)) - 1)"
      using 1(2) by (simp add: dec_digits.simps [of v] flip: power_Suc)
    also have "\<dots> \<le> 10 * (unat v div 10)" using ih by simp
    finally show ?thesis by linarith
  qed
qed

lemma u64dec_val: "foldl digit_val 0 (resp_u64dec v) = unat v"
  using dec_digits_val [of v] by (simp add: resp_u64dec_def foldl_conv_foldr) (simp add: digit_val_def)

lemma u64dec_range: "d \<in> set (resp_u64dec v) \<Longrightarrow> 48 \<le> unat d \<and> unat d \<le> 57"
  using dec_digits_range [of d v] by (auto simp: resp_u64dec_def split: if_splits)

lemma u64dec_nonempty: "resp_u64dec v \<noteq> []"
  by (simp add: resp_u64dec_def dec_digits.simps [of v])

lemma u64dec_length: "length (resp_u64dec v) \<le> 20"
proof (cases "v = 0")
  case False
  have "10 ^ (length (dec_digits v) - 1) < (10::nat) ^ 20"
    using dec_digits_length [OF False] unat_u64_less [of v] by (simp add: order_le_less_trans)
  then have "length (dec_digits v) - 1 < 20" by (rule power_less_imp_less_exp [rotated]) simp
  then show ?thesis using False by (simp add: resp_u64dec_def)
qed (simp add: resp_u64dec_def)

section \<open>Scanning a length line\<close>

lemma scan_digits:
  assumes "\<forall>d \<in> set ds. 48 \<le> d"
  shows "scan_len (pre @ ds @ 13 # x # rest) (length pre) v
    = (length pre + length ds, foldl (\<lambda>a d. a * 10 + (ucast d - 48)) v ds)"
  using assms
proof (induction ds arbitrary: pre v)
  case Nil
  show ?case by (simp add: scan_len.simps nth_append)
next
  case (Cons d ds)
  have "scan_len ((pre @ [d]) @ ds @ 13 # x # rest) (length (pre @ [d])) (v * 10 + (ucast d - 48))
    = (length (pre @ [d]) + length ds, foldl (\<lambda>a d. a * 10 + (ucast d - 48)) (v * 10 + (ucast d - 48)) ds)"
    by (rule Cons.IH) (use Cons.prems in simp)
  then show ?case using Cons.prems by (simp add: scan_len.simps [of "pre @ d # ds @ 13 # x # rest"] nth_append)
qed

lemma read_len_line:
  assumes "\<forall>d \<in> set ds. 48 \<le> d"
  shows "read_len (pre @ ds @ 13 # 10 # rest) (length pre)
    = Some (length pre + length ds + 2, foldl (\<lambda>a d. a * 10 + (ucast d - 48)) 0 ds)"
proof -
  have "(pre @ ds @ 13 # 10 # rest) ! (length pre + length ds) = 13"
    "(pre @ ds @ 13 # 10 # rest) ! Suc (length pre + length ds) = 10"
    using nth_append_length [of "pre @ ds" 13 "10 # rest"] nth_append_length [of "pre @ ds @ [13]" 10 rest] by simp_all
  then show ?thesis by (simp add: read_len_def scan_digits [OF assms])
qed

text \<open>A length line that has not arrived completely is not accepted.\<close>

lemma scan_to_end:
  "(\<forall>i. pos \<le> i \<and> i < length buf - 1 \<longrightarrow> 48 \<le> buf ! i) \<Longrightarrow> length buf - 1 \<le> fst (scan_len buf pos v)"
proof (induction buf pos v rule: scan_len.induct)
  case (1 buf pos v)
  show ?case
  proof (cases "pos < length buf - 1")
    case True
    then have "48 \<le> buf ! pos" using 1(2) by simp
    then show ?thesis using 1(1) 1(2) True by (simp add: scan_len.simps [of buf pos v])
  qed (simp add: scan_len.simps [of buf pos v])
qed

lemma read_len_partial:
  assumes ds: "\<forall>d \<in> set ds. 48 \<le> d" and r: "r @ f = ds @ 13 # 10 # t" "length r < length ds + 2"
  shows "read_len (pre @ r) (length pre) = None"
proof -
  let ?b = "pre @ r"
  have "48 \<le> ?b ! i" if "length pre \<le> i" "i < length ?b - 1" for i
  proof -
    have j: "i - length pre < length r" "i - length pre < length ds" using that r(2) by auto
    then have "r ! (i - length pre) = (r @ f) ! (i - length pre)" by (simp add: nth_append)
    also have "\<dots> = ds ! (i - length pre)" unfolding r(1) using j(2) by (simp add: nth_append)
    finally show ?thesis using ds j(2) that(1) by (simp add: nth_append)
  qed
  then have "length ?b - 1 \<le> fst (scan_len ?b (length pre) 0)" by (intro scan_to_end) blast
  then show ?thesis by (auto simp: read_len_def split: prod.split)
qed

text \<open>The value of a decimal length below $2^{31}$ is read back.\<close>

lemma foldl_digits_word:
  assumes "\<forall>d \<in> set ds. 48 \<le> d"
  shows "foldl (\<lambda>a d. a * 10 + (ucast d - 48)) (of_nat a :: s32) ds = of_nat (foldl digit_val a ds)"
  using assms
proof (induction ds arbitrary: a)
  case (Cons d ds)
  have le: "48 \<le> unat d" using Cons.prems by (simp add: word_le_nat_alt)
  have "(ucast d :: s32) = of_nat (unat d)" by (simp add: of_nat_unat)
  then have "(of_nat a * 10 + (ucast d - 48) :: s32) = of_nat (digit_val a d)"
    using le by (simp add: digit_val_def of_nat_diff)
  then show ?case using Cons by simp
qed simp

lemma u64dec_digits: "\<forall>d \<in> set (resp_u64dec v). 48 \<le> d"
  using u64dec_range [of _ v] by (auto simp: word_le_nat_alt)

lemma read_u64dec:
  "foldl (\<lambda>a d. a * 10 + (ucast d - 48)) (0 :: s32) (resp_u64dec v) = of_nat (unat v)"
  using foldl_digits_word [OF u64dec_digits, of 0 v] by (simp add: u64dec_val)


section \<open>The argument vector\<close>

lemma sint_small:
  assumes "unat (w :: s32) < 2 ^ 31"
  shows "sint w = int (unat w)"
proof -
  have "int (unat w) < int (2 ^ 31)" using assms by (simp only: of_nat_less_iff)
  moreover have "- (2 ^ 31) \<le> int (unat w)" by (rule order_trans [OF _ of_nat_0_le_iff]) simp
  ultimately have "signed_take_bit 31 (int (unat w)) = int (unat w)" by (intro signed_take_bit_int_eq_self) simp_all
  then show ?thesis by (simp add: sint_uint)
qed

lemma unat_exp32: "k < 32 \<Longrightarrow> unat (2 ^ k :: s32) = 2 ^ k"
proof -
  assume "k < 32"
  then have "(2::nat) ^ k < 2 ^ 32" by (intro power_strict_increasing) auto
  then have "unat (of_nat (2 ^ k) :: s32) = 2 ^ k" by (subst unat_of_nat) simp
  then show ?thesis by simp
qed

lemma sint_exp32:
  assumes "k < 31"
  shows "sint (2 ^ k :: s32) = 2 ^ k"
proof -
  have "(2 :: nat) ^ k < 2 ^ 31" using assms by (intro power_strict_increasing) simp_all
  then show ?thesis using sint_small [of "2 ^ k"] assms by (simp add: unat_exp32)
qed

definition cap_ok :: "s32 \<Rightarrow> bool" where
  "cap_ok cap \<longleftrightarrow> cap = 0 \<or> (\<exists>k. 3 \<le> k \<and> k \<le> 30 \<and> cap = 2 ^ k)"

lemma newcap_ok:
  assumes "k \<le> 30" "sint needed \<le> 2 ^ 30" "30 - k < fuel"
  shows "\<exists>j. k \<le> j \<and> j \<le> 30 \<and> argv_newcap fuel (2 ^ k) needed = Some (2 ^ j) \<and> sint needed \<le> 2 ^ j"
  using assms
proof (induction fuel arbitrary: k)
  case (Suc fuel)
  have s: "sint (2 ^ k :: s32) = 2 ^ k" using Suc.prems(1) by (intro sint_exp32) simp
  show ?case
  proof (cases "(2 :: int) ^ k < sint needed")
    case True
    have k: "k < 30"
    proof (rule ccontr)
      assume "\<not> k < 30"
      then have "k = 30" using Suc.prems(1) by simp
      then show False using True Suc.prems(2) by simp
    qed
    have f: "30 - Suc k < fuel" and k1: "Suc k \<le> 30" using k Suc.prems(3) by linarith+
    obtain j where "Suc k \<le> j" "j \<le> 30" "argv_newcap fuel (2 ^ Suc k) needed = Some (2 ^ j)" "sint needed \<le> 2 ^ j"
      using Suc.IH [OF k1 Suc.prems(2) f] by blast
    then show ?thesis using True by (intro exI [of _ j]) (simp add: s mult.commute)
  next
    case False
    then show ?thesis using Suc.prems(1) by (intro exI [of _ k]) (simp add: s)
  qed
qed simp

lemma ensure_ok:
  assumes "cap_ok cap" "sint needed \<le> 2 ^ 30" "0 < sint needed"
  shows "\<exists>cap'. resp_argv_ensure 64 True cap needed = Some (True, cap') \<and> cap_ok cap' \<and> sint needed \<le> sint cap'"
proof (cases "sint needed \<le> sint cap")
  case True
  then show ?thesis using assms(1) by (simp add: resp_argv_ensure_def)
next
  case F: False
  obtain k where k: "3 \<le> k" "k \<le> 30" "(if cap = 0 then 8 else cap * 2) = 2 ^ k"
  proof (cases "cap = 0")
    case True
    then show thesis using that [of 3] by simp
  next
    case False
    then obtain j where j: "3 \<le> j" "j \<le> 30" "cap = 2 ^ j" using assms(1) by (auto simp: cap_ok_def)
    have "j < 30"
    proof (rule ccontr)
      assume "\<not> j < 30"
      then have "sint cap = 2 ^ 30" using j sint_exp32 [of 30] by simp
      then show False using F assms(2) by simp
    qed
    then show thesis using that [of "Suc j"] j False by simp
  qed
  have "30 - k < (64 :: nat)" by simp
  from newcap_ok [OF k(2) assms(2) this]
  obtain j where j: "k \<le> j" "j \<le> 30" "argv_newcap 64 (2 ^ k) needed = Some (2 ^ j)" "sint needed \<le> 2 ^ j" by blast
  have "resp_argv_ensure 64 True cap needed = Some (True, 2 ^ j)"
    using F j(3) k(3) by (simp only: resp_argv_ensure_def if_False if_True option.case)
  moreover have "cap_ok (2 ^ j)" unfolding cap_ok_def using j(1,2) k(1) by (intro disjI2 exI [of _ j]) simp
  moreover have "sint (2 ^ j :: s32) = 2 ^ j" using j(2) by (intro sint_exp32) simp
  ultimately show ?thesis using j(4) by simp
qed

lemma newcap_hangs:
  assumes "2 ^ 30 < sint needed" "(\<exists>k \<le> 31. c = 2 ^ k) \<or> c = 0"
  shows "argv_newcap fuel c needed = None"
  using assms(2)
proof (induction fuel arbitrary: c)
  case (Suc fuel)
  have "sint c \<le> 2 ^ 30 \<and> ((\<exists>k \<le> 31. c * 2 = 2 ^ k) \<or> c * 2 = 0)"
    using Suc.prems
  proof
    assume "\<exists>k \<le> 31. c = 2 ^ k"
    then obtain k where k: "k \<le> 31" "c = 2 ^ k" by blast
    show ?thesis
    proof (cases "k = 31")
      case True
      then show ?thesis using k by simp
    next
      case False
      then have "k \<le> 30" using k by simp
      then have "(2 :: int) ^ k \<le> 2 ^ 30" by (intro power_increasing) simp_all
      moreover have "sint c = 2 ^ k" using k False by (simp add: sint_exp32)
      moreover have "c * 2 = 2 ^ Suc k" using k by simp
      ultimately show ?thesis using False k(1) by (intro conjI disjI1 exI [of _ "Suc k"]) simp_all
    qed
  qed simp
  then show ?case using Suc.IH [of "c * 2"] assms(1) by simp
qed simp


section \<open>Encoded commands\<close>

text \<open>The bytes of a bulk string, as \<open>resp_reply_bulk\<close> writes them, and of a request.\<close>

definition resp_reply_bulk :: "bytes \<Rightarrow> bytes" where
  "resp_reply_bulk b = 36 # resp_u64dec (of_nat (length b)) @ [13, 10] @ b @ [13, 10]"

definition enc_cmd :: "bytes list \<Rightarrow> bytes" where
  "enc_cmd args = 42 # resp_u64dec (of_nat (length args)) @ [13, 10] @ concat (map resp_reply_bulk args)"

definition cmd_ok :: "bytes list \<Rightarrow> bool" where
  "cmd_ok args \<longleftrightarrow> args \<noteq> [] \<and> length args \<le> 2 ^ 30 \<and> (\<forall>a \<in> set args. length a < 2 ^ 31)"

definition slices :: "(nat \<times> u64) list \<Rightarrow> bytes \<Rightarrow> bytes list" where
  "slices av buf = map (\<lambda>(off, len). take (unat len) (drop off buf)) av"

text \<open>
  \<open>parsing c f cs\<close>: the unread bytes of the buffer and the bytes \<open>f\<close> still to come are the rest of the current
  command and the commands after it, \<open>cs\<close> counting the current one.
\<close>

definition argv_ok :: "resp_parser \<Rightarrow> bytes list \<Rightarrow> bool" where
  "argv_ok c args \<longleftrightarrow> length (argv c) = argc_got c \<and> slices (argv c) (rbuf c) = take (argc_got c) args \<and>
     argc_got c < length args \<and> argc_expected c = of_nat (length args) \<and> int (length args) \<le> sint (argv_cap c) \<and>
     (\<forall>(off, len) \<in> set (argv c). cmd_start c \<le> off \<and> off + unat len \<le> rbuf_parsed c)"

definition parsing :: "resp_parser \<Rightarrow> bytes \<Rightarrow> bytes list list \<Rightarrow> bool" where
  "parsing c f cs \<longleftrightarrow>
     cap_ok (argv_cap c) \<and> cmd_start c \<le> rbuf_parsed c \<and> rbuf_parsed c \<le> length (rbuf c) \<and> (\<forall>x \<in> set cs. cmd_ok x) \<and>
     (let r = drop (rbuf_parsed c) (rbuf c) @ f in
      case parse_state c of
        RESP_PARSE_ARRAY_LEN \<Rightarrow> r = concat (map enc_cmd cs) \<and> argv c = []
      | RESP_PARSE_BULK_LEN \<Rightarrow> \<exists>args cs'. cs = args # cs' \<and> argv_ok c args \<and>
          r = concat (map resp_reply_bulk (drop (argc_got c) args)) @ concat (map enc_cmd cs')
      | RESP_PARSE_BULK_DATA \<Rightarrow> \<exists>args cs'. cs = args # cs' \<and> argv_ok c args \<and> bulk_len c = of_nat (length (args ! argc_got c)) \<and>
          r = args ! argc_got c @ [13, 10] @ concat (map resp_reply_bulk (drop (Suc (argc_got c)) args)) @ concat (map enc_cmd cs'))"

lemma unat_of_nat64: "n < 2 ^ 32 \<Longrightarrow> unat (of_nat n :: u64) = n"
  by (simp add: unat_of_nat)

lemma sint_of_nat32:
  assumes "n < 2 ^ 31"
  shows "sint (of_nat n :: s32) = int n"
proof -
  have "unat (of_nat n :: s32) = n" using assms by (simp add: unat_of_nat)
  then show ?thesis using sint_small [of "of_nat n"] assms by simp
qed

lemma bulk_need:
  assumes "n < 2 ^ 31"
  shows "unat (scast (of_nat n :: s32) :: u64) = n" "unat ((scast (of_nat n :: s32) :: u64) + 2) = n + 2"
proof -
  have "(scast (of_nat n :: s32) :: u64) = of_int (sint (of_nat n :: s32))" by (simp add: of_int_sint)
  also have "\<dots> = of_nat n" by (simp add: sint_of_nat32 [OF assms])
  finally have e: "(scast (of_nat n :: s32) :: u64) = of_nat n" .
  show u: "unat (scast (of_nat n :: s32) :: u64) = n" unfolding e using assms by (simp add: unat_of_nat)
  show "unat ((scast (of_nat n :: s32) :: u64) + 2) = n + 2"
    using assms u by (subst unat_add_nowrap) simp_all
qed

text \<open>One length line: it is read completely, or the parser waits.\<close>

lemma length_line:
  assumes r: "drop p buf @ f = x # resp_u64dec (of_nat n) @ [13, 10] @ t" and p: "p < length buf" and n: "n < 2 ^ 32"
  shows "buf ! p = x \<and>
    (if length (resp_u64dec (of_nat n)) + 3 \<le> length buf - p
     then read_len buf (p + 1) = Some (p + length (resp_u64dec (of_nat n)) + 3, of_nat n) \<and>
       drop (p + length (resp_u64dec (of_nat n)) + 3) buf @ f = t
     else read_len buf (p + 1) = None)"
proof -
  let ?d = "resp_u64dec (of_nat n)"
  obtain y r' where y: "drop p buf = y # r'" using p by (cases "drop p buf") auto
  have y': "buf = take p buf @ y # r'" using append_take_drop_id [of p buf] y by simp
  have x: "y = x" "r' @ f = ?d @ 13 # 10 # t" using r y by simp_all
  have len: "length buf - p = Suc (length r')" using arg_cong [OF y, of length] by simp
  have b: "buf ! p = x" using arg_cong [OF y, of hd] p x by (simp add: hd_drop_conv_nth)
  let ?pre = "take p buf @ [y]"
  have pre: "length ?pre = p + 1" "buf = ?pre @ r'" using p y' by simp_all
  show ?thesis
  proof (cases "length ?d + 3 \<le> length buf - p")
    case True
    then have k: "length ?d + 2 \<le> length r'" using len by simp
    define t' where "t' = drop (length ?d + 2) r'"
    have "take (length ?d + 2) r' = take (length ?d + 2) (r' @ f)" using k by simp
    also have "\<dots> = ?d @ [13, 10]" unfolding x(2) by simp
    finally have t1: "r' = ?d @ 13 # 10 # t'" using append_take_drop_id [of "length ?d + 2" r'] by (simp add: t'_def)
    then have t': "r' = ?d @ 13 # 10 # t'" "t' @ f = t" using x(2) by simp_all
    have "read_len (?pre @ ?d @ 13 # 10 # t') (length ?pre) = Some (length ?pre + length ?d + 2, of_nat n)"
      unfolding read_len_line [OF u64dec_digits] read_u64dec unat_of_nat64 [OF n] ..
    then have "read_len buf (p + 1) = Some (p + length ?d + 3, of_nat n)"
      using pre t'(1) by simp
    moreover have "drop (p + length ?d + 3) buf = t'"
    proof -
      have "buf = (take p buf @ y # ?d @ [13, 10]) @ t'" using y' t'(1) by simp
      moreover have "length (take p buf @ y # ?d @ [13, 10]) = p + length ?d + 3" using p by simp
      ultimately show ?thesis by (metis append_eq_conv_conj)
    qed
    ultimately show ?thesis using b True t'(2) by simp
  next
    case False
    then have "length r' < length ?d + 2" using len by simp
    then have "read_len buf (p + 1) = None" using read_len_partial [OF u64dec_digits x(2), of ?pre] pre by simp
    then show ?thesis using b False by simp
  qed
qed


section \<open>The parser follows the encoding\<close>

definition exec_by :: "('s \<Rightarrow> resp_event \<Rightarrow> 's \<times> exec_ret) \<Rightarrow> ('s \<Rightarrow> bytes list \<Rightarrow> 's) \<Rightarrow> bool" where
  "exec_by exec h \<longleftrightarrow> (\<forall>s av buf. exec s (Ev_cmd av buf) = (h s (slices av buf), Exec_done))"

text \<open>What a step may do: wait for more bytes, go on with the same commands, or finish the first of them.\<close>

definition step_ok :: "('s \<Rightarrow> bytes list \<Rightarrow> 's) \<Rightarrow> bytes \<Rightarrow> bytes list list \<Rightarrow> 's \<Rightarrow> 's outcome \<Rightarrow> bool" where
  "step_ok h f cs s r \<longleftrightarrow>
     (\<exists>c'. r = Wait c' s \<and> parsing c' f cs \<and> f \<noteq> []) \<or>
     (\<exists>c'. r = Continue c' s \<and> parsing c' f cs) \<or>
     (\<exists>c' a cs'. cs = a # cs' \<and> r = Continue c' (h s a) \<and> parsing c' f cs')"

lemma step_array_len:
  assumes P: "parsing c f cs" and st: "parse_state c = RESP_PARSE_ARRAY_LEN" and lt: "rbuf_parsed c < length (rbuf c)"
  shows "step_ok h f cs s (parse_array_len True exec c s)"
proof -
  let ?p = "rbuf_parsed c" and ?b = "rbuf c"
  have r: "drop ?p ?b @ f = concat (map enc_cmd cs)" and cap: "cap_ok (argv_cap c)" and ok: "\<forall>x \<in> set cs. cmd_ok x"
    using P st by (simp_all add: parsing_def)
  have "cs \<noteq> []" using r lt by auto
  then obtain a cs' where cs: "cs = a # cs'" by (cases cs) auto
  have a: "a \<noteq> []" "length a \<le> 2 ^ 30" using ok cs by (simp_all add: cmd_ok_def)
  have n: "length a < 2 ^ 32" "length a < 2 ^ 31" using a(2) by simp_all
  let ?t = "concat (map resp_reply_bulk a) @ concat (map enc_cmd cs')" and ?d = "resp_u64dec (of_nat (length a))"
  have e: "drop ?p ?b @ f = 42 # ?d @ [13, 10] @ ?t" using r by (simp add: cs enc_cmd_def)
  note ll = length_line [OF e lt n(1)]
  have b: "?b ! ?p = 42" using ll by simp
  let ?c = "c\<lparr>cmd_start := ?p\<rparr>"
  show ?thesis
  proof (cases "length ?d + 3 \<le> length ?b - ?p")
    case True
    then have rl: "read_len ?b (?p + 1) = Some (?p + length ?d + 3, of_nat (length a))" "drop (?p + length ?d + 3) ?b @ f = ?t" using ll by simp_all
    have sn: "sint (of_nat (length a) :: s32) = int (length a)" by (rule sint_of_nat32 [OF n(2)])
    obtain cap' where cap': "resp_argv_ensure 64 True (argv_cap c) (of_nat (length a)) = Some (True, cap')" "cap_ok cap'" "int (length a) \<le> sint cap'"
      using ensure_ok [OF cap, of "of_nat (length a)"] a unfolding sn by auto
    let ?c' = "c\<lparr>cmd_start := ?p, rbuf_parsed := ?p + length ?d + 3, argc_expected := of_nat (length a), argc_got := 0, argv := [],
       argv_cap := cap', parse_state := RESP_PARSE_BULK_LEN\<rparr>"
    have "parse_array_len True exec c s = Continue ?c' s"
      using b rl(1) cap'(1) by (simp add: parse_array_len_def Let_def)
    moreover have "parsing ?c' f cs"
      using cap' a(1) rl(2) True lt ok by (auto simp: parsing_def argv_ok_def slices_def cs)
    ultimately show ?thesis unfolding step_ok_def by blast
  next
    case False
    then have "parse_array_len True exec c s = Wait ?c s" using ll b by (simp add: parse_array_len_def Let_def)
    moreover have "parsing ?c f cs" using P st by (simp add: parsing_def)
    moreover have "f \<noteq> []"
    proof
      assume "f = []"
      then have "length ?b - ?p = length (42 # ?d @ [13, 10] @ ?t)" using arg_cong [OF e, of length] by simp
      then show False using False by simp
    qed
    ultimately show ?thesis unfolding step_ok_def by blast
  qed
qed

lemma step_bulk_len:
  assumes P: "parsing c f cs" and st: "parse_state c = RESP_PARSE_BULK_LEN" and lt: "rbuf_parsed c < length (rbuf c)"
  shows "step_ok h f cs s (parse_bulk_len c s)"
proof -
  let ?p = "rbuf_parsed c" and ?b = "rbuf c" and ?g = "argc_got c"
  obtain a cs' where cs: "cs = a # cs'" and ok: "argv_ok c a"
    and r: "drop ?p ?b @ f = concat (map resp_reply_bulk (drop ?g a)) @ concat (map enc_cmd cs')"
    using P st by (auto simp: parsing_def Let_def)
  have g: "?g < length a" using ok by (simp add: argv_ok_def)
  let ?x = "a ! ?g"
  have dr: "drop ?g a = ?x # drop (Suc ?g) a" by (rule Cons_nth_drop_Suc [OF g, symmetric])
  have n: "length ?x < 2 ^ 32" using P cs g by (auto simp: parsing_def cmd_ok_def dest!: nth_mem)
  let ?t = "?x @ [13, 10] @ concat (map resp_reply_bulk (drop (Suc ?g) a)) @ concat (map enc_cmd cs')"
  let ?d = "resp_u64dec (of_nat (length ?x))"
  have e: "drop ?p ?b @ f = 36 # ?d @ [13, 10] @ ?t" using r by (simp add: dr resp_reply_bulk_def)
  note ll = length_line [OF e lt n]
  show ?thesis
  proof (cases "length ?d + 3 \<le> length ?b - ?p")
    case True
    let ?c' = "c\<lparr>rbuf_parsed := ?p + length ?d + 3, bulk_len := of_nat (length ?x), parse_state := RESP_PARSE_BULK_DATA\<rparr>"
    have "parse_bulk_len c s = Continue ?c' s" using ll True by (simp add: parse_bulk_len_def)
    moreover have "parsing ?c' f cs"
      using P ok ll True lt by (auto simp: parsing_def argv_ok_def cs Let_def)
    ultimately show ?thesis unfolding step_ok_def by blast
  next
    case False
    then have "parse_bulk_len c s = Wait c s" using ll by (simp add: parse_bulk_len_def)
    moreover have "f \<noteq> []"
    proof
      assume "f = []"
      then have "length ?b - ?p = length (36 # ?d @ [13, 10] @ ?t)" using arg_cong [OF e, of length] by simp
      then show False using False by simp
    qed
    ultimately show ?thesis unfolding step_ok_def using P by blast
  qed
qed

lemma parsing_reset:
  assumes "cap_ok (argv_cap c)" "rbuf_parsed c \<le> length (rbuf c)" "\<forall>x \<in> set cs. cmd_ok x"
    and "drop (rbuf_parsed c) (rbuf c) @ f = concat (map enc_cmd cs)"
  shows "parsing (resp_parser_reset c) f cs"
  using assms by (auto simp: parsing_def resp_parser_reset_def Let_def)

lemma step_bulk_data:
  assumes P: "parsing c f cs" and st: "parse_state c = RESP_PARSE_BULK_DATA" and ex: "exec_by exec h"
  shows "step_ok h f cs s (parse_bulk_data exec c s)"
proof -
  let ?p = "rbuf_parsed c" and ?b = "rbuf c" and ?g = "argc_got c"
  obtain a cs' where cs: "cs = a # cs'" and ok: "argv_ok c a" and bl: "bulk_len c = of_nat (length (a ! ?g))"
    and r: "drop ?p ?b @ f = a ! ?g @ [13, 10] @ concat (map resp_reply_bulk (drop (Suc ?g) a)) @ concat (map enc_cmd cs')"
    using P st by (auto simp: parsing_def Let_def)
  have pl: "?p \<le> length ?b" "cmd_start c \<le> ?p" and cap: "cap_ok (argv_cap c)" and cmds: "\<forall>x \<in> set cs. cmd_ok x"
    using P by (simp_all add: parsing_def)
  have g: "?g < length a" "int (length a) \<le> sint (argv_cap c)" "length (argv c) = ?g" "slices (argv c) ?b = take ?g a"
    "argc_expected c = of_nat (length a)"
    using ok by (simp_all add: argv_ok_def)
  let ?x = "a ! ?g"
  let ?t = "concat (map resp_reply_bulk (drop (Suc ?g) a)) @ concat (map enc_cmd cs')"
  have n: "length ?x < 2 ^ 31" "length a \<le> 2 ^ 30" using cmds cs g(1) by (auto simp: cmd_ok_def dest!: nth_mem)
  have need: "unat ((scast (bulk_len c) :: u64) + 2) = length ?x + 2" "unat (scast (bulk_len c) :: u64) = length ?x"
    unfolding bl using bulk_need [OF n(1)] by simp_all
  have se: "sint (argc_expected c) = int (length a)" unfolding g(5) by (rule sint_of_nat32) (use n(2) in simp)
  show ?thesis
  proof (cases "length ?b - ?p < length ?x + 2")
    case True
    then have "parse_bulk_data exec c s = Wait c s" by (simp add: parse_bulk_data_def need)
    moreover have "f \<noteq> []" using arg_cong [OF r, of length] True by auto
    ultimately show ?thesis unfolding step_ok_def using P by blast
  next
    case False
    let ?c = "c\<lparr>argv := argv c @ [(?p, scast (bulk_len c))], argc_got := ?g + 1, rbuf_parsed := ?p + (length ?x + 2)\<rparr>"
    have "take (length ?x + 2) (drop ?p ?b) = take (length ?x + 2) (drop ?p ?b @ f)" using False by simp
    also have "\<dots> = ?x @ [13, 10]" unfolding r by simp
    finally have tk: "take (length ?x + 2) (drop ?p ?b) = ?x @ [13, 10]" .
    have "take (length ?x) (drop ?p ?b) = take (length ?x) (take (length ?x + 2) (drop ?p ?b))" by (simp add: min_def)
    then have tx: "take (length ?x) (drop ?p ?b) = ?x" unfolding tk by simp
    have rest: "drop (?p + (length ?x + 2)) ?b @ f = ?t"
    proof -
      have "drop (length ?x + 2) (drop ?p ?b @ f) = drop (length ?x + 2) (drop ?p ?b) @ f" using False by simp
      moreover have "drop (length ?x + 2) (drop ?p ?b @ f) = ?t" unfolding r by simp
      ultimately show ?thesis by (simp add: add.commute)
    qed
    have sl: "slices (argv ?c) ?b = take (Suc ?g) a"
      using g(1,4) need(2) tx by (simp add: slices_def take_Suc_conv_app_nth)
    have nf: "\<not> sint (argv_cap c) \<le> int ?g" using g(1,2) by linarith
    have le: "?p + (length ?x + 2) \<le> length ?b" using False pl(1) by linarith
    show ?thesis
    proof (cases "Suc ?g = length a")
      case True
      have "parse_bulk_data exec c s = Continue (resp_parser_reset ?c) (h s a)"
        using ex sl True nf False by (simp add: parse_bulk_data_def need Let_def se exec_by_def)
      moreover have "parsing (resp_parser_reset ?c) f cs'"
        by (rule parsing_reset) (use cap le cmds cs rest True in simp_all)
      ultimately show ?thesis unfolding step_ok_def using cs by blast
    next
      case F: False
      have "parse_bulk_data exec c s = Continue (?c\<lparr>parse_state := RESP_PARSE_BULK_LEN\<rparr>) s"
        using F nf False g(1) by (simp add: parse_bulk_data_def need Let_def se)
      moreover have "argv_ok (?c\<lparr>parse_state := RESP_PARSE_BULK_LEN\<rparr>) a"
        using ok sl F g pl(2) need(2) by (auto simp: argv_ok_def)
      then have "parsing (?c\<lparr>parse_state := RESP_PARSE_BULK_LEN\<rparr>) f cs"
        using cap le pl(2) cmds cs rest by (auto simp: parsing_def)
      ultimately show ?thesis unfolding step_ok_def by blast
    qed
  qed
qed

lemma parse_step_ok:
  assumes "parsing c f cs" "exec_by exec h" "rbuf_parsed c < length (rbuf c)"
  shows "step_ok h f cs s (parse_step True exec c s)"
  using step_array_len [OF assms(1) _ assms(3), of h s exec] step_bulk_len [OF assms(1) _ assms(3), of h s]
    step_bulk_data [OF assms(1) _ assms(2), of s] assms(3)
  by (cases "parse_state c") (simp_all add: parse_step_def)

lemma enc_cmd_Nil: "enc_cmd a \<noteq> []" "resp_reply_bulk b \<noteq> []"
  by (simp_all add: enc_cmd_def resp_reply_bulk_def)

lemma parsing_all_read:
  assumes P: "parsing c [] cs" and p: "length (rbuf c) \<le> rbuf_parsed c"
  shows "cs = []"
proof -
  have "drop (rbuf_parsed c) (rbuf c) = []" using p by simp
  then show ?thesis
    using P enc_cmd_Nil Cons_nth_drop_Suc [of "argc_got c" "hd cs"]
    by (cases "parse_state c"; cases cs) (auto simp: parsing_def argv_ok_def enc_cmd_Nil)
qed

lemma wf_parse_measure: "wf parse_measure"
  by (simp add: parse_measure_def)

lemma parse_loop_ok:
  assumes "parsing c f cs" "exec_by exec h"
  shows "\<exists>c' dn rest. parse_loop True exec c s = Wait c' (foldl h s dn) \<and> cs = dn @ rest \<and> parsing c' f rest \<and> (f = [] \<longrightarrow> rest = [])"
  using wf_parse_measure assms(1)
proof (induction "(c, s)" arbitrary: c s cs rule: wf_induct_rule)
  case (less c s cs)
  show ?case
  proof (cases "rbuf_parsed c < length (rbuf c)")
    case False
    then have "parse_loop True exec c s = Wait c (foldl h s [])" by (simp add: parse_loop.simps [of True exec c s] parse_step_def)
    moreover have "f = [] \<longrightarrow> cs = []" using parsing_all_read [of c cs] less.prems False by auto
    ultimately show ?thesis using less.prems by (metis append_Nil)
  next
    case True
    from parse_step_ok [OF less.prems assms(2) True, of s]
    consider (wait) c' where "parse_step True exec c s = Wait c' s" "parsing c' f cs" "f \<noteq> []"
      | (go) c' where "parse_step True exec c s = Continue c' s" "parsing c' f cs"
      | (cmd) c' a cs' where "cs = a # cs'" "parse_step True exec c s = Continue c' (h s a)" "parsing c' f cs'"
      unfolding step_ok_def by blast
    then show ?thesis
    proof cases
      case wait
      then have "parse_loop True exec c s = Wait c' (foldl h s [])" by (simp add: parse_loop.simps [of True exec c s])
      then show ?thesis using wait(2,3) by (metis append_Nil)
    next
      case go
      then have "parse_loop True exec c s = parse_loop True exec c' s" by (simp add: parse_loop.simps [of True exec c s])
      then show ?thesis using less.hyps [OF parse_step_less [OF go(1)] go(2)] by simp
    next
      case cmd
      then have "parse_loop True exec c s = parse_loop True exec c' (h s a)" by (simp add: parse_loop.simps [of True exec c s])
      moreover obtain c2 dn rest where "parse_loop True exec c' (h s a) = Wait c2 (foldl h (h s a) dn)" "cs' = dn @ rest" "parsing c2 f rest" "f = [] \<longrightarrow> rest = []"
        using less.hyps [OF parse_step_less [OF cmd(2)] cmd(3)] by blast
      ultimately show ?thesis using cmd(1) by (intro exI [of _ c2] exI [of _ "a # dn"] exI [of _ rest]) simp
    qed
  qed
qed

section \<open>Reading from the socket\<close>

text \<open>
  The results of \<open>read\<close> on the socket; the list ends where the socket would block.  \<open>read_loop\<close> returns whether the peer
  closed, or nothing when the connection was marked dead.
\<close>

datatype read_result = Read bytes | Eof | Again | Read_error

fun read_loop :: "bool \<Rightarrow> read_result list \<Rightarrow> resp_parser \<Rightarrow> (bool \<times> resp_parser) option" where
  "read_loop alloc [] c = Some (False, c)"
| "read_loop alloc (r # rs) c =
     (case (if rcap c - length (rbuf c) < 1024 then net_rbuf_grow alloc 4096 c else Some c) of
        None \<Rightarrow> None
      | Some c \<Rightarrow>
          (case r of
             Read_error \<Rightarrow> None
           | Again \<Rightarrow> Some (False, c)
           | Eof \<Rightarrow> Some (True, c)
           | Read b \<Rightarrow> read_loop alloc rs (c\<lparr>rbuf := rbuf c @ b\<rparr>)))"

definition handle_read_resp ::
  "bool \<Rightarrow> ('s \<Rightarrow> resp_event \<Rightarrow> 's \<times> exec_ret) \<Rightarrow> read_result list \<Rightarrow> resp_parser \<Rightarrow> 's \<Rightarrow> 's outcome" where
  "handle_read_resp alloc exec rs c s =
     (case read_loop alloc rs c of None \<Rightarrow> Closed s | Some (closing, c) \<Rightarrow> parse_loop alloc exec c s)"

text \<open>Successive readiness events of one connection.\<close>

fun read_events ::
  "bool \<Rightarrow> ('s \<Rightarrow> resp_event \<Rightarrow> 's \<times> exec_ret) \<Rightarrow> read_result list list \<Rightarrow> resp_parser \<Rightarrow> 's \<Rightarrow> 's outcome" where
  "read_events alloc exec [] c s = Wait c s"
| "read_events alloc exec (rs # rss) c s =
     (case handle_read_resp alloc exec rs c s of Wait c' s' \<Rightarrow> read_events alloc exec rss c' s' | r \<Rightarrow> r)"

definition resp_parser_new :: resp_parser where
  "resp_parser_new = \<lparr>rbuf = [], rcap = 4096, rbuf_parsed = 0, cmd_start = 0, parse_state = RESP_PARSE_ARRAY_LEN,
     argc_expected = 0, argc_got = 0, argv = [], argv_cap = 0, bulk_len = 0\<rparr>"

lemma double_until_ge: "0 < cap \<Longrightarrow> need \<le> double_until cap need"
proof (induction cap need rule: double_until.induct)
  case (1 cap need)
  then show ?case by (cases "cap < need") (simp_all add: double_until.simps [of cap need])
qed

lemma grow_room:
  assumes "net_rbuf_grow alloc need c = Some c'"
  shows "length (rbuf c') + need \<le> rcap c'"
proof (cases "length (rbuf c) + need \<le> rcap c")
  case False
  let ?cap = "if rcap c \<noteq> 0 then rcap c * 2 else RESP_RBUF_INIT" and ?m = "length (drop (cmd_start c) (rbuf c)) + need"
  have "?m \<le> double_until ?cap ?m" by (rule double_until_ge) (simp add: RESP_RBUF_INIT_def)
  moreover have "rbuf c' = drop (cmd_start c) (rbuf c)" "rcap c' = double_until ?cap ?m"
    using assms False by (auto simp: net_rbuf_grow_def Let_def split: if_splits)
  ultimately show ?thesis by simp
qed (use assms in \<open>simp add: net_rbuf_grow_def\<close>)

lemma slices_shift:
  assumes "\<forall>(off, len) \<in> set av. k \<le> off"
  shows "slices (map (\<lambda>(off, len). (off - k, len)) av) (drop k b) = slices av b"
  using assms by (auto simp: slices_def)

lemma slices_append:
  assumes "\<forall>(off, len) \<in> set av. off + unat len \<le> length b"
  shows "slices av (b @ x) = slices av b"
  using assms by (auto simp: slices_def)

lemma parsing_grow:
  assumes P: "parsing c f cs" and g: "net_rbuf_grow True need c = Some c'"
  shows "parsing c' f cs"
proof (cases "length (rbuf c) + need \<le> rcap c")
  case True
  then show ?thesis using P g by (simp add: net_rbuf_grow_def)
next
  case False
  let ?k = "cmd_start c"
  have f: "rbuf c' = drop ?k (rbuf c)" "rbuf_parsed c' = rbuf_parsed c - ?k" "cmd_start c' = 0" "parse_state c' = parse_state c"
    "argc_expected c' = argc_expected c" "argc_got c' = argc_got c" "argv_cap c' = argv_cap c" "bulk_len c' = bulk_len c"
    "argv c' = map (\<lambda>(off, len). (off - ?k, len)) (argv c)"
    using g False by (auto simp: net_rbuf_grow_def Let_def)
  have k: "?k \<le> rbuf_parsed c" "rbuf_parsed c \<le> length (rbuf c)" using P by (simp_all add: parsing_def)
  have d: "drop (rbuf_parsed c') (rbuf c') = drop (rbuf_parsed c) (rbuf c)" using k by (simp add: f)
  have av: "argv_ok c' a" if "argv_ok c a" for a
  proof -
    have "\<forall>(off, len) \<in> set (argv c). ?k \<le> off" using that by (auto simp: argv_ok_def)
    then have "slices (argv c') (rbuf c') = slices (argv c) (rbuf c)" unfolding f by (rule slices_shift)
    then show ?thesis using that unfolding argv_ok_def f(2-8) by (auto simp: f(9))
  qed
  show ?thesis using P k unfolding parsing_def d f(3-8)
    by (cases "parse_state c") (auto simp: f(1,2,9) av)
qed

lemma parsing_feed:
  assumes P: "parsing c (b @ f) cs"
  shows "parsing (c\<lparr>rbuf := rbuf c @ b\<rparr>) f cs"
proof -
  have k: "rbuf_parsed c \<le> length (rbuf c)" using P by (simp add: parsing_def)
  have av: "argv_ok (c\<lparr>rbuf := rbuf c @ b\<rparr>) a" if "argv_ok c a" for a
  proof -
    have "\<forall>(off, len) \<in> set (argv c). off + unat len \<le> length (rbuf c)" using that k by (fastforce simp: argv_ok_def)
    from slices_append [OF this, of b] show ?thesis using that by (simp add: argv_ok_def)
  qed
  show ?thesis using P k by (cases "parse_state c") (auto simp: parsing_def av)
qed

lemma grow_some: "\<exists>c'. net_rbuf_grow True need c = Some c'"
  by (simp add: net_rbuf_grow_def Let_def)

lemma read_loop_ok:
  assumes "parsing c (concat bs @ f) cs"
  shows "\<exists>c'. read_loop True (map Read bs) c = Some (False, c') \<and> parsing c' f cs"
  using assms
proof (induction bs arbitrary: c)
  case (Cons b bs)
  obtain c1 where c1: "(if rcap c - length (rbuf c) < 1024 then net_rbuf_grow True 4096 c else Some c) = Some c1"
    using grow_some [of 4096 c] by (cases "rcap c - length (rbuf c) < 1024") auto
  then have "parsing c1 (b @ concat bs @ f) cs"
    using Cons.prems parsing_grow [OF Cons.prems, of 4096 c1] by (auto split: if_splits)
  then have "parsing (c1\<lparr>rbuf := rbuf c1 @ b\<rparr>) (concat bs @ f) cs" by (rule parsing_feed)
  then show ?case using Cons.IH c1 by simp
qed simp

lemma read_events_ok:
  assumes "parsing c (concat (concat bss) @ f) cs" "exec_by exec h" "bss \<noteq> []" "f = []"
  shows "\<exists>c'. read_events True exec (map (map Read) bss) c s = Wait c' (foldl h s cs)"
  using assms
proof (induction bss arbitrary: c s cs)
  case (Cons bs bss)
  obtain c1 where c1: "read_loop True (map Read bs) c = Some (False, c1)" "parsing c1 (concat (concat bss) @ f) cs"
    using read_loop_ok [of c bs "concat (concat bss) @ f" cs] Cons.prems(1) by auto
  obtain c2 dn rest where c2: "parse_loop True exec c1 s = Wait c2 (foldl h s dn)" "cs = dn @ rest"
      "parsing c2 (concat (concat bss) @ f) rest" "concat (concat bss) @ f = [] \<longrightarrow> rest = []"
    using parse_loop_ok [OF c1(2) assms(2)] by blast
  show ?case
  proof (cases "bss = []")
    case True
    then show ?thesis using c1(1) c2 Cons.prems(4) by (simp add: handle_read_resp_def)
  next
    case False
    then obtain c3 where "read_events True exec (map (map Read) bss) c2 (foldl h s dn) = Wait c3 (foldl h (foldl h s dn) rest)"
      using Cons.IH [OF c2(3) assms(2) False Cons.prems(4)] by blast
    then show ?thesis using c1(1) c2(1,2) by (simp add: handle_read_resp_def)
  qed
qed simp

lemma parsing_new:
  assumes "\<forall>x \<in> set cs. cmd_ok x"
  shows "parsing resp_parser_new (concat (map enc_cmd cs)) cs"
  using assms by (simp add: parsing_def resp_parser_new_def cap_ok_def)


section \<open>Properties\<close>

text \<open>
  C23: Parsing inverts the request encoding, however the bytes arrive.  For every list of requests (each with 1 to $2^{30}$
  arguments below $2^{31}$ bytes), every division of their encodings into read results and every grouping of
  those into readiness events, the parser executes exactly these requests, in order, with exactly their argument
  bytes, and then waits; buffers that grow and move in between change nothing.
\<close>
theorem resp_parse_roundtrip:
  assumes "\<forall>x \<in> set cs. cmd_ok x" "exec_by exec h" "bss \<noteq> []" "concat (concat bss) = concat (map enc_cmd cs)"
  shows "\<exists>c'. read_events True exec (map (map Read) bss) resp_parser_new s = Wait c' (foldl h s cs)"
  using read_events_ok [of resp_parser_new bss "[]" cs exec h s] parsing_new [OF assms(1)] assms(2-4) by simp

definition log_exec :: "bytes list list \<Rightarrow> resp_event \<Rightarrow> bytes list list \<times> exec_ret" where
  "log_exec s ev = (case ev of Ev_ping \<Rightarrow> (s, Exec_done) | Ev_cmd av buf \<Rightarrow> (s @ [slices av buf], Exec_done))"

lemma resp_parse_roundtrip_witness:
  "\<exists>c'. read_events True log_exec [[Read [42, 49, 13]], [Read [10, 36, 52], Read [13, 10, 80, 73, 78, 71, 13, 10]]] resp_parser_new []
    = Wait c' [[[80, 73, 78, 71]]]"
proof -
  have d: "resp_u64dec 1 = [49]" "resp_u64dec 4 = [52]"
    by (simp_all add: resp_u64dec_def dec_digits.simps)
  have "exec_by log_exec (\<lambda>s a. s @ [a])" by (simp add: exec_by_def log_exec_def)
  moreover have "concat (concat [[[42, 49, 13]], [[10, 36, 52], [13, 10, 80, 73, 78, 71, 13, 10]]]) = concat (map enc_cmd [[[80, 73, 78, 71]]])"
    by (simp add: enc_cmd_def resp_reply_bulk_def d)
  ultimately show ?thesis
    using resp_parse_roundtrip [of "[[[80, 73, 78, 71]]]" log_exec "\<lambda>s a. s @ [a]" "[[[42, 49, 13]], [[10, 36, 52], [13, 10, 80, 73, 78, 71, 13, 10]]]" "[]"]
    by (simp add: cmd_ok_def)
qed

text \<open>
  The decimal printer writes the number it is given: its digits read back as the value, they are decimal digits, there
  is at least one and at most twenty, which is the size of its scratch array.
\<close>
theorem resp_u64dec_roundtrip:
  "foldl digit_val 0 (resp_u64dec v) = unat v \<and> (\<forall>d \<in> set (resp_u64dec v). 48 \<le> unat d \<and> unat d \<le> 57) \<and>
   0 < length (resp_u64dec v) \<and> length (resp_u64dec v) \<le> 20"
  using u64dec_val u64dec_range u64dec_nonempty u64dec_length by auto

lemma resp_u64dec_roundtrip_witness: "foldl digit_val 0 (resp_u64dec 18446744073709551615) = 18446744073709551615"
  using resp_u64dec_roundtrip [of "18446744073709551615"] by simp

text \<open>
  C33: A request that announces more than $2^{30}$ arguments never gets an answer: the doubling loop of the argument vector
  overflows to 0 and runs forever, whatever the fuel; up to $2^{30}$ it ends with enough room, a power of two.
\<close>
theorem resp_argv_ensure_hangs:
  assumes cap: "cap_ok cap"
  shows "(2 ^ 30 < sint needed \<longrightarrow> (\<forall>fuel. resp_argv_ensure fuel alloc cap needed = None)) \<and>
    (0 < sint needed \<and> sint needed \<le> 2 ^ 30 \<longrightarrow>
      (\<exists>cap'. resp_argv_ensure 64 True cap needed = Some (True, cap') \<and> cap_ok cap' \<and> sint needed \<le> sint cap'))"
proof (intro conjI impI allI)
  fix fuel assume n: "2 ^ 30 < sint needed"
  have c: "sint cap \<le> 2 ^ 30 \<and> ((\<exists>k \<le> 31. (if cap = 0 then 8 else cap * 2) = (2 :: s32) ^ k) \<or> (if cap = 0 then 8 else cap * 2) = 0)"
  proof (cases "cap = 0")
    case True
    then show ?thesis by (simp add: exI [of _ 3])
  next
    case False
    then obtain k where k: "k \<le> 30" "cap = 2 ^ k" using cap by (auto simp: cap_ok_def)
    then have "(2 :: int) ^ k \<le> 2 ^ 30" by (intro power_increasing) simp_all
    then have "sint cap \<le> 2 ^ 30" using k by (simp add: sint_exp32)
    moreover have "cap * 2 = 2 ^ Suc k" using k by simp
    ultimately show ?thesis using False k(1) by (intro conjI disjI1 exI [of _ "Suc k"]) simp_all
  qed
  then have "\<not> sint needed \<le> sint cap" using n by linarith
  then show "resp_argv_ensure fuel alloc cap needed = None"
    using newcap_hangs [OF n conjunct2 [OF c], of fuel] by (simp only: resp_argv_ensure_def if_False option.case)
next
  assume "0 < sint needed \<and> sint needed \<le> 2 ^ 30"
  then show "\<exists>cap'. resp_argv_ensure 64 True cap needed = Some (True, cap') \<and> cap_ok cap' \<and> sint needed \<le> sint cap'"
    using ensure_ok [OF cap] by blast
qed

lemma resp_argv_ensure_hangs_witness:
  "resp_argv_ensure 1000 True 0 1073741825 = None \<and> (\<exists>cap'. resp_argv_ensure 64 True 0 9 = Some (True, cap') \<and> 9 \<le> sint cap')"
proof -
  have s: "sint (1073741825 :: s32) = 1073741825" "sint (9 :: s32) = 9" by simp_all
  show ?thesis
    using resp_argv_ensure_hangs [of 0 1073741825 True] resp_argv_ensure_hangs [of 0 9 True] by (auto simp: cap_ok_def s)
qed



end
