(* ===== verification/Pipeline.thy ===== *)
theory Pipeline
  imports Resp Kv_Object Txn
begin

text \<open>
  Model of the reply pipeline: the circular queue of \<open>net/conn.h\<close> with its 32-bit sequence numbers, the serialisation of
  replies, the ordered flush and the delivery of remote replies of \<open>net/reactor.c\<close>.  A reply buffer is its address with
  the \<open>reply_len\<close> bytes it holds.  The arrays \<open>multi_kv_objs\<close> and \<open>multi_owners\<close>, which some commands leave
  \<open>NULL\<close>, are options; \<open>multi_replies\<close> and \<open>multi_reply_lens\<close> are one list.  What a reset hands back (references,
  buffers, release messages to another shard) is returned as a list of actions, in the order of the code.
\<close>

section \<open>Slots and the ring\<close>

datatype net_pipeline_state = PSLOT_EMPTY | PSLOT_LOCAL | PSLOT_PENDING | PSLOT_DONE

datatype msg_reply_type =
    REPLY_TYPE_NONE | REPLY_TYPE_OK | REPLY_TYPE_NIL | REPLY_TYPE_INT | REPLY_TYPE_ERR | REPLY_TYPE_BUF
  | REPLY_TYPE_PONG | REPLY_TYPE_KV_OBJ | REPLY_TYPE_BUF_STATIC

type_synonym rbuf = "addr \<times> bytes"

record net_pipeline_slot =
  state :: net_pipeline_state
  reply_data :: "rbuf option"
  kv_obj_ptr :: addr
  reply_type :: msg_reply_type
  reply_int :: u64
  is_multi :: bool
  multi_parts :: nat
  multi_replied :: nat
  multi_replies :: "rbuf option list"
  multi_kv_objs :: "addr list option"
  multi_owners :: "nat list option"
  parent_cmd_id :: u16
  shard_owner :: nat
  slot_req_nb :: addr
  cmd_argv :: addr
  cmd_arglen :: addr

definition slot_zero :: net_pipeline_slot where
  "slot_zero = \<lparr>state = PSLOT_EMPTY, reply_data = None, kv_obj_ptr = 0, reply_type = REPLY_TYPE_NONE, reply_int = 0,
     is_multi = False, multi_parts = 0, multi_replied = 0, multi_replies = [], multi_kv_objs = None, multi_owners = None,
     parent_cmd_id = 0, shard_owner = 0, slot_req_nb = 0, cmd_argv = 0, cmd_arglen = 0\<rparr>"

record net_proxy_pipeline =
  slots :: "nat \<Rightarrow> net_pipeline_slot"
  pcap :: u32
  pin :: u32
  pout :: u32

definition PIPELINE_INIT_CAP :: u32 where "PIPELINE_INIT_CAP = 128"

definition slot_idx :: "u32 \<Rightarrow> u32 \<Rightarrow> nat" where
  "slot_idx cap seq = unat (seq AND (cap - 1))"

text \<open>The copy loop of resize visits the sequence numbers from \<open>out\<close> to \<open>in\<close>.\<close>

definition net_pipeline_resize :: "bool \<Rightarrow> net_proxy_pipeline \<Rightarrow> net_proxy_pipeline option" where
  "net_pipeline_resize alloc pp =
     (let new_cap = pcap pp * 2
      in if \<not> alloc then None
         else Some (pp\<lparr>pcap := new_cap,
           slots := fold (\<lambda>k ns. ns(slot_idx new_cap (pout pp + of_nat k) := slots pp (slot_idx (pcap pp) (pout pp + of_nat k))))
             [0..<unat (pin pp - pout pp)] (\<lambda>_. slot_zero)\<rparr>))"

definition net_pipeline_enqueue :: "bool \<Rightarrow> net_proxy_pipeline \<Rightarrow> u32 \<times> net_proxy_pipeline" where
  "net_pipeline_enqueue alloc pp =
     (case (if pin pp - pout pp = pcap pp then net_pipeline_resize alloc pp else Some pp) of
        None \<Rightarrow> (0xFFFFFFFF, pp)
      | Some pp \<Rightarrow> (pin pp, pp\<lparr>pin := pin pp + 1, slots := (slots pp)(slot_idx (pcap pp) (pin pp) := slot_zero)\<rparr>))"

definition net_pipeline_init :: "bool \<Rightarrow> net_proxy_pipeline" where
  "net_pipeline_init alloc =
     \<lparr>slots = (\<lambda>_. slot_zero), pcap = (if alloc then PIPELINE_INIT_CAP else 0), pin = 0, pout = 0\<rparr>"

section \<open>The ring as a list\<close>

definition pp_inv :: "net_proxy_pipeline \<Rightarrow> bool" where
  "pp_inv pp \<longleftrightarrow> (\<exists>k. k \<le> 30 \<and> pcap pp = 2 ^ k) \<and> pin pp - pout pp \<le> pcap pp"

definition pp_len :: "net_proxy_pipeline \<Rightarrow> nat" where
  "pp_len pp = unat (pin pp - pout pp)"

definition pp_slot :: "net_proxy_pipeline \<Rightarrow> nat \<Rightarrow> net_pipeline_slot" where
  "pp_slot pp k = slots pp (slot_idx (pcap pp) (pout pp + of_nat k))"

definition pp_list :: "net_proxy_pipeline \<Rightarrow> net_pipeline_slot list" where
  "pp_list pp = map (pp_slot pp) [0..<pp_len pp]"

lemma slot_idx_mod:
  assumes "k \<le> 31"
  shows "slot_idx (2 ^ k) seq = unat seq mod 2 ^ k"
proof -
  have "(2 :: u32) ^ k - 1 = mask k" by (simp add: mask_eq_exp_minus_1)
  then have "slot_idx (2 ^ k) seq = unat (take_bit k seq)" by (simp add: slot_idx_def take_bit_eq_mask)
  also have "\<dots> = take_bit k (unat seq)" by (simp add: unsigned_take_bit_eq)
  finally show ?thesis by (simp add: take_bit_eq_mod)
qed

lemma unat_add_mod:
  assumes "k \<le> 32"
  shows "unat (a + of_nat i :: u32) mod 2 ^ k = (unat a + i) mod 2 ^ k"
proof -
  have "(2 :: nat) ^ k dvd 2 ^ 32" using assms by (rule le_imp_power_dvd)
  then show ?thesis by (simp add: unat_word_ariths unat_of_nat mod_mod_cancel mod_add_right_eq)
qed

text \<open>Different positions within one lap are different slots.\<close>

lemma slot_idx_inj:
  assumes "k \<le> 31" "i < 2 ^ k" "j < 2 ^ k" "slot_idx (2 ^ k) (a + of_nat i) = slot_idx (2 ^ k) (a + of_nat j)"
  shows "i = j"
proof -
  have "(unat a + i) mod 2 ^ k = (unat a + j) mod 2 ^ k"
    using assms(4) unat_add_mod [of k a i] unat_add_mod [of k a j] assms(1) by (simp add: slot_idx_mod [OF assms(1)])
  then show ?thesis by (rule shift_mod_inj [OF _ assms(2,3)])
qed


lemma fold_upd_inj:
  assumes "inj_on f {..<n}" "i < n"
  shows "fold (\<lambda>k z. z(f k := g k)) [0..<n] z (f i) = g i"
  using assms
proof (induction n)
  case (Suc n)
  show ?case
  proof (cases "i = n")
    case False
    then have "i < n" using Suc.prems(2) by simp
    then have "f i \<noteq> f n" using inj_onD [OF Suc.prems(1), of i n] by auto
    moreover have "fold (\<lambda>k z. z(f k := g k)) [0..<n] z (f i) = g i"
      by (rule Suc.IH [OF inj_on_subset [OF Suc.prems(1)] \<open>i < n\<close>]) auto
    ultimately show ?thesis by (simp only: upt_Suc fold_append o_apply fold_simps id_apply fun_upd_other le0 if_True not_False_eq_True)
  qed simp
qed simp

lemma pp_capE:
  assumes "pp_inv pp"
  obtains k where "k \<le> 30" "pcap pp = 2 ^ k" "pp_len pp \<le> 2 ^ k" "unat (pcap pp) = 2 ^ k"
proof -
  obtain k where k: "k \<le> 30" "pcap pp = 2 ^ k" using assms by (auto simp: pp_inv_def)
  have u: "unat (pcap pp) = 2 ^ k" using k by (simp add: unat_exp32)
  have "pp_len pp \<le> 2 ^ k" using assms u by (simp add: pp_inv_def pp_len_def word_le_nat_alt)
  then show thesis using that k u by blast
qed

lemma length_pp_list [simp]: "length (pp_list pp) = pp_len pp"
  by (simp add: pp_list_def)

lemma nth_pp_list: "i < pp_len pp \<Longrightarrow> pp_list pp ! i = pp_slot pp i"
  by (simp add: pp_list_def)

lemma pp_in: "pin pp = pout pp + of_nat (pp_len pp)"
  by (simp add: pp_len_def)

lemma pp_len_max: "pp_inv pp \<Longrightarrow> pp_len pp \<le> 2 ^ 30"
proof -
  assume "pp_inv pp"
  then obtain k where k: "k \<le> 30" "pp_len pp \<le> 2 ^ k" by (rule pp_capE)
  have "(2 :: nat) ^ k \<le> 2 ^ 30" using k(1) by (intro power_increasing) simp_all
  then show ?thesis using k(2) by simp
qed

text \<open>Storing into the slot of a queued sequence number changes that entry of the list.\<close>

lemma pp_list_update:
  fixes s :: net_pipeline_slot
  assumes inv: "pp_inv pp" and i: "i < pp_len pp"
  defines "pp' \<equiv> pp\<lparr>slots := (slots pp)(slot_idx (pcap pp) (pout pp + of_nat i) := s)\<rparr>"
  shows "pp_inv pp'" "pp_list pp' = (pp_list pp)[i := s]" "pp_len pp' = pp_len pp"
proof -
  obtain k where k: "k \<le> 30" "pcap pp = 2 ^ k" "pp_len pp \<le> 2 ^ k" by (rule pp_capE [OF inv])
  show l: "pp_len pp' = pp_len pp" by (simp add: pp'_def pp_len_def)
  show "pp_inv pp'" using inv by (simp add: pp'_def pp_inv_def)
  show "pp_list pp' = (pp_list pp)[i := s]"
  proof (rule nth_equalityI)
    fix j assume "j < length (pp_list pp')"
    then have j: "j < pp_len pp" by (simp add: l)
    have "pp_slot pp' j = (if j = i then s else pp_slot pp j)"
      using slot_idx_inj [of k i j "pout pp"] k i j by (auto simp: pp_slot_def pp'_def)
    then show "pp_list pp' ! j = (pp_list pp)[i := s] ! j" using i j l by (simp add: nth_pp_list nth_list_update)
  qed (simp add: l)
qed

lemma resize_ok:
  assumes inv: "pp_inv pp" and full: "pin pp - pout pp = pcap pp" and c: "pcap pp < 2 ^ 30"
    and r: "net_pipeline_resize alloc pp = Some pp'"
  shows "pp_inv pp'" "pp_list pp' = pp_list pp" "pp_len pp' = pp_len pp" "pp_len pp < unat (pcap pp')" "pout pp' = pout pp" "pin pp' = pin pp"
proof -
  obtain k where k: "k \<le> 30" "pcap pp = 2 ^ k" "pp_len pp \<le> 2 ^ k" "unat (pcap pp) = 2 ^ k" by (rule pp_capE [OF inv])
  have "(2 :: nat) ^ k < 2 ^ 30" using c k(4) by (simp add: word_less_nat_alt)
  then have k29: "k \<le> 29" using power_less_imp_less_exp [of "2 :: nat" k 30] by simp
  let ?c = "2 ^ Suc k :: u32" and ?o = "pout pp"
  have pp': "pp' = pp\<lparr>pcap := ?c, slots := fold (\<lambda>i ns. ns(slot_idx ?c (?o + of_nat i) := slots pp (slot_idx (pcap pp) (?o + of_nat i))))
       [0..<pp_len pp] (\<lambda>_. slot_zero)\<rparr>"
    using r k(2) by (simp add: net_pipeline_resize_def Let_def pp_len_def mult.commute split: if_splits)
  show l: "pp_len pp' = pp_len pp" and o: "pout pp' = ?o" "pin pp' = pin pp" by (simp_all add: pp' pp_len_def)
  have uc: "unat ?c = 2 ^ Suc k" using k29 by (intro unat_exp32) simp
  then show "pp_len pp < unat (pcap pp')" using le_less_trans [OF k(3), of "2 ^ Suc k"] by (simp add: pp')
  then show "pp_inv pp'" unfolding pp_inv_def using k29 l
    by (intro conjI exI [of _ "Suc k"]) (simp_all add: pp' pp_len_def word_le_nat_alt)
  have inj: "inj_on (\<lambda>i. slot_idx ?c (?o + of_nat i)) {..<pp_len pp}"
    by (rule inj_onI) (rule slot_idx_inj [of "Suc k"], use k(3) k29 in auto)
  have "pp_slot pp' i = pp_slot pp i" if "i < pp_len pp" for i
    using fold_upd_inj [OF inj that, of "\<lambda>i. slots pp (slot_idx (pcap pp) (?o + of_nat i))"] by (simp add: pp_slot_def pp')
  then show "pp_list pp' = pp_list pp" by (simp add: pp_list_def l)
qed

lemma enqueue_ok:
  assumes inv: "pp_inv pp" and c: "pin pp - pout pp = pcap pp \<longrightarrow> pcap pp < 2 ^ 30"
    and e: "net_pipeline_enqueue alloc pp = (seq, pp')"
  shows "if alloc \<or> pin pp - pout pp \<noteq> pcap pp
    then pp_inv pp' \<and> pp_list pp' = pp_list pp @ [slot_zero] \<and> seq = pout pp' + of_nat (pp_len pp) \<and> pout pp' = pout pp \<and> seq = pin pp
    else pp' = pp \<and> seq = 0xFFFFFFFF"
proof (cases "alloc \<or> pin pp - pout pp \<noteq> pcap pp")
  case False
  then show ?thesis using e by (simp add: net_pipeline_enqueue_def net_pipeline_resize_def)
next
  case True
  obtain q where q: "(if pin pp - pout pp = pcap pp then net_pipeline_resize alloc pp else Some pp) = Some q"
    using True by (cases "pin pp - pout pp = pcap pp") (auto simp: net_pipeline_resize_def Let_def)
  have qi: "pp_inv q \<and> pp_list q = pp_list pp \<and> pp_len q = pp_len pp \<and> pp_len pp < unat (pcap q) \<and> pout q = pout pp \<and> pin q = pin pp"
  proof (cases "pin pp - pout pp = pcap pp")
    case True
    then show ?thesis using resize_ok [OF inv True c [rule_format, OF True], of alloc q] q by simp
  next
    case F: False
    have "pp_len pp \<noteq> unat (pcap pp)" using F by (auto simp: pp_len_def word_unat_eq_iff)
    moreover have "pp_len pp \<le> unat (pcap pp)" using inv by (simp add: pp_inv_def pp_len_def word_le_nat_alt)
    ultimately show ?thesis using q F inv by simp
  qed
  obtain k where k: "k \<le> 30" "pcap q = 2 ^ k" "unat (pcap q) = 2 ^ k" using qi pp_capE by blast
  let ?n = "pp_len pp" and ?i = "slot_idx (pcap q) (pin q)"
  have n: "?n < 2 ^ k" using qi k(3) by simp
  have pp': "pp' = q\<lparr>pin := pin q + 1, slots := (slots q)(?i := slot_zero)\<rparr>" "seq = pin q"
    using e q by (auto simp: net_pipeline_enqueue_def)
  have inq: "pin q = pout q + of_nat ?n" using pp_in [of q] qi by simp
  have big: "?n < 2 ^ 32 - 1" using pp_len_max [OF inv] by simp
  have lq: "pp_len q = ?n" using qi by blast
  have l: "pp_len pp' = Suc ?n"
  proof -
    have "pin pp' - pout pp' = of_nat (Suc ?n)" by (simp add: pp' inq)
    then show ?thesis using big by (simp only: pp_len_def unat_of_nat) (simp add: mod_less)
  qed
  have "pp_inv pp'" using n k l by (auto simp: pp_inv_def pp' word_le_nat_alt pp_len_def)
  moreover have "pp_list pp' = pp_list q @ [slot_zero]"
  proof (rule nth_equalityI)
    fix j assume "j < length (pp_list pp')"
    then have j: "j < Suc ?n" by (simp add: l)
    have "pp_slot pp' j = (if j = ?n then slot_zero else pp_slot q j)"
      using slot_idx_inj [of k j ?n "pout q"] k(1,2) n j by (auto simp: pp_slot_def pp' inq)
    then show "pp_list pp' ! j = (pp_list q @ [slot_zero]) ! j" using j l lq by (auto simp: nth_append nth_pp_list less_Suc_eq)
  qed (simp add: l lq)
  ultimately show ?thesis using True pp' qi pp_in [of pp] by simp
qed

section \<open>Serialisation of replies\<close>

text \<open>The C library's \<open>strtoll\<close> on a NUL-terminated buffer, base 10, with its saturation.\<close>

definition isspace :: "u8 \<Rightarrow> bool" where
  "isspace b \<longleftrightarrow> b = 32 \<or> 9 \<le> b \<and> b \<le> 13"

definition isdigit :: "u8 \<Rightarrow> bool" where
  "isdigit b \<longleftrightarrow> 48 \<le> b \<and> b \<le> 57"

definition strtoll :: "bytes \<Rightarrow> int" where
  "strtoll b =
     (let t = dropWhile isspace b;
          neg = (t \<noteq> [] \<and> hd t = 45);
          t = (if t \<noteq> [] \<and> (hd t = 45 \<or> hd t = 43) then tl t else t);
          v = int (foldl digit_val 0 (takeWhile isdigit t))
      in if neg then max (- (2 ^ 63)) (- v) else min (2 ^ 63 - 1) v)"

record wbuf =
  wbuf_data :: bytes
  wbuf_cap :: nat
  wbuf_sent :: nat

text \<open>\<open>ra n\<close> tells whether a reallocation to \<open>n\<close> bytes succeeds.\<close>

definition resp_wbuf_append :: "(nat \<Rightarrow> bool) \<Rightarrow> bytes \<Rightarrow> wbuf \<Rightarrow> bool \<times> wbuf" where
  "resp_wbuf_append ra d w =
     (let needed = length (wbuf_data w) + length d
      in if wbuf_cap w < needed
         then
           (let newcap = double_until (if wbuf_cap w \<noteq> 0 then wbuf_cap w * 2 else 256) needed
            in if ra newcap then (True, w\<lparr>wbuf_cap := newcap, wbuf_data := wbuf_data w @ d\<rparr>) else (False, w))
         else (True, w\<lparr>wbuf_data := wbuf_data w @ d\<rparr>))"

abbreviation wb_append :: "(nat \<Rightarrow> bool) \<Rightarrow> bytes \<Rightarrow> wbuf \<Rightarrow> wbuf" where
  "wb_append ra d w \<equiv> snd (resp_wbuf_append ra d w)"

definition itoa_fast :: "u64 \<Rightarrow> bytes" where
  "itoa_fast val = (if val = 0 then [48] else rev (dec_digits val))"

definition CRLF :: bytes where "CRLF = [13, 10]"

definition resp_wbuf_append_kv :: "(nat \<Rightarrow> bool) \<Rightarrow> kv_obj \<Rightarrow> wbuf \<Rightarrow> bool \<times> wbuf" where
  "resp_wbuf_append_kv ra ob w =
     (let hdr = [36] @ itoa_fast (ucast (obj_val_len_get ob)) @ CRLF
      in resp_wbuf_append ra (hdr @ obj_val_get ob @ CRLF) w)"

text \<open>The count in a part's reply \<open>:n\r\n\<close>: at most 31 bytes after the colon.\<close>

definition part_count :: "bytes \<Rightarrow> u64" where
  "part_count b = of_int (strtoll (take (min 31 (length b - 3)) (drop 1 b)))"

definition del_total :: "rbuf option list \<Rightarrow> u64" where
  "del_total rs = foldl (\<lambda>total r. case r of Some (_, b) \<Rightarrow> if 3 < length b then total + part_count b else total
      | None \<Rightarrow> total) 0 rs"

definition dbsize_total :: "nat \<Rightarrow> u64 \<Rightarrow> rbuf option list \<Rightarrow> u64" where
  "dbsize_total self used rs =
     foldl (\<lambda>total (j, r). case r of
         Some (_, b) \<Rightarrow> if 3 < length b then total + part_count b else if j = self then total + used else total
       | None \<Rightarrow> if j = self then total + used else total) 0 (enumerate 0 rs)"

definition int_line :: "u64 \<Rightarrow> bytes" where
  "int_line n = [58] @ itoa_fast n @ CRLF"

definition NIL_REPLY :: bytes where "NIL_REPLY = [36, 45, 49, 13, 10]"
definition OK_REPLY :: bytes where "OK_REPLY = [43, 79, 75, 13, 10]"
definition PONG_REPLY :: bytes where "PONG_REPLY = [43, 80, 79, 78, 71, 13, 10]"
definition ERR_PREFIX :: bytes where "ERR_PREFIX = [45, 69, 82, 82, 32]"

definition mget_part_write :: "(nat \<Rightarrow> bool) \<Rightarrow> objs \<Rightarrow> net_pipeline_slot \<Rightarrow> nat \<Rightarrow> wbuf \<Rightarrow> wbuf" where
  "mget_part_write ra os s j w =
     (case multi_replies s ! j of
        Some (_, b) \<Rightarrow> wb_append ra b w
      | None \<Rightarrow>
          (case multi_kv_objs s of
             Some ks \<Rightarrow> if ks ! j \<noteq> 0 then snd (resp_wbuf_append_kv ra (os (ks ! j)) w) else wb_append ra NIL_REPLY w
           | None \<Rightarrow> wb_append ra NIL_REPLY w))"

definition int_reply_text :: "u64 \<Rightarrow> bytes" where
  "int_reply_text v =
     (let neg = sint v < 0; u = (if neg then - (v + 1) + 1 else v)
      in [58] @ (if neg then [45] else []) @ itoa_fast u @ CRLF)"

definition single_write :: "(nat \<Rightarrow> bool) \<Rightarrow> objs \<Rightarrow> net_pipeline_slot \<Rightarrow> wbuf \<Rightarrow> wbuf" where
  "single_write ra os s w =
     (case reply_type s of
        REPLY_TYPE_OK \<Rightarrow> wb_append ra OK_REPLY w
      | REPLY_TYPE_NIL \<Rightarrow> wb_append ra NIL_REPLY w
      | REPLY_TYPE_PONG \<Rightarrow> wb_append ra PONG_REPLY w
      | REPLY_TYPE_INT \<Rightarrow> wb_append ra (int_reply_text (reply_int s)) w
      | REPLY_TYPE_ERR \<Rightarrow>
          (let w = wb_append ra ERR_PREFIX w;
               w = (case reply_data s of Some (_, b) \<Rightarrow> if 0 < length b then wb_append ra b w else w | None \<Rightarrow> w)
           in wb_append ra CRLF w)
      | REPLY_TYPE_BUF \<Rightarrow> (case reply_data s of Some (_, b) \<Rightarrow> if 0 < length b then wb_append ra b w else w | None \<Rightarrow> w)
      | REPLY_TYPE_BUF_STATIC \<Rightarrow> (case reply_data s of Some (_, b) \<Rightarrow> if 0 < length b then wb_append ra b w else w | None \<Rightarrow> w)
      | REPLY_TYPE_KV_OBJ \<Rightarrow> if kv_obj_ptr s \<noteq> 0 then snd (resp_wbuf_append_kv ra (os (kv_obj_ptr s)) w) else w
      | REPLY_TYPE_NONE \<Rightarrow> w)"

text \<open>\<open>self\<close> and \<open>used\<close> are the id and the entry count of the reactor's own shard.\<close>

definition net_slot_write_to_wbuf ::
  "(nat \<Rightarrow> bool) \<Rightarrow> objs \<Rightarrow> nat \<Rightarrow> u64 \<Rightarrow> net_pipeline_slot \<Rightarrow> wbuf \<Rightarrow> wbuf" where
  "net_slot_write_to_wbuf ra os self used s w =
     (if is_multi s then
        (if parent_cmd_id s = resp_cmd_code MSG_CMD_MSET_PART then
           (case reply_data s of Some (_, b) \<Rightarrow> wb_append ra b w | None \<Rightarrow> w)
         else if parent_cmd_id s = resp_cmd_code MSG_CMD_DEL_PART then
           wb_append ra (int_line (del_total (take (multi_parts s) (multi_replies s)))) w
         else if parent_cmd_id s = resp_cmd_code MSG_CMD_DBSIZE then
           wb_append ra (int_line (dbsize_total self used (take (multi_parts s) (multi_replies s)))) w
         else
           (let w = (case reply_data s of Some (_, b) \<Rightarrow> wb_append ra b w | None \<Rightarrow> w)
            in fold (mget_part_write ra os s) [0..<multi_parts s] w))
      else single_write ra os s w)"

section \<open>Releasing a slot\<close>

datatype reactor_act =
    Obj_unref addr
  | Slab_free addr
  | Send_release nat addr addr
  | Rbuf_try_free addr

definition net_remote_obj_release :: "nat \<Rightarrow> nat \<Rightarrow> addr \<Rightarrow> addr \<Rightarrow> reactor_act list" where
  "net_remote_obj_release self owner kv rep =
     (if kv = 0 \<and> rep = 0 then []
      else if owner = self then (if kv \<noteq> 0 then [Obj_unref kv] else []) @ (if rep \<noteq> 0 then [Slab_free rep] else [])
      else [Send_release owner kv rep])"

definition buf_ptr :: "rbuf option \<Rightarrow> addr" where
  "buf_ptr r = (case r of Some (a, _) \<Rightarrow> a | None \<Rightarrow> 0)"

definition slot_kv_at :: "net_pipeline_slot \<Rightarrow> nat \<Rightarrow> addr" where
  "slot_kv_at s j = (case multi_kv_objs s of Some ks \<Rightarrow> ks ! j | None \<Rightarrow> 0)"

definition slot_owner_at :: "net_pipeline_slot \<Rightarrow> nat \<Rightarrow> nat" where
  "slot_owner_at s j = (case multi_owners s of Some os \<Rightarrow> os ! j | None \<Rightarrow> j mod 256)"

definition net_slot_reset :: "nat \<Rightarrow> net_pipeline_slot \<Rightarrow> net_pipeline_slot \<times> reactor_act list" where
  "net_slot_reset self s =
     (let heap_buf = (if reply_type s = REPLY_TYPE_BUF then buf_ptr (reply_data s) else 0);
          a1 = (if kv_obj_ptr s \<noteq> 0 \<or> heap_buf \<noteq> 0 then net_remote_obj_release self (shard_owner s) (kv_obj_ptr s) heap_buf else []);
          a2 = (if is_multi s
                then concat (map (\<lambda>j. net_remote_obj_release self (slot_owner_at s j) (slot_kv_at s j) (buf_ptr (multi_replies s ! j)))
                  [0..<multi_parts s]) else []);
          a3 = (if slot_req_nb s \<noteq> 0 then [Rbuf_try_free (slot_req_nb s)] else []);
          a4 = (if cmd_argv s \<noteq> 0 then [Slab_free (cmd_argv s)] else []) @
               (if cmd_arglen s \<noteq> 0 then [Slab_free (cmd_arglen s)] else [])
      in (slot_zero, a1 @ a2 @ a3 @ a4))"

section \<open>Flush and delivery\<close>

text \<open>The loop of the flush: one iteration per queued sequence number at most, so it is given that many.\<close>

fun try_flush_loop :: "nat \<Rightarrow> (nat \<Rightarrow> bool) \<Rightarrow> objs \<Rightarrow> nat \<Rightarrow> u64 \<Rightarrow> net_proxy_pipeline \<Rightarrow> wbuf \<Rightarrow> reactor_act list
    \<Rightarrow> net_proxy_pipeline \<times> wbuf \<times> reactor_act list" where
  "try_flush_loop 0 ra os self used pp w acts = (pp, w, acts)"
| "try_flush_loop (Suc n) ra os self used pp w acts =
     (if pout pp = pin pp then (pp, w, acts)
      else
        (let i = slot_idx (pcap pp) (pout pp); s = slots pp i
         in if state s \<noteq> PSLOT_LOCAL \<and> state s \<noteq> PSLOT_DONE then (pp, w, acts)
            else
              (let w = net_slot_write_to_wbuf ra os self used s w;
                   (s', a) = net_slot_reset self s
               in try_flush_loop n ra os self used (pp\<lparr>slots := (slots pp)(i := s'), pout := pout pp + 1\<rparr>) w (acts @ a))))"

definition net_pipeline_try_flush ::
  "(nat \<Rightarrow> bool) \<Rightarrow> objs \<Rightarrow> nat \<Rightarrow> u64 \<Rightarrow> net_proxy_pipeline \<Rightarrow> wbuf \<Rightarrow> net_proxy_pipeline \<times> wbuf \<times> reactor_act list" where
  "net_pipeline_try_flush ra os self used pp w = try_flush_loop (unat (pin pp - pout pp)) ra os self used pp w []"

record reply_msg =
  r_pipeline_idx :: u32
  r_sub_idx :: nat
  r_reply_type :: msg_reply_type
  r_reply_int :: u64
  r_reply_buf :: "rbuf option"
  r_kv_obj_ptr :: addr
  r_shard_owner :: nat

definition slot_take_reply :: "reply_msg \<Rightarrow> net_pipeline_slot \<Rightarrow> net_pipeline_slot" where
  "slot_take_reply m s =
     (if is_multi s then
        (let j = r_sub_idx m
         in if j < multi_parts s then
              (let s = s\<lparr>multi_replies := (multi_replies s)[j := r_reply_buf m],
                         multi_kv_objs := map_option (\<lambda>ks. ks[j := r_kv_obj_ptr m]) (multi_kv_objs s),
                         multi_owners := map_option (\<lambda>os. os[j := r_shard_owner m]) (multi_owners s),
                         multi_replied := multi_replied s + 1\<rparr>
               in if multi_parts s \<le> multi_replied s then s\<lparr>state := PSLOT_DONE\<rparr> else s)
            else s)
      else s\<lparr>reply_type := r_reply_type m, reply_int := r_reply_int m, reply_data := r_reply_buf m,
             kv_obj_ptr := r_kv_obj_ptr m, shard_owner := r_shard_owner m, state := PSLOT_DONE\<rparr>)"

text \<open>The callback for a reply whose connection is \<open>pp\<close>'s; the flag tells whether the connection is marked dirty.\<close>

definition net_reactor_proxy_reply_callback ::
  "nat \<Rightarrow> reply_msg \<Rightarrow> net_proxy_pipeline \<Rightarrow> net_proxy_pipeline \<times> reactor_act list \<times> bool" where
  "net_reactor_proxy_reply_callback self m pp =
     (let seq = r_pipeline_idx m
      in if sint (seq - pout pp) < 0 \<or> 0 \<le> sint (seq - pin pp)
         then (pp, net_remote_obj_release self (r_shard_owner m) (r_kv_obj_ptr m) (buf_ptr (r_reply_buf m)), False)
         else
           (let i = slot_idx (pcap pp) seq
            in (pp\<lparr>slots := (slots pp)(i := slot_take_reply m (slots pp i))\<rparr>, [], True)))"

text \<open>A complete command: the queue entry, the dispatcher's result code, and the move of a locally produced reply from
  the write buffer into the slot.  \<open>None\<close> is the connection being marked dead.  \<open>dispatch\<close> is the command
  dispatcher; \<open>ab\<close> the address of the copied reply, when its allocation succeeds.\<close>

definition conn_exec ::
  "bool \<Rightarrow> addr option \<Rightarrow> addr \<Rightarrow> nat \<Rightarrow> (u32 \<Rightarrow> net_pipeline_slot \<Rightarrow> wbuf \<Rightarrow> int \<times> net_pipeline_slot \<times> wbuf) \<Rightarrow>
   net_proxy_pipeline \<Rightarrow> wbuf \<Rightarrow> (int \<times> net_proxy_pipeline \<times> wbuf) option" where
  "conn_exec alloc ab nb self dispatch pp w =
     (let (seq, pp) = net_pipeline_enqueue alloc pp
      in if seq = 0xFFFFFFFF then None
         else
           (let i = slot_idx (pcap pp) seq;
                w0 = length (wbuf_data w);
                (ret, s, w) = dispatch seq ((slots pp i)\<lparr>slot_req_nb := nb\<rparr>) w;
                (s, w) =
                  (if ret = 0 then
                     (let s = s\<lparr>state := PSLOT_LOCAL, shard_owner := self\<rparr>; reply = drop w0 (wbuf_data w)
                      in if 0 < length reply
                         then (s\<lparr>reply_data := map_option (\<lambda>a. (a, reply)) ab, reply_type := REPLY_TYPE_BUF\<rparr>,
                               w\<lparr>wbuf_data := take w0 (wbuf_data w)\<rparr>)
                         else (s, w))
                   else (s, w))
            in if ret < 0 then None else Some (ret, pp\<lparr>slots := (slots pp)(i := s)\<rparr>, w)))"

section \<open>What is written\<close>

lemma wb_append_data [simp]:
  assumes "\<And>n. ra n"
  shows "wbuf_data (wb_append ra d w) = wbuf_data w @ d"
  using assms by (simp add: resp_wbuf_append_def Let_def)

lemma wb_append_sent [simp]: "wbuf_sent (wb_append ra d w) = wbuf_sent w"
  by (simp add: resp_wbuf_append_def Let_def)

text \<open>Reference: the bytes a completed slot stands for.\<close>

definition kv_reply :: "kv_obj \<Rightarrow> bytes" where
  "kv_reply ob = [36] @ itoa_fast (ucast (obj_val_len_get ob)) @ CRLF @ obj_val_get ob @ CRLF"

definition buf_bytes :: "rbuf option \<Rightarrow> bytes" where
  "buf_bytes r = (case r of Some (_, b) \<Rightarrow> b | None \<Rightarrow> [])"

definition mget_part_reply :: "objs \<Rightarrow> net_pipeline_slot \<Rightarrow> nat \<Rightarrow> bytes" where
  "mget_part_reply os s j =
     (if multi_replies s ! j \<noteq> None then buf_bytes (multi_replies s ! j)
      else if slot_kv_at s j \<noteq> 0 then kv_reply (os (slot_kv_at s j)) else NIL_REPLY)"

definition slot_reply :: "objs \<Rightarrow> nat \<Rightarrow> u64 \<Rightarrow> net_pipeline_slot \<Rightarrow> bytes" where
  "slot_reply os self used s =
     (if is_multi s then
        (if parent_cmd_id s = resp_cmd_code MSG_CMD_MSET_PART then buf_bytes (reply_data s)
         else if parent_cmd_id s = resp_cmd_code MSG_CMD_DEL_PART
         then int_line (del_total (take (multi_parts s) (multi_replies s)))
         else if parent_cmd_id s = resp_cmd_code MSG_CMD_DBSIZE
         then int_line (dbsize_total self used (take (multi_parts s) (multi_replies s)))
         else buf_bytes (reply_data s) @ concat (map (mget_part_reply os s) [0..<multi_parts s]))
      else
        (case reply_type s of
           REPLY_TYPE_OK \<Rightarrow> OK_REPLY | REPLY_TYPE_NIL \<Rightarrow> NIL_REPLY | REPLY_TYPE_PONG \<Rightarrow> PONG_REPLY
         | REPLY_TYPE_INT \<Rightarrow> int_reply_text (reply_int s)
         | REPLY_TYPE_ERR \<Rightarrow> ERR_PREFIX @ buf_bytes (reply_data s) @ CRLF
         | REPLY_TYPE_BUF \<Rightarrow> buf_bytes (reply_data s) | REPLY_TYPE_BUF_STATIC \<Rightarrow> buf_bytes (reply_data s)
         | REPLY_TYPE_KV_OBJ \<Rightarrow> if kv_obj_ptr s \<noteq> 0 then kv_reply (os (kv_obj_ptr s)) else []
         | REPLY_TYPE_NONE \<Rightarrow> []))"

lemma append_kv_data [simp]:
  assumes "\<And>n. ra n"
  shows "wbuf_data (snd (resp_wbuf_append_kv ra ob w)) = wbuf_data w @ kv_reply ob"
  using assms by (simp add: resp_wbuf_append_kv_def kv_reply_def Let_def)

lemma append_kv_sent [simp]: "wbuf_sent (snd (resp_wbuf_append_kv ra ob w)) = wbuf_sent w"
  by (simp add: resp_wbuf_append_kv_def Let_def)

lemma mget_part_data:
  assumes "\<And>n. ra n"
  shows "wbuf_data (mget_part_write ra os s j w) = wbuf_data w @ mget_part_reply os s j"
  using assms by (auto simp: mget_part_write_def mget_part_reply_def slot_kv_at_def buf_bytes_def split: option.splits)

lemma mget_parts_data:
  assumes "\<And>n. ra n"
  shows "wbuf_data (fold (mget_part_write ra os s) js w) = wbuf_data w @ concat (map (mget_part_reply os s) js)"
  by (induction js arbitrary: w) (simp_all add: mget_part_data assms)

lemma slot_write_data:
  assumes "\<And>n. ra n"
  shows "wbuf_data (net_slot_write_to_wbuf ra os self used s w) = wbuf_data w @ slot_reply os self used s"
  using assms
  by (auto simp: net_slot_write_to_wbuf_def slot_reply_def single_write_def mget_parts_data buf_bytes_def Let_def
      split: option.splits msg_reply_type.splits)

section \<open>The flush answers the completed prefix\<close>

definition slot_ready :: "net_pipeline_slot \<Rightarrow> bool" where
  "slot_ready s \<longleftrightarrow> state s = PSLOT_LOCAL \<or> state s = PSLOT_DONE"

lemma pp_pop:
  assumes inv: "pp_inv pp" and ne: "pout pp \<noteq> pin pp"
  defines "pp' \<equiv> pp\<lparr>slots := (slots pp)(slot_idx (pcap pp) (pout pp) := slot_zero), pout := pout pp + 1\<rparr>"
  shows "pp_inv pp'" "pp_list pp = slots pp (slot_idx (pcap pp) (pout pp)) # pp_list pp'" "pp_len pp = Suc (pp_len pp')"
proof -
  obtain k where k: "k \<le> 30" "pcap pp = 2 ^ k" "pp_len pp \<le> 2 ^ k" "unat (pcap pp) = 2 ^ k" by (rule pp_capE [OF inv])
  have n0: "pp_len pp \<noteq> 0" using ne by (auto simp: pp_len_def unat_eq_0)
  then obtain m where m: "pp_len pp = Suc m" by (cases "pp_len pp") auto
  have "pin pp' - pout pp' = of_nat m" using pp_in [of pp] m by (simp add: pp'_def)
  then have l: "pp_len pp' = m" using pp_len_max [OF inv] m by (simp only: pp_len_def unat_of_nat) simp
  then show "pp_len pp = Suc (pp_len pp')" using m by simp
  show "pp_inv pp'" unfolding pp_inv_def using k l m by (auto simp: pp'_def pp_len_def word_le_nat_alt)
  have "pp_slot pp' i = pp_slot pp (Suc i)" if "i < m" for i
  proof -
    have "slot_idx (2 ^ k) (pout pp + of_nat (Suc i)) \<noteq> slot_idx (2 ^ k) (pout pp + of_nat 0)"
      using slot_idx_inj [of k "Suc i" 0 "pout pp"] k m that by auto
    then show ?thesis by (simp add: pp_slot_def pp'_def k(2) add.assoc)
  qed
  then show "pp_list pp = slots pp (slot_idx (pcap pp) (pout pp)) # pp_list pp'"
    by (simp add: pp_list_def m l upt_conv_Cons map_Suc_upt [symmetric] del: upt_Suc) (simp add: pp_slot_def)
qed

lemma try_flush_loop_ok:
  assumes ra: "\<And>n. ra n" and inv: "pp_inv pp" and n: "pp_len pp \<le> n"
    and r: "try_flush_loop n ra os self used pp w acts = (pp', w', acts')"
  shows "pp_inv pp' \<and> pp_list pp' = dropWhile slot_ready (pp_list pp) \<and> pin pp' = pin pp \<and> pcap pp' = pcap pp
    \<and> pout pp' = pout pp + of_nat (length (takeWhile slot_ready (pp_list pp)))
    \<and> wbuf_data w' = wbuf_data w @ concat (map (slot_reply os self used) (takeWhile slot_ready (pp_list pp)))
    \<and> acts' = acts @ concat (map (\<lambda>s. snd (net_slot_reset self s)) (takeWhile slot_ready (pp_list pp)))"
  using inv n r
proof (induction n arbitrary: pp w acts)
  case 0
  then have "pp_list pp = []" by (simp add: pp_list_def)
  then show ?case using 0 by simp
next
  case (Suc n)
  let ?i = "slot_idx (pcap pp) (pout pp)"
  let ?s = "slots pp ?i"
  show ?case
  proof (cases "pout pp = pin pp")
    case True
    then have "pp_list pp = []" by (simp add: pp_list_def pp_len_def)
    then show ?thesis using Suc.prems True by simp
  next
    case ne: False
    let ?q = "pp\<lparr>slots := (slots pp)(?i := slot_zero), pout := pout pp + 1\<rparr>"
    note q = pp_pop [OF Suc.prems(1) ne]
    show ?thesis
    proof (cases "slot_ready ?s")
      case False
      then show ?thesis using Suc.prems ne q(2) by (simp add: slot_ready_def Let_def)
    next
      case True
      have step: "try_flush_loop n ra os self used ?q (net_slot_write_to_wbuf ra os self used ?s w) (acts @ snd (net_slot_reset self ?s))
          = (pp', w', acts')"
        using Suc.prems(3) ne True by (auto simp: slot_ready_def Let_def net_slot_reset_def)
      have "pp_len ?q \<le> n" using q(3) Suc.prems(2) by simp
      from Suc.IH [OF q(1) this step] show ?thesis
        using True q(2) by (simp add: slot_write_data [OF ra] add.commute)
    qed
  qed
qed

lemma try_flush_ok:
  assumes "\<And>n. ra n" "pp_inv pp" "net_pipeline_try_flush ra os self used pp w = (pp', w', acts)"
  shows "pp_inv pp' \<and> pp_list pp' = dropWhile slot_ready (pp_list pp) \<and> pin pp' = pin pp \<and> pcap pp' = pcap pp
    \<and> pout pp' = pout pp + of_nat (length (takeWhile slot_ready (pp_list pp)))
    \<and> wbuf_data w' = wbuf_data w @ concat (map (slot_reply os self used) (takeWhile slot_ready (pp_list pp)))
    \<and> acts = concat (map (\<lambda>s. snd (net_slot_reset self s)) (takeWhile slot_ready (pp_list pp)))"
  using try_flush_loop_ok [OF assms(1,2) _ assms(3) [unfolded net_pipeline_try_flush_def]] by (simp add: pp_len_def)

section \<open>Delivery\<close>

lemma sint_neg_iff: "sint (x :: u32) < 0 \<longleftrightarrow> 2 ^ 31 \<le> unat x"
proof -
  have x: "unat x < 2 ^ 32" using unat_u32_less [of x] by simp
  have "sint x < 0 \<longleftrightarrow> bit (int (unat x)) 31" by (simp add: sint_uint signed_take_bit_negative_iff)
  also have "\<dots> \<longleftrightarrow> odd (unat x div 2 ^ 31)" unfolding bit_of_nat_iff_bit by (simp only: bit_iff_odd)
  also have "\<dots> \<longleftrightarrow> 2 ^ 31 \<le> unat x"
  proof (cases "2 ^ 31 \<le> unat x")
    case True
    then have "unat x div 2 ^ 31 = 1" using x by (intro div_nat_eqI) simp_all
    then show ?thesis using True by simp
  qed simp
  finally show ?thesis .
qed

lemma unat_diff:
  fixes d n :: u32
  shows "unat (d - n) = (if unat n \<le> unat d then unat d - unat n else 2 ^ 32 + unat d - unat n)"
proof (cases "unat n \<le> unat d")
  case True
  then show ?thesis by (simp add: unat_sub word_le_nat_alt)
next
  case False
  have n: "unat n < 2 ^ 32" using unat_u32_less [of n] by simp
  have "d - n = of_nat (2 ^ 32 + unat d - unat n)" using n by (simp add: of_nat_diff)
  moreover have "2 ^ 32 + unat d - unat n < 2 ^ 32" using False by simp
  ultimately show ?thesis using False by (simp only: unat_of_nat) simp
qed

text \<open>The signed window test accepts exactly the queued sequence numbers.\<close>

lemma window_iff:
  assumes inv: "pp_inv pp"
  shows "(sint (seq - pout pp) < 0 \<or> 0 \<le> sint (seq - pin pp)) \<longleftrightarrow> pp_len pp \<le> unat (seq - pout pp)"
proof -
  let ?d = "seq - pout pp" and ?n = "pin pp - pout pp"
  have e: "seq - pin pp = ?d - ?n" by simp
  have n: "unat ?n \<le> 2 ^ 30" using pp_len_max [OF inv] by (simp add: pp_len_def)
  have d: "unat ?d < 2 ^ 32" using unat_u32_less [of ?d] by simp
  have "0 \<le> sint (?d - ?n) \<longleftrightarrow> unat (?d - ?n) < 2 ^ 31" using sint_neg_iff [of "?d - ?n"] by linarith
  also have "\<dots> \<longleftrightarrow> unat ?n \<le> unat ?d \<and> unat ?d - unat ?n < 2 ^ 31"
    using n unat_diff [of ?d ?n] by (cases "unat ?n \<le> unat ?d") simp_all
  finally show ?thesis unfolding e using sint_neg_iff [of ?d] n by (simp add: pp_len_def) linarith
qed

lemma callback_ok:
  assumes inv: "pp_inv pp" and r: "net_reactor_proxy_reply_callback self m pp = (pp', acts, dirty)"
  defines "i \<equiv> unat (r_pipeline_idx m - pout pp)"
  shows "pp_inv pp' \<and> pout pp' = pout pp \<and> pin pp' = pin pp \<and>
    (if i < pp_len pp then dirty \<and> acts = [] \<and> pp_list pp' = (pp_list pp)[i := slot_take_reply m (pp_list pp ! i)]
     else \<not> dirty \<and> pp' = pp \<and> acts = net_remote_obj_release self (r_shard_owner m) (r_kv_obj_ptr m) (buf_ptr (r_reply_buf m)))"
proof (cases "i < pp_len pp")
  case False
  then show ?thesis using r inv window_iff [OF inv, of "r_pipeline_idx m"]
    by (simp add: net_reactor_proxy_reply_callback_def i_def Let_def)
next
  case True
  have seq: "r_pipeline_idx m = pout pp + of_nat i" by (simp add: i_def)
  let ?j = "slot_idx (pcap pp) (pout pp + of_nat i)"
  have w: "\<not> (sint (r_pipeline_idx m - pout pp) < 0 \<or> 0 \<le> sint (r_pipeline_idx m - pin pp))"
    using window_iff [OF inv, of "r_pipeline_idx m"] True by (simp add: i_def)
  have pp': "pp' = pp\<lparr>slots := (slots pp)(?j := slot_take_reply m (slots pp ?j))\<rparr>" "acts = []" "dirty"
    using r w unfolding net_reactor_proxy_reply_callback_def Let_def seq by simp_all
  have "slots pp ?j = pp_list pp ! i" using True by (simp add: nth_pp_list pp_slot_def)
  then show ?thesis using pp_list_update [OF inv True, of "slot_take_reply m (slots pp ?j)"] True pp' by simp
qed

section \<open>Requests, replies and flushes in any order\<close>

datatype ('r, 'm, 'e) queue_op = Request 'r | Reply 'm | Flush 'e

text \<open>The abstract queue counts the answered requests without bound and holds the others in request order.\<close>

record ('s) reply_spec =
  answered :: nat
  queued :: "'s list"
  stream :: bytes

primrec spec_op :: "('r \<Rightarrow> 's) \<Rightarrow> ('m \<Rightarrow> u32) \<Rightarrow> ('m \<Rightarrow> 's \<Rightarrow> 's) \<Rightarrow> ('e \<Rightarrow> 's \<Rightarrow> bytes) \<Rightarrow> ('s \<Rightarrow> bool)
    \<Rightarrow> ('r, 'm, 'e) queue_op \<Rightarrow> 's reply_spec \<Rightarrow> 's reply_spec" where
  "spec_op item idx answer render ready (Request r) a = a\<lparr>queued := queued a @ [item r]\<rparr>"
| "spec_op item idx answer render ready (Reply m) a =
     a\<lparr>queued := map (\<lambda>(i, s). if idx m = of_nat (answered a + i) then answer m s else s) (enumerate 0 (queued a))\<rparr>"
| "spec_op item idx answer render ready (Flush e) a =
     (let done = takeWhile ready (queued a)
      in \<lparr>answered = answered a + length done, queued = dropWhile ready (queued a),
          stream = stream a @ concat (map (render e) done)\<rparr>)"

text \<open>A request fits when its queue has room below \<open>2 ^ 30\<close> entries and its sequence number is not \<open>UINT32_MAX\<close>.\<close>

primrec op_fits :: "('r \<Rightarrow> bool) \<Rightarrow> ('r, 'm, 'e) queue_op \<Rightarrow> 's reply_spec \<Rightarrow> bool" where
  "op_fits accepts (Request r) a \<longleftrightarrow> accepts r \<and> length (queued a) < 2 ^ 30 \<and> (answered a + length (queued a) + 1) mod 2 ^ 32 \<noteq> 0"
| "op_fits accepts (Reply m) a \<longleftrightarrow> True"
| "op_fits accepts (Flush e) a \<longleftrightarrow> True"

primrec ops_fit :: "('r \<Rightarrow> bool) \<Rightarrow> (('r, 'm, 'e) queue_op \<Rightarrow> 's reply_spec \<Rightarrow> 's reply_spec) \<Rightarrow> ('r, 'm, 'e) queue_op list
    \<Rightarrow> 's reply_spec \<Rightarrow> bool" where
  "ops_fit accepts spec [] a \<longleftrightarrow> True"
| "ops_fit accepts spec (x # xs) a \<longleftrightarrow> op_fits accepts x a \<and> ops_fit accepts spec xs (spec x a)"

primrec run_op :: "('r \<Rightarrow> 'c \<Rightarrow> 'c option) \<Rightarrow> ('m \<Rightarrow> 'c \<Rightarrow> 'c) \<Rightarrow> ('e \<Rightarrow> 'c \<Rightarrow> 'c) \<Rightarrow> ('r, 'm, 'e) queue_op \<Rightarrow> 'c \<Rightarrow> 'c option" where
  "run_op put deliver flush (Request r) c = put r c"
| "run_op put deliver flush (Reply m) c = Some (deliver m c)"
| "run_op put deliver flush (Flush e) c = Some (flush e c)"

primrec run_ops :: "(('r, 'm, 'e) queue_op \<Rightarrow> 'c \<Rightarrow> 'c option) \<Rightarrow> ('r, 'm, 'e) queue_op list \<Rightarrow> 'c \<Rightarrow> 'c option" where
  "run_ops run [] c = Some c"
| "run_ops run (x # xs) c = (case run x c of None \<Rightarrow> None | Some c \<Rightarrow> run_ops run xs c)"

text \<open>
  The contract of a connection's pipeline: \<open>items\<close> are the queued requests, \<open>base\<close> the 32-bit sequence number of the
  oldest, \<open>out\<close> the bytes for the client.  A request is appended, a reply reaches the item its sequence number names, a
  flush takes the longest completed prefix and renders it.
\<close>

locale reply_queue =
  fixes inv :: "'c \<Rightarrow> bool" and items :: "'c \<Rightarrow> 's list" and base :: "'c \<Rightarrow> u32" and out :: "'c \<Rightarrow> bytes"
    and put :: "'r \<Rightarrow> 'c \<Rightarrow> 'c option" and item :: "'r \<Rightarrow> 's" and accepts :: "'r \<Rightarrow> bool"
    and deliver :: "'m \<Rightarrow> 'c \<Rightarrow> 'c" and idx :: "'m \<Rightarrow> u32" and answer :: "'m \<Rightarrow> 's \<Rightarrow> 's"
    and flush :: "'e \<Rightarrow> 'c \<Rightarrow> 'c" and render :: "'e \<Rightarrow> 's \<Rightarrow> bytes" and ready :: "'s \<Rightarrow> bool"
  assumes put_law: "\<lbrakk>inv c; accepts r; length (items c) < 2 ^ 30; base c + of_nat (length (items c)) \<noteq> 0xFFFFFFFF\<rbrakk>
      \<Longrightarrow> \<exists>c'. put r c = Some c' \<and> inv c' \<and> items c' = items c @ [item r] \<and> base c' = base c \<and> out c' = out c"
    and deliver_law: "inv c \<Longrightarrow> inv (deliver m c) \<and> base (deliver m c) = base c \<and> out (deliver m c) = out c \<and>
      items (deliver m c) = (let i = unat (idx m - base c) in
        if i < length (items c) then (items c)[i := answer m (items c ! i)] else items c)"
    and flush_law: "inv c \<Longrightarrow> inv (flush e c) \<and> items (flush e c) = dropWhile ready (items c) \<and>
      base (flush e c) = base c + of_nat (length (takeWhile ready (items c))) \<and>
      out (flush e c) = out c @ concat (map (render e) (takeWhile ready (items c)))"
    and inv_small: "inv c \<Longrightarrow> length (items c) \<le> 2 ^ 30"
begin

abbreviation spec where
  "spec \<equiv> spec_op item idx answer render ready"

definition sim :: "'c \<Rightarrow> 's reply_spec \<Rightarrow> bool" where
  "sim c a \<longleftrightarrow> inv c \<and> items c = queued a \<and> base c = of_nat (answered a) \<and> out c = stream a"

lemma deliver_sim:
  assumes "sim c a"
  shows "sim (deliver m c) (spec (Reply m) a)"
proof -
  have inv: "inv c" and it: "items c = queued a" and b: "base c = of_nat (answered a)" and o: "out c = stream a"
    using assms by (simp_all add: sim_def)
  let ?i = "unat (idx m - base c)"
  have eq: "idx m = of_nat (answered a + j) \<longleftrightarrow> j = ?i" if "j < length (items c)" for j
  proof -
    have j: "j < 2 ^ 32" using that inv_small [OF inv] by simp
    have "idx m = of_nat (answered a + j) \<longleftrightarrow> idx m - base c = of_nat j" by (auto simp: b algebra_simps)
    also have "\<dots> \<longleftrightarrow> ?i = j" using j by (auto simp: unat_of_nat)
    finally show ?thesis by auto
  qed
  have "items (deliver m c) = queued (spec (Reply m) a)"
  proof (rule nth_equalityI)
    show "length (items (deliver m c)) = length (queued (spec (Reply m) a))"
      using deliver_law [OF inv, of m] it by (simp add: Let_def)
  next
    fix j assume "j < length (items (deliver m c))"
    then have j: "j < length (items c)" using deliver_law [OF inv, of m] by (simp add: Let_def split: if_splits)
    have "items (deliver m c) ! j = (if j = ?i then answer m (items c ! j) else items c ! j)"
      using deliver_law [OF inv, of m] j by (simp add: Let_def nth_list_update)
    also have "\<dots> = queued (spec (Reply m) a) ! j" using eq [OF j] j by (simp add: it nth_enumerate_eq)
    finally show "items (deliver m c) ! j = queued (spec (Reply m) a) ! j" .
  qed
  then show ?thesis using deliver_law [OF inv, of m] b o by (simp add: sim_def)
qed

lemma op_sim:
  assumes s: "sim c a" and f: "op_fits accepts x a"
  shows "\<exists>c'. run_op put deliver flush x c = Some c' \<and> sim c' (spec x a)"
proof (cases x)
  case (Request r)
  have "base c + of_nat (length (items c)) \<noteq> 0xFFFFFFFF"
  proof
    assume "base c + of_nat (length (items c)) = 0xFFFFFFFF"
    then have "(of_nat (answered a + length (queued a)) :: u32) = 0xFFFFFFFF" using s by (simp add: sim_def)
    then have "(of_nat (answered a + length (queued a) + 1) :: u32) = 0xFFFFFFFF + 1" by (simp only: of_nat_add of_nat_1)
    then have "(of_nat (answered a + length (queued a) + 1) :: u32) = 0" by simp
    then show False using f Request by (simp only: op_fits.simps of_nat_eq_0_iff word_of_nat_eq_0_iff) (simp add: dvd_eq_mod_eq_0)
  qed
  then show ?thesis using put_law [of c r] s f Request by (auto simp: sim_def)
next
  case (Reply m)
  then show ?thesis using deliver_sim [OF s] by simp
next
  case (Flush e)
  then show ?thesis using flush_law [of c e] s by (simp add: sim_def Let_def)
qed

lemma run_sim:
  assumes "sim c a" "ops_fit accepts spec xs a"
  shows "\<exists>c'. run_ops (run_op put deliver flush) xs c = Some c' \<and> sim c' (fold spec xs a)"
  using assms
proof (induction xs arbitrary: c a)
  case (Cons x xs)
  then obtain c1 where c1: "run_op put deliver flush x c = Some c1" "sim c1 (spec x a)" using op_sim by fastforce
  then show ?case using Cons.IH [OF c1(2)] Cons.prems by simp
qed simp

end

section \<open>The pipeline implements the contract\<close>

text \<open>What the dispatcher made of a request: its result code, the slot it filled, the text it wrote to the write
  buffer, and the address for the copy of that text.\<close>

record conn_request =
  rq_ret :: int
  rq_slot :: net_pipeline_slot
  rq_text :: bytes
  rq_buf :: addr

type_synonym conn_io = "net_proxy_pipeline \<times> wbuf"

definition conn_accepts :: "conn_request \<Rightarrow> bool" where
  "conn_accepts r \<longleftrightarrow> 0 \<le> rq_ret r \<and> (rq_ret r \<noteq> 0 \<longrightarrow> rq_text r = [])"

definition conn_item :: "nat \<Rightarrow> conn_request \<Rightarrow> net_pipeline_slot" where
  "conn_item self r =
     (if rq_ret r \<noteq> 0 then rq_slot r
      else if rq_text r = [] then (rq_slot r)\<lparr>state := PSLOT_LOCAL, shard_owner := self\<rparr>
      else (rq_slot r)\<lparr>state := PSLOT_LOCAL, shard_owner := self, reply_data := Some (rq_buf r, rq_text r), reply_type := REPLY_TYPE_BUF\<rparr>)"

definition conn_put :: "nat \<Rightarrow> conn_request \<Rightarrow> conn_io \<Rightarrow> conn_io option" where
  "conn_put self r c =
     map_option snd (conn_exec True (Some (rq_buf r)) 0 self (\<lambda>_ _ w. (rq_ret r, rq_slot r, wb_append (\<lambda>_. True) (rq_text r) w)) (fst c) (snd c))"

definition conn_deliver :: "nat \<Rightarrow> reply_msg \<Rightarrow> conn_io \<Rightarrow> conn_io" where
  "conn_deliver self m c = (fst (net_reactor_proxy_reply_callback self m (fst c)), snd c)"

definition conn_flush :: "nat \<Rightarrow> objs \<times> u64 \<Rightarrow> conn_io \<Rightarrow> conn_io" where
  "conn_flush self e c = (let (pp, w, _) = net_pipeline_try_flush (\<lambda>_. True) (fst e) self (snd e) (fst c) (snd c) in (pp, w))"

definition conn_render :: "nat \<Rightarrow> objs \<times> u64 \<Rightarrow> net_pipeline_slot \<Rightarrow> bytes" where
  "conn_render self e = slot_reply (fst e) self (snd e)"

abbreviation conn_spec where
  "conn_spec self \<equiv> spec_op (conn_item self) r_pipeline_idx slot_take_reply (conn_render self) slot_ready"

abbreviation conn_run where
  "conn_run self \<equiv> run_op (conn_put self) (conn_deliver self) (conn_flush self)"

lemma conn_put_ok:
  assumes inv: "pp_inv pp" and a: "conn_accepts r" and l: "pp_len pp < 2 ^ 30" and m: "pin pp \<noteq> 0xFFFFFFFF"
  shows "\<exists>c'. conn_put self r (pp, w) = Some c' \<and> pp_inv (fst c') \<and> pp_list (fst c') = pp_list pp @ [conn_item self r]
    \<and> pout (fst c') = pout pp \<and> wbuf_data (snd c') = wbuf_data w"
proof -
  obtain seq q where e: "net_pipeline_enqueue True pp = (seq, q)" by (cases "net_pipeline_enqueue True pp")
  have "pin pp - pout pp = pcap pp \<longrightarrow> pcap pp < 2 ^ 30" using l by (auto simp: pp_len_def word_less_nat_alt)
  note enqueue_ok [OF inv this e, unfolded simp_thms if_True]
  then have q: "pp_inv q" "pp_list q = pp_list pp @ [slot_zero]" "seq = pout q + of_nat (pp_len pp)" "pout q = pout pp" "seq = pin pp"
    by blast+
  have n: "pp_len pp < pp_len q" using q(2) length_pp_list [of q] by simp
  let ?j = "slot_idx (pcap q) (pout q + of_nat (pp_len pp))"
  let ?q = "q\<lparr>slots := (slots q)(?j := conn_item self r)\<rparr>"
  have "\<exists>w'. conn_put self r (pp, w) = Some (?q, w') \<and> wbuf_data w' = wbuf_data w"
    using e m q(3,5) a by (auto simp: conn_put_def conn_exec_def conn_item_def conn_accepts_def Let_def)
  then show ?thesis using pp_list_update [OF q(1) n, of "conn_item self r"] q(2,4) list_update_length [of "pp_list pp" slot_zero "[]"]
    by auto
qed

interpretation pl: reply_queue "\<lambda>c. pp_inv (fst c)" "\<lambda>c. pp_list (fst c)" "\<lambda>c. pout (fst c)" "\<lambda>c. wbuf_data (snd c)"
  "conn_put self" "conn_item self" conn_accepts "conn_deliver self" r_pipeline_idx slot_take_reply
  "conn_flush self" "conn_render self" slot_ready
  for self
proof unfold_locales
  fix c :: conn_io and r
  assume "pp_inv (fst c)" "conn_accepts r" "length (pp_list (fst c)) < 2 ^ 30"
    "pout (fst c) + of_nat (length (pp_list (fst c))) \<noteq> 0xFFFFFFFF"
  then show "\<exists>c'. conn_put self r c = Some c' \<and> pp_inv (fst c') \<and> pp_list (fst c') = pp_list (fst c) @ [conn_item self r] \<and>
      pout (fst c') = pout (fst c) \<and> wbuf_data (snd c') = wbuf_data (snd c)"
    using conn_put_ok [of "fst c" r self "snd c"] by (simp add: pp_in [symmetric])
next
  fix c :: conn_io and m
  assume i: "pp_inv (fst c)"
  obtain pp' acts d where "net_reactor_proxy_reply_callback self m (fst c) = (pp', acts, d)"
    by (cases "net_reactor_proxy_reply_callback self m (fst c)") auto
  from callback_ok [OF i this]
  show "pp_inv (fst (conn_deliver self m c)) \<and> pout (fst (conn_deliver self m c)) = pout (fst c) \<and>
      wbuf_data (snd (conn_deliver self m c)) = wbuf_data (snd c) \<and> pp_list (fst (conn_deliver self m c)) =
      (let i = unat (r_pipeline_idx m - pout (fst c)) in
        if i < length (pp_list (fst c)) then (pp_list (fst c))[i := slot_take_reply m (pp_list (fst c) ! i)] else pp_list (fst c))"
    by (simp add: conn_deliver_def Let_def \<open>net_reactor_proxy_reply_callback self m (fst c) = _\<close> split: if_splits)
next
  fix c :: conn_io and e :: "objs \<times> u64"
  assume i: "pp_inv (fst c)"
  obtain pp' w' acts where f: "net_pipeline_try_flush (\<lambda>_. True) (fst e) self (snd e) (fst c) (snd c) = (pp', w', acts)"
    by (cases "net_pipeline_try_flush (\<lambda>_. True) (fst e) self (snd e) (fst c) (snd c)") auto
  from try_flush_ok [OF _ i f]
  show "pp_inv (fst (conn_flush self e c)) \<and> pp_list (fst (conn_flush self e c)) = dropWhile slot_ready (pp_list (fst c)) \<and>
      pout (fst (conn_flush self e c)) = pout (fst c) + of_nat (length (takeWhile slot_ready (pp_list (fst c)))) \<and>
      wbuf_data (snd (conn_flush self e c)) =
        wbuf_data (snd c) @ concat (map (conn_render self e) (takeWhile slot_ready (pp_list (fst c))))"
    by (simp add: conn_flush_def f conn_render_def)
next
  fix c :: conn_io
  assume "pp_inv (fst c)"
  then show "length (pp_list (fst c)) \<le> 2 ^ 30" using pp_len_max by simp
qed

text \<open>
  C24: Replies leave a connection in the order of its requests, whatever the order in which the shards answer.  For every
  sequence of requests, delivered replies and flushes, started in any well-formed state of the pipeline whose 32-bit
  output sequence number stands for the unbounded count \<open>n\<close>, the run succeeds and gives what the abstract queue gives:
  the bytes for the client are the renderings of the answered requests, oldest first, and the pending requests stay
  queued.  The requests must fit: fewer than \<open>2 ^ 30\<close> queued, and no sequence number \<open>UINT32_MAX\<close>.
\<close>

theorem pipeline_in_order:
  assumes "pp_inv pp" "pout pp = of_nat n"
    and "ops_fit conn_accepts (conn_spec self) xs \<lparr>answered = n, queued = pp_list pp, stream = wbuf_data w\<rparr>"
  defines "a \<equiv> fold (conn_spec self) xs \<lparr>answered = n, queued = pp_list pp, stream = wbuf_data w\<rparr>"
  shows "\<exists>pp' w'. run_ops (conn_run self) xs (pp, w) = Some (pp', w') \<and> pp_inv pp' \<and>
    wbuf_data w' = stream a \<and> pp_list pp' = queued a \<and> pout pp' = of_nat (answered a)"
  using pl.run_sim [of "(pp, w)" "\<lparr>answered = n, queued = pp_list pp, stream = wbuf_data w\<rparr>" self xs] assms
  by (auto simp: pl.sim_def)

definition sample_pending :: conn_request where
  "sample_pending = \<lparr>rq_ret = 1, rq_slot = slot_zero\<lparr>state := PSLOT_PENDING\<rparr>, rq_text = [], rq_buf = 0\<rparr>"

definition sample_echo :: conn_request where
  "sample_echo = \<lparr>rq_ret = 0, rq_slot = slot_zero, rq_text = [36, 49, 13, 10, 120, 13, 10], rq_buf = 4096\<rparr>"

definition sample_ok :: reply_msg where
  "sample_ok = \<lparr>r_pipeline_idx = 0, r_sub_idx = 0, r_reply_type = REPLY_TYPE_OK, r_reply_int = 0, r_reply_buf = None,
     r_kv_obj_ptr = 0, r_shard_owner = 3\<rparr>"

definition sample_ops :: "(conn_request, reply_msg, objs \<times> u64) queue_op list" where
  "sample_ops = [Request sample_pending, Request sample_echo, Flush (\<lambda>_. sample_obj, 0), Reply sample_ok, Flush (\<lambda>_. sample_obj, 0)]"

lemma pipeline_in_order_witness:
  "\<exists>pp' w'. run_ops (conn_run 0) sample_ops (net_pipeline_init True, \<lparr>wbuf_data = [], wbuf_cap = 0, wbuf_sent = 0\<rparr>) = Some (pp', w')
     \<and> pp_list pp' = [] \<and> wbuf_data w' = OK_REPLY @ [36, 49, 13, 10, 120, 13, 10]"
proof -
  let ?w = "\<lparr>wbuf_data = [], wbuf_cap = 0, wbuf_sent = 0\<rparr>"
  have i: "pp_inv (net_pipeline_init True)"
    by (auto simp: pp_inv_def net_pipeline_init_def PIPELINE_INIT_CAP_def intro!: exI [of _ 7])
  have l: "pp_list (net_pipeline_init True) = []" by (simp add: pp_list_def pp_len_def net_pipeline_init_def)
  have o: "pout (net_pipeline_init True) = of_nat 0" by (simp add: net_pipeline_init_def)
  have f: "ops_fit conn_accepts (conn_spec 0) sample_ops \<lparr>answered = 0, queued = pp_list (net_pipeline_init True), stream = wbuf_data ?w\<rparr>"
    by (simp add: l sample_ops_def conn_accepts_def sample_pending_def sample_echo_def conn_item_def slot_ready_def slot_zero_def)
  have "fold (conn_spec 0) sample_ops \<lparr>answered = 0, queued = [], stream = []\<rparr>
      = \<lparr>answered = 2, queued = [], stream = OK_REPLY @ [36, 49, 13, 10, 120, 13, 10]\<rparr>"
    by (simp add: sample_ops_def sample_pending_def sample_echo_def sample_ok_def conn_item_def slot_ready_def slot_zero_def
        slot_take_reply_def conn_render_def slot_reply_def buf_bytes_def)
  then show ?thesis using pipeline_in_order [OF i o f] l by auto
qed

section \<open>What a flush gives back\<close>

text \<open>The object references and the buffers that actions hand back, each with the shard that gets it.\<close>

primrec act_refs :: "nat \<Rightarrow> reactor_act \<Rightarrow> (nat \<times> addr) list" where
  "act_refs self (Obj_unref a) = [(self, a)]"
| "act_refs self (Slab_free a) = []"
| "act_refs self (Send_release owner kv rep) = (if kv \<noteq> 0 then [(owner, kv)] else [])"
| "act_refs self (Rbuf_try_free a) = []"

primrec act_bufs :: "nat \<Rightarrow> reactor_act \<Rightarrow> (nat \<times> addr) list" where
  "act_bufs self (Obj_unref a) = []"
| "act_bufs self (Slab_free a) = [(self, a)]"
| "act_bufs self (Send_release owner kv rep) = (if rep \<noteq> 0 then [(owner, rep)] else [])"
| "act_bufs self (Rbuf_try_free a) = []"

definition owned :: "nat \<Rightarrow> addr \<Rightarrow> (nat \<times> addr) list" where
  "owned owner a = (if a \<noteq> 0 then [(owner, a)] else [])"

definition slot_refs :: "net_pipeline_slot \<Rightarrow> (nat \<times> addr) list" where
  "slot_refs s = owned (shard_owner s) (kv_obj_ptr s) @
     (if is_multi s then concat (map (\<lambda>j. owned (slot_owner_at s j) (slot_kv_at s j)) [0..<multi_parts s]) else [])"

definition slot_bufs :: "nat \<Rightarrow> net_pipeline_slot \<Rightarrow> (nat \<times> addr) list" where
  "slot_bufs self s = (if reply_type s = REPLY_TYPE_BUF then owned (shard_owner s) (buf_ptr (reply_data s)) else []) @
     (if is_multi s then concat (map (\<lambda>j. owned (slot_owner_at s j) (buf_ptr (multi_replies s ! j))) [0..<multi_parts s]) else []) @
     owned self (cmd_argv s) @ owned self (cmd_arglen s)"

lemma concat_map_concat: "concat (map f (concat xss)) = concat (map (\<lambda>xs. concat (map f xs)) xss)"
  by (induction xss) simp_all

lemma release_refs: "concat (map (act_refs self) (net_remote_obj_release self owner kv rep)) = owned owner kv"
  by (simp add: net_remote_obj_release_def owned_def)

lemma release_bufs: "concat (map (act_bufs self) (net_remote_obj_release self owner kv rep)) = owned owner rep"
  by (simp add: net_remote_obj_release_def owned_def)

lemma reset_refs: "concat (map (act_refs self) (snd (net_slot_reset self s))) = slot_refs s"
  by (simp add: net_slot_reset_def slot_refs_def Let_def release_refs concat_map_concat comp_def)
    (simp add: owned_def)

lemma reset_bufs: "concat (map (act_bufs self) (snd (net_slot_reset self s))) = slot_bufs self s"
  by (simp add: net_slot_reset_def slot_bufs_def Let_def release_bufs concat_map_concat comp_def)
    (auto simp: owned_def)


definition sample_pipeline :: net_proxy_pipeline where
  "sample_pipeline = \<lparr>slots = (\<lambda>_. slot_zero)(0 := slot_zero\<lparr>state := PSLOT_DONE, reply_type := REPLY_TYPE_KV_OBJ, kv_obj_ptr := 512,
     shard_owner := 2\<rparr>), pcap = 128, pin = 1, pout = 0\<rparr>"


text \<open>
  C27: The sequence number \<open>UINT32_MAX\<close> doubles as the out-of-memory code of the queue.  A connection whose next request
  has that number is marked dead even when memory is available, although the queue has taken the request.
\<close>

theorem request_limit:
  assumes "pp_inv pp" "pp_len pp < 2 ^ 30" "pin pp = 0xFFFFFFFF"
  shows "conn_exec True ab nb self dispatch pp w = None \<and>
    pp_list (snd (net_pipeline_enqueue True pp)) = pp_list pp @ [slot_zero]"
proof -
  obtain seq q where e: "net_pipeline_enqueue True pp = (seq, q)" by (cases "net_pipeline_enqueue True pp")
  have "pin pp - pout pp = pcap pp \<longrightarrow> pcap pp < 2 ^ 30" using assms(2) by (auto simp: pp_len_def word_less_nat_alt)
  note enqueue_ok [OF assms(1) this e, unfolded simp_thms if_True]
  then have "pp_list q = pp_list pp @ [slot_zero]" "seq = pin pp" by blast+
  then show ?thesis using e assms(3) by (simp add: conn_exec_def)
qed

lemma request_limit_witness:
  "conn_exec True None 0 0 (\<lambda>_ s w. (1, s, w)) \<lparr>slots = (\<lambda>_. slot_zero), pcap = 128, pin = 0xFFFFFFFF, pout = 0xFFFFFFFF\<rparr>
     \<lparr>wbuf_data = [], wbuf_cap = 0, wbuf_sent = 0\<rparr> = None"
  by (rule request_limit [THEN conjunct1]) (auto simp: pp_inv_def pp_len_def intro!: exI [of _ 7])

section \<open>Integer replies\<close>

lemma itoa_u64dec: "itoa_fast v = resp_u64dec v"
  by (simp add: itoa_fast_def resp_u64dec_def)

lemma isdigit_itoa: "\<forall>d \<in> set (itoa_fast v). isdigit d"
  using u64dec_range [of _ v] by (auto simp: itoa_u64dec isdigit_def word_le_nat_alt)

lemma hd_itoa: "isdigit (hd (itoa_fast v))"
  using isdigit_itoa [of v] u64dec_nonempty [of v] by (simp add: itoa_u64dec)

lemma not_special_digit: "isdigit d \<Longrightarrow> \<not> isspace d \<and> d \<noteq> 45 \<and> d \<noteq> 43"
  by (auto simp: isdigit_def isspace_def word_le_nat_alt)

lemma strtoll_itoa:
  assumes r: "takeWhile isdigit r = []"
  shows "strtoll (itoa_fast v @ r) = min (2 ^ 63 - 1) (int (unat v))"
    and "strtoll (45 # itoa_fast v @ r) = max (- (2 ^ 63)) (- int (unat v))"
proof -
  have tw: "takeWhile isdigit (itoa_fast v @ r) = itoa_fast v"
    using isdigit_itoa [of v] r by (simp add: takeWhile_append2)
  have val: "foldl digit_val 0 (itoa_fast v) = unat v" by (simp add: itoa_u64dec u64dec_val)
  have ne: "itoa_fast v \<noteq> []" using u64dec_nonempty by (simp add: itoa_u64dec)
  have "dropWhile isspace (itoa_fast v @ r) = itoa_fast v @ r"
    using ne hd_itoa [of v] by (cases "itoa_fast v") (auto dest: not_special_digit)
  then show "strtoll (itoa_fast v @ r) = min (2 ^ 63 - 1) (int (unat v))"
    using ne not_special_digit [OF hd_itoa [of v]] tw val by (simp add: strtoll_def Let_def)
  show "strtoll (45 # itoa_fast v @ r) = max (- (2 ^ 63)) (- int (unat v))"
    using tw val by (simp add: strtoll_def Let_def isspace_def)
qed

lemma sint_u64_bounds: "- (2 ^ 63) \<le> sint (v :: u64)" "sint v < 2 ^ 63"
  using sint_ge [of v] sint_lt [of v] by simp_all

lemma unat_of_sint:
  "0 \<le> sint (v :: u64) \<Longrightarrow> int (unat v) = sint v"
  "sint (v :: u64) < 0 \<Longrightarrow> int (unat (- v)) = - sint v"
proof -
  have *: "int (unat (of_int k :: u64)) = k" if "0 \<le> k" "k \<le> 2 ^ 63" for k
    using that by (simp add: uint_word_of_int)
  show "int (unat v) = sint v" if "0 \<le> sint v" using * [of "sint v"] sint_u64_bounds [of v] that by simp
  show "int (unat (- v)) = - sint v" if "sint v < 0" using * [of "- sint v"] sint_u64_bounds [of v] that by simp
qed

definition int_reply_digits :: "u64 \<Rightarrow> bytes" where
  "int_reply_digits v = (if sint v < 0 then 45 # itoa_fast (- v) else itoa_fast v)"

lemma int_reply_text_eq: "int_reply_text v = 58 # int_reply_digits v @ CRLF"
  by (simp add: int_reply_text_def int_reply_digits_def Let_def)

lemma strtoll_digits:
  assumes "takeWhile isdigit r = []"
  shows "strtoll (int_reply_digits v @ r) = sint v"
proof (cases "sint v < 0")
  case True
  then show ?thesis using strtoll_itoa(2) [OF assms, of "- v"] unat_of_sint(2) [OF True] sint_u64_bounds(1) [of v]
    by (simp add: int_reply_digits_def)
next
  case False
  then show ?thesis using strtoll_itoa(1) [OF assms, of v] unat_of_sint(1) [of v] sint_u64_bounds(2) [of v]
    by (simp add: int_reply_digits_def)
qed

lemma int_reply_digits_length: "0 < length (int_reply_digits v)" "length (int_reply_digits v) \<le> 21"
  using u64dec_length [of v] u64dec_length [of "- v"] u64dec_nonempty by (auto simp: int_reply_digits_def itoa_u64dec)

lemma part_count_text: "part_count (int_reply_text v) = v"
proof -
  let ?n = "length (int_reply_digits v)"
  have "min 31 (length (int_reply_text v) - 3) = ?n"
    using int_reply_digits_length(2) [of v] by (simp add: int_reply_text_eq CRLF_def)
  then have "take (min 31 (length (int_reply_text v) - 3)) (drop 1 (int_reply_text v)) = int_reply_digits v"
    by (simp add: int_reply_text_eq)
  then show ?thesis using strtoll_digits [of "[]" v] by (simp add: part_count_def)
qed

lemma del_total_sum:
  "foldl (\<lambda>total r. case r of Some (_, b) \<Rightarrow> if 3 < length b then total + part_count b else total | None \<Rightarrow> total) t
     (map (\<lambda>(a, v). Some (a, int_reply_text v)) avs) = t + sum_list (map snd avs)"
proof (induction avs arbitrary: t)
  case (Cons av avs)
  have "3 < length (int_reply_text (snd av))"
    using int_reply_digits_length(1) [of "snd av"] by (simp add: int_reply_text_eq CRLF_def)
  then show ?case using Cons by (simp add: case_prod_beta part_count_text add.assoc)
qed simp

text \<open>
  C26: Integer replies survive their text form.  Reading back the digits the reactor prints for a 64-bit integer, negative
  ones and the least one included, gives the integer; the reader of a multi-key part recovers it, and the reply to a
  multi-key \<open>DEL\<close> carries the sum of its parts.
\<close>

theorem int_reply_roundtrip:
  "strtoll (drop 1 (int_reply_text v)) = sint v \<and> part_count (int_reply_text v) = v \<and>
   del_total (map (\<lambda>(a, v). Some (a, int_reply_text v)) avs) = sum_list (map snd avs)"
  using strtoll_digits [of CRLF v] part_count_text [of v] del_total_sum [of 0 avs]
  by (simp add: int_reply_text_eq del_total_def CRLF_def isdigit_def)

end
