(* ===== verification/Snap_File.thy ===== *)
theory Snap_File
  imports Prelude
begin

text \<open>
  Model of the snapshot files of \<open>core/snapshot.c\<close>: the packed records (little endian), the growing file writer, the
  bitmap and the hash set that recognise a slot already seen, the merge of a delta file into the base file, and the
  restore of base and deltas.  Files are byte lists; \<open>fread\<close> fails at the end of the list and \<open>fseek\<close> past the end
  leaves nothing to read.  The results of \<open>ftruncate\<close>/\<open>mremap\<close> and of \<open>malloc\<close> are arguments.
\<close>

section \<open>Little-endian fields\<close>

primrec le_enc :: "nat \<Rightarrow> nat \<Rightarrow> bytes" where
  "le_enc 0 v = []"
| "le_enc (Suc n) v = of_nat (v mod 256) # le_enc n (v div 256)"

primrec le_dec :: "bytes \<Rightarrow> nat" where
  "le_dec [] = 0"
| "le_dec (b # bs) = unat b + 256 * le_dec bs"

lemma length_le_enc [simp]: "length (le_enc n v) = n"
  by (induction n arbitrary: v) simp_all

lemma le_dec_enc: "le_dec (le_enc n v) = v mod 256 ^ n"
proof (induction n arbitrary: v)
  case (Suc n)
  have "unat (of_nat (v mod 256) :: u8) = v mod 256" by (simp add: unat_of_nat)
  then have "le_dec (le_enc (Suc n) v) = v mod 256 + 256 * (v div 256 mod 256 ^ n)" using Suc by simp
  then show ?case using mod_mult2_eq [of v 256 "256 ^ n"] by simp
qed simp

section \<open>Records\<close>

definition SNAP_MAGIC :: u32 where "SNAP_MAGIC = 0x56414C53"
definition SNAP_VERSION :: u32 where "SNAP_VERSION = 2"

record snap_file_header =
  magic :: u32
  version :: u32
  hdr_shard_id :: u32
  num_page_records :: u32
  session_id :: u64
  epoch :: u64
  timestamp_ms :: u64

record snap_page_record =
  lpage_idx :: u32
  obj_size :: u32
  offset_in_span :: u16
  num_objects :: u16

record snap_object_entry =
  slot_index :: u16
  ent_key_len :: u16
  ent_val_len :: u32
  ent_expire_ms :: u64
  deleted :: u8

definition enc_header :: "snap_file_header \<Rightarrow> bytes" where
  "enc_header h = le_enc 4 (unat (magic h)) @ le_enc 4 (unat (version h)) @ le_enc 4 (unat (hdr_shard_id h)) @
     le_enc 4 (unat (num_page_records h)) @ le_enc 8 (unat (session_id h)) @ le_enc 8 (unat (epoch h)) @
     le_enc 8 (unat (timestamp_ms h))"

definition enc_page_record :: "snap_page_record \<Rightarrow> bytes" where
  "enc_page_record p = le_enc 4 (unat (lpage_idx p)) @ le_enc 4 (unat (obj_size p)) @
     le_enc 2 (unat (offset_in_span p)) @ le_enc 2 (unat (num_objects p))"

definition enc_entry :: "snap_object_entry \<Rightarrow> bytes" where
  "enc_entry e = le_enc 2 (unat (slot_index e)) @ le_enc 2 (unat (ent_key_len e)) @ le_enc 4 (unat (ent_val_len e)) @
     le_enc 8 (unat (ent_expire_ms e)) @ [deleted e] @ replicate 7 0"

definition enc_footer :: bytes where "enc_footer = le_enc 4 0"

text \<open>\<open>fread\<close> of one object of \<open>n\<close> bytes, and of the records; \<open>field i n\<close> reads \<open>n\<close> bytes at offset \<open>i\<close>.\<close>

definition fread :: "nat \<Rightarrow> bytes \<Rightarrow> (bytes \<times> bytes) option" where
  "fread n bs = (if n \<le> length bs then Some (take n bs, drop n bs) else None)"

definition field :: "bytes \<Rightarrow> nat \<Rightarrow> nat \<Rightarrow> nat" where
  "field bs i n = le_dec (take n (drop i bs))"

definition dec_header :: "bytes \<Rightarrow> snap_file_header" where
  "dec_header b = \<lparr>magic = of_nat (field b 0 4), version = of_nat (field b 4 4), hdr_shard_id = of_nat (field b 8 4),
     num_page_records = of_nat (field b 12 4), session_id = of_nat (field b 16 8), epoch = of_nat (field b 24 8),
     timestamp_ms = of_nat (field b 32 8)\<rparr>"

definition dec_page_record :: "bytes \<Rightarrow> snap_page_record" where
  "dec_page_record b = \<lparr>lpage_idx = of_nat (field b 0 4), obj_size = of_nat (field b 4 4),
     offset_in_span = of_nat (field b 8 2), num_objects = of_nat (field b 10 2)\<rparr>"

definition dec_entry :: "bytes \<Rightarrow> snap_object_entry" where
  "dec_entry b = \<lparr>slot_index = of_nat (field b 0 2), ent_key_len = of_nat (field b 2 2), ent_val_len = of_nat (field b 4 4),
     ent_expire_ms = of_nat (field b 8 8), deleted = of_nat (field b 16 1)\<rparr>"

definition read_header :: "bytes \<Rightarrow> (snap_file_header \<times> bytes) option" where
  "read_header bs = map_option (\<lambda>(b, r). (dec_header b, r)) (fread 40 bs)"

definition read_page_record :: "bytes \<Rightarrow> (snap_page_record \<times> bytes) option" where
  "read_page_record bs = map_option (\<lambda>(b, r). (dec_page_record b, r)) (fread 12 bs)"

definition read_entry :: "bytes \<Rightarrow> (snap_object_entry \<times> bytes) option" where
  "read_entry bs = map_option (\<lambda>(b, r). (dec_entry b, r)) (fread 24 bs)"

definition header_ok :: "u32 \<Rightarrow> snap_file_header \<Rightarrow> bool" where
  "header_ok shard h \<longleftrightarrow> magic h = SNAP_MAGIC \<and> version h = SNAP_VERSION \<and> hdr_shard_id h = shard"

definition payload_len :: "snap_object_entry \<Rightarrow> nat" where
  "payload_len e = unat (ent_key_len e) + unat (ent_val_len e)"

section \<open>The sequential writer\<close>

definition SNAP_CHUNK_SIZE :: nat where "SNAP_CHUNK_SIZE = 2 * 1024 * 1024"

record snap_writer =
  w_data :: bytes
  w_map_size :: nat

definition snap_writer_open :: snap_writer where
  "snap_writer_open = \<lparr>w_data = [], w_map_size = SNAP_CHUNK_SIZE\<rparr>"

definition snap_writer_grow :: "(nat \<Rightarrow> bool) \<Rightarrow> snap_writer \<Rightarrow> snap_writer option" where
  "snap_writer_grow gok w =
     (let new_size = w_map_size w + SNAP_CHUNK_SIZE
      in if gok new_size then Some (w\<lparr>w_map_size := new_size\<rparr>) else None)"

function reserve_loop :: "(nat \<Rightarrow> bool) \<Rightarrow> nat \<Rightarrow> snap_writer \<Rightarrow> snap_writer option" where
  "reserve_loop gok need w =
     (if w_map_size w < need then (case snap_writer_grow gok w of None \<Rightarrow> None | Some w \<Rightarrow> reserve_loop gok need w) else Some w)"
  by pat_completeness auto
termination
  by (relation "measure (\<lambda>(gok, need, w). need - w_map_size w)")
    (auto simp: snap_writer_grow_def Let_def SNAP_CHUNK_SIZE_def split: if_splits)

declare reserve_loop.simps [simp del]

definition snap_writer_put :: "(nat \<Rightarrow> bool) \<Rightarrow> bytes \<Rightarrow> snap_writer \<Rightarrow> snap_writer option" where
  "snap_writer_put gok d w =
     map_option (\<lambda>w. w\<lparr>w_data := w_data w @ d\<rparr>) (reserve_loop gok (length (w_data w) + length d) w)"

text \<open>Overwriting bytes already written, and giving up everything after an offset.\<close>

definition w_patch :: "nat \<Rightarrow> bytes \<Rightarrow> snap_writer \<Rightarrow> snap_writer" where
  "w_patch off d w = w\<lparr>w_data := take off (w_data w) @ d @ drop (off + length d) (w_data w)\<rparr>"

definition w_rewind :: "nat \<Rightarrow> snap_writer \<Rightarrow> snap_writer" where
  "w_rewind off w = w\<lparr>w_data := take off (w_data w)\<rparr>"

section \<open>Slots already merged: a bitmap\<close>


record compact_dedup =
  bits :: "u8 list"
  nr_bits :: nat

definition compact_dedup_init :: "nat \<Rightarrow> compact_dedup" where
  "compact_dedup_init nr_pages =
     (let nb = nr_pages * SNAP_MODIFIED_SIZE * 8 in \<lparr>bits = replicate ((nb + 7) div 8) 0, nr_bits = nb\<rparr>)"

definition slot_bit :: "u32 \<Rightarrow> u16 \<Rightarrow> nat" where
  "slot_bit lpage slot = unat lpage * SNAP_MODIFIED_SIZE * 8 + unat slot"

definition compact_dedup_mark :: "u32 \<Rightarrow> u16 \<Rightarrow> compact_dedup \<Rightarrow> bool \<times> compact_dedup" where
  "compact_dedup_mark lpage slot d =
     (let idx = slot_bit lpage slot
      in if nr_bits d \<le> idx then (True, d)
         else
           (let byte = idx div 8; b = push_bit (idx mod 8) 1
            in if bits d ! byte AND b \<noteq> 0 then (False, d)
               else (True, d\<lparr>bits := (bits d)[byte := bits d ! byte OR b]\<rparr>)))"

section \<open>Merging a delta into the base\<close>

text \<open>The outcome of copying the entries of a page: the input ran out, the output or an allocation failed, or all
  entries were read.\<close>

datatype 'a copy_result = Short_read "'a" | Write_failed | Copied "'a"

record copy_state =
  cs_in :: bytes
  cs_dedup :: compact_dedup
  cs_out :: snap_writer
  cs_written :: nat

definition copy_entry :: "(nat \<Rightarrow> bool) \<Rightarrow> (nat \<Rightarrow> bool) \<Rightarrow> u32 \<Rightarrow> copy_state \<Rightarrow> copy_state copy_result" where
  "copy_entry gok mok lpage c =
     (case read_entry (cs_in c) of
        None \<Rightarrow> Short_read c
      | Some (e, rest) \<Rightarrow>
          (let payload = payload_len e;
               (first_seen, dd) = compact_dedup_mark lpage (slot_index e) (cs_dedup c);
               c = c\<lparr>cs_in := rest, cs_dedup := dd\<rparr>
           in if \<not> first_seen \<or> deleted e \<noteq> 0 then Copied (c\<lparr>cs_in := drop payload rest\<rparr>)
              else
                (case snap_writer_put gok (enc_entry e) (cs_out c) of
                   None \<Rightarrow> Write_failed
                 | Some w \<Rightarrow>
                     if payload = 0 then Copied (c\<lparr>cs_out := w, cs_written := cs_written c + 1\<rparr>)
                     else if \<not> mok payload then Write_failed
                     else
                       (case fread payload rest of
                          None \<Rightarrow> Write_failed
                        | Some (d, rest) \<Rightarrow>
                            (case snap_writer_put gok d w of
                               None \<Rightarrow> Write_failed
                             | Some w \<Rightarrow> Copied (c\<lparr>cs_in := rest, cs_out := w, cs_written := cs_written c + 1\<rparr>))))))"

primrec copy_entries :: "nat \<Rightarrow> (nat \<Rightarrow> bool) \<Rightarrow> (nat \<Rightarrow> bool) \<Rightarrow> u32 \<Rightarrow> copy_state \<Rightarrow> copy_state copy_result" where
  "copy_entries 0 gok mok lpage c = Copied c"
| "copy_entries (Suc n) gok mok lpage c =
     (case copy_entry gok mok lpage c of
        Copied c \<Rightarrow> copy_entries n gok mok lpage c
      | r \<Rightarrow> r)"

text \<open>One page: its record is written with a count of 0, patched when entries were kept and withdrawn when none was.
  The third component counts the pages kept.\<close>

definition copy_page :: "(nat \<Rightarrow> bool) \<Rightarrow> (nat \<Rightarrow> bool) \<Rightarrow> snap_page_record \<Rightarrow> copy_state \<Rightarrow> (copy_state \<times> nat) copy_result" where
  "copy_page gok mok pr c =
     (let pr_off = length (w_data (cs_out c))
      in case snap_writer_put gok (enc_page_record (pr\<lparr>num_objects := 0\<rparr>)) (cs_out c) of
           None \<Rightarrow> Write_failed
         | Some w \<Rightarrow>
             (case copy_entries (unat (num_objects pr)) gok mok (lpage_idx pr) (c\<lparr>cs_out := w, cs_written := 0\<rparr>) of
                Short_read c \<Rightarrow> Short_read (c, 0)
              | Write_failed \<Rightarrow> Write_failed
              | Copied c \<Rightarrow>
                  if 0 < cs_written c
                  then Copied (c\<lparr>cs_out := w_patch (pr_off + 10) (le_enc 2 (cs_written c)) (cs_out c)\<rparr>, 1)
                  else Copied (c\<lparr>cs_out := w_rewind pr_off (cs_out c)\<rparr>, 0)))"

primrec copy_pages :: "nat \<Rightarrow> (nat \<Rightarrow> bool) \<Rightarrow> (nat \<Rightarrow> bool) \<Rightarrow> copy_state \<Rightarrow> nat \<Rightarrow> (copy_state \<times> nat) copy_result" where
  "copy_pages 0 gok mok c out_pages = Copied (c, out_pages)"
| "copy_pages (Suc n) gok mok c out_pages =
     (case read_page_record (cs_in c) of
        None \<Rightarrow> Short_read (c, out_pages)
      | Some (pr, rest) \<Rightarrow>
          (case copy_page gok mok pr (c\<lparr>cs_in := rest\<rparr>) of
             Copied (c, k) \<Rightarrow> copy_pages n gok mok c (out_pages + k)
           | Short_read (c, k) \<Rightarrow> Short_read (c, out_pages)
           | Write_failed \<Rightarrow> Write_failed))"

text \<open>Phase 2.  The result is the content of the new base file, \<open>None\<close> when the delta is kept instead.  A short read
  fails the merge in the delta and ends the copy in the base.\<close>

definition copy_base :: "(nat \<Rightarrow> bool) \<Rightarrow> (nat \<Rightarrow> bool) \<Rightarrow> u32 \<Rightarrow> bytes \<Rightarrow> copy_state \<Rightarrow> nat \<Rightarrow> (copy_state \<times> nat) option" where
  "copy_base gok mok shard base c out_pages =
     (case read_header base of
        None \<Rightarrow> Some (c, out_pages)
      | Some (hdr, rest) \<Rightarrow>
          if \<not> header_ok shard hdr then Some (c, out_pages)
          else (case copy_pages (unat (num_page_records hdr)) gok mok (c\<lparr>cs_in := rest\<rparr>) out_pages of
                  Copied r \<Rightarrow> Some r | Short_read r \<Rightarrow> Some r | Write_failed \<Rightarrow> None))"

definition snap_compact_delta_into_base ::
  "(nat \<Rightarrow> bool) \<Rightarrow> (nat \<Rightarrow> bool) \<Rightarrow> bool \<Rightarrow> nat \<Rightarrow> u32 \<Rightarrow> snap_file_header \<Rightarrow> bytes \<Rightarrow> bytes option \<Rightarrow> bytes option" where
  "snap_compact_delta_into_base gok mok close_ok nr_pages shard hdr_new delta base =
     (case read_header delta of
        None \<Rightarrow> None
      | Some (hdr, rest) \<Rightarrow>
          if \<not> header_ok shard hdr then None
          else
            (case snap_writer_put gok (enc_header hdr_new) snap_writer_open of
               None \<Rightarrow> None
             | Some w \<Rightarrow>
                 (case copy_pages (unat (num_page_records hdr)) gok mok
                    \<lparr>cs_in = rest, cs_dedup = compact_dedup_init (max 64 nr_pages * 2), cs_out = w, cs_written = 0\<rparr> 0 of
                    Short_read _ \<Rightarrow> None
                  | Write_failed \<Rightarrow> None
                  | Copied (c, k) \<Rightarrow>
                      (case (case base of None \<Rightarrow> Some (c, k) | Some b \<Rightarrow> copy_base gok mok shard b c k) of
                         None \<Rightarrow> None
                       | Some (c, k) \<Rightarrow>
                           (case snap_writer_put gok enc_footer (w_patch 12 (le_enc 4 k) (cs_out c)) of
                              None \<Rightarrow> None
                            | Some w \<Rightarrow> if close_ok then Some (w_data w) else None)))))"

section \<open>Slots already restored: a hash set\<close>

definition DEDUP_EMPTY :: u64 where "DEDUP_EMPTY = 0xFFFFFFFFFFFFFFFF"
definition DEDUP_INIT_CAP :: nat where "DEDUP_INIT_CAP = 65536"

record dedup_set =
  keys :: "u64 list"
  cap :: nat
  used :: nat

definition dedup_init :: dedup_set where
  "dedup_init = \<lparr>keys = replicate DEDUP_INIT_CAP DEDUP_EMPTY, cap = DEDUP_INIT_CAP, used = 0\<rparr>"

definition dedup_mask :: "u32 \<Rightarrow> nat \<Rightarrow> nat" where
  "dedup_mask h cp = unat (h AND (of_nat cp - 1))"

definition dedup_hash :: "u64 \<Rightarrow> nat \<Rightarrow> nat" where
  "dedup_hash key cp = dedup_mask (ucast (drop_bit 32 (key * 0x9e3779b97f4a7c15))) cp"

text \<open>Linear probing for \<open>key\<close> or an empty cell: at most one lap; \<open>None\<close> is a lap without either.\<close>

primrec dedup_probe :: "nat \<Rightarrow> u64 list \<Rightarrow> u64 \<Rightarrow> nat \<Rightarrow> nat option" where
  "dedup_probe 0 ks key h = None"
| "dedup_probe (Suc n) ks key h =
     (if ks ! h = DEDUP_EMPTY \<or> ks ! h = key then Some h else dedup_probe n ks key (dedup_mask (of_nat h + 1) (length ks)))"

definition dedup_rehash_one :: "u64 \<Rightarrow> u64 list option \<Rightarrow> u64 list option" where
  "dedup_rehash_one k nk =
     (case nk of None \<Rightarrow> None
      | Some nk \<Rightarrow> if k = DEDUP_EMPTY then Some nk
          else map_option (\<lambda>h. nk[h := k]) (dedup_probe (length nk) nk DEDUP_EMPTY (dedup_hash k (length nk))))"

definition dedup_grow :: "dedup_set \<Rightarrow> dedup_set option" where
  "dedup_grow d =
     map_option (\<lambda>nk. d\<lparr>keys := nk, cap := cap d * 2\<rparr>)
       (fold dedup_rehash_one (keys d) (Some (replicate (cap d * 2) DEDUP_EMPTY)))"

definition dedup_key :: "u32 \<Rightarrow> u16 \<Rightarrow> u64" where
  "dedup_key lpage slot = push_bit 16 (ucast lpage) OR ucast slot"

text \<open>The outer option is \<open>None\<close> when a probe never ends.\<close>

definition dedup_insert :: "bool \<Rightarrow> u32 \<Rightarrow> u16 \<Rightarrow> dedup_set \<Rightarrow> (bool \<times> dedup_set) option" where
  "dedup_insert mok lpage slot d =
     (if cap d * 3 \<le> used d * 4 \<and> \<not> mok then Some (False, d)
      else
        (case (if cap d * 3 \<le> used d * 4 then dedup_grow d else Some d) of
           None \<Rightarrow> None
         | Some d \<Rightarrow>
             (let key = dedup_key lpage slot
              in case dedup_probe (cap d) (keys d) key (dedup_hash key (cap d)) of
                   None \<Rightarrow> None
                 | Some h \<Rightarrow> if keys d ! h = key then Some (False, d)
                     else Some (True, d\<lparr>keys := (keys d)[h := key], used := used d + 1\<rparr>))))"

section \<open>Restore\<close>

text \<open>A restored key is a call of \<open>shard_key_set\<close>: key, value, expiry.\<close>

type_synonym set_call = "bytes \<times> bytes \<times> u64"

record restore_state =
  rs_seen :: dedup_set
  rs_calls :: "set_call list"

text \<open>\<open>None\<close> when a probe of the hash set does not end; otherwise the rest of the file, \<open>None\<close> again when reading
  stops there.\<close>

definition restore_entry :: "u64 \<Rightarrow> (nat \<Rightarrow> bool) \<Rightarrow> bool \<Rightarrow> u32 \<Rightarrow> bytes \<Rightarrow> restore_state \<Rightarrow> (bytes option \<times> restore_state) option" where
  "restore_entry now mok dok lpage inp st =
     (case read_entry inp of
        None \<Rightarrow> Some (None, st)
      | Some (e, rest) \<Rightarrow>
          (let payload = payload_len e
           in case dedup_insert dok lpage (slot_index e) (rs_seen st) of
                None \<Rightarrow> None
              | Some (is_new, dd) \<Rightarrow>
                  (let st = st\<lparr>rs_seen := dd\<rparr>
                   in if \<not> is_new \<or> deleted e \<noteq> 0 then Some (Some (if deleted e = 0 then drop payload rest else rest), st)
                      else if ent_expire_ms e \<noteq> 0 \<and> ent_expire_ms e < now then Some (Some (drop payload rest), st)
                      else if \<not> mok payload then Some (Some (drop payload rest), st)
                      else
                        (case fread payload rest of
                           None \<Rightarrow> Some (None, st)
                         | Some (d, rest) \<Rightarrow>
                             (let k = unat (ent_key_len e)
                              in Some (Some rest, st\<lparr>rs_calls := rs_calls st @ [(take k d, drop k d, ent_expire_ms e)]\<rparr>))))))"

primrec restore_entries :: "nat \<Rightarrow> u64 \<Rightarrow> (nat \<Rightarrow> bool) \<Rightarrow> bool \<Rightarrow> u32 \<Rightarrow> bytes \<Rightarrow> restore_state \<Rightarrow> (bytes option \<times> restore_state) option" where
  "restore_entries 0 now mok dok lpage inp st = Some (Some inp, st)"
| "restore_entries (Suc n) now mok dok lpage inp st =
     (case restore_entry now mok dok lpage inp st of
        None \<Rightarrow> None
      | Some (None, st) \<Rightarrow> Some (None, st)
      | Some (Some inp, st) \<Rightarrow> restore_entries n now mok dok lpage inp st)"

primrec restore_pages :: "nat \<Rightarrow> u64 \<Rightarrow> (nat \<Rightarrow> bool) \<Rightarrow> bool \<Rightarrow> bytes \<Rightarrow> restore_state \<Rightarrow> restore_state option" where
  "restore_pages 0 now mok dok inp st = Some st"
| "restore_pages (Suc n) now mok dok inp st =
     (case read_page_record inp of
        None \<Rightarrow> Some st
      | Some (pr, rest) \<Rightarrow>
          (case restore_entries (unat (num_objects pr)) now mok dok (lpage_idx pr) rest st of
             None \<Rightarrow> None
           | Some (None, st) \<Rightarrow> Some st
           | Some (Some inp, st) \<Rightarrow> restore_pages n now mok dok inp st))"

definition restore_file :: "u64 \<Rightarrow> (nat \<Rightarrow> bool) \<Rightarrow> bool \<Rightarrow> u32 \<Rightarrow> bytes \<Rightarrow> restore_state \<Rightarrow> restore_state option" where
  "restore_file now mok dok shard file st =
     (case read_header file of
        None \<Rightarrow> Some st
      | Some (hdr, rest) \<Rightarrow>
          if header_ok shard hdr then restore_pages (unat (num_page_records hdr)) now mok dok rest st else Some st)"

text \<open>\<open>qsort\<close> with \<open>epoch_file_cmp_desc\<close>: the newest epoch first.  File names carry distinct epochs.\<close>

definition epoch_file_cmp_desc :: "u64 \<Rightarrow> u64 \<Rightarrow> int" where
  "epoch_file_cmp_desc ea eb = (if ea < eb then 1 else if eb < ea then - 1 else 0)"

primrec insert_epoch :: "u64 \<times> bytes \<Rightarrow> (u64 \<times> bytes) list \<Rightarrow> (u64 \<times> bytes) list" where
  "insert_epoch f [] = [f]"
| "insert_epoch f (g # gs) = (if epoch_file_cmp_desc (fst f) (fst g) \<le> 0 then f # g # gs else g # insert_epoch f gs)"

definition sort_epochs :: "(u64 \<times> bytes) list \<Rightarrow> (u64 \<times> bytes) list" where
  "sort_epochs fs = foldr insert_epoch fs []"

definition snap_engine_restore ::
  "u64 \<Rightarrow> (nat \<Rightarrow> bool) \<Rightarrow> bool \<Rightarrow> u32 \<Rightarrow> bytes option \<Rightarrow> (u64 \<times> bytes) list \<Rightarrow> set_call list option" where
  "snap_engine_restore now mok dok shard base deltas =
     (let st = \<lparr>rs_seen = dedup_init, rs_calls = []\<rparr>
      in map_option rs_calls
        (fold (\<lambda>f st. case st of None \<Rightarrow> None | Some st \<Rightarrow> restore_file now mok dok shard (snd f) st) (sort_epochs (take 4096 deltas))
           (case base of None \<Rightarrow> Some st | Some b \<Rightarrow> restore_file now mok dok shard b st)))"

section \<open>Reading what was written\<close>

lemma of_nat_field [simp]:
  "of_nat (le_dec (le_enc 4 (unat (x :: u32)))) = x"
  "of_nat (le_dec (le_enc 8 (unat (y :: u64)))) = y"
  "of_nat (le_dec (le_enc 2 (unat (z :: u16)))) = z"
  by (simp_all add: le_dec_enc unat_u32_less unat_u64_less unat_u16_less)

lemma dec_header_enc: "dec_header (enc_header h) = h"
  by (cases h) (simp add: dec_header_def enc_header_def field_def)

lemma dec_page_record_enc: "dec_page_record (enc_page_record p) = p"
  by (cases p) (simp add: dec_page_record_def enc_page_record_def field_def)

lemma dec_entry_enc: "dec_entry (enc_entry e) = e"
  by (cases e) (simp add: dec_entry_def enc_entry_def field_def)

lemma length_enc [simp]:
  "length (enc_header h) = 40" "length (enc_page_record p) = 12" "length (enc_entry e) = 24" "length enc_footer = 4"
  by (simp_all add: enc_header_def enc_page_record_def enc_entry_def enc_footer_def)

lemma fread_append: "length d = n \<Longrightarrow> fread n (d @ r) = Some (d, r)"
  by (simp add: fread_def)

lemma read_enc [simp]:
  "read_header (enc_header h @ r) = Some (h, r)"
  "read_page_record (enc_page_record p @ r) = Some (p, r)"
  "read_entry (enc_entry e @ r) = Some (e, r)"
  by (simp_all add: read_header_def read_page_record_def read_entry_def fread_append dec_header_enc dec_page_record_enc dec_entry_enc)

section \<open>Files as lists of pages\<close>

type_synonym snap_page = "snap_page_record \<times> (snap_object_entry \<times> bytes) list"

definition enc_object :: "snap_object_entry \<times> bytes \<Rightarrow> bytes" where
  "enc_object x = enc_entry (fst x) @ snd x"

definition enc_page :: "snap_page \<Rightarrow> bytes" where
  "enc_page p = enc_page_record (fst p) @ concat (map enc_object (snd p))"

definition enc_file :: "snap_file_header \<Rightarrow> snap_page list \<Rightarrow> bytes" where
  "enc_file h ps = enc_header h @ concat (map enc_page ps) @ enc_footer"

text \<open>Entries as the serializer writes them: a tombstone has no payload, slot indices are below 128.\<close>

definition object_wf :: "snap_object_entry \<times> bytes \<Rightarrow> bool" where
  "object_wf x \<longleftrightarrow> length (snd x) = payload_len (fst x) \<and> (deleted (fst x) \<noteq> 0 \<longrightarrow> payload_len (fst x) = 0) \<and>
     unat (slot_index (fst x)) < 128"

definition page_wf :: "snap_page \<Rightarrow> bool" where
  "page_wf p \<longleftrightarrow> unat (num_objects (fst p)) = length (snd p) \<and> list_all object_wf (snd p)"

definition file_wf :: "u32 \<Rightarrow> snap_file_header \<Rightarrow> snap_page list \<Rightarrow> bool" where
  "file_wf shard h ps \<longleftrightarrow> header_ok shard h \<and> unat (num_page_records h) = length ps \<and> list_all page_wf ps"

definition object_id :: "snap_page_record \<Rightarrow> snap_object_entry \<times> bytes \<Rightarrow> nat" where
  "object_id pr x = slot_bit (lpage_idx pr) (slot_index (fst x))"

definition page_ids :: "snap_page \<Rightarrow> nat list" where
  "page_ids p = map (object_id (fst p)) (snd p)"

definition file_ids :: "snap_page list \<Rightarrow> nat list" where
  "file_ids ps = concat (map page_ids ps)"

section \<open>The writer\<close>

abbreviation always :: "nat \<Rightarrow> bool" where
  "always \<equiv> \<lambda>_. True"

lemma reserve_loop_ok: "\<exists>m. reserve_loop always need w = Some (w\<lparr>w_map_size := m\<rparr>)"
proof (induction always need w rule: reserve_loop.induct)
  case (1 need w)
  show ?case
  proof (cases "w_map_size w < need")
    case False
    then have "reserve_loop always need w = Some (w\<lparr>w_map_size := w_map_size w\<rparr>)" by (simp add: reserve_loop.simps [of _ need w])
    then show ?thesis by blast
  next
    case True
    then show ?thesis using 1 by (auto simp: reserve_loop.simps [of _ need w] snap_writer_grow_def Let_def)
  qed
qed

lemma put_ok: "\<exists>w'. snap_writer_put always d w = Some w' \<and> w_data w' = w_data w @ d"
  using reserve_loop_ok [of "length (w_data w) + length d" w] by (auto simp: snap_writer_put_def)

section \<open>The bitmap\<close>

definition bm_ok :: "compact_dedup \<Rightarrow> bool" where
  "bm_ok d \<longleftrightarrow> length (bits d) = (nr_bits d + 7) div 8"

definition bm_has :: "compact_dedup \<Rightarrow> nat \<Rightarrow> bool" where
  "bm_has d i \<longleftrightarrow> i < nr_bits d \<and> bit (bits d ! (i div 8)) (i mod 8)"

lemma and_one_bit:
  assumes "k < 8"
  shows "(b :: u8) AND push_bit k 1 \<noteq> 0 \<longleftrightarrow> bit b k"
proof
  assume "b AND push_bit k 1 \<noteq> 0"
  then obtain n where "bit (b AND push_bit k 1) n" using bit_word_eqI [of "b AND push_bit k 1" 0] by auto
  then show "bit b k" by (auto simp: bit_simps)
next
  assume "bit b k"
  then have "bit (b AND push_bit k 1) k" using assms by (simp add: bit_simps)
  then show "b AND push_bit k 1 \<noteq> 0" by (metis bit_0_eq bot_apply bot_bool_def)
qed

lemma or_one_bit: "k < 8 \<Longrightarrow> bit ((b :: u8) OR push_bit k 1) j \<longleftrightarrow> bit b j \<or> j = k"
  by (auto simp: bit_simps)

lemma mark_ok:
  assumes ok: "bm_ok d" and m: "compact_dedup_mark lp sl d = (first, d')"
  shows "bm_ok d' \<and> nr_bits d' = nr_bits d \<and> (first \<longleftrightarrow> \<not> bm_has d (slot_bit lp sl)) \<and>
    (\<forall>i. bm_has d' i \<longleftrightarrow> bm_has d i \<or> i = slot_bit lp sl \<and> i < nr_bits d)"
proof -
  define x where "x = slot_bit lp sl"
  consider (out) "nr_bits d \<le> x" | (seen) "x < nr_bits d" "bm_has d x" | (new) "x < nr_bits d" "\<not> bm_has d x"
    by linarith
  then show ?thesis
  proof cases
    case out
    then show ?thesis using ok m by (auto simp: compact_dedup_mark_def x_def [symmetric] Let_def bm_has_def)
  next
    case seen
    then show ?thesis using ok m and_one_bit [of "x mod 8" "bits d ! (x div 8)"]
      by (auto simp: compact_dedup_mark_def x_def [symmetric] Let_def bm_has_def)
  next
    case new
    have len: "x div 8 < length (bits d)" using new(1) ok by (simp add: bm_ok_def)
    have d': "first" "d' = d\<lparr>bits := (bits d)[x div 8 := bits d ! (x div 8) OR push_bit (x mod 8) 1]\<rparr>"
      using new m and_one_bit [of "x mod 8" "bits d ! (x div 8)"]
      by (auto simp: compact_dedup_mark_def x_def [symmetric] Let_def bm_has_def)
    have "bm_has d' i \<longleftrightarrow> bm_has d i \<or> i = x \<and> i < nr_bits d" for i
    proof (cases "i div 8 = x div 8")
      case True
      have "i = x \<longleftrightarrow> i mod 8 = x mod 8" using True by (metis div_mod_decomp)
      then show ?thesis using True len or_one_bit [of "x mod 8"] by (auto simp: bm_has_def d')
    next
      case False
      then show ?thesis by (auto simp: bm_has_def d')
    qed
    then show ?thesis using ok new d' by (auto simp: bm_ok_def x_def)
  qed
qed

lemma init_ok: "bm_ok (compact_dedup_init n)" "\<not> bm_has (compact_dedup_init n) i"
  by (auto simp: compact_dedup_init_def bm_ok_def bm_has_def Let_def)

section \<open>Copying pages\<close>

definition live :: "snap_object_entry \<times> bytes \<Rightarrow> bool" where
  "live x \<longleftrightarrow> deleted (fst x) = 0"

definition kept :: "(nat \<Rightarrow> bool) \<Rightarrow> snap_page_record \<Rightarrow> (snap_object_entry \<times> bytes) list \<Rightarrow> (snap_object_entry \<times> bytes) list" where
  "kept seen pr xs = filter (\<lambda>x. live x \<and> \<not> seen (object_id pr x)) xs"

definition prune :: "(nat \<Rightarrow> bool) \<Rightarrow> snap_page \<Rightarrow> snap_page" where
  "prune seen p = (let xs = kept seen (fst p) (snd p) in ((fst p)\<lparr>num_objects := of_nat (length xs)\<rparr>, xs))"

definition prune_all :: "(nat \<Rightarrow> bool) \<Rightarrow> snap_page list \<Rightarrow> snap_page list" where
  "prune_all seen ps = filter (\<lambda>p. snd p \<noteq> []) (map (prune seen) ps)"

text \<open>The bitmap of \<open>c'\<close> is that of \<open>c\<close> with the ids \<open>I\<close>.\<close>

definition marked :: "copy_state \<Rightarrow> nat set \<Rightarrow> copy_state \<Rightarrow> bool" where
  "marked c I c' \<longleftrightarrow> bm_ok (cs_dedup c') \<and> nr_bits (cs_dedup c') = nr_bits (cs_dedup c) \<and>
     (\<forall>i. bm_has (cs_dedup c') i \<longleftrightarrow> bm_has (cs_dedup c) i \<or> i \<in> I \<and> i < nr_bits (cs_dedup c))"

lemma copy_entry_ok:
  assumes ok: "bm_ok (cs_dedup c)" and wf: "object_wf x" and i: "cs_in c = enc_object x @ rest"
  shows "\<exists>c'. copy_entry always always (lpage_idx pr) c = Copied c' \<and> cs_in c' = rest \<and> marked c {object_id pr x} c' \<and>
    w_data (cs_out c') = w_data (cs_out c) @ concat (map enc_object (kept (bm_has (cs_dedup c)) pr [x])) \<and>
    cs_written c' = cs_written c + length (kept (bm_has (cs_dedup c)) pr [x])"
proof -
  obtain e d where x: "x = (e, d)" by (cases x)
  have len: "length d = payload_len e" and tomb: "deleted e \<noteq> 0 \<Longrightarrow> payload_len e = 0" using wf by (auto simp: object_wf_def x)
  obtain first dd where m: "compact_dedup_mark (lpage_idx pr) (slot_index e) (cs_dedup c) = (first, dd)"
    by (cases "compact_dedup_mark (lpage_idx pr) (slot_index e) (cs_dedup c)")
  note mk = mark_ok [OF ok m]
  have id: "object_id pr x = slot_bit (lpage_idx pr) (slot_index e)" by (simp add: object_id_def x)
  have rd: "read_entry (cs_in c) = Some (e, d @ rest)" using i by (simp add: enc_object_def x)
  have mkd: "marked c {object_id pr x} c'" if "cs_dedup c' = dd" for c' using mk that by (auto simp: marked_def id)
  show ?thesis
  proof (cases "\<not> first \<or> deleted e \<noteq> 0")
    case True
    then have k: "kept (bm_has (cs_dedup c)) pr [x] = []" using mk by (auto simp: kept_def live_def object_id_def x)
    show ?thesis using True k m rd len mkd by (auto simp: copy_entry_def Let_def)
  next
    case False
    then have k: "kept (bm_has (cs_dedup c)) pr [x] = [x]" using mk by (auto simp: kept_def live_def object_id_def x)
    obtain w1 where w1: "snap_writer_put always (enc_entry e) (cs_out c) = Some w1" "w_data w1 = w_data (cs_out c) @ enc_entry e"
      using put_ok by blast
    obtain w2 where w2: "snap_writer_put always d w1 = Some w2" "w_data w2 = w_data w1 @ d" using put_ok by blast
    show ?thesis
    proof (cases "payload_len e = 0")
      case True
      then have "d = []" using len by simp
      then show ?thesis using False True k m rd w1 mkd by (auto simp: copy_entry_def Let_def enc_object_def x)
    next
      case nz: False
      then show ?thesis using False k m rd w1 w2 mkd by (auto simp: copy_entry_def Let_def enc_object_def x fread_append len)
    qed
  qed
qed

lemma kept_cong: "(\<And>x. x \<in> set xs \<Longrightarrow> p (object_id pr x) \<longleftrightarrow> q (object_id pr x)) \<Longrightarrow> kept p pr xs = kept q pr xs"
  by (simp add: kept_def cong: filter_cong)

lemma copy_entries_ok:
  assumes "bm_ok (cs_dedup c)" "list_all object_wf xs" "cs_in c = concat (map enc_object xs) @ rest"
    and "distinct (map (object_id pr) xs)"
  shows "\<exists>c'. copy_entries (length xs) always always (lpage_idx pr) c = Copied c' \<and> cs_in c' = rest \<and>
    marked c (object_id pr ` set xs) c' \<and>
    w_data (cs_out c') = w_data (cs_out c) @ concat (map enc_object (kept (bm_has (cs_dedup c)) pr xs)) \<and>
    cs_written c' = cs_written c + length (kept (bm_has (cs_dedup c)) pr xs)"
  using assms
proof (induction xs arbitrary: c)
  case Nil
  then show ?case by (auto simp: kept_def marked_def)
next
  case (Cons x xs)
  obtain c1 where c1: "copy_entry always always (lpage_idx pr) c = Copied c1" "cs_in c1 = concat (map enc_object xs) @ rest"
    "marked c {object_id pr x} c1"
    "w_data (cs_out c1) = w_data (cs_out c) @ concat (map enc_object (kept (bm_has (cs_dedup c)) pr [x]))"
    "cs_written c1 = cs_written c + length (kept (bm_has (cs_dedup c)) pr [x])"
    using copy_entry_ok [OF Cons.prems(1), of x "concat (map enc_object xs) @ rest" pr] Cons.prems by auto
  have k: "kept (bm_has (cs_dedup c1)) pr xs = kept (bm_has (cs_dedup c)) pr xs"
  proof (rule kept_cong)
    fix y assume "y \<in> set xs"
    then have "object_id pr y \<noteq> object_id pr x" using Cons.prems(4) by (metis distinct.simps(2) image_eqI list.map(2) set_map)
    then show "bm_has (cs_dedup c1) (object_id pr y) \<longleftrightarrow> bm_has (cs_dedup c) (object_id pr y)"
      using c1(3) by (auto simp: marked_def)
  qed
  obtain c2 where c2: "copy_entries (length xs) always always (lpage_idx pr) c1 = Copied c2" "cs_in c2 = rest"
    "marked c1 (object_id pr ` set xs) c2"
    "w_data (cs_out c2) = w_data (cs_out c1) @ concat (map enc_object (kept (bm_has (cs_dedup c)) pr xs))"
    "cs_written c2 = cs_written c1 + length (kept (bm_has (cs_dedup c)) pr xs)"
    using Cons.IH [of c1] c1(2,3) Cons.prems k by (auto simp: marked_def)
  have "kept (bm_has (cs_dedup c)) pr (x # xs) = kept (bm_has (cs_dedup c)) pr [x] @ kept (bm_has (cs_dedup c)) pr xs"
    by (simp add: kept_def)
  moreover have "marked c (object_id pr ` set (x # xs)) c2" using c1(3) c2(3) by (auto simp: marked_def)
  ultimately show ?case using c1 c2 by simp
qed

lemma kept_length: "length (kept seen pr xs) \<le> length xs"
  by (simp add: kept_def)

lemma patch_count:
  assumes "n < 65536" "w_data w = a @ enc_page_record (pr\<lparr>num_objects := 0\<rparr>) @ b"
  shows "w_data (w_patch (length a + 10) (le_enc 2 n) w) = a @ enc_page_record (pr\<lparr>num_objects := of_nat n\<rparr>) @ b"
proof -
  have "unat (of_nat n :: u16) = n" using assms(1) by (simp add: unat_of_nat)
  then show ?thesis using assms(2) by (simp add: w_patch_def enc_page_record_def)
qed

lemma copy_page_ok:
  assumes ok: "bm_ok (cs_dedup c)" and wf: "page_wf p" and i: "cs_in c = concat (map enc_object (snd p)) @ rest"
    and dist: "distinct (page_ids p)"
  shows "\<exists>c'. copy_page always always (fst p) c =
      Copied (c', length (prune_all (bm_has (cs_dedup c)) [p])) \<and> cs_in c' = rest \<and> marked c (set (page_ids p)) c' \<and>
    w_data (cs_out c') = w_data (cs_out c) @ concat (map enc_page (prune_all (bm_has (cs_dedup c)) [p]))"
proof -
  obtain pr xs where p: "p = (pr, xs)" by (cases p)
  define K where "K = kept (bm_has (cs_dedup c)) pr xs"
  have n: "unat (num_objects pr) = length xs" using wf by (simp add: page_wf_def p)
  have small: "length K < 65536" using kept_length [of "bm_has (cs_dedup c)" pr xs] n unat_u16_less [of "num_objects pr"] by (simp add: K_def)
  obtain w where w: "snap_writer_put always (enc_page_record (pr\<lparr>num_objects := 0\<rparr>)) (cs_out c) = Some w"
    "w_data w = w_data (cs_out c) @ enc_page_record (pr\<lparr>num_objects := 0\<rparr>)" using put_ok by blast
  let ?c = "c\<lparr>cs_out := w, cs_written := 0\<rparr>"
  obtain c' where c': "copy_entries (length xs) always always (lpage_idx pr) ?c = Copied c'" "cs_in c' = rest"
    "marked ?c (object_id pr ` set xs) c'" "w_data (cs_out c') = w_data w @ concat (map enc_object K)" "cs_written c' = length K"
    using copy_entries_ok [of ?c xs rest pr] ok wf i dist by (auto simp: page_wf_def p page_ids_def K_def)
  have mk: "marked c (set (page_ids p)) (c'\<lparr>cs_out := w'\<rparr>)" for w'
    using c'(3) by (simp add: marked_def page_ids_def p)
  have pa: "prune_all (bm_has (cs_dedup c)) [p] = (if K = [] then [] else [(pr\<lparr>num_objects := of_nat (length K)\<rparr>, K)])"
    by (simp add: prune_all_def prune_def p K_def Let_def)
  show ?thesis
  proof (cases "K = []")
    case True
    have "w_data (w_rewind (length (w_data (cs_out c))) (cs_out c')) = w_data (cs_out c)" using c'(4) w(2) True by (simp add: w_rewind_def)
    then show ?thesis using True c' w n pa mk by (simp add: copy_page_def p Let_def)
  next
    case False
    have "w_data (w_patch (length (w_data (cs_out c)) + 10) (le_enc 2 (length K)) (cs_out c'))
        = w_data (cs_out c) @ enc_page_record (pr\<lparr>num_objects := of_nat (length K)\<rparr>) @ concat (map enc_object K)"
      by (rule patch_count [OF small]) (simp add: c'(4) w(2))
    then show ?thesis using False c' w n pa mk by (simp add: copy_page_def p Let_def enc_page_def)
  qed
qed

lemma prune_all_cong:
  assumes "\<And>i. i \<in> set (file_ids ps) \<Longrightarrow> f i \<longleftrightarrow> g i"
  shows "prune_all f ps = prune_all g ps"
proof -
  have "prune f p = prune g p" if "p \<in> set ps" for p
  proof -
    have "kept f (fst p) (snd p) = kept g (fst p) (snd p)"
      by (rule kept_cong, rule assms) (use that in \<open>auto simp: file_ids_def page_ids_def\<close>)
    then show ?thesis by (simp add: prune_def Let_def)
  qed
  then have "map (prune f) ps = map (prune g) ps" by simp
  then show ?thesis unfolding prune_all_def by (rule arg_cong)
qed

lemma prune_all_append: "prune_all f (ps @ qs) = prune_all f ps @ prune_all f qs"
  by (simp add: prune_all_def)

lemma copy_pages_ok:
  assumes "bm_ok (cs_dedup c)" "list_all page_wf ps" "cs_in c = concat (map enc_page ps) @ rest" "distinct (file_ids ps)"
  shows "\<exists>c'. copy_pages (length ps) always always c k = Copied (c', k + length (prune_all (bm_has (cs_dedup c)) ps)) \<and>
    cs_in c' = rest \<and> marked c (set (file_ids ps)) c' \<and>
    w_data (cs_out c') = w_data (cs_out c) @ concat (map enc_page (prune_all (bm_has (cs_dedup c)) ps))"
  using assms
proof (induction ps arbitrary: c k)
  case Nil
  then show ?case by (auto simp: prune_all_def file_ids_def marked_def)
next
  case (Cons p ps)
  let ?c = "c\<lparr>cs_in := concat (map enc_object (snd p)) @ concat (map enc_page ps) @ rest\<rparr>"
  have rd: "read_page_record (cs_in c) = Some (fst p, concat (map enc_object (snd p)) @ concat (map enc_page ps) @ rest)"
    using Cons.prems(3) enc_page_def [of p] by simp
  have dist: "distinct (page_ids p)" "distinct (file_ids ps)" "set (page_ids p) \<inter> set (file_ids ps) = {}"
    using Cons.prems(4) by (auto simp: file_ids_def)
  obtain c1 where c1: "copy_page always always (fst p) ?c = Copied (c1, length (prune_all (bm_has (cs_dedup c)) [p]))"
    "cs_in c1 = concat (map enc_page ps) @ rest" "marked c (set (page_ids p)) c1"
    "w_data (cs_out c1) = w_data (cs_out c) @ concat (map enc_page (prune_all (bm_has (cs_dedup c)) [p]))"
    using copy_page_ok [of ?c p "concat (map enc_page ps) @ rest"] Cons.prems dist(1) by (auto simp: marked_def)
  have pc: "prune_all (bm_has (cs_dedup c1)) ps = prune_all (bm_has (cs_dedup c)) ps"
    by (rule prune_all_cong) (use c1(3) dist(3) in \<open>auto simp: marked_def\<close>)
  obtain c2 where c2: "copy_pages (length ps) always always c1 (k + length (prune_all (bm_has (cs_dedup c)) [p]))
      = Copied (c2, k + length (prune_all (bm_has (cs_dedup c)) [p]) + length (prune_all (bm_has (cs_dedup c)) ps))"
    "cs_in c2 = rest" "marked c1 (set (file_ids ps)) c2"
    "w_data (cs_out c2) = w_data (cs_out c1) @ concat (map enc_page (prune_all (bm_has (cs_dedup c)) ps))"
    using Cons.IH [of c1 "k + length (prune_all (bm_has (cs_dedup c)) [p])"] c1(2,3) Cons.prems(2) dist(2) pc by (auto simp: marked_def)
  have "prune_all (bm_has (cs_dedup c)) (p # ps) = prune_all (bm_has (cs_dedup c)) [p] @ prune_all (bm_has (cs_dedup c)) ps"
    using prune_all_append [of _ "[p]" ps] by simp
  moreover have "marked c (set (file_ids (p # ps))) c2" using c1(3) c2(3) by (auto simp: marked_def file_ids_def)
  ultimately show ?case using rd c1 c2 by (simp add: add.assoc)
qed

text \<open>
  C28: Merging a delta into the base keeps the newest state of every slot.  For well-formed files whose slots are distinct
  per file and a delta within the heap's pages, with memory and disk available, the new base file is the live entries of
  the delta followed by the live entries of the base at slots the delta does not mention; tombstones are dropped together
  with the base entries they delete, empty pages vanish and every count is right.
\<close>

theorem compact_newest_wins:
  assumes delta: "file_wf shard hdl ds" "distinct (file_ids ds)" "\<forall>i \<in> set (file_ids ds). i < max 64 nr_pages * 2 * 128"
    and base: "file_wf shard hb bs" "distinct (file_ids bs)"
    and size: "length ds + length bs < 2 ^ 32"
  defines "out \<equiv> prune_all (\<lambda>_. False) ds @ prune_all (\<lambda>i. i \<in> set (file_ids ds)) bs"
  shows "snap_compact_delta_into_base always always True nr_pages shard hn (enc_file hdl ds) (Some (enc_file hb bs))
    = Some (enc_file (hn\<lparr>num_page_records := of_nat (length out)\<rparr>) out)"
proof -
  obtain w where w: "snap_writer_put always (enc_header hn) snap_writer_open = Some w" "w_data w = enc_header hn"
    using put_ok [of "enc_header hn" snap_writer_open] by (auto simp: snap_writer_open_def)
  define c0 where "c0 = \<lparr>cs_in = concat (map enc_page ds) @ enc_footer, cs_dedup = compact_dedup_init (max 64 nr_pages * 2),
    cs_out = w, cs_written = 0\<rparr>"
  have h0: "bm_has (cs_dedup c0) = (\<lambda>_. False)" using init_ok(2) by (auto simp: c0_def)
  obtain c1 where c1: "copy_pages (length ds) always always c0 0 = Copied (c1, length (prune_all (\<lambda>_. False) ds))"
    "marked c0 (set (file_ids ds)) c1" "w_data (cs_out c1) = enc_header hn @ concat (map enc_page (prune_all (\<lambda>_. False) ds))"
    using copy_pages_ok [of c0 ds enc_footer 0] delta init_ok(1) w(2) unfolding h0 by (auto simp: c0_def file_wf_def)
  have h1: "bm_has (cs_dedup c1) = (\<lambda>i. i \<in> set (file_ids ds))"
    using c1(2) delta(3) h0 by (auto simp: marked_def fun_eq_iff c0_def compact_dedup_init_def SNAP_MODIFIED_SIZE_def Let_def)
  let ?c = "c1\<lparr>cs_in := concat (map enc_page bs) @ enc_footer\<rparr>"
  obtain c2 where c2: "copy_pages (length bs) always always ?c (length (prune_all (\<lambda>_. False) ds)) = Copied (c2, length out)"
    "w_data (cs_out c2) = enc_header hn @ concat (map enc_page out)"
    using copy_pages_ok [of ?c bs enc_footer "length (prune_all (\<lambda>_. False) ds)"] base c1 h1
    by (auto simp: file_wf_def out_def marked_def)
  have lo: "length out < 2 ^ 32" using size by (simp add: out_def prune_all_def) (meson add_mono le_less_trans length_filter_le length_map)
  have "w_data (w_patch 12 (le_enc 4 (length out)) (cs_out c2))
      = enc_header (hn\<lparr>num_page_records := of_nat (length out)\<rparr>) @ concat (map enc_page out)"
    using lo by (simp add: w_patch_def c2(2) enc_header_def unat_of_nat)
  moreover obtain w' where "snap_writer_put always enc_footer (w_patch 12 (le_enc 4 (length out)) (cs_out c2)) = Some w'"
    "w_data w' = w_data (w_patch 12 (le_enc 4 (length out)) (cs_out c2)) @ enc_footer" using put_ok by blast
  ultimately show ?thesis using delta(1) base(1) w(1) c1(1) c2(1)
    by (simp add: snap_compact_delta_into_base_def enc_file_def file_wf_def copy_base_def c0_def)
qed

definition sample_page :: "u16 \<Rightarrow> snap_page_record" where
  "sample_page n = \<lparr>lpage_idx = 3, obj_size = 64, offset_in_span = 0, num_objects = n\<rparr>"

definition sample_entry :: "u16 \<Rightarrow> u8 \<Rightarrow> snap_object_entry \<times> bytes" where
  "sample_entry slot v = (\<lparr>slot_index = slot, ent_key_len = 1, ent_val_len = 1, ent_expire_ms = 0, deleted = 0\<rparr>, [107 + ucast slot, v])"

definition sample_tomb :: "u16 \<Rightarrow> snap_object_entry \<times> bytes" where
  "sample_tomb slot = (\<lparr>slot_index = slot, ent_key_len = 0, ent_val_len = 0, ent_expire_ms = 0, deleted = 1\<rparr>, [])"

definition sample_header :: "u64 \<Rightarrow> snap_file_header" where
  "sample_header ep = \<lparr>magic = SNAP_MAGIC, version = SNAP_VERSION, hdr_shard_id = 0, num_page_records = 1, session_id = 1,
     epoch = ep, timestamp_ms = 0\<rparr>"

definition sample_base :: "snap_page list" where
  "sample_base = [(sample_page 2, [sample_entry 0 97, sample_entry 1 98])]"

definition sample_delta :: "snap_page list" where
  "sample_delta = [(sample_page 2, [sample_tomb 0, sample_entry 2 99])]"

lemmas sample_file_defs = sample_page_def sample_entry_def sample_tomb_def sample_header_def sample_base_def sample_delta_def

lemma sample_files_wf:
  "file_wf 0 (sample_header ep) sample_base" "file_wf 0 (sample_header ep) sample_delta"
  "file_ids sample_base = [384, 385]" "file_ids sample_delta = [384, 386]"
  by (simp_all add: sample_file_defs file_wf_def page_wf_def object_wf_def payload_len_def header_ok_def file_ids_def page_ids_def
      object_id_def slot_bit_def SNAP_MODIFIED_SIZE_def)

lemma compact_newest_wins_witness:
  "snap_compact_delta_into_base always always True 64 0 (sample_header 2) (enc_file (sample_header 2) sample_delta)
     (Some (enc_file (sample_header 1) sample_base))
   = Some (enc_file ((sample_header 2)\<lparr>num_page_records := 2\<rparr>)
       [(sample_page 1, [sample_entry 2 99]), (sample_page 1, [sample_entry 1 98])])"
proof -
  have "prune_all (\<lambda>_. False) sample_delta @ prune_all (\<lambda>i. i \<in> set (file_ids sample_delta)) sample_base
      = [(sample_page 1, [sample_entry 2 99]), (sample_page 1, [sample_entry 1 98])]"
    by (simp add: sample_files_wf(4)) (simp add: prune_all_def prune_def kept_def live_def object_id_def slot_bit_def SNAP_MODIFIED_SIZE_def
        sample_file_defs)
  then show ?thesis
    using compact_newest_wins [of 0 "sample_header 2" sample_delta 64 "sample_header 1" sample_base "sample_header 2"]
    by (simp add: sample_files_wf) (simp add: sample_base_def sample_delta_def)
qed

section \<open>The hash set\<close>

definition filled :: "u64 list \<Rightarrow> nat set" where
  "filled ks = {p. p < length ks \<and> ks ! p \<noteq> DEDUP_EMPTY}"

definition content :: "u64 list \<Rightarrow> u64 set" where
  "content ks = set ks - {DEDUP_EMPTY}"

text \<open>Every key is reached from its home by a walk over filled cells, and no key is stored twice.\<close>

definition tab_ok :: "u64 list \<Rightarrow> bool" where
  "tab_ok ks \<longleftrightarrow> (\<exists>k. 2 \<le> k \<and> k \<le> 30 \<and> length ks = 2 ^ k) \<and>
     (\<forall>p \<in> filled ks. \<exists>j < length ks. p = (dedup_hash (ks ! p) (length ks) + j) mod length ks \<and>
        (\<forall>i < j. ks ! ((dedup_hash (ks ! p) (length ks) + i) mod length ks) \<noteq> DEDUP_EMPTY)) \<and>
     inj_on ((!) ks) (filled ks)"

lemma dedup_mask_mod:
  assumes "k \<le> 30"
  shows "dedup_mask h (2 ^ k) = unat h mod 2 ^ k"
proof -
  have "(of_nat (2 ^ k) :: u32) - 1 = mask k" by (simp add: mask_eq_exp_minus_1)
  then have "dedup_mask h (2 ^ k) = unat (take_bit k h)" by (simp add: dedup_mask_def take_bit_eq_mask)
  also have "\<dots> = take_bit k (unat h)" by (simp add: unsigned_take_bit_eq)
  finally show ?thesis by (simp add: take_bit_eq_mod)
qed

lemma tab_len:
  assumes "tab_ok ks"
  shows "0 < length ks" "dedup_hash key (length ks) < length ks"
    "h < length ks \<Longrightarrow> dedup_mask (of_nat h + 1) (length ks) = (h + 1) mod length ks"
proof -
  obtain k where k: "2 \<le> k" "k \<le> 30" "length ks = 2 ^ k" using assms by (auto simp: tab_ok_def)
  show "0 < length ks" "dedup_hash key (length ks) < length ks" using k by (simp_all add: dedup_hash_def dedup_mask_mod)
  assume h: "h < length ks"
  have "(2 :: nat) ^ k \<le> 2 ^ 30" using k(2) by (intro power_increasing) simp_all
  then have "unat (of_nat (h + 1) :: u32) = h + 1" using h k(3) by (simp only: unat_of_nat) simp
  then show "dedup_mask (of_nat h + 1) (length ks) = (h + 1) mod length ks"
    using k dedup_mask_mod [OF k(2), of "of_nat (h + 1)"] by (simp add: add.commute)
qed

lemma probe_spec:
  assumes t: "tab_ok ks" and h: "h < length ks"
  shows "case dedup_probe n ks key h of
      Some r \<Rightarrow> \<exists>j < n. r = (h + j) mod length ks \<and> (ks ! r = DEDUP_EMPTY \<or> ks ! r = key) \<and>
        (\<forall>i < j. ks ! ((h + i) mod length ks) \<noteq> DEDUP_EMPTY \<and> ks ! ((h + i) mod length ks) \<noteq> key)
    | None \<Rightarrow> \<forall>i < n. ks ! ((h + i) mod length ks) \<noteq> DEDUP_EMPTY \<and> ks ! ((h + i) mod length ks) \<noteq> key"
  using h
proof (induction n arbitrary: h)
  case (Suc n)
  show ?case
  proof (cases "ks ! h = DEDUP_EMPTY \<or> ks ! h = key")
    case True
    then show ?thesis using Suc.prems by (auto intro!: exI [of _ 0])
  next
    case False
    let ?h = "(h + 1) mod length ks"
    have h1: "?h < length ks" using tab_len(1) [OF t] by simp
    have shift: "(?h + i) mod length ks = (h + Suc i) mod length ks" for i by (simp add: mod_simps)
    note IH = Suc.IH [OF h1, unfolded shift]
    have step: "dedup_probe (Suc n) ks key h = dedup_probe n ks key ?h" using False tab_len(3) [OF t Suc.prems] by simp
    have first: "ks ! ((h + 0) mod length ks) \<noteq> DEDUP_EMPTY \<and> ks ! ((h + 0) mod length ks) \<noteq> key" using False Suc.prems by simp
    show ?thesis
    proof (cases "dedup_probe n ks key ?h")
      case None
      then have "\<forall>i < n. ks ! ((h + Suc i) mod length ks) \<noteq> DEDUP_EMPTY \<and> ks ! ((h + Suc i) mod length ks) \<noteq> key" using IH by simp
      then have "\<forall>i < Suc n. ks ! ((h + i) mod length ks) \<noteq> DEDUP_EMPTY \<and> ks ! ((h + i) mod length ks) \<noteq> key"
        using first less_Suc_eq_0_disj by auto
      then show ?thesis using None step by simp
    next
      case (Some r)
      then obtain j where j: "j < n" "r = (h + Suc j) mod length ks" "ks ! r = DEDUP_EMPTY \<or> ks ! r = key"
        "\<forall>i < j. ks ! ((h + Suc i) mod length ks) \<noteq> DEDUP_EMPTY \<and> ks ! ((h + Suc i) mod length ks) \<noteq> key" using IH by auto
      then have "\<forall>i < Suc j. ks ! ((h + i) mod length ks) \<noteq> DEDUP_EMPTY \<and> ks ! ((h + i) mod length ks) \<noteq> key"
        using first less_Suc_eq_0_disj by auto
      then show ?thesis using Some step j by (auto intro!: exI [of _ "Suc j"])
    qed
  qed
qed simp

lemma lap_covers:
  assumes "p < (n :: nat)" "h < n"
  shows "\<exists>j < n. p = (h + j) mod n"
proof (cases "h \<le> p")
  case True
  then show ?thesis using assms by (intro exI [of _ "p - h"]) simp
next
  case False
  then show ?thesis using assms by (intro exI [of _ "p + n - h"]) (auto simp: mod_if)
qed

lemma filled_card_less:
  assumes "card (filled ks) < length ks"
  shows "\<exists>p < length ks. ks ! p = DEDUP_EMPTY"
proof (rule ccontr)
  assume "\<not> ?thesis"
  then have "filled ks = {..<length ks}" by (auto simp: filled_def)
  then show False using assms by simp
qed

lemma probe_ends:
  assumes t: "tab_ok ks" and c: "card (filled ks) < length ks"
  shows "\<exists>r j. dedup_probe (length ks) ks key (dedup_hash key' (length ks)) = Some r \<and> j < length ks \<and>
    r = (dedup_hash key' (length ks) + j) mod length ks \<and> (ks ! r = DEDUP_EMPTY \<or> ks ! r = key) \<and>
    (\<forall>i < j. ks ! ((dedup_hash key' (length ks) + i) mod length ks) \<noteq> DEDUP_EMPTY \<and>
      ks ! ((dedup_hash key' (length ks) + i) mod length ks) \<noteq> key)"
proof -
  let ?h = "dedup_hash key' (length ks)"
  have h: "?h < length ks" by (rule tab_len(2) [OF t])
  obtain p where p: "p < length ks" "ks ! p = DEDUP_EMPTY" using filled_card_less [OF c] by blast
  obtain j where "j < length ks" "p = (?h + j) mod length ks" using lap_covers [OF p(1) h] by blast
  then have "dedup_probe (length ks) ks key ?h \<noteq> None" using probe_spec [OF t h, of "length ks" key] p(2)
    by (cases "dedup_probe (length ks) ks key ?h") auto
  then show ?thesis using probe_spec [OF t h, of "length ks" key] by auto
qed

lemma place_ok:
  assumes t: "tab_ok ks" and key: "key \<noteq> DEDUP_EMPTY" "key \<notin> content ks"
    and r: "j < length ks" "r = (dedup_hash key (length ks) + j) mod length ks" "ks ! r = DEDUP_EMPTY"
      "\<forall>i < j. ks ! ((dedup_hash key (length ks) + i) mod length ks) \<noteq> DEDUP_EMPTY"
  shows "tab_ok (ks[r := key])" "content (ks[r := key]) = insert key (content ks)"
    "card (filled (ks[r := key])) = Suc (card (filled ks))"
proof -
  let ?ks = "ks[r := key]" and ?n = "length ks"
  have n: "0 < ?n" by (rule tab_len(1) [OF t])
  then have rn: "r < ?n" using r(2) by simp
  have nth: "?ks ! p = (if p = r then key else ks ! p)" if "p < ?n" for p using that rn by (simp add: nth_list_update)
  have more: "?ks ! (q mod ?n) \<noteq> DEDUP_EMPTY" if "ks ! (q mod ?n) \<noteq> DEDUP_EMPTY" for q
    using that key(1) n nth [of "q mod ?n"] by auto
  have f: "filled ?ks = insert r (filled ks)" using key(1) rn by (auto simp: filled_def nth_list_update)
  have notin: "r \<notin> filled ks" using r(3) by (simp add: filled_def)
  have inj: "inj_on ((!) ?ks) (filled ?ks)"
  proof -
    have "\<forall>p \<in> filled ks. ks ! p \<noteq> key" using key(2) by (auto simp: filled_def content_def)
    moreover have "\<forall>p \<in> filled ks. p \<noteq> r \<and> p < ?n" using notin by (auto simp: filled_def)
    ultimately show ?thesis using t unfolding f tab_ok_def by (auto simp: inj_on_def nth rn)
  qed
  have walk: "\<exists>j' < ?n. p = (dedup_hash (?ks ! p) ?n + j') mod ?n \<and>
      (\<forall>i < j'. ?ks ! ((dedup_hash (?ks ! p) ?n + i) mod ?n) \<noteq> DEDUP_EMPTY)" if "p \<in> filled ?ks" for p
  proof (cases "p = r")
    case True
    then show ?thesis using r more rn by (intro exI [of _ j]) auto
  next
    case False
    then have "p \<in> filled ks" "?ks ! p = ks ! p" using that f nth [of p] by (auto simp: filled_def)
    then show ?thesis using t more unfolding tab_ok_def by (metis (no_types, lifting))
  qed
  show "tab_ok ?ks" using t walk inj unfolding tab_ok_def by simp
  show "content ?ks = insert key (content ks)"
    using key rn r(3) by (auto simp: content_def set_update_memI in_set_conv_nth nth_list_update dest: set_update_subset_insert [THEN subsetD])
  have "finite (filled ks)" by (simp add: filled_def)
  then show "card (filled ?ks) = Suc (card (filled ks))" using f notin by simp
qed

definition dd_ok :: "dedup_set \<Rightarrow> bool" where
  "dd_ok d \<longleftrightarrow> tab_ok (keys d) \<and> cap d = length (keys d) \<and> used d = card (filled (keys d)) \<and> used d < cap d"

lemma content_filled: "content ks = (!) ks ` filled ks"
  by (auto simp: content_def filled_def in_set_conv_nth image_iff)

lemma place_absent:
  assumes t: "tab_ok ks" and c: "card (filled ks) < length ks" and key: "key \<noteq> DEDUP_EMPTY" "key \<notin> content ks"
  shows "\<exists>r. dedup_probe (length ks) ks DEDUP_EMPTY (dedup_hash key (length ks)) = Some r \<and> tab_ok (ks[r := key]) \<and>
    content (ks[r := key]) = insert key (content ks) \<and> card (filled (ks[r := key])) = Suc (card (filled ks))"
proof -
  obtain r j where "dedup_probe (length ks) ks DEDUP_EMPTY (dedup_hash key (length ks)) = Some r" "j < length ks"
    "r = (dedup_hash key (length ks) + j) mod length ks" "ks ! r = DEDUP_EMPTY"
    "\<forall>i < j. ks ! ((dedup_hash key (length ks) + i) mod length ks) \<noteq> DEDUP_EMPTY"
    using probe_ends [OF t c, of DEDUP_EMPTY key] by blast
  then show ?thesis using place_ok [OF t key] by blast
qed

text \<open>The rehash loop moves all keys into the larger table.\<close>

lemma rehash_ok:
  assumes "tab_ok nk" "distinct (filter (\<lambda>k. k \<noteq> DEDUP_EMPTY) ks)" "content nk \<inter> content ks = {}"
    and "card (filled nk) + length ks \<le> length nk"
  shows "\<exists>nk'. fold dedup_rehash_one ks (Some nk) = Some nk' \<and> tab_ok nk' \<and> content nk' = content nk \<union> content ks \<and>
    length nk' = length nk \<and> card (filled nk') = card (filled nk) + length (filter (\<lambda>k. k \<noteq> DEDUP_EMPTY) ks)"
  using assms
proof (induction ks arbitrary: nk)
  case Nil
  then show ?case by (simp add: content_def)
next
  case (Cons k ks)
  show ?case
  proof (cases "k = DEDUP_EMPTY")
    case True
    then have "content (k # ks) = content ks" by (auto simp: content_def)
    then show ?thesis using Cons.IH [of nk] Cons.prems True by (simp add: dedup_rehash_one_def)
  next
    case False
    have c: "card (filled nk) < length nk" using Cons.prems(4) by simp
    have ni: "k \<notin> content nk" using Cons.prems(3) False by (auto simp: content_def)
    obtain r where r: "dedup_probe (length nk) nk DEDUP_EMPTY (dedup_hash k (length nk)) = Some r" "tab_ok (nk[r := k])"
      "content (nk[r := k]) = insert k (content nk)" "card (filled (nk[r := k])) = Suc (card (filled nk))"
      using place_absent [OF Cons.prems(1) c False ni] by blast
    have kc: "content (k # ks) = insert k (content ks)" using False by (auto simp: content_def)
    have "k \<notin> content ks" using Cons.prems(2) False by (auto simp: content_def)
    then have "content (nk[r := k]) \<inter> content ks = {}" using Cons.prems(3) r(3) kc by auto
    then show ?thesis using Cons.IH [of "nk[r := k]"] Cons.prems(2,4) r False kc by (auto simp: dedup_rehash_one_def)
  qed
qed

lemma inj_distinct:
  assumes "inj_on ((!) ks) (filled ks)"
  shows "distinct (filter (\<lambda>k. k \<noteq> DEDUP_EMPTY) ks)" "length (filter (\<lambda>k. k \<noteq> DEDUP_EMPTY) ks) = card (filled ks)"
proof -
  show l: "length (filter (\<lambda>k. k \<noteq> DEDUP_EMPTY) ks) = card (filled ks)"
    by (simp add: length_filter_conv_card filled_def)
  have "set (filter (\<lambda>k. k \<noteq> DEDUP_EMPTY) ks) = (!) ks ` filled ks" using content_filled [of ks] by (auto simp: content_def)
  then have "card (set (filter (\<lambda>k. k \<noteq> DEDUP_EMPTY) ks)) = card (filled ks)" using card_image [OF assms] by simp
  then show "distinct (filter (\<lambda>k. k \<noteq> DEDUP_EMPTY) ks)" using l by (intro card_distinct) simp
qed

lemma empty_table:
  assumes "2 \<le> k" "k \<le> 30"
  shows "tab_ok (replicate (2 ^ k) DEDUP_EMPTY)" "content (replicate (2 ^ k) DEDUP_EMPTY) = {}" "filled (replicate (2 ^ k) DEDUP_EMPTY) = {}"
proof -
  show f: "filled (replicate (2 ^ k) DEDUP_EMPTY) = {}" by (auto simp: filled_def)
  show "content (replicate (2 ^ k) DEDUP_EMPTY) = {}" by (auto simp: content_def)
  show "tab_ok (replicate (2 ^ k) DEDUP_EMPTY)" using assms by (auto simp: tab_ok_def f)
qed

lemma grow_ok:
  assumes d: "dd_ok d" and c: "cap d < 2 ^ 30"
  shows "\<exists>d'. dedup_grow d = Some d' \<and> dd_ok d' \<and> content (keys d') = content (keys d) \<and> used d' = used d"
proof -
  have t: "tab_ok (keys d)" "cap d = length (keys d)" "used d = card (filled (keys d))" "used d < cap d" using d by (simp_all add: dd_ok_def)
  obtain k where k: "2 \<le> k" "k \<le> 30" "length (keys d) = 2 ^ k" using t(1) by (auto simp: tab_ok_def)
  have "(2 :: nat) ^ k < 2 ^ 30" using c t(2) k(3) by simp
  then have k29: "Suc k \<le> 30" using power_less_imp_less_exp [of "2 :: nat" k 30] by simp
  let ?e = "replicate (2 ^ Suc k) DEDUP_EMPTY"
  have e: "tab_ok ?e" "content ?e = {}" "filled ?e = {}" by (rule empty_table; use k k29 in simp)+
  have ds: "distinct (filter (\<lambda>k. k \<noteq> DEDUP_EMPTY) (keys d))" "length (filter (\<lambda>k. k \<noteq> DEDUP_EMPTY) (keys d)) = card (filled (keys d))"
    using t(1) inj_distinct [of "keys d"] by (simp_all add: tab_ok_def)
  obtain nk where nk: "fold dedup_rehash_one (keys d) (Some ?e) = Some nk" "tab_ok nk" "content nk = content (keys d)"
    "length nk = 2 ^ Suc k" "card (filled nk) = card (filled (keys d))"
    using rehash_ok [OF e(1) ds(1)] e ds(2) k(3) by auto
  have "cap d * 2 = 2 ^ Suc k" using t(2) k(3) by simp
  then show ?thesis using nk t k(3) by (simp add: dedup_grow_def dd_ok_def mult.commute)
qed

lemma dedup_key_unat: "unat (dedup_key lp sl) = unat lp * 65536 + unat sl"
proof -
  have "dedup_key lp sl = push_bit 16 (ucast lp) + ucast sl"
    unfolding dedup_key_def by (rule disjunctive_add [symmetric]) (auto simp: bit_simps dest: bit_imp_le_length)
  moreover have "unat (push_bit 16 (ucast lp :: u64)) = unat lp * 65536"
  proof -
    have "push_bit 16 (ucast lp :: u64) = ucast lp * 65536" by (simp add: push_bit_eq_mult)
    moreover have "unat (ucast lp :: u64) = unat lp" by (simp add: unat_ucast_up)
    ultimately show ?thesis using unat_u32_less [of lp] by (simp add: unat_mult_nowrap)
  qed
  moreover have "unat (ucast sl :: u64) = unat sl" by (simp add: unat_ucast_up)
  ultimately show ?thesis using unat_u32_less [of lp] unat_u16_less [of sl] by (simp add: unat_add_nowrap)
qed

lemma dedup_key_inj: "dedup_key lp sl = dedup_key lp' sl' \<longleftrightarrow> lp = lp' \<and> sl = sl'"
proof
  assume "dedup_key lp sl = dedup_key lp' sl'"
  then have "unat lp * 65536 + unat sl = unat lp' * 65536 + unat sl'" using dedup_key_unat by metis
  moreover have "(a * 65536 + b) div 65536 = a" "(a * 65536 + b) mod 65536 = b" if "b < 65536" for a b :: nat using that by simp_all
  ultimately have "unat lp = unat lp' \<and> unat sl = unat sl'" using unat_u16_less [of sl] unat_u16_less [of sl'] by metis
  then show "lp = lp' \<and> sl = sl'" by (simp add: word_unat_eq_iff)
qed simp

lemma dedup_key_not_empty: "dedup_key lp sl \<noteq> DEDUP_EMPTY"
proof
  assume "dedup_key lp sl = DEDUP_EMPTY"
  then have "unat lp * 65536 + unat sl = unat DEDUP_EMPTY" using dedup_key_unat by metis
  then have "unat lp * 65536 + unat sl = 18446744073709551615" by (simp add: DEDUP_EMPTY_def)
  then show False using unat_u32_less [of lp] unat_u16_less [of sl] by linarith
qed

lemma insert_ok:
  assumes d: "dd_ok d" and u: "used d < 2 ^ 28"
  shows "\<exists>d'. dedup_insert True lp sl d = Some (dedup_key lp sl \<notin> content (keys d), d') \<and> dd_ok d' \<and> used d' \<le> used d + 1 \<and>
    content (keys d') = insert (dedup_key lp sl) (content (keys d))"
proof -
  let ?key = "dedup_key lp sl"
  obtain e where e: "(if cap d * 3 \<le> used d * 4 then dedup_grow d else Some d) = Some e" "dd_ok e" "used e * 4 < cap e * 3"
    "content (keys e) = content (keys d)" "used e = used d"
  proof (cases "cap d * 3 \<le> used d * 4")
    case True
    then have "cap d < 2 ^ 30" using u by simp
    then obtain e where "dedup_grow d = Some e" "dd_ok e" "content (keys e) = content (keys d)" "used e = used d" using grow_ok [OF d] by blast
    moreover have "cap e = cap d * 2" using \<open>dedup_grow d = Some e\<close> by (auto simp: dedup_grow_def)
    ultimately show thesis using that [of e] True d by (simp add: dd_ok_def)
  next
    case False
    then show thesis using that [of d] d by simp
  qed
  have t: "tab_ok (keys e)" "cap e = length (keys e)" "used e = card (filled (keys e))" "card (filled (keys e)) < length (keys e)"
    using e(2) by (simp_all add: dd_ok_def)
  obtain r j where r: "dedup_probe (cap e) (keys e) ?key (dedup_hash ?key (cap e)) = Some r" "j < length (keys e)"
    "r = (dedup_hash ?key (length (keys e)) + j) mod length (keys e)" "keys e ! r = DEDUP_EMPTY \<or> keys e ! r = ?key"
    "\<forall>i < j. keys e ! ((dedup_hash ?key (length (keys e)) + i) mod length (keys e)) \<noteq> DEDUP_EMPTY \<and>
      keys e ! ((dedup_hash ?key (length (keys e)) + i) mod length (keys e)) \<noteq> ?key"
    using probe_ends [OF t(1,4), of ?key ?key] t(2) by auto
  have rn: "r < length (keys e)" using r(3) tab_len(1) [OF t(1)] by simp
  have run: "dedup_insert True lp sl d = Some (if keys e ! r = ?key then (False, e)
      else (True, e\<lparr>keys := (keys e)[r := ?key], used := used e + 1\<rparr>))"
    using e(1) r(1) by (simp add: dedup_insert_def Let_def)
  show ?thesis
  proof (cases "keys e ! r = ?key")
    case True
    then have "?key \<in> content (keys e)" using nth_mem [OF rn] dedup_key_not_empty [of lp sl] by (simp add: content_def)
    then show ?thesis using run True e by (auto simp: insert_absorb)
  next
    case False
    then have empty: "keys e ! r = DEDUP_EMPTY" using r(4) by blast
    have absent: "?key \<notin> content (keys e)"
    proof
      assume "?key \<in> content (keys e)"
      then obtain p where p: "p \<in> filled (keys e)" "keys e ! p = ?key" unfolding content_filled by auto
      then obtain j' where j': "p = (dedup_hash ?key (length (keys e)) + j') mod length (keys e)"
        "\<forall>i < j'. keys e ! ((dedup_hash ?key (length (keys e)) + i) mod length (keys e)) \<noteq> DEDUP_EMPTY"
        using t(1) unfolding tab_ok_def by metis
      show False using r(3,5) j' p(2) empty False by (metis linorder_neqE_nat)
    qed
    have "\<forall>i < j. keys e ! ((dedup_hash ?key (length (keys e)) + i) mod length (keys e)) \<noteq> DEDUP_EMPTY" using r(5) by blast
    note pl = place_ok [OF t(1) dedup_key_not_empty absent r(2,3) empty this]
    have "Suc (card (filled (keys e))) < length (keys e)" using e(3) t tab_len(1) [OF t(1)]
    proof -
      have "4 \<le> length (keys e)"
      proof -
        obtain k where k: "2 \<le> k" "length (keys e) = 2 ^ k" using t(1) by (auto simp: tab_ok_def)
        then have "(2 :: nat) ^ 2 \<le> 2 ^ k" by (intro power_increasing) simp_all
        then show ?thesis using k(2) by simp
      qed
      then show ?thesis using e(3) t by simp
    qed
    then have "dd_ok (e\<lparr>keys := (keys e)[r := ?key], used := used e + 1\<rparr>)" using pl t by (simp add: dd_ok_def)
    then show ?thesis using run False absent pl(2) e by simp
  qed
qed

section \<open>What is restored\<close>

text \<open>The entries of a file in order, each with the key of its slot, and the calls they lead to when the slots \<open>S\<close> have
  been seen before.\<close>

type_synonym slot_object = "u64 \<times> snap_object_entry \<times> bytes"

definition page_objects :: "snap_page \<Rightarrow> slot_object list" where
  "page_objects p = map (\<lambda>x. (dedup_key (lpage_idx (fst p)) (slot_index (fst x)), x)) (snd p)"

definition file_objects :: "snap_page list \<Rightarrow> slot_object list" where
  "file_objects ps = concat (map page_objects ps)"

definition unexpired :: "u64 \<Rightarrow> snap_object_entry \<times> bytes \<Rightarrow> bool" where
  "unexpired now x \<longleftrightarrow> ent_expire_ms (fst x) = 0 \<or> now \<le> ent_expire_ms (fst x)"

definition call_of :: "snap_object_entry \<times> bytes \<Rightarrow> set_call" where
  "call_of x = (let k = unat (ent_key_len (fst x)) in (take k (snd x), drop k (snd x), ent_expire_ms (fst x)))"

primrec rcalls :: "u64 \<Rightarrow> u64 set \<Rightarrow> slot_object list \<Rightarrow> set_call list" where
  "rcalls now S [] = []"
| "rcalls now S (o1 # os) =
     (if fst o1 \<notin> S \<and> live (snd o1) \<and> unexpired now (snd o1) then [call_of (snd o1)] else []) @ rcalls now (insert (fst o1) S) os"

lemma rcalls_append: "rcalls now S (xs @ ys) = rcalls now S xs @ rcalls now (S \<union> fst ` set xs) ys"
  by (induction xs arbitrary: S) auto

definition seen_after :: "restore_state \<Rightarrow> restore_state \<Rightarrow> u64 \<Rightarrow> slot_object list \<Rightarrow> bool" where
  "seen_after st st' now xs \<longleftrightarrow> dd_ok (rs_seen st') \<and> used (rs_seen st') \<le> used (rs_seen st) + length xs \<and>
     content (keys (rs_seen st')) = content (keys (rs_seen st)) \<union> fst ` set xs \<and>
     rs_calls st' = rs_calls st @ rcalls now (content (keys (rs_seen st))) xs"

lemma seen_after_trans:
  assumes "seen_after st st1 now xs" "seen_after st1 st2 now ys"
  shows "seen_after st st2 now (xs @ ys)"
  using assms by (auto simp: seen_after_def rcalls_append)

lemma restore_entry_ok:
  assumes d: "dd_ok (rs_seen st)" "used (rs_seen st) < 2 ^ 28" and wf: "object_wf x" and i: "inp = enc_object x @ rest"
  shows "\<exists>st'. restore_entry now always True lp inp st = Some (Some rest, st') \<and>
    seen_after st st' now [(dedup_key lp (slot_index (fst x)), x)]"
proof -
  obtain e b where x: "x = (e, b)" by (cases x)
  have len: "length b = payload_len e" and tomb: "deleted e \<noteq> 0 \<Longrightarrow> b = []" using wf by (auto simp: object_wf_def x)
  have rd: "read_entry inp = Some (e, b @ rest)" using i by (simp add: enc_object_def x)
  let ?key = "dedup_key lp (slot_index e)"
  obtain d' where ins: "dedup_insert True lp (slot_index e) (rs_seen st) = Some (?key \<notin> content (keys (rs_seen st)), d')" "dd_ok d'"
    "used d' \<le> used (rs_seen st) + 1" "content (keys d') = insert ?key (content (keys (rs_seen st)))"
    using insert_ok [OF d, of lp "slot_index e"] by blast
  consider (skip) "?key \<in> content (keys (rs_seen st)) \<or> deleted e \<noteq> 0"
    | (late) "?key \<notin> content (keys (rs_seen st))" "deleted e = 0" "ent_expire_ms e \<noteq> 0 \<and> ent_expire_ms e < now"
    | (set) "?key \<notin> content (keys (rs_seen st))" "deleted e = 0" "\<not> (ent_expire_ms e \<noteq> 0 \<and> ent_expire_ms e < now)" by blast
  then show ?thesis
  proof cases
    case skip
    then show ?thesis using rd ins len tomb
      by (auto simp: restore_entry_def Let_def seen_after_def x live_def)
  next
    case late
    then show ?thesis using rd ins len
      by (auto simp: restore_entry_def Let_def seen_after_def x unexpired_def)
  next
    case set
    then show ?thesis using rd ins len
      by (auto simp: restore_entry_def Let_def seen_after_def x unexpired_def live_def fread_append call_of_def)
  qed
qed

lemma restore_entries_ok:
  assumes "dd_ok (rs_seen st)" "used (rs_seen st) + length xs < 2 ^ 28" "list_all object_wf xs" "inp = concat (map enc_object xs) @ rest"
  shows "\<exists>st'. restore_entries (length xs) now always True lp inp st = Some (Some rest, st') \<and>
    seen_after st st' now (map (\<lambda>x. (dedup_key lp (slot_index (fst x)), x)) xs)"
  using assms
proof (induction xs arbitrary: st inp)
  case Nil
  then show ?case by (auto simp: seen_after_def)
next
  case (Cons x xs)
  obtain st1 where s1: "restore_entry now always True lp inp st = Some (Some (concat (map enc_object xs) @ rest), st1)"
    "seen_after st st1 now [(dedup_key lp (slot_index (fst x)), x)]"
    using restore_entry_ok [of st x inp "concat (map enc_object xs) @ rest" now lp] Cons.prems by auto
  obtain st2 where s2: "restore_entries (length xs) now always True lp (concat (map enc_object xs) @ rest) st1 = Some (Some rest, st2)"
    "seen_after st1 st2 now (map (\<lambda>x. (dedup_key lp (slot_index (fst x)), x)) xs)"
    using Cons.IH [of st1 "concat (map enc_object xs) @ rest"] s1(2) Cons.prems(2,3) by (auto simp: seen_after_def)
  show ?case using s1(1) s2(1) seen_after_trans [OF s1(2) s2(2)] by simp
qed

lemma restore_pages_ok:
  assumes "dd_ok (rs_seen st)" "used (rs_seen st) + length (file_objects ps) < 2 ^ 28" "list_all page_wf ps"
  shows "\<exists>st'. restore_pages (length ps) now always True (concat (map enc_page ps) @ rest) st = Some st' \<and>
    seen_after st st' now (file_objects ps)"
  using assms
proof (induction ps arbitrary: st)
  case Nil
  then show ?case by (auto simp: seen_after_def file_objects_def)
next
  case (Cons p ps)
  have rd: "read_page_record (concat (map enc_page (p # ps)) @ rest)
      = Some (fst p, concat (map enc_object (snd p)) @ concat (map enc_page ps) @ rest)"
    using enc_page_def [of p] by simp
  have n: "unat (num_objects (fst p)) = length (snd p)" using Cons.prems(3) by (simp add: page_wf_def)
  have l: "length (file_objects (p # ps)) = length (snd p) + length (file_objects ps)" by (simp add: file_objects_def page_objects_def)
  obtain st1 where s1: "restore_entries (length (snd p)) now always True (lpage_idx (fst p))
      (concat (map enc_object (snd p)) @ concat (map enc_page ps) @ rest) st = Some (Some (concat (map enc_page ps) @ rest), st1)"
    "seen_after st st1 now (page_objects p)"
    using restore_entries_ok [of st "snd p" _ "concat (map enc_page ps) @ rest" now "lpage_idx (fst p)"] Cons.prems l
    by (auto simp: page_wf_def page_objects_def)
  obtain st2 where s2: "restore_pages (length ps) now always True (concat (map enc_page ps) @ rest) st1 = Some st2"
    "seen_after st1 st2 now (file_objects ps)"
    using Cons.IH [of st1] s1(2) Cons.prems(2,3) l by (auto simp: seen_after_def page_objects_def)
  have "file_objects (p # ps) = page_objects p @ file_objects ps" by (simp add: file_objects_def)
  then show ?case using rd n s1(1) s2(1) seen_after_trans [OF s1(2) s2(2)] by simp
qed

lemma restore_file_ok:
  assumes "dd_ok (rs_seen st)" "used (rs_seen st) + length (file_objects ps) < 2 ^ 28" "file_wf shard h ps"
  shows "\<exists>st'. restore_file now always True shard (enc_file h ps) st = Some st' \<and> seen_after st st' now (file_objects ps)"
  using restore_pages_ok [OF assms(1,2), of now enc_footer] assms(3) by (simp add: restore_file_def enc_file_def file_wf_def)

text \<open>Delta files with their epochs, newest first.\<close>

lemma insert_epoch_set: "set (insert_epoch f fs) = insert f (set fs)"
  by (induction fs) auto

lemma insert_epoch_sorted:
  "sorted_wrt (\<lambda>f g. fst g \<le> fst f) fs \<Longrightarrow> sorted_wrt (\<lambda>f g. fst g \<le> fst f) (insert_epoch f fs)"
  by (induction fs) (auto simp: epoch_file_cmp_desc_def insert_epoch_set split: if_splits)

lemma insert_epoch_mset: "mset (insert_epoch f fs) = add_mset f (mset fs)"
  by (induction fs) auto

lemma sort_epochs_ok: "sorted_wrt (\<lambda>f g. fst g \<le> fst f) (sort_epochs fs)" "mset (sort_epochs fs) = mset fs"
  unfolding sort_epochs_def by (induction fs) (auto simp: insert_epoch_sorted insert_epoch_mset)

lemma restore_deltas_ok:
  assumes "dd_ok (rs_seen st)" "used (rs_seen st) + length (concat (map (\<lambda>f. file_objects (snd f)) fs)) < 2 ^ 28"
    "\<forall>f \<in> set fs. file_wf shard (snd (fst f)) (snd f)"
  shows "\<exists>st'. fold (\<lambda>f st. case st of None \<Rightarrow> None | Some st \<Rightarrow> restore_file now always True shard (snd f) st)
      (map (\<lambda>f. (fst (fst f), enc_file (snd (fst f)) (snd f))) fs) (Some st) = Some st' \<and>
    seen_after st st' now (concat (map (\<lambda>f. file_objects (snd f)) fs))"
  using assms
proof (induction fs arbitrary: st)
  case Nil
  then show ?case by (auto simp: seen_after_def)
next
  case (Cons f fs)
  obtain st1 where s1: "restore_file now always True shard (enc_file (snd (fst f)) (snd f)) st = Some st1"
    "seen_after st st1 now (file_objects (snd f))"
    using restore_file_ok [of st "snd f" shard "snd (fst f)" now] Cons.prems by auto
  obtain st2 where s2: "fold (\<lambda>f st. case st of None \<Rightarrow> None | Some st \<Rightarrow> restore_file now always True shard (snd f) st)
      (map (\<lambda>f. (fst (fst f), enc_file (snd (fst f)) (snd f))) fs) (Some st1) = Some st2"
    "seen_after st1 st2 now (concat (map (\<lambda>f. file_objects (snd f)) fs))"
    using Cons.IH [of st1] s1(2) Cons.prems(2,3) by (auto simp: seen_after_def)
  then show ?case using s1(1) seen_after_trans [OF s1(2) s2(2)] by simp
qed

lemma init_seen: "dd_ok dedup_init" "content (keys dedup_init) = {}" "used dedup_init = 0"
  using empty_table [of 16] by (simp_all add: dedup_init_def DEDUP_INIT_CAP_def dd_ok_def)

lemma sort_epochs_unique:
  assumes m: "mset fs = mset gs" and g: "sorted_wrt (\<lambda>f g. fst g < fst f) gs"
  shows "sort_epochs fs = gs"
proof -
  let ?k = "\<lambda>f :: u64 \<times> bytes. 2 ^ 64 - unat (fst f)"
  have u: "unat a < 2 ^ 64" for a :: u64 using unat_u64_less [of a] by simp
  have conv: "sorted (map ?k xs) \<longleftrightarrow> sorted_wrt (\<lambda>f g. fst g \<le> fst f) xs" for xs
  proof -
    have "?k f \<le> ?k g \<longleftrightarrow> fst g \<le> fst f" for f g :: "u64 \<times> bytes"
      using u [of "fst f"] u [of "fst g"] by (auto simp: word_le_nat_alt)
    then show ?thesis by (simp add: sorted_wrt_map)
  qed
  have gs: "sorted_wrt (\<lambda>f g. fst g \<le> fst f) gs" by (rule sorted_wrt_mono_rel [OF _ g]) simp
  have inj: "inj_on ?k (set gs)"
  proof (rule inj_onI)
    fix x y assume xy: "x \<in> set gs" "y \<in> set gs" "?k x = ?k y"
    then have "fst x = fst y" using u [of "fst x"] u [of "fst y"] by (simp add: word_unat_eq_iff)
    moreover obtain i j where ij: "i < length gs" "j < length gs" "x = gs ! i" "y = gs ! j" using xy by (auto simp: in_set_conv_nth)
    ultimately have "i = j" using sorted_wrt_nth_less [OF g, of i j] sorted_wrt_nth_less [OF g, of j i] by (metis linorder_neqE_nat order_less_irrefl)
    then show "x = y" using ij by simp
  qed
  then have "sort_key ?k (sort_epochs fs) = gs"
    using m sort_epochs_ok(2) [of fs] gs conv by (intro sort_key_inj_key_eq) (auto dest: mset_eq_setD)
  moreover have "sort_key ?k (sort_epochs fs) = sort_epochs fs"
    using sort_epochs_ok [of fs] inj m conv by (intro sort_key_inj_key_eq) (auto dest: mset_eq_setD)
  ultimately show ?thesis by simp
qed

text \<open>
  C29: Restore reads back exactly what the files hold: it replays the base file first and then the delta files, newest
  epoch first, whatever the order of the directory, and for every slot only the first entry it meets counts; tombstones and expired
  entries are skipped.  So the base wins over every delta: a delta that was not merged before a crash cannot change or
  delete a slot of the base, against the order the file format describes.
\<close>

theorem restore_base_first:
  assumes base: "file_wf shard hb bs" and deltas: "\<forall>f \<in> set fs. file_wf shard (snd (fst f)) (snd f)"
    and epochs: "sorted_wrt (\<lambda>f g. fst (fst g) < fst (fst f)) fs"
    and dir: "mset dir = mset (map (\<lambda>f. (fst (fst f), enc_file (snd (fst f)) (snd f))) fs)" "length fs \<le> 4096"
    and size: "length (file_objects bs) + length (concat (map (\<lambda>f. file_objects (snd f)) fs)) < 2 ^ 28"
  shows "snap_engine_restore now always True shard (Some (enc_file hb bs)) dir =
    Some (rcalls now {} (file_objects bs) @
      rcalls now (fst ` set (file_objects bs)) (concat (map (\<lambda>f. file_objects (snd f)) fs)))"
proof -
  let ?g = "\<lambda>f. (fst (fst f), enc_file (snd (fst f)) (snd f))"
  let ?st = "\<lparr>rs_seen = dedup_init, rs_calls = []\<rparr>"
  have srt: "sort_epochs (take 4096 dir) = map ?g fs"
  proof -
    have "length dir = length fs" using mset_eq_length [OF dir(1)] by simp
    then have "take 4096 dir = dir" using dir(2) by simp
    then show ?thesis using sort_epochs_unique [OF dir(1)] epochs by (simp add: sorted_wrt_map)
  qed
  obtain st1 where s1: "restore_file now always True shard (enc_file hb bs) ?st = Some st1" "seen_after ?st st1 now (file_objects bs)"
    using restore_file_ok [of ?st bs shard hb now] base size init_seen by auto
  obtain st2 where s2: "fold (\<lambda>f st. case st of None \<Rightarrow> None | Some st \<Rightarrow> restore_file now always True shard (snd f) st)
      (map ?g fs) (Some st1) = Some st2" "seen_after st1 st2 now (concat (map (\<lambda>f. file_objects (snd f)) fs))"
    using restore_deltas_ok [of st1 fs shard now] deltas s1(2) size init_seen by (auto simp: seen_after_def)
  show ?thesis using s1 s2 init_seen by (simp add: snap_engine_restore_def srt seen_after_def)
qed

lemma restore_base_first_witness:
  "snap_engine_restore 5 always True 0 (Some (enc_file (sample_header 1) sample_base)) [(2, enc_file (sample_header 2) sample_delta)]
   = Some [([107], [97], 0), ([108], [98], 0), ([109], [99], 0)]"
proof -
  have b: "file_objects sample_base = [(dedup_key 3 0, sample_entry 0 97), (dedup_key 3 1, sample_entry 1 98)]"
    "file_objects sample_delta = [(dedup_key 3 0, sample_tomb 0), (dedup_key 3 2, sample_entry 2 99)]"
    by (simp_all add: file_objects_def page_objects_def sample_file_defs)
  show ?thesis
    using restore_base_first [of 0 "sample_header 1" sample_base "[((2, sample_header 2), sample_delta)]"
        "[(2, enc_file (sample_header 2) sample_delta)]" 5]
    by (simp add: sample_files_wf b dedup_key_inj live_def unexpired_def call_of_def sample_entry_def sample_tomb_def)
qed

end
