(* ===== verification/Lru.thy ===== *)
theory Lru
  imports Kv_Object
begin

text \<open>
  Model of the LRU lists of \<open>core/shard.c\<close>: one doubly linked list per pool class, threaded through the objects
  (\<open>lru_prev\<close>, \<open>lru_next\<close>), with head and tail pointers in the shard.  The pointer updates are modelled on the object
  store in the order of the code; the theory shows that they implement lists in order of use.
\<close>

record lru_lists =
  lru_head :: "nat \<Rightarrow> addr option"
  lru_tail :: "nat \<Rightarrow> addr option"

type_synonym lru_state = "lru_lists \<times> objs"

definition lru_pool :: "objs \<Rightarrow> addr \<Rightarrow> nat" where
  "lru_pool mem a = unat (pool_idx (mem a))"

definition lru_node_remove :: "addr \<Rightarrow> lru_state \<Rightarrow> lru_state" where
  "lru_node_remove a s =
     (let (l, mem) = s; p = lru_pool mem a;
          (l, mem) =
            (case lru_prev (mem a) of
               Some b \<Rightarrow> (l, mem(b := (mem b)\<lparr>lru_next := lru_next (mem a)\<rparr>))
             | None \<Rightarrow> (if lru_head l p = Some a then l\<lparr>lru_head := (lru_head l)(p := lru_next (mem a))\<rparr> else l, mem));
          (l, mem) =
            (case lru_next (mem a) of
               Some b \<Rightarrow> (l, mem(b := (mem b)\<lparr>lru_prev := lru_prev (mem a)\<rparr>))
             | None \<Rightarrow> (if lru_tail l p = Some a then l\<lparr>lru_tail := (lru_tail l)(p := lru_prev (mem a))\<rparr> else l, mem))
      in (l, mem(a := (mem a)\<lparr>lru_prev := None, lru_next := None\<rparr>)))"

definition lru_node_prepend :: "addr \<Rightarrow> lru_state \<Rightarrow> lru_state" where
  "lru_node_prepend a s =
     (let p = lru_pool (snd s) a;
          (l, mem) = lru_node_remove a s;
          mem = mem(a := (mem a)\<lparr>lru_prev := None, lru_next := lru_head l p\<rparr>);
          (l, mem) =
            (case lru_head l p of
               Some h \<Rightarrow> (l, mem(h := (mem h)\<lparr>lru_prev := Some a\<rparr>))
             | None \<Rightarrow> (l\<lparr>lru_tail := (lru_tail l)(p := Some a)\<rparr>, mem))
      in (l\<lparr>lru_head := (lru_head l)(p := Some a)\<rparr>, mem))"

definition lru_node_touch :: "addr \<Rightarrow> lru_state \<Rightarrow> lru_state" where
  "lru_node_touch a s = lru_node_prepend a s"

section \<open>Linked segments\<close>

definition hd_opt :: "addr list \<Rightarrow> addr option \<Rightarrow> addr option" where
  "hd_opt xs d = (case xs of [] \<Rightarrow> d | x # _ \<Rightarrow> Some x)"

definition last_opt :: "addr option \<Rightarrow> addr list \<Rightarrow> addr option" where
  "last_opt d xs = (if xs = [] then d else Some (last xs))"

primrec links :: "objs \<Rightarrow> addr option \<Rightarrow> addr list \<Rightarrow> addr option \<Rightarrow> bool" where
  "links mem pv [] nx \<longleftrightarrow> True"
| "links mem pv (x # xs) nx \<longleftrightarrow> lru_prev (mem x) = pv \<and> lru_next (mem x) = hd_opt xs nx \<and> links mem (Some x) xs nx"

lemma hd_opt_simps [simp]: "hd_opt [] d = d" "hd_opt (x # xs) d = Some x" "hd_opt (xs @ y # ys) d = hd_opt xs (Some y)"
  by (auto simp: hd_opt_def split: list.splits)

lemma last_opt_simps [simp]: "last_opt d [] = d" "last_opt d (xs @ [x]) = Some x" "last_opt d (x # xs) = last_opt (Some x) xs"
  by (auto simp: last_opt_def)

lemma links_append: "links mem pv (xs @ ys) nx \<longleftrightarrow> links mem pv xs (hd_opt ys nx) \<and> links mem (last_opt pv xs) ys nx"
  by (induction xs arbitrary: pv) (auto simp: hd_opt_def split: list.splits)

lemma links_frame:
  assumes "\<And>x. x \<in> set xs \<Longrightarrow> lru_prev (mem' x) = lru_prev (mem x) \<and> lru_next (mem' x) = lru_next (mem x)"
  shows "links mem' pv xs nx \<longleftrightarrow> links mem pv xs nx"
  using assms by (induction xs arbitrary: pv) auto

definition dll :: "objs \<Rightarrow> addr option \<Rightarrow> addr option \<Rightarrow> addr list \<Rightarrow> bool" where
  "dll mem h t xs \<longleftrightarrow> h = hd_opt xs None \<and> t = last_opt None xs \<and> links mem None xs None \<and> distinct xs"

text \<open>Relinking the end of a segment, and its start.\<close>

lemma links_set_next:
  assumes "links mem pv (xs @ [x]) nx" "x \<notin> set xs"
  shows "links (mem(x := (mem x)\<lparr>lru_next := nx'\<rparr>)) pv (xs @ [x]) nx'"
proof -
  have "links (mem(x := (mem x)\<lparr>lru_next := nx'\<rparr>)) pv xs (Some x) \<longleftrightarrow> links mem pv xs (Some x)"
    by (rule links_frame) (use assms(2) in auto)
  then show ?thesis using assms(1) by (simp add: links_append)
qed

lemma links_set_prev:
  assumes "links mem pv (x # xs) nx" "x \<notin> set xs"
  shows "links (mem(x := (mem x)\<lparr>lru_prev := pv'\<rparr>)) pv' (x # xs) nx"
proof -
  have "links (mem(x := (mem x)\<lparr>lru_prev := pv'\<rparr>)) (Some x) xs nx \<longleftrightarrow> links mem (Some x) xs nx"
    by (rule links_frame) (use assms(2) in auto)
  then show ?thesis using assms(1) by simp
qed

section \<open>The lists of a shard\<close>

definition lru_ok :: "lru_state \<Rightarrow> (nat \<Rightarrow> addr list) \<Rightarrow> bool" where
  "lru_ok s X \<longleftrightarrow> (\<forall>p. dll (snd s) (lru_head (fst s) p) (lru_tail (fst s) p) (X p) \<and> (\<forall>a \<in> set (X p). lru_pool (snd s) a = p))"

definition detached :: "objs \<Rightarrow> addr \<Rightarrow> bool" where
  "detached mem a \<longleftrightarrow> lru_prev (mem a) = None \<and> lru_next (mem a) = None"

definition erase_links :: "kv_obj \<Rightarrow> kv_obj" where
  "erase_links ob = ob\<lparr>lru_prev := None, lru_next := None\<rparr>"

text \<open>Only links changed, and only those of members of the lists and of \<open>a\<close>.\<close>

definition links_only :: "(nat \<Rightarrow> addr list) \<Rightarrow> addr \<Rightarrow> objs \<Rightarrow> objs \<Rightarrow> bool" where
  "links_only X a mem mem' \<longleftrightarrow> (\<forall>x. erase_links (mem' x) = erase_links (mem x)) \<and>
     (\<forall>x. x \<noteq> a \<and> x \<notin> (\<Union>p. set (X p)) \<longrightarrow> mem' x = mem x)"

lemma erase_links_pool: "erase_links (mem' x) = erase_links (mem x) \<Longrightarrow> lru_pool mem' x = lru_pool mem x"
  unfolding lru_pool_def erase_links_def by (metis (no_types, lifting) kv_obj.select_convs(2) kv_obj.surjective kv_obj.update_convs(3,4))

text \<open>Unlinking \<open>a\<close> between two segments.\<close>

lemma unlink_segments:
  assumes l: "links mem None (ys @ a # zs) None" and d: "distinct (ys @ a # zs)"
  defines "mem1 \<equiv> (case last_opt None ys of Some b \<Rightarrow> mem(b := (mem b)\<lparr>lru_next := hd_opt zs None\<rparr>) | None \<Rightarrow> mem)"
  defines "mem2 \<equiv> (case hd_opt zs None of Some b \<Rightarrow> mem1(b := (mem1 b)\<lparr>lru_prev := last_opt None ys\<rparr>) | None \<Rightarrow> mem1)"
  shows "links mem2 None (ys @ zs) None" "mem2 a = mem a" "\<And>x. x \<notin> set ys \<Longrightarrow> x \<notin> set zs \<Longrightarrow> mem2 x = mem x"
    "\<And>x. erase_links (mem2 x) = erase_links (mem x)"
proof -
  have ly: "links mem None ys (Some a)" and lz: "links mem (Some a) zs None" using l by (simp_all add: links_append)
  have y1: "links mem1 None ys (hd_opt zs None)"
  proof (cases ys rule: rev_cases)
    case (snoc ys' y)
    then show ?thesis using links_set_next [of mem None ys' y "Some a" "hd_opt zs None"] ly d by (simp add: mem1_def)
  qed simp
  have z1: "links mem1 (Some a) zs None"
  proof -
    have "mem1 x = mem x" if "x \<in> set zs" for x using d that by (cases ys rule: rev_cases) (auto simp: mem1_def)
    then show ?thesis using lz links_frame [of zs mem1 mem "Some a" None] by simp
  qed
  have y2: "links mem2 None ys (hd_opt zs None)"
  proof -
    have "mem2 x = mem1 x" if "x \<in> set ys" for x using d that by (cases zs) (auto simp: mem2_def)
    then show ?thesis using y1 links_frame [of ys mem2 mem1 None "hd_opt zs None"] by simp
  qed
  have z2: "links mem2 (last_opt None ys) zs None"
  proof (cases zs)
    case (Cons z zs')
    then show ?thesis using links_set_prev [of mem1 "Some a" z zs' None "last_opt None ys"] z1 d by (simp add: mem2_def)
  qed simp
  show "links mem2 None (ys @ zs) None" using y2 z2 by (simp add: links_append)
  show "mem2 a = mem a" using d by (cases ys rule: rev_cases; cases zs) (auto simp: mem1_def mem2_def)
  show "mem2 x = mem x" if "x \<notin> set ys" "x \<notin> set zs" for x
    using that by (cases ys rule: rev_cases; cases zs) (auto simp: mem1_def mem2_def)
  show "erase_links (mem2 x) = erase_links (mem x)" for x
    by (cases ys rule: rev_cases; cases zs) (auto simp: mem1_def mem2_def erase_links_def)
qed

lemma hd_last_append:
  "hd_opt (ys @ zs) None = (case last_opt None ys of Some _ \<Rightarrow> hd_opt ys None | None \<Rightarrow> hd_opt zs None)"
  "last_opt None (ys @ zs) = (case hd_opt zs None of Some _ \<Rightarrow> last_opt None zs | None \<Rightarrow> last_opt None ys)"
  by (cases ys rule: rev_cases; cases zs; simp add: last_opt_def)+

lemma lru_pool_member: "lru_ok s X \<Longrightarrow> x \<in> set (X p) \<Longrightarrow> lru_pool (snd s) x = p"
  by (simp add: lru_ok_def)

lemma lru_dll: "lru_ok s X \<Longrightarrow> dll (snd s) (lru_head (fst s) p) (lru_tail (fst s) p) (X p)"
  by (simp add: lru_ok_def)

lemma lru_remove_member:
  assumes ok: "lru_ok s X" and a: "a \<in> set (X p)"
  shows "\<exists>l' mem'. lru_node_remove a s = (l', mem') \<and> lru_ok (l', mem') (X(p := remove1 a (X p))) \<and> detached mem' a \<and>
    links_only X a (snd s) mem'"
proof -
  obtain l mem where s: "s = (l, mem)" by (cases s)
  obtain ys zs where xs: "X p = ys @ a # zs" using split_list [OF a] by blast
  have d: "dll mem (lru_head l p) (lru_tail l p) (ys @ a # zs)" and pool: "lru_pool mem a = p" using ok a xs [symmetric] by (auto simp: lru_ok_def s)
  have lk: "links mem None (ys @ a # zs) None" and dist: "distinct (ys @ a # zs)" using d by (simp_all add: dll_def)
  have pv: "lru_prev (mem a) = last_opt None ys" and nx: "lru_next (mem a) = hd_opt zs None" using lk by (simp_all add: links_append)
  have head: "lru_head l p = (case last_opt None ys of Some _ \<Rightarrow> hd_opt ys None | None \<Rightarrow> Some a)"
    and tail: "lru_tail l p = (case hd_opt zs None of Some _ \<Rightarrow> last_opt None zs | None \<Rightarrow> Some a)"
    using d hd_last_append [of ys "a # zs"] hd_last_append [of "[a]" zs] by (auto simp: dll_def last_opt_def hd_opt_def split: list.splits)
  define mem1 where "mem1 = (case last_opt None ys of Some b \<Rightarrow> mem(b := (mem b)\<lparr>lru_next := hd_opt zs None\<rparr>) | None \<Rightarrow> mem)"
  define mem2 where "mem2 = (case hd_opt zs None of Some b \<Rightarrow> mem1(b := (mem1 b)\<lparr>lru_prev := last_opt None ys\<rparr>) | None \<Rightarrow> mem1)"
  note u = unlink_segments [OF lk dist, folded mem1_def, folded mem2_def]
  have m1a: "mem1 a = mem a" using dist by (cases ys rule: rev_cases) (auto simp: mem1_def)
  let ?l = "l\<lparr>lru_head := (lru_head l)(p := hd_opt (ys @ zs) None), lru_tail := (lru_tail l)(p := last_opt None (ys @ zs))\<rparr>"
  let ?m = "mem2(a := (mem2 a)\<lparr>lru_prev := None, lru_next := None\<rparr>)"
  define l1 where "l1 = (case last_opt None ys of Some _ \<Rightarrow> l | None \<Rightarrow> l\<lparr>lru_head := (lru_head l)(p := hd_opt zs None)\<rparr>)"
  define l2 where "l2 = (case hd_opt zs None of Some _ \<Rightarrow> l1 | None \<Rightarrow> l1\<lparr>lru_tail := (lru_tail l)(p := last_opt None ys)\<rparr>)"
  have s1: "(case lru_prev (mem a) of Some b \<Rightarrow> (l, mem(b := (mem b)\<lparr>lru_next := lru_next (mem a)\<rparr>))
      | None \<Rightarrow> (if lru_head l p = Some a then l\<lparr>lru_head := (lru_head l)(p := lru_next (mem a))\<rparr> else l, mem)) = (l1, mem1)"
    unfolding pv nx by (cases "last_opt None ys") (simp_all add: head l1_def mem1_def)
  have t1: "lru_tail l1 = lru_tail l" by (cases "last_opt None ys") (simp_all add: l1_def)
  have s2: "(case lru_next (mem1 a) of Some b \<Rightarrow> (l1, mem1(b := (mem1 b)\<lparr>lru_prev := lru_prev (mem1 a)\<rparr>))
      | None \<Rightarrow> (if lru_tail l1 p = Some a then l1\<lparr>lru_tail := (lru_tail l1)(p := lru_prev (mem1 a))\<rparr> else l1, mem1)) = (l2, mem2)"
    unfolding m1a pv nx t1 by (cases "hd_opt zs None") (simp_all add: tail l2_def mem2_def)
  have hh: "lru_head ?l = lru_head l2"
    using head by (cases "last_opt None ys"; cases "hd_opt zs None") (auto simp: l1_def l2_def hd_last_append intro: fun_upd_idem)
  have tt: "lru_tail ?l = lru_tail l2"
    using tail t1 by (cases "hd_opt zs None") (auto simp: l2_def hd_last_append intro: fun_upd_idem)
  have ll: "?l = l2" using hh tt by (simp add: lru_lists.equality)
  have run: "lru_node_remove a s = (?l, ?m)"
    unfolding lru_node_remove_def s Let_def prod.case pool s1 s2 ll ..
  have eq: "?m x = mem2 x" if "x \<noteq> a" for x using that by simp
  have er: "erase_links (?m x) = erase_links (mem x)" for x using u(4) [of x] by (auto simp: erase_links_def)
  have other: "?m x = mem x" if "x \<notin> set (X p)" for x using that u(3) [of x] xs by auto
  have "lru_ok (?l, ?m) (X(p := remove1 a (X p)))"
    unfolding lru_ok_def
  proof (intro allI conjI ballI)
    fix q
    show "dll (snd (?l, ?m)) (lru_head (fst (?l, ?m)) q) (lru_tail (fst (?l, ?m)) q) ((X(p := remove1 a (X p))) q)"
    proof (cases "q = p")
      case True
      have r: "remove1 a (X p) = ys @ zs" using dist by (simp add: xs remove1_append)
      have "links ?m None (ys @ zs) None \<longleftrightarrow> links mem2 None (ys @ zs) None" by (rule links_frame) (use dist eq in auto)
      then show ?thesis using True r u(1) dist by (simp add: dll_def)
    next
      case False
      have disj: "x \<notin> set (X p)" if "x \<in> set (X q)" for x
        using lru_pool_member [OF ok, of x p] lru_pool_member [OF ok that] False by auto
      have "links ?m None (X q) None \<longleftrightarrow> links mem None (X q) None" by (rule links_frame) (use other disj in auto)
      then show ?thesis using False ok by (simp add: dll_def lru_ok_def s)
    qed
  next
    fix q x assume "x \<in> set ((X(p := remove1 a (X p))) q)"
    then have "x \<in> set (X q)" by (auto split: if_splits dest: notin_set_remove1 set_remove1_subset [THEN subsetD])
    then show "lru_pool (snd (?l, ?m)) x = q" using ok erase_links_pool [of ?m x mem] er [of x] by (simp add: lru_ok_def s)
  qed
  moreover have "links_only X a mem ?m" unfolding links_only_def by (intro conjI allI impI) (rule er, rule other, blast)
  ultimately show ?thesis using run by (simp add: s detached_def)
qed

lemma hd_opt_mem: "hd_opt xs None = Some a \<Longrightarrow> a \<in> set xs"
  by (cases xs) auto

lemma last_opt_mem: "last_opt None xs = Some a \<Longrightarrow> a \<in> set xs"
  by (auto simp: last_opt_def split: if_splits)

lemma lru_remove_stranger:
  assumes ok: "lru_ok s X" and a: "a \<notin> set (X (lru_pool (snd s) a))" "detached (snd s) a"
  shows "lru_node_remove a s = s"
proof -
  obtain l mem where s: "s = (l, mem)" by (cases s)
  let ?p = "lru_pool mem a"
  have d: "dll mem (lru_head l ?p) (lru_tail l ?p) (X ?p)" using lru_dll [OF ok, of ?p] by (simp add: s)
  have "lru_head l ?p \<noteq> Some a" "lru_tail l ?p \<noteq> Some a"
    using d a(1) hd_opt_mem [of "X ?p" a] last_opt_mem [of "X ?p" a] by (auto simp: dll_def s)
  moreover have "mem(a := (mem a)\<lparr>lru_prev := None, lru_next := None\<rparr>) = mem"
    using a(2) by (intro fun_upd_idem kv_obj.equality) (simp_all add: detached_def s)
  ultimately show ?thesis using a(2) by (simp add: lru_node_remove_def s detached_def Let_def)
qed

lemma lru_remove_ok:
  assumes ok: "lru_ok s X" and a: "a \<in> set (X (lru_pool (snd s) a)) \<or> detached (snd s) a"
  shows "\<exists>l' mem'. lru_node_remove a s = (l', mem') \<and>
    lru_ok (l', mem') (X(lru_pool (snd s) a := remove1 a (X (lru_pool (snd s) a)))) \<and> detached mem' a \<and> links_only X a (snd s) mem'"
proof (cases "a \<in> set (X (lru_pool (snd s) a))")
  case True
  then show ?thesis using lru_remove_member [OF ok, of a "lru_pool (snd s) a"] by simp
next
  case False
  then have "lru_node_remove a s = s" "X(lru_pool (snd s) a := remove1 a (X (lru_pool (snd s) a))) = X"
    using lru_remove_stranger [OF ok] a by (simp_all add: remove1_idem fun_upd_idem)
  then show ?thesis using ok False a by (cases s) (simp add: links_only_def)
qed

text \<open>Linking \<open>a\<close> in front of a list.\<close>

lemma link_front:
  assumes d: "dll mem h t xs" and a: "a \<notin> set xs"
  defines "mem1 \<equiv> mem(a := (mem a)\<lparr>lru_prev := None, lru_next := h\<rparr>)"
  defines "mem2 \<equiv> (case h of Some b \<Rightarrow> mem1(b := (mem1 b)\<lparr>lru_prev := Some a\<rparr>) | None \<Rightarrow> mem1)"
  shows "links mem2 None (a # xs) None" "\<And>x. erase_links (mem2 x) = erase_links (mem x)"
    "\<And>x. x \<noteq> a \<Longrightarrow> x \<notin> set xs \<Longrightarrow> mem2 x = mem x"
    "(case h of Some b \<Rightarrow> t | None \<Rightarrow> Some a) = last_opt (Some a) xs"
proof -
  have h: "h = hd_opt xs None" "t = last_opt None xs" "links mem None xs None" "distinct xs" using d by (simp_all add: dll_def)
  have "links mem1 None xs None \<longleftrightarrow> links mem None xs None" by (rule links_frame) (use a in \<open>auto simp: mem1_def\<close>)
  then have lk1: "links mem1 None xs None" using h(3) by simp
  show "links mem2 None (a # xs) None"
  proof (cases xs)
    case Nil
    then show ?thesis using h(1) by (simp add: mem2_def mem1_def)
  next
    case (Cons y ys)
    have m2: "mem2 = mem1(y := (mem1 y)\<lparr>lru_prev := Some a\<rparr>)" using h(1) Cons by (simp add: mem2_def)
    have "links mem2 (Some a) (y # ys) None" unfolding m2
      by (rule links_set_prev [of _ None]) (use lk1 h(4) Cons in auto)
    moreover have "lru_prev (mem2 a) = None" "lru_next (mem2 a) = Some y" using a Cons h(1) by (auto simp: m2 mem1_def)
    ultimately show ?thesis using Cons by simp
  qed
  show "erase_links (mem2 x) = erase_links (mem x)" for x by (cases h) (auto simp: mem2_def mem1_def erase_links_def)
  show "mem2 x = mem x" if "x \<noteq> a" "x \<notin> set xs" for x
    using that h(1) by (cases xs) (auto simp: mem2_def mem1_def)
  show "(case h of Some b \<Rightarrow> t | None \<Rightarrow> Some a) = last_opt (Some a) xs" using h by (cases xs) (auto simp: last_opt_def)
qed

lemma lru_prepend_ok:
  assumes ok: "lru_ok s X" and a: "a \<in> set (X (lru_pool (snd s) a)) \<or> detached (snd s) a"
  shows "\<exists>l' mem'. lru_node_prepend a s = (l', mem') \<and>
    lru_ok (l', mem') (X(lru_pool (snd s) a := a # remove1 a (X (lru_pool (snd s) a)))) \<and> links_only X a (snd s) mem'"
proof -
  define p where "p = lru_pool (snd s) a"
  define xs where "xs = remove1 a (X p)"
  obtain l mem where r: "lru_node_remove a s = (l, mem)" "lru_ok (l, mem) (X(p := xs))" "links_only X a (snd s) mem"
    using lru_remove_ok [OF ok a] by (auto simp: p_def xs_def)
  have sub: "set xs \<subseteq> set (X p)" by (simp add: xs_def set_remove1_subset)
  have d: "dll mem (lru_head l p) (lru_tail l p) xs" using lru_dll [OF r(2), of p] by simp
  have ax: "a \<notin> set xs" using lru_dll [OF ok, of p] by (simp add: xs_def dll_def)
  define mem1 where "mem1 = mem(a := (mem a)\<lparr>lru_prev := None, lru_next := lru_head l p\<rparr>)"
  define mem2 where "mem2 = (case lru_head l p of Some b \<Rightarrow> mem1(b := (mem1 b)\<lparr>lru_prev := Some a\<rparr>) | None \<Rightarrow> mem1)"
  note f = link_front [OF d ax, folded mem1_def, folded mem2_def]
  define l2 where "l2 = l\<lparr>lru_head := (lru_head l)(p := Some a), lru_tail := (lru_tail l)(p := last_opt (Some a) xs)\<rparr>"
  have run: "lru_node_prepend a s = (l2, mem2)"
  proof (cases "lru_head l p")
    case None
    then show ?thesis using f(4) by (simp add: lru_node_prepend_def r(1) Let_def p_def [symmetric] mem1_def mem2_def l2_def)
  next
    case (Some b)
    then have "(lru_tail l)(p := last_opt (Some a) xs) = lru_tail l" using f(4) by (intro fun_upd_idem) simp
    then show ?thesis using Some by (simp add: lru_node_prepend_def r(1) Let_def p_def [symmetric] mem1_def mem2_def l2_def)
  qed
  have er: "erase_links (mem2 x) = erase_links (snd s x)" for x using f(2) [of x] r(3) by (simp add: links_only_def)
  have "lru_ok (l2, mem2) (X(p := a # xs))"
    unfolding lru_ok_def
  proof (intro allI conjI ballI)
    fix q
    show "dll (snd (l2, mem2)) (lru_head (fst (l2, mem2)) q) (lru_tail (fst (l2, mem2)) q) ((X(p := a # xs)) q)"
    proof (cases "q = p")
      case True
      then show ?thesis using f(1) d ax by (simp add: dll_def l2_def)
    next
      case False
      have disj: "x \<noteq> a \<and> x \<notin> set xs" if "x \<in> set (X q)" for x
        using lru_pool_member [OF ok that] lru_pool_member [OF ok, of x p] sub False p_def by blast
      have "links mem2 None (X q) None \<longleftrightarrow> links mem None (X q) None" by (rule links_frame) (use f(3) disj in auto)
      then show ?thesis using lru_dll [OF r(2), of q] False by (simp add: dll_def l2_def)
    qed
  next
    fix q x assume x: "x \<in> set ((X(p := a # xs)) q)"
    have "lru_pool mem2 x = lru_pool (snd s) x" by (rule erase_links_pool [OF er])
    moreover have "lru_pool (snd s) x = q"
    proof (cases "q = p \<and> x = a")
      case False
      then have "x \<in> set (X q)" using x sub by (auto split: if_splits)
      then show ?thesis by (rule lru_pool_member [OF ok])
    qed (simp add: p_def)
    ultimately show "lru_pool (snd (l2, mem2)) x = q" by simp
  qed
  moreover have "links_only X a (snd s) mem2"
    unfolding links_only_def
  proof (intro conjI allI impI)
    fix x
    show "erase_links (mem2 x) = erase_links (snd s x)" by (rule er)
    assume x: "x \<noteq> a \<and> x \<notin> (\<Union>p. set (X p))"
    then have "mem2 x = mem x" using f(3) [of x] sub by blast
    then show "mem2 x = snd s x" using r(3) x unfolding links_only_def by simp
  qed
  ultimately show ?thesis using run by (auto simp: p_def xs_def)
qed

text \<open>
  C40: The pointer operations on the LRU lists implement lists ordered from the most to the least recently used.  On a
  well-formed state, for an object that is in its list or in none, unlinking removes exactly it from the list of its pool,
  touching moves it to the front, all other lists are unchanged, nothing but link fields of list members is
  written, and the tail that eviction takes is the last element.
\<close>

theorem lru_refines_lists:
  assumes "lru_ok s X" "a \<in> set (X (lru_pool (snd s) a)) \<or> detached (snd s) a"
  defines "p \<equiv> lru_pool (snd s) a"
  shows "lru_ok (lru_node_remove a s) (X(p := remove1 a (X p))) \<and> detached (snd (lru_node_remove a s)) a \<and>
    links_only X a (snd s) (snd (lru_node_remove a s)) \<and>
    lru_ok (lru_node_touch a s) (X(p := a # remove1 a (X p))) \<and> links_only X a (snd s) (snd (lru_node_touch a s)) \<and>
    lru_tail (fst s) q = (if X q = [] then None else Some (last (X q)))"
  using lru_remove_ok [OF assms(1,2)] lru_prepend_ok [OF assms(1,2)] lru_dll [OF assms(1), of q]
  by (auto simp: lru_node_touch_def p_def dll_def last_opt_def)

definition sample_lru :: lru_state where
  "sample_lru = (\<lparr>lru_head = (\<lambda>_. None)(0 := Some 1), lru_tail = (\<lambda>_. None)(0 := Some 2)\<rparr>,
     (\<lambda>_. sample_obj)(1 := sample_obj\<lparr>lru_next := Some 2\<rparr>, 2 := sample_obj\<lparr>lru_prev := Some 1\<rparr>))"

lemma lru_refines_lists_witness:
  "lru_tail (fst (lru_node_touch 2 sample_lru)) 0 = Some 1"
proof -
  have ok: "lru_ok sample_lru ((\<lambda>_. [])(0 := [1, 2]))"
    by (auto simp: lru_ok_def sample_lru_def dll_def lru_pool_def sample_obj_def)
  have p: "lru_pool (snd sample_lru) 2 = 0" by (simp add: lru_pool_def sample_lru_def sample_obj_def)
  have t: "lru_ok (lru_node_touch 2 sample_lru) (((\<lambda>_. [])(0 := [1, 2]))(0 := [2, 1]))"
    using lru_refines_lists [OF ok, of 2] p by simp
  have "detached (snd (lru_node_touch 2 sample_lru)) 9"
    using lru_refines_lists [OF ok, of 2] p by (auto simp: links_only_def detached_def sample_lru_def sample_obj_def)
  then show ?thesis using lru_refines_lists [OF t, of 9 0] by simp
qed

end
