(* ===== verification/Buddy.thy ===== *)
theory Buddy
  imports Prelude
begin

text \<open>
  Model of \<open>mem/mem_buddy.h\<close>: the allocator of runs of 4 KiB pages.  Pages are numbers below \<open>nr_pages\<close> (at most
  \<open>2 ^ 32 - 1\<close>), the page table and the link array are functions from page numbers, and the free lists of the 21
  orders are doubly linked through the link array.  The theory shows that the lists always hold
  disjoint aligned blocks that together are exactly the free pages.
\<close>

definition BUDDY_NIL :: nat where "BUDDY_NIL = 4294967295"
definition BUDDY_MAX_ORDER :: nat where "BUDDY_MAX_ORDER = 21"

record page_info =
  pg_span :: "nat option"
  pg_span_size :: nat
  offset_in_span :: nat
  pg_free :: bool
  buddy_order :: nat

record buddy_node =
  bn_next :: nat
  bn_prev :: nat

record buddy_allocator =
  pages :: "nat \<Rightarrow> page_info"
  nodes :: "nat \<Rightarrow> buddy_node"
  nr_pages :: nat
  free_heads :: "nat \<Rightarrow> nat"

text \<open>\<open>31 - __builtin_clz(n)\<close> and \<open>__builtin_ctz(n)\<close> for \<open>n > 0\<close>.\<close>

fun log2n :: "nat \<Rightarrow> nat" where
  "log2n n = (if n \<le> 1 then 0 else Suc (log2n (n div 2)))"

fun ctzn :: "nat \<Rightarrow> nat" where
  "ctzn n = (if n = 0 \<or> odd n then 0 else Suc (ctzn (n div 2)))"

declare log2n.simps [simp del] ctzn.simps [simp del]

definition buddy_math_ceil_log2 :: "nat \<Rightarrow> nat" where
  "buddy_math_ceil_log2 n = (if n \<le> 1 then 0 else 1 + log2n (n - 1))"

definition set_bnext :: "nat \<Rightarrow> nat \<Rightarrow> buddy_allocator \<Rightarrow> buddy_allocator" where
  "set_bnext i v b = b\<lparr>nodes := (nodes b)(i := (nodes b i)\<lparr>bn_next := v\<rparr>)\<rparr>"

definition set_bprev :: "nat \<Rightarrow> nat \<Rightarrow> buddy_allocator \<Rightarrow> buddy_allocator" where
  "set_bprev i v b = b\<lparr>nodes := (nodes b)(i := (nodes b i)\<lparr>bn_prev := v\<rparr>)\<rparr>"

definition node_reset :: "nat \<Rightarrow> buddy_allocator \<Rightarrow> buddy_allocator" where
  "node_reset i b = b\<lparr>nodes := (nodes b)(i := \<lparr>bn_next = BUDDY_NIL, bn_prev = BUDDY_NIL\<rparr>)\<rparr>"

definition buddy_list_node_remove :: "nat \<Rightarrow> buddy_allocator \<Rightarrow> buddy_allocator" where
  "buddy_list_node_remove idx b =
     (let ord = buddy_order (pages b idx); prv = bn_prev (nodes b idx); nxt = bn_next (nodes b idx);
          b = (if prv \<noteq> BUDDY_NIL then set_bnext prv nxt b else b\<lparr>free_heads := (free_heads b)(ord := nxt)\<rparr>);
          b = (if nxt \<noteq> BUDDY_NIL then set_bprev nxt prv b else b)
      in node_reset idx b)"

definition buddy_list_node_push :: "nat \<Rightarrow> nat \<Rightarrow> buddy_allocator \<Rightarrow> buddy_allocator" where
  "buddy_list_node_push idx ord b =
     (let h = free_heads b ord;
          b = b\<lparr>pages := (pages b)(idx := (pages b idx)\<lparr>buddy_order := ord\<rparr>),
                nodes := (nodes b)(idx := \<lparr>bn_next = h, bn_prev = BUDDY_NIL\<rparr>)\<rparr>;
          b = (if h \<noteq> BUDDY_NIL then set_bprev h idx b else b)
      in b\<lparr>free_heads := (free_heads b)(ord := idx)\<rparr>)"

definition buddy_alloc_init :: "(nat \<Rightarrow> page_info) \<Rightarrow> (nat \<Rightarrow> buddy_node) \<Rightarrow> nat \<Rightarrow> buddy_allocator" where
  "buddy_alloc_init pgs nds n = \<lparr>pages = pgs, nodes = nds, nr_pages = n, free_heads = (\<lambda>_. BUDDY_NIL)\<rparr>"

text \<open>The loop that clears the page entries of a freed run.\<close>

definition mark_free :: "nat \<Rightarrow> nat \<Rightarrow> buddy_allocator \<Rightarrow> buddy_allocator" where
  "mark_free idx n b = b\<lparr>pages := (\<lambda>p. if idx \<le> p \<and> p < idx + n
     then \<lparr>pg_span = None, pg_span_size = 0, offset_in_span = 0, pg_free = True, buddy_order = 0\<rparr> else pages b p)\<rparr>"

definition buddy_block_free :: "nat \<Rightarrow> nat \<Rightarrow> buddy_allocator \<Rightarrow> buddy_allocator" where
  "buddy_block_free idx order b = buddy_list_node_push idx order (node_reset idx (mark_free idx (2 ^ order) b))"

definition free_order :: "nat \<Rightarrow> nat \<Rightarrow> nat" where
  "free_order pos fin =
     (let ord_size = log2n (fin - pos);
          ord_align = (if pos = 0 then ord_size else ctzn pos);
          order = (if ord_size < ord_align then ord_size else ord_align)
      in if BUDDY_MAX_ORDER \<le> order then BUDDY_MAX_ORDER - 1 else order)"

function free_loop :: "nat \<Rightarrow> nat \<Rightarrow> buddy_allocator \<Rightarrow> buddy_allocator" where
  "free_loop pos fin b =
     (if pos < fin then
        free_loop (pos + 2 ^ free_order pos fin) fin (buddy_list_node_push pos (free_order pos fin) (node_reset pos b))
      else b)"
  by pat_completeness auto
termination by (relation "measure (\<lambda>(pos, fin, b). fin - pos)") (auto intro: diff_less_mono2)

declare free_loop.simps [simp del]

definition buddy_span_free :: "nat \<Rightarrow> nat \<Rightarrow> buddy_allocator \<Rightarrow> buddy_allocator" where
  "buddy_span_free idx n b =
     (if 0 < n \<and> n AND (n - 1) = 0 \<and> idx AND (n - 1) = 0 then
        buddy_block_free idx (if n = 1 then 0 else log2n n) b
      else free_loop idx (idx + n) (mark_free idx n b))"

text \<open>One order of the coalescing pass; the walk restarts at the head after a merge.\<close>

fun coalesce_list :: "nat \<Rightarrow> nat \<Rightarrow> nat \<Rightarrow> buddy_allocator \<Rightarrow> buddy_allocator option" where
  "coalesce_list 0 ord idx b = None"
| "coalesce_list (Suc fuel) ord idx b =
     (if idx = BUDDY_NIL then Some b
      else
        (let next_idx = bn_next (nodes b idx); buddy_idx = idx XOR 2 ^ ord
         in if buddy_idx < nr_pages b \<and> pg_free (pages b buddy_idx) \<and> buddy_order (pages b buddy_idx) = ord then
              (let merged = push_bit (ord + 1) (drop_bit (ord + 1) idx);
                   b = buddy_list_node_remove buddy_idx (buddy_list_node_remove idx b);
                   b = buddy_list_node_push merged (ord + 1) (node_reset merged b)
               in coalesce_list fuel ord (free_heads b ord) b)
            else coalesce_list fuel ord next_idx b))"

function coalesce_from :: "nat \<Rightarrow> nat \<Rightarrow> nat \<Rightarrow> buddy_allocator \<Rightarrow> (bool \<times> buddy_allocator) option" where
  "coalesce_from fuel ord target b =
     (if ord < target \<and> ord + 1 < BUDDY_MAX_ORDER then
        (case coalesce_list fuel ord (free_heads b ord) b of
           None \<Rightarrow> None
         | Some b \<Rightarrow> if free_heads b target \<noteq> BUDDY_NIL then Some (True, b) else coalesce_from fuel (ord + 1) target b)
      else Some (free_heads b target \<noteq> BUDDY_NIL, b))"
  by pat_completeness auto
termination by (relation "measure (\<lambda>(fuel, ord, target, b). target - ord)") auto

declare coalesce_from.simps [simp del]

text \<open>The walk of one order takes at most \<open>(nr_pages + 1) ^ 2\<close> steps.\<close>

definition buddy_span_coalesce :: "nat \<Rightarrow> buddy_allocator \<Rightarrow> (bool \<times> buddy_allocator) option" where
  "buddy_span_coalesce target b = coalesce_from ((nr_pages b + 1) ^ 2) 0 target b"

definition first_order :: "nat \<Rightarrow> buddy_allocator \<Rightarrow> nat option" where
  "first_order order b = find (\<lambda>ord. free_heads b ord \<noteq> BUDDY_NIL) [order..<BUDDY_MAX_ORDER]"

definition buddy_span_check :: "nat \<Rightarrow> buddy_allocator \<Rightarrow> (bool \<times> buddy_allocator) option" where
  "buddy_span_check n b =
     (if n = 0 then Some (False, b)
      else
        (let target = buddy_math_ceil_log2 n
         in if BUDDY_MAX_ORDER \<le> target then Some (False, b)
            else if first_order target b \<noteq> None then Some (True, b)
            else buddy_span_coalesce target b))"

text \<open>Halving the block at \<open>idx\<close> from order \<open>found\<close> down to \<open>order\<close>.\<close>

fun buddy_split :: "nat \<Rightarrow> nat \<Rightarrow> nat \<Rightarrow> buddy_allocator \<Rightarrow> buddy_allocator" where
  "buddy_split 0 order idx b = b"
| "buddy_split (Suc found) order idx b =
     (if order < Suc found then
        (let half = idx + 2 ^ found;
             b = b\<lparr>pages := (pages b)(half := (pages b half)\<lparr>pg_free := True\<rparr>)\<rparr>
         in buddy_split found order idx (buddy_list_node_push half found (node_reset half b)))
      else b)"

definition span_page :: "nat \<Rightarrow> nat \<Rightarrow> page_info" where
  "span_page n i = \<lparr>pg_span = None, pg_span_size = n, offset_in_span = i mod 65536, pg_free = False, buddy_order = 0\<rparr>"

definition mark_span :: "nat \<Rightarrow> nat \<Rightarrow> buddy_allocator \<Rightarrow> buddy_allocator" where
  "mark_span idx n b = b\<lparr>pages := (\<lambda>p. if idx \<le> p \<and> p < idx + n
     then span_page n (p - idx) else pages b p)\<rparr>"

text \<open>The first page of the run, \<open>None\<close> for \<open>INVALID\<close>.\<close>

definition buddy_span_alloc :: "nat \<Rightarrow> buddy_allocator \<Rightarrow> nat option \<times> buddy_allocator" where
  "buddy_span_alloc n b =
     (if n = 0 then (None, b)
      else
        (let order = buddy_math_ceil_log2 n
         in if BUDDY_MAX_ORDER \<le> order then (None, b)
            else
              (case first_order order b of
                 None \<Rightarrow> (None, b)
               | Some found \<Rightarrow>
                   (let idx = free_heads b found;
                        b = buddy_list_node_remove idx b;
                        b = b\<lparr>pages := (pages b)(idx := (pages b idx)\<lparr>pg_free := False\<rparr>)\<rparr>;
                        b = mark_span idx n (buddy_split found order idx b);
                        alloc_size = 2 ^ order
                    in (Some idx, if n < alloc_size then buddy_span_free (idx + n) (alloc_size - n) b else b)))))"


section \<open>Arithmetic\<close>

lemma log2n_bounds: "0 < n \<Longrightarrow> 2 ^ log2n n \<le> n \<and> n < 2 ^ Suc (log2n n)"
proof (induction n rule: log2n.induct)
  case (1 n)
  show ?case
  proof (cases "n \<le> 1")
    case True
    then show ?thesis using 1 by (simp add: log2n.simps)
  next
    case False
    then have "2 ^ log2n (n div 2) \<le> n div 2 \<and> n div 2 < 2 ^ Suc (log2n (n div 2))" by (intro "1.IH") auto
    then show ?thesis using False by (simp add: log2n.simps [of n]) linarith
  qed
qed

lemma ctzn_dvd: "2 ^ ctzn n dvd n"
proof (induction n rule: ctzn.induct)
  case (1 n)
  show ?case
  proof (cases "n = 0 \<or> odd n")
    case False
    then obtain m where "n div 2 = 2 ^ ctzn (n div 2) * m" using 1 by blast
    then have "n = 2 ^ Suc (ctzn (n div 2)) * m" using False by (metis dvd_mult_div_cancel mult.assoc power_Suc)
    moreover have "ctzn n = Suc (ctzn (n div 2))" using False by (simp add: ctzn.simps [of n])
    ultimately show ?thesis by (metis dvd_triv_left)
  qed (auto simp: ctzn.simps)
qed

lemma ceil_log2_bounds: "0 < n \<Longrightarrow> n \<le> 2 ^ buddy_math_ceil_log2 n"
  using log2n_bounds [of "n - 1"] by (auto simp: buddy_math_ceil_log2_def)

lemma pow2_and: 
  assumes "0 < n" "n AND (n - 1) = (0 :: nat)"
  shows "n = 2 ^ log2n n"
proof (rule ccontr)
  assume ne: "n \<noteq> 2 ^ log2n n"
  let ?k = "log2n n"
  have b: "2 ^ ?k \<le> n" "n < 2 ^ Suc ?k" using log2n_bounds [OF assms(1)] by auto
  then have "2 ^ ?k \<le> n - 1" using ne by simp
  then have "n div 2 ^ ?k = 1" "(n - 1) div 2 ^ ?k = 1" using b by (simp_all add: Suc_leI div_nat_eqI)
  then have "bit n ?k" "bit (n - 1) ?k" by (simp_all add: bit_iff_odd)
  then have "bit (n AND (n - 1)) ?k" by (simp add: bit_and_iff)
  then show False using assms(2) by simp
qed

lemma and_mask_dvd: "idx AND (2 ^ k - 1) = (0 :: nat) \<Longrightarrow> 2 ^ k dvd idx"
  unfolding mask_eq_exp_minus_1 [symmetric] take_bit_eq_mask [symmetric] by (simp add: take_bit_eq_mod mod_eq_0_iff_dvd)

lemma free_order_ok:
  assumes "pos < fin"
  shows "free_order pos fin < BUDDY_MAX_ORDER \<and> 2 ^ free_order pos fin dvd pos \<and> pos + 2 ^ free_order pos fin \<le> fin"
proof -
  let ?s = "log2n (fin - pos)" and ?o = "free_order pos fin"
  have le: "?o \<le> ?s" by (auto simp: free_order_def Let_def)
  have "(2 :: nat) ^ ?o \<le> 2 ^ ?s" using le by simp
  moreover have "2 ^ ?s \<le> fin - pos" using log2n_bounds [of "fin - pos"] assms by simp
  ultimately have "pos + 2 ^ ?o \<le> fin" using assms by linarith
  moreover have "?o \<le> ctzn pos" if "pos \<noteq> 0" using that by (auto simp: free_order_def Let_def)
  then have "2 ^ ?o dvd pos" using ctzn_dvd [of pos] power_le_dvd by (cases "pos = 0") auto
  ultimately show ?thesis by (auto simp: free_order_def Let_def BUDDY_MAX_ORDER_def)
qed

section \<open>Linked free lists\<close>

definition hd_ix :: "nat list \<Rightarrow> nat \<Rightarrow> nat" where
  "hd_ix xs d = (case xs of [] \<Rightarrow> d | x # _ \<Rightarrow> x)"

primrec blinks :: "(nat \<Rightarrow> buddy_node) \<Rightarrow> nat \<Rightarrow> nat list \<Rightarrow> nat \<Rightarrow> bool" where
  "blinks nd pv [] nx \<longleftrightarrow> True"
| "blinks nd pv (x # xs) nx \<longleftrightarrow> nd x = \<lparr>bn_next = hd_ix xs nx, bn_prev = pv\<rparr> \<and> blinks nd x xs nx"

definition last_ix :: "nat \<Rightarrow> nat list \<Rightarrow> nat" where
  "last_ix d xs = (if xs = [] then d else last xs)"

lemma hd_ix_simps [simp]: "hd_ix [] d = d" "hd_ix (x # xs) d = x" "hd_ix (xs @ y # ys) d = hd_ix xs y"
  by (auto simp: hd_ix_def split: list.splits)

lemma last_ix_simps [simp]: "last_ix d [] = d" "last_ix d (xs @ [x]) = x" "last_ix d (x # xs) = last_ix x xs"
  by (auto simp: last_ix_def)

lemma blinks_append: "blinks nd pv (xs @ ys) nx \<longleftrightarrow> blinks nd pv xs (hd_ix ys nx) \<and> blinks nd (last_ix pv xs) ys nx"
  by (induction xs arbitrary: pv) (auto simp: hd_ix_def split: list.splits)

lemma blinks_frame: "(\<And>x. x \<in> set xs \<Longrightarrow> nd' x = nd x) \<Longrightarrow> blinks nd' pv xs nx \<longleftrightarrow> blinks nd pv xs nx"
  by (induction xs arbitrary: pv) auto

lemma blinks_set_next:
  assumes "blinks nd pv (xs @ [x]) nx" "x \<notin> set xs"
  shows "blinks (nd(x := (nd x)\<lparr>bn_next := nx'\<rparr>)) pv (xs @ [x]) nx'"
proof -
  have "blinks (nd(x := (nd x)\<lparr>bn_next := nx'\<rparr>)) pv xs x \<longleftrightarrow> blinks nd pv xs x" by (rule blinks_frame) (use assms(2) in auto)
  then show ?thesis using assms(1) by (simp add: blinks_append)
qed

lemma blinks_set_prev:
  assumes "blinks nd pv (x # xs) nx" "x \<notin> set xs"
  shows "blinks (nd(x := (nd x)\<lparr>bn_prev := pv'\<rparr>)) pv' (x # xs) nx"
proof -
  have "blinks (nd(x := (nd x)\<lparr>bn_prev := pv'\<rparr>)) x xs nx \<longleftrightarrow> blinks nd x xs nx" by (rule blinks_frame) (use assms(2) in auto)
  then show ?thesis using assms(1) by simp
qed

lemma blinks_unlink:
  assumes l: "blinks nd BUDDY_NIL (ys @ a # zs) BUDDY_NIL" and d: "distinct (ys @ a # zs)"
    and small: "\<forall>x \<in> set (ys @ a # zs). x \<noteq> BUDDY_NIL"
  defines "nd1 \<equiv> (if bn_prev (nd a) \<noteq> BUDDY_NIL then nd(bn_prev (nd a) := (nd (bn_prev (nd a)))\<lparr>bn_next := bn_next (nd a)\<rparr>) else nd)"
  defines "nd2 \<equiv> (if bn_next (nd a) \<noteq> BUDDY_NIL then nd1(bn_next (nd a) := (nd1 (bn_next (nd a)))\<lparr>bn_prev := bn_prev (nd a)\<rparr>) else nd1)"
  shows "blinks nd2 BUDDY_NIL (ys @ zs) BUDDY_NIL" "\<And>x. x \<notin> set (ys @ zs) \<Longrightarrow> nd2 x = nd x"
    "bn_prev (nd a) = last_ix BUDDY_NIL ys" "bn_next (nd a) = hd_ix zs BUDDY_NIL"
proof -
  show pv: "bn_prev (nd a) = last_ix BUDDY_NIL ys" and nx: "bn_next (nd a) = hd_ix zs BUDDY_NIL" using l by (simp_all add: blinks_append)
  have ly: "blinks nd BUDDY_NIL ys a" and lz: "blinks nd a zs BUDDY_NIL" using l by (simp_all add: blinks_append)
  have y1: "blinks nd1 BUDDY_NIL ys (hd_ix zs BUDDY_NIL)" and o1: "\<And>x. x \<notin> set ys \<Longrightarrow> nd1 x = nd x"
    using blinks_set_next [of nd BUDDY_NIL "butlast ys" "last ys" a "hd_ix zs BUDDY_NIL"] ly d small
    by (cases ys rule: rev_cases; auto simp: nd1_def pv nx)+
  have z1: "blinks nd1 a zs BUDDY_NIL" using lz blinks_frame [of zs nd1 nd] o1 d by fastforce
  have o2: "\<And>x. x \<notin> set zs \<Longrightarrow> nd2 x = nd1 x" using small by (cases zs) (auto simp: nd2_def nx)
  have y2: "blinks nd2 BUDDY_NIL ys (hd_ix zs BUDDY_NIL)" using y1 blinks_frame [of ys nd2 nd1] o2 d by fastforce
  have z2: "blinks nd2 (last_ix BUDDY_NIL ys) zs BUDDY_NIL"
  proof (cases zs)
    case (Cons z zs')
    then show ?thesis using blinks_set_prev [of nd1 a z zs' BUDDY_NIL "last_ix BUDDY_NIL ys"] z1 d small by (simp add: nd2_def nx pv)
  qed simp
  show "blinks nd2 BUDDY_NIL (ys @ zs) BUDDY_NIL" using y2 z2 by (simp add: blinks_append)
  show "\<And>x. x \<notin> set (ys @ zs) \<Longrightarrow> nd2 x = nd x" using o1 o2 by simp
qed

section \<open>Blocks\<close>

definition block :: "nat \<Rightarrow> nat \<Rightarrow> nat set" where
  "block i ord = {i..<i + 2 ^ ord}"

definition covered :: "(nat \<Rightarrow> nat list) \<Rightarrow> nat set" where
  "covered F = (\<Union>ord. \<Union>i \<in> set (F ord). block i ord)"

definition free_pages :: "buddy_allocator \<Rightarrow> nat set" where
  "free_pages b = {p. p < nr_pages b \<and> pg_free (pages b p)}"

text \<open>The lists \<open>F\<close> of block starts, one per order: linked as in the link array, disjoint, aligned and in range.\<close>

definition lists_linked :: "buddy_allocator \<Rightarrow> (nat \<Rightarrow> nat list) \<Rightarrow> bool" where
  "lists_linked b F \<longleftrightarrow> (\<forall>ord < BUDDY_MAX_ORDER. free_heads b ord = hd_ix (F ord) BUDDY_NIL \<and> blinks (nodes b) BUDDY_NIL (F ord) BUDDY_NIL)"

definition blocks_ok :: "buddy_allocator \<Rightarrow> (nat \<Rightarrow> nat list) \<Rightarrow> bool" where
  "blocks_ok b F \<longleftrightarrow> nr_pages b \<le> BUDDY_NIL \<and> (\<forall>ord. distinct (F ord)) \<and>
     (\<forall>ord i. i \<in> set (F ord) \<longrightarrow> ord < BUDDY_MAX_ORDER \<and> 2 ^ ord dvd i \<and> i + 2 ^ ord \<le> nr_pages b \<and> buddy_order (pages b i) = ord) \<and>
     (\<forall>ord i ord' i'. i \<in> set (F ord) \<and> i' \<in> set (F ord') \<and> (i, ord) \<noteq> (i', ord') \<longrightarrow> block i ord \<inter> block i' ord' = {})"

definition buddy_inv :: "buddy_allocator \<Rightarrow> (nat \<Rightarrow> nat list) \<Rightarrow> bool" where
  "buddy_inv b F \<longleftrightarrow> lists_linked b F \<and> blocks_ok b F"

lemma block_start [simp]: "i \<in> block i ord"
  by (simp add: block_def)

lemma covered_list: "covered (F(ord := xs)) = (\<Union>i \<in> set xs. block i ord) \<union> (\<Union>q \<in> - {ord}. \<Union>i \<in> set (F q). block i q)"
proof -
  have "covered (F(ord := xs)) = (\<Union>q \<in> insert ord (- {ord}). \<Union>i \<in> set ((F(ord := xs)) q). block i q)"
    unfolding covered_def by (rule arg_cong [where f = "\<lambda>A. \<Union>q \<in> A. _ q"]) auto
  also have "\<dots> = (\<Union>i \<in> set xs. block i ord) \<union> (\<Union>q \<in> - {ord}. \<Union>i \<in> set ((F(ord := xs)) q). block i q)"
    unfolding UN_insert by simp
  finally show ?thesis by simp
qed

lemma covered_upd: "covered (F(ord := i # xs)) = block i ord \<union> covered (F(ord := xs))"
  by (simp add: covered_list Un_assoc)

lemma block_covered: "i \<in> set (F ord) \<Longrightarrow> block i ord \<subseteq> covered F"
  by (auto simp: covered_def)

lemma block_member:
  assumes "buddy_inv b F" "i \<in> set (F ord)"
  shows "ord < BUDDY_MAX_ORDER" "2 ^ ord dvd i" "i + 2 ^ ord \<le> nr_pages b" "buddy_order (pages b i) = ord" "i \<noteq> BUDDY_NIL"
proof -
  show a: "ord < BUDDY_MAX_ORDER" "2 ^ ord dvd i" "i + 2 ^ ord \<le> nr_pages b" "buddy_order (pages b i) = ord"
    using assms by (auto simp: buddy_inv_def blocks_ok_def)
  have "nr_pages b \<le> BUDDY_NIL" "0 < (2 :: nat) ^ ord" using assms by (auto simp: buddy_inv_def blocks_ok_def)
  then show "i \<noteq> BUDDY_NIL" using a(3) by linarith
qed

lemma block_disjoint:
  "buddy_inv b F \<Longrightarrow> i \<in> set (F ord) \<Longrightarrow> i' \<in> set (F ord') \<Longrightarrow> (i, ord) \<noteq> (i', ord') \<Longrightarrow> block i ord \<inter> block i' ord' = {}"
  unfolding buddy_inv_def blocks_ok_def by blast

lemma list_of_start: "buddy_inv b F \<Longrightarrow> i \<in> set (F ord) \<Longrightarrow> i \<in> set (F ord') \<Longrightarrow> ord = ord'"
  using block_disjoint [of b F i ord i ord'] block_start [of i ord] block_start [of i ord'] by blast

lemma covered_bound: "buddy_inv b F \<Longrightarrow> p \<in> covered F \<Longrightarrow> p < nr_pages b"
proof -
  assume inv: "buddy_inv b F" and "p \<in> covered F"
  then obtain ord i where "i \<in> set (F ord)" "p \<in> block i ord" by (auto simp: covered_def)
  then show "p < nr_pages b" using block_member(3) [OF inv, of i ord] by (auto simp: block_def)
qed

text \<open>Page entries off the block starts do not matter.\<close>

lemma buddy_inv_pages:
  assumes "buddy_inv b F" "nodes b' = nodes b" "free_heads b' = free_heads b" "nr_pages b' = nr_pages b"
    and "\<And>p. p \<in> covered F \<Longrightarrow> buddy_order (pages b' p) = buddy_order (pages b p)"
  shows "buddy_inv b' F"
proof -
  have "buddy_order (pages b' i) = buddy_order (pages b i)" if "i \<in> set (F ord)" for i ord
    using assms(5) block_covered [where F = F, OF that] block_start by blast
  then show ?thesis using assms(1-4) by (simp add: buddy_inv_def lists_linked_def blocks_ok_def)
qed

lemma push_inv:
  assumes inv: "buddy_inv b F" and o: "ord < BUDDY_MAX_ORDER" "2 ^ ord dvd idx" "idx + 2 ^ ord \<le> nr_pages b"
    and free: "block idx ord \<inter> covered F = {}"
  shows "buddy_inv (buddy_list_node_push idx ord (node_reset idx b)) (F(ord := idx # F ord))"
proof -
  let ?b = "buddy_list_node_push idx ord (node_reset idx b)" and ?F = "F(ord := idx # F ord)"
  define h where "h = free_heads b ord"
  have new: "idx \<notin> set (F q)" for q using free block_covered [of idx F q] block_start [of idx] by blast
  have hh: "h = hd_ix (F ord) BUDDY_NIL" and lk: "blinks (nodes b) BUDDY_NIL (F ord) BUDDY_NIL"
    using inv o(1) by (auto simp: buddy_inv_def lists_linked_def h_def)
  define nd where "nd = (nodes b)(idx := \<lparr>bn_next = h, bn_prev = BUDDY_NIL\<rparr>)"
  define nd' where "nd' = (if h \<noteq> BUDDY_NIL then nd(h := (nd h)\<lparr>bn_prev := idx\<rparr>) else nd)"
  have fields: "nodes ?b = nd'" "free_heads ?b = (free_heads b)(ord := idx)" "nr_pages ?b = nr_pages b"
    "pages ?b = (pages b)(idx := (pages b idx)\<lparr>buddy_order := ord\<rparr>)"
    by (simp_all add: buddy_list_node_push_def node_reset_def set_bprev_def Let_def nd'_def nd_def h_def)
  have dist: "distinct (F q)" for q using inv by (simp add: buddy_inv_def blocks_ok_def)
  have head: "blinks nd' idx (F ord) BUDDY_NIL"
  proof (cases "F ord")
    case (Cons y ys)
    have "blinks nd BUDDY_NIL (F ord) BUDDY_NIL" using lk blinks_frame [of "F ord" nd "nodes b"] new by (fastforce simp: nd_def)
    then show ?thesis using blinks_set_prev [of nd BUDDY_NIL y ys BUDDY_NIL idx] Cons dist [of ord] hh block_member(5) [OF inv, of y ord]
      by (simp add: nd'_def)
  qed simp
  have off: "nd' x = nodes b x" if "x \<noteq> idx" "x \<notin> set (F ord)" for x
    using that hh by (cases "F ord") (auto simp: nd'_def nd_def)
  have self: "nd' idx = \<lparr>bn_next = h, bn_prev = BUDDY_NIL\<rparr>" using new [of ord] hh by (cases "F ord") (auto simp: nd'_def nd_def)
  have "lists_linked ?b ?F"
    unfolding lists_linked_def
  proof (intro allI impI)
    fix q assume q: "q < BUDDY_MAX_ORDER"
    show "free_heads ?b q = hd_ix (?F q) BUDDY_NIL \<and> blinks (nodes ?b) BUDDY_NIL (?F q) BUDDY_NIL"
    proof (cases "q = ord")
      case True
      then show ?thesis using head self hh by (simp add: fields)
    next
      case False
      have "nd' x = nodes b x" if "x \<in> set (F q)" for x
        using off [of x] new [of q] that list_of_start [OF inv that, of ord] False by blast
      then have "blinks nd' BUDDY_NIL (F q) BUDDY_NIL \<longleftrightarrow> blinks (nodes b) BUDDY_NIL (F q) BUDDY_NIL" by (rule blinks_frame)
      then show ?thesis using inv q False by (simp add: fields buddy_inv_def lists_linked_def)
    qed
  qed
  moreover have "blocks_ok ?b ?F"
    unfolding blocks_ok_def
  proof (intro conjI allI impI)
    show "nr_pages ?b \<le> BUDDY_NIL" using inv by (simp add: fields buddy_inv_def blocks_ok_def)
    show "distinct (?F q)" for q using dist new by simp
  next
    fix q i assume "i \<in> set (?F q)"
    then consider "i = idx" "q = ord" | "i \<in> set (F q)" "i \<noteq> idx" using new by (auto split: if_splits)
    then have "q < BUDDY_MAX_ORDER \<and> 2 ^ q dvd i \<and> i + 2 ^ q \<le> nr_pages ?b \<and> buddy_order (pages ?b i) = q"
      by cases (use o block_member [OF inv] in \<open>simp_all add: fields\<close>)
    then show "q < BUDDY_MAX_ORDER" "2 ^ q dvd i" "i + 2 ^ q \<le> nr_pages ?b" "buddy_order (pages ?b i) = q" by auto
  next
    fix q i q' i' assume a: "i \<in> set (?F q) \<and> i' \<in> set (?F q') \<and> (i, q) \<noteq> (i', q')"
    have out: "block idx ord \<inter> block j r = {}" if "j \<in> set (F r)" for j r using free block_covered [where F = F, OF that] by blast
    consider "i = idx" "q = ord" "i' \<in> set (F q')" | "i' = idx" "q' = ord" "i \<in> set (F q)" | "i \<in> set (F q)" "i' \<in> set (F q')"
      using a by (auto split: if_splits)
    then show "block i q \<inter> block i' q' = {}"
      by cases (use out block_disjoint [OF inv] a in \<open>blast+\<close>)
  qed
  ultimately show ?thesis by (simp add: buddy_inv_def)
qed

lemma push_fields:
  "nr_pages (buddy_list_node_push idx ord (node_reset idx b)) = nr_pages b"
  "pages (buddy_list_node_push idx ord (node_reset idx b)) = (pages b)(idx := (pages b idx)\<lparr>buddy_order := ord\<rparr>)"
  by (simp_all add: buddy_list_node_push_def node_reset_def set_bprev_def Let_def)

lemma remove_fields:
  "nr_pages (buddy_list_node_remove idx b) = nr_pages b" "pages (buddy_list_node_remove idx b) = pages b"
  by (simp_all add: buddy_list_node_remove_def node_reset_def set_bprev_def set_bnext_def Let_def)

lemma remove_inv:
  assumes inv: "buddy_inv b F" and i: "idx \<in> set (F ord)"
  shows "buddy_inv (buddy_list_node_remove idx b) (F(ord := remove1 idx (F ord)))"
    "covered (F(ord := remove1 idx (F ord))) = covered F - block idx ord"
proof -
  let ?b = "buddy_list_node_remove idx b" and ?F = "F(ord := remove1 idx (F ord))"
  note m = block_member [OF inv i]
  obtain ys zs where xs: "F ord = ys @ idx # zs" using split_list [OF i] by blast
  have dist: "distinct (F q)" for q using inv by (simp add: buddy_inv_def blocks_ok_def)
  have r: "remove1 idx (F ord) = ys @ zs" using dist [of ord] by (simp add: xs remove1_append)
  have lk: "blinks (nodes b) BUDDY_NIL (ys @ idx # zs) BUDDY_NIL" and hd: "free_heads b ord = hd_ix (F ord) BUDDY_NIL"
    using inv m(1) by (auto simp: buddy_inv_def lists_linked_def xs [symmetric])
  have nn: "x \<noteq> BUDDY_NIL" if "x \<in> set (F ord)" for x using block_member(5) [OF inv that] .
  define nd1 where "nd1 = (if bn_prev (nodes b idx) \<noteq> BUDDY_NIL then (nodes b)(bn_prev (nodes b idx) := (nodes b (bn_prev (nodes b idx)))\<lparr>bn_next := bn_next (nodes b idx)\<rparr>) else nodes b)"
  define nd2 where "nd2 = (if bn_next (nodes b idx) \<noteq> BUDDY_NIL then nd1(bn_next (nodes b idx) := (nd1 (bn_next (nodes b idx)))\<lparr>bn_prev := bn_prev (nodes b idx)\<rparr>) else nd1)"
  note u = blinks_unlink [OF lk, folded nd1_def, folded nd2_def]
  have u': "blinks nd2 BUDDY_NIL (ys @ zs) BUDDY_NIL" "\<And>x. x \<notin> set (ys @ zs) \<Longrightarrow> nd2 x = nodes b x"
    "bn_prev (nodes b idx) = last_ix BUDDY_NIL ys" "bn_next (nodes b idx) = hd_ix zs BUDDY_NIL"
    using u dist [of ord] nn unfolding xs by blast+
  have fields: "nodes ?b = nd2(idx := \<lparr>bn_next = BUDDY_NIL, bn_prev = BUDDY_NIL\<rparr>)"
    "free_heads ?b = (if bn_prev (nodes b idx) \<noteq> BUDDY_NIL then free_heads b else (free_heads b)(ord := bn_next (nodes b idx)))"
    by (simp_all add: buddy_list_node_remove_def node_reset_def set_bprev_def set_bnext_def Let_def nd1_def nd2_def m(4))
  have fh: "free_heads ?b q = (if q = ord then hd_ix (ys @ zs) BUDDY_NIL else free_heads b q)" for q
    using hd nn by (cases ys rule: rev_cases) (auto simp: fields(2) u'(3,4) xs)
  have idx: "idx \<notin> set (ys @ zs)" using dist [of ord] by (simp add: xs)
  have "lists_linked ?b ?F"
    unfolding lists_linked_def
  proof (intro allI impI)
    fix q assume q: "q < BUDDY_MAX_ORDER"
    show "free_heads ?b q = hd_ix (?F q) BUDDY_NIL \<and> blinks (nodes ?b) BUDDY_NIL (?F q) BUDDY_NIL"
    proof (cases "q = ord")
      case True
      have "blinks (nodes ?b) BUDDY_NIL (ys @ zs) BUDDY_NIL \<longleftrightarrow> blinks nd2 BUDDY_NIL (ys @ zs) BUDDY_NIL"
        by (rule blinks_frame) (use idx in \<open>auto simp: fields(1)\<close>)
      then show ?thesis using True u'(1) fh r by simp
    next
      case False
      have "nodes ?b x = nodes b x" if "x \<in> set (F q)" for x
        using u'(2) [of x] list_of_start [OF inv that, of ord] False idx by (auto simp: fields(1) xs)
      then have "blinks (nodes ?b) BUDDY_NIL (F q) BUDDY_NIL \<longleftrightarrow> blinks (nodes b) BUDDY_NIL (F q) BUDDY_NIL" by (rule blinks_frame)
      then show ?thesis using inv q False fh by (simp add: buddy_inv_def lists_linked_def)
    qed
  qed
  moreover have sub: "set (?F q) \<subseteq> set (F q)" for q by (auto dest: notin_set_remove1 set_remove1_subset [THEN subsetD])
  have "blocks_ok ?b ?F"
    using inv sub dist unfolding buddy_inv_def blocks_ok_def remove_fields by (intro conjI allI impI; (simp add: distinct_remove1; fail)?) (meson subsetD)+
  ultimately show "buddy_inv ?b ?F" by (simp add: buddy_inv_def)
  show "covered ?F = covered F - block idx ord"
  proof -
    have "covered (F(ord := F ord)) = block idx ord \<union> covered ?F" unfolding covered_list r unfolding xs by auto
    then have "covered F = block idx ord \<union> covered ?F" by simp
    moreover have "block idx ord \<inter> covered ?F = {}"
    proof -
      have "block idx ord \<inter> block j q = {}" if "j \<in> set (?F q)" for j q
      proof -
        have "(idx, ord) \<noteq> (j, q)" using that idx r by auto
        then show ?thesis using block_disjoint [OF inv i] that sub by blast
      qed
      then show ?thesis by (auto simp: covered_def)
    qed
    ultimately show ?thesis by blast
  qed
qed

section \<open>Freeing\<close>

text \<open>The allocator differs in the recorded order of pages of \<open>A\<close> only.\<close>

definition order_only :: "nat set \<Rightarrow> buddy_allocator \<Rightarrow> buddy_allocator \<Rightarrow> bool" where
  "order_only A b b' \<longleftrightarrow> nr_pages b' = nr_pages b \<and> (\<forall>p. p \<notin> A \<longrightarrow> pages b' p = pages b p) \<and>
     (\<forall>p. (pages b' p)\<lparr>buddy_order := 0\<rparr> = (pages b p)\<lparr>buddy_order := 0\<rparr>)"

lemma order_only_refl [simp]: "order_only A b b"
  by (simp add: order_only_def)

lemma order_only_trans:
  assumes a: "order_only A b b'" and b: "order_only B b' b''" and sub: "A \<subseteq> C" "B \<subseteq> C"
  shows "order_only C b b''"
  unfolding order_only_def
proof (intro conjI allI impI)
  show "nr_pages b'' = nr_pages b" using a b by (simp add: order_only_def)
  fix p
  show "(pages b'' p)\<lparr>buddy_order := 0\<rparr> = (pages b p)\<lparr>buddy_order := 0\<rparr>" using a b by (simp add: order_only_def)
  assume "p \<notin> C"
  then have "p \<notin> A" "p \<notin> B" using sub by auto
  then show "pages b'' p = pages b p" using a b by (simp add: order_only_def)
qed

lemma order_only_push: "idx \<in> A \<Longrightarrow> order_only A b (buddy_list_node_push idx ord (node_reset idx b))"
  by (auto simp: order_only_def push_fields)

lemma order_only_free:
  assumes "order_only A b b'"
  shows "pg_free (pages b' p) = pg_free (pages b p)"
proof -
  have "pg_free ((pages b' p)\<lparr>buddy_order := 0\<rparr>) = pg_free ((pages b p)\<lparr>buddy_order := 0\<rparr>)"
    using assms by (simp only: order_only_def)
  then show ?thesis by simp
qed

lemma ivl_join: "(a :: nat) \<le> m \<Longrightarrow> m \<le> c \<Longrightarrow> {a..<m} \<union> {m..<c} = {a..<c}"
  by auto

lemma free_loop_ok:
  "buddy_inv b F \<Longrightarrow> fin \<le> nr_pages b \<Longrightarrow> {pos..<fin} \<inter> covered F = {} \<Longrightarrow>
   \<exists>F'. buddy_inv (free_loop pos fin b) F' \<and> covered F' = covered F \<union> {pos..<fin} \<and> order_only {pos..<fin} b (free_loop pos fin b)"
proof (induction pos fin b arbitrary: F rule: free_loop.induct)
  case (1 pos fin b)
  show ?case
  proof (cases "pos < fin")
    case False
    then show ?thesis using 1 by (intro exI [of _ F]) (auto simp: free_loop.simps)
  next
    case True
    define ord where "ord = free_order pos fin"
    define b' where "b' = buddy_list_node_push pos ord (node_reset pos b)"
    have o: "ord < BUDDY_MAX_ORDER" "2 ^ ord dvd pos" "pos + 2 ^ ord \<le> fin" using free_order_ok [OF True] by (auto simp: ord_def)
    have blk: "block pos ord \<subseteq> {pos..<fin}" "block pos ord = {pos..<pos + 2 ^ ord}" using o(3) by (auto simp: block_def)
    have inv: "buddy_inv b' (F(ord := pos # F ord))" unfolding b'_def
      by (rule push_inv [OF "1.prems"(1) o(1,2)]) (use "1.prems"(2,3) o(3) blk(1) in \<open>linarith, blast\<close>)
    have cov: "covered (F(ord := pos # F ord)) = block pos ord \<union> covered F" by (simp add: covered_upd)
    have "{pos + 2 ^ ord..<fin} \<subseteq> {pos..<fin}" "{pos + 2 ^ ord..<fin} \<inter> {pos..<pos + 2 ^ ord} = {}" by auto
    then have "{pos + 2 ^ ord..<fin} \<inter> covered (F(ord := pos # F ord)) = {}" using "1.prems"(3) unfolding cov blk(2) by blast
    moreover have "fin \<le> nr_pages b'" using "1.prems"(2) by (simp add: b'_def push_fields)
    ultimately obtain F' where F': "buddy_inv (free_loop (pos + 2 ^ ord) fin b') F'"
      "covered F' = covered (F(ord := pos # F ord)) \<union> {pos + 2 ^ ord..<fin}"
      "order_only {pos + 2 ^ ord..<fin} b' (free_loop (pos + 2 ^ ord) fin b')"
      using "1.IH" [OF True, folded ord_def, folded b'_def, OF inv] by blast
    have run: "free_loop pos fin b = free_loop (pos + 2 ^ ord) fin b'" using True by (simp add: free_loop.simps [of pos] ord_def b'_def)
    have "order_only {pos..<pos + 1} b b'" unfolding b'_def by (rule order_only_push) simp
    then have "order_only {pos..<fin} b (free_loop pos fin b)" unfolding run by (rule order_only_trans [OF _ F'(3)]) (use True in simp_all)
    moreover have "covered F' = covered F \<union> {pos..<fin}"
      using F'(2) ivl_join [OF le_add1 o(3)] unfolding cov blk(2) by blast
    ultimately show ?thesis by (intro exI [of _ F'] conjI) (simp_all only: run F'(1))
  qed
qed

definition page_cleared :: page_info where
  "page_cleared = \<lparr>pg_span = None, pg_span_size = 0, offset_in_span = 0, pg_free = True, buddy_order = 0\<rparr>"

lemma mark_free_fields:
  "nodes (mark_free idx n b) = nodes b" "free_heads (mark_free idx n b) = free_heads b" "nr_pages (mark_free idx n b) = nr_pages b"
  "pages (mark_free idx n b) p = (if p \<in> {idx..<idx + n} then page_cleared else pages b p)"
  by (simp_all add: mark_free_def page_cleared_def)

lemma span_free_ok:
  assumes inv: "buddy_inv b F" and r: "idx + n \<le> nr_pages b" "{idx..<idx + n} \<inter> covered F = {}" "n < 2 ^ BUDDY_MAX_ORDER"
  shows "\<exists>F'. buddy_inv (buddy_span_free idx n b) F' \<and> covered F' = covered F \<union> {idx..<idx + n} \<and>
    nr_pages (buddy_span_free idx n b) = nr_pages b \<and>
    (\<forall>p. p \<notin> {idx..<idx + n} \<longrightarrow> pages (buddy_span_free idx n b) p = pages b p) \<and>
    (\<forall>p \<in> {idx..<idx + n}. (pages (buddy_span_free idx n b) p)\<lparr>buddy_order := 0\<rparr> = page_cleared)"
proof -
  define m where "m = mark_free idx n b"
  have minv: "buddy_inv m F"
    by (rule buddy_inv_pages [OF inv]) (use r(2) in \<open>auto simp: m_def mark_free_fields\<close>)
  have nr: "nr_pages m = nr_pages b" by (simp add: m_def mark_free_fields)
  have "\<exists>F'. buddy_inv (buddy_span_free idx n b) F' \<and> covered F' = covered F \<union> {idx..<idx + n} \<and>
      order_only {idx..<idx + n} m (buddy_span_free idx n b)"
  proof (cases "0 < n \<and> n AND (n - 1) = 0 \<and> idx AND (n - 1) = 0")
    case True
    define ord where "ord = log2n n"
    have n: "n = 2 ^ ord" using pow2_and True by (auto simp: ord_def)
    have one: "(if n = 1 then 0 else log2n n) = ord" by (simp add: ord_def log2n.simps [of "Suc 0"])
    have run: "buddy_span_free idx n b = buddy_list_node_push idx ord (node_reset idx m)"
      unfolding buddy_span_free_def if_P [OF True] one unfolding buddy_block_free_def m_def n ..
    have "(2 :: nat) ^ ord < 2 ^ BUDDY_MAX_ORDER" using r(3) n by simp
    then have ord: "ord < BUDDY_MAX_ORDER" by simp
    have "idx AND (2 ^ ord - 1) = 0" using True n by simp
    then have "2 ^ ord dvd idx" by (rule and_mask_dvd)
    moreover have blk: "block idx ord = {idx..<idx + n}" by (simp add: block_def n)
    ultimately have "buddy_inv (buddy_span_free idx n b) (F(ord := idx # F ord))"
      unfolding run by (intro push_inv [OF minv ord]) (use r n nr in auto)
    moreover have "covered (F(ord := idx # F ord)) = covered F \<union> {idx..<idx + n}" by (auto simp: covered_upd blk)
    moreover have "order_only {idx..<idx + n} m (buddy_span_free idx n b)" unfolding run by (rule order_only_push) (use True in auto)
    ultimately show ?thesis by blast
  next
    case False
    then have run: "buddy_span_free idx n b = free_loop idx (idx + n) m" unfolding buddy_span_free_def m_def by (rule if_not_P)
    show ?thesis unfolding run by (rule free_loop_ok [OF minv]) (use r nr in auto)
  qed
  then obtain F' where F': "buddy_inv (buddy_span_free idx n b) F'" "covered F' = covered F \<union> {idx..<idx + n}"
    "order_only {idx..<idx + n} m (buddy_span_free idx n b)" by blast
  have "(pages (buddy_span_free idx n b) p)\<lparr>buddy_order := 0\<rparr> = page_cleared" if "p \<in> {idx..<idx + n}" for p
  proof -
    have "pages m p = page_cleared" using that by (simp add: m_def mark_free_fields)
    then show ?thesis using F'(3) by (simp add: order_only_def page_cleared_def)
  qed
  moreover have "pages (buddy_span_free idx n b) p = pages b p" if "p \<notin> {idx..<idx + n}" for p
    using F'(3) that mark_free_fields(4) [of idx n b p] unfolding order_only_def m_def by (metis (no_types, lifting))
  moreover have "nr_pages (buddy_span_free idx n b) = nr_pages b" using F'(3) nr by (simp add: order_only_def)
  ultimately show ?thesis using F'(1,2) by blast
qed

section \<open>Allocating\<close>

lemma ivl_halves: "(a :: nat) \<le> b \<Longrightarrow> {i + b..<i + b + b} \<union> {i + a..<i + b} = {i + a..<i + 2 * b}"
  by auto

lemma ivl_split: "(a :: nat) \<le> b \<Longrightarrow> {i..<i + b} = {i..<i + a} \<union> {i + a..<i + b}"
  by auto

lemma ivl_sub:
  assumes "0 < (b :: nat)" "a \<le> b"
  shows "{i + b} \<subseteq> {i + a..<i + 2 * b}" "{i + a..<i + b} \<subseteq> {i + a..<i + 2 * b}"
  using assms by auto

lemma split_ok:
  "buddy_inv b F \<Longrightarrow> order \<le> found \<Longrightarrow> found < BUDDY_MAX_ORDER \<Longrightarrow> 2 ^ found dvd idx \<Longrightarrow> idx + 2 ^ found \<le> nr_pages b \<Longrightarrow>
   block idx found \<inter> covered F = {} \<Longrightarrow> (\<forall>p \<in> {idx + 1..<idx + 2 ^ found}. pg_free (pages b p)) \<Longrightarrow>
   \<exists>F'. buddy_inv (buddy_split found order idx b) F' \<and> covered F' = covered F \<union> {idx + 2 ^ order..<idx + 2 ^ found} \<and>
     order_only {idx + 2 ^ order..<idx + 2 ^ found} b (buddy_split found order idx b)"
proof (induction found arbitrary: b F)
  case 0
  then show ?case by (intro exI [of _ F]) simp
next
  case (Suc f)
  show ?case
  proof (cases "order < Suc f")
    case False
    then have "order = Suc f" using Suc.prems(2) by simp
    then show ?thesis using Suc.prems(1) by (intro exI [of _ F]) simp
  next
    case True
    define half where "half = idx + 2 ^ f"
    define b1 where "b1 = b\<lparr>pages := (pages b)(half := (pages b half)\<lparr>pg_free := True\<rparr>)\<rparr>"
    define b2 where "b2 = buddy_list_node_push half f (node_reset half b1)"
    have pos: "0 < (2 :: nat) ^ f" by simp
    have fr: "pg_free (pages b half)" using Suc.prems(7) pos unfolding half_def by (simp add: Suc_leI)
    have b1: "b1 = b" using fr by (simp add: b1_def fun_upd_idem)
    have "2 ^ f dvd idx" by (rule dvd_trans [OF _ Suc.prems(4)]) (simp add: le_imp_power_dvd)
    then have al: "2 ^ f dvd half" by (simp add: half_def)
    have blk: "block half f \<subseteq> block idx (Suc f)" "block half f = {half..<half + 2 ^ f}" by (auto simp: block_def half_def)
    have inv: "buddy_inv b2 (F(f := half # F f))" unfolding b2_def b1
      by (rule push_inv [OF Suc.prems(1) _ al]) (use Suc.prems blk(1) in \<open>auto simp: half_def\<close>)
    have cov: "covered (F(f := half # F f)) = block half f \<union> covered F" by (simp add: covered_upd)
    have oo: "order_only {half} b b2" unfolding b2_def b1 by (rule order_only_push) simp
    have "\<exists>F'. buddy_inv (buddy_split f order idx b2) F' \<and> covered F' = covered (F(f := half # F f)) \<union> {idx + 2 ^ order..<idx + 2 ^ f} \<and>
       order_only {idx + 2 ^ order..<idx + 2 ^ f} b2 (buddy_split f order idx b2)"
    proof (rule Suc.IH [OF inv])
      show "order \<le> f" "f < BUDDY_MAX_ORDER" "2 ^ f dvd idx" using True Suc.prems(3) \<open>2 ^ f dvd idx\<close> by auto
      show "idx + 2 ^ f \<le> nr_pages b2" using Suc.prems(5) oo by (simp add: order_only_def)
      have "block idx f \<subseteq> block idx (Suc f)" "block idx f \<inter> block half f = {}" by (auto simp: block_def half_def)
      then show "block idx f \<inter> covered (F(f := half # F f)) = {}" using Suc.prems(6) unfolding cov by blast
      show "\<forall>p \<in> {idx + 1..<idx + 2 ^ f}. pg_free (pages b2 p)" using Suc.prems(7) order_only_free [OF oo] by simp
    qed
    then obtain F' where F': "buddy_inv (buddy_split f order idx b2) F'"
      "covered F' = covered (F(f := half # F f)) \<union> {idx + 2 ^ order..<idx + 2 ^ f}"
      "order_only {idx + 2 ^ order..<idx + 2 ^ f} b2 (buddy_split f order idx b2)" by blast
    have run: "buddy_split (Suc f) order idx b = buddy_split f order idx b2" unfolding buddy_split.simps if_P [OF True] Let_def half_def b1_def b2_def ..
    have le: "(2 :: nat) ^ order \<le> 2 ^ f" using True by simp
    have "covered F' = covered F \<union> {idx + 2 ^ order..<idx + 2 ^ Suc f}" unfolding F'(2) cov unfolding power_Suc ivl_halves [OF le, of idx, symmetric] block_def half_def by (simp only: Un_ac)
    moreover have "order_only {idx + 2 ^ order..<idx + 2 ^ Suc f} b (buddy_split (Suc f) order idx b)"
      unfolding run power_Suc by (rule order_only_trans [OF oo F'(3)])
        (unfold half_def, rule ivl_sub(1) [OF pos le], rule ivl_sub(2) [OF pos le])
    ultimately show ?thesis by (intro exI [of _ F'] conjI) (simp_all only: run F'(1))
  qed
qed


lemma first_order_cases:
  assumes inv: "buddy_inv b F"
  shows "first_order order b = None \<longleftrightarrow> (\<forall>ord \<ge> order. F ord = [])"
    "first_order order b = Some found \<Longrightarrow> order \<le> found \<and> found < BUDDY_MAX_ORDER \<and> F found \<noteq> [] \<and> free_heads b found = hd (F found)"
proof -
  have hd: "free_heads b ord = hd_ix (F ord) BUDDY_NIL" if "ord < BUDDY_MAX_ORDER" for ord
    using inv that by (simp add: buddy_inv_def lists_linked_def)
  have nil: "free_heads b ord = BUDDY_NIL \<longleftrightarrow> F ord = []" if "ord < BUDDY_MAX_ORDER" for ord
    using hd [OF that] block_member(5) [OF inv, of "hd (F ord)" ord] by (cases "F ord") auto
  have out: "F ord = []" if "BUDDY_MAX_ORDER \<le> ord" for ord
    using block_member(1) [OF inv, of "hd (F ord)" ord] that by (cases "F ord") auto
  show "first_order order b = None \<longleftrightarrow> (\<forall>ord \<ge> order. F ord = [])"
  proof -
    have "first_order order b = None \<longleftrightarrow> (\<forall>ord. order \<le> ord \<and> ord < BUDDY_MAX_ORDER \<longrightarrow> free_heads b ord = BUDDY_NIL)"
      unfolding first_order_def find_None_iff by auto
    also have "\<dots> \<longleftrightarrow> (\<forall>ord. order \<le> ord \<and> ord < BUDDY_MAX_ORDER \<longrightarrow> F ord = [])" using nil by simp
    also have "\<dots> \<longleftrightarrow> (\<forall>ord \<ge> order. F ord = [])" using out leI by blast
    finally show ?thesis .
  qed
  assume f: "first_order order b = Some found"
  then have "order \<le> found" "found < BUDDY_MAX_ORDER" "free_heads b found \<noteq> BUDDY_NIL"
    unfolding first_order_def find_Some_iff by (auto simp: nth_upt)
  moreover from this have "F found \<noteq> []" using nil by simp
  ultimately show "order \<le> found \<and> found < BUDDY_MAX_ORDER \<and> F found \<noteq> [] \<and> free_heads b found = hd (F found)"
    using hd [of found] by (cases "F found") auto
qed

lemma mark_span_fields:
  "nodes (mark_span idx n b) = nodes b" "free_heads (mark_span idx n b) = free_heads b" "nr_pages (mark_span idx n b) = nr_pages b"
  "pages (mark_span idx n b) p = (if p \<in> {idx..<idx + n} then span_page n (p - idx) else pages b p)"
  by (simp_all add: mark_span_def)

lemma alloc_step:
  assumes inv: "buddy_inv b F" and cov: "covered F = free_pages b" and n: "0 < n" "n \<le> 2 ^ order"
    and fo: "order \<le> found" "F found = idx # rest"
  defines "b1 \<equiv> buddy_list_node_remove idx b"
  defines "b2 \<equiv> b1\<lparr>pages := (pages b1)(idx := (pages b1 idx)\<lparr>pg_free := False\<rparr>)\<rparr>"
  defines "b3 \<equiv> mark_span idx n (buddy_split found order idx b2)"
  shows "\<exists>F'. buddy_inv b3 F' \<and> covered F' = free_pages b - {idx..<idx + 2 ^ order} \<and> {idx..<idx + 2 ^ order} \<subseteq> free_pages b \<and>
    nr_pages b3 = nr_pages b \<and> (\<forall>p \<in> {idx..<idx + n}. pages b3 p = span_page n (p - idx)) \<and>
    (\<forall>p. p \<notin> {idx..<idx + n} \<longrightarrow> (pages b3 p)\<lparr>buddy_order := 0\<rparr> = (pages b p)\<lparr>buddy_order := 0\<rparr>) \<and>
    (\<forall>p. p \<notin> block idx found \<longrightarrow> pages b3 p = pages b p)"
proof -
  have mem: "idx \<in> set (F found)" using fo(2) by simp
  note m = block_member [OF inv mem]
  define F1 where "F1 = F(found := remove1 idx (F found))"
  have i1: "buddy_inv b1 F1" and c1: "covered F1 = free_pages b - block idx found"
    using remove_inv [OF inv mem] by (simp_all add: b1_def F1_def cov)
  have blk: "block idx found \<subseteq> free_pages b" using block_covered [where F = F, OF mem] cov by simp
  have i2: "buddy_inv b2 F1"
    by (rule buddy_inv_pages [OF i1]) (use c1 in \<open>auto simp: b2_def\<close>)
  have f2: "nr_pages b2 = nr_pages b" "pages b2 = (pages b)(idx := (pages b idx)\<lparr>pg_free := False\<rparr>)"
    by (simp_all add: b2_def b1_def remove_fields)
  have le: "(2 :: nat) ^ order \<le> 2 ^ found" using fo(1) by simp
  have "\<exists>F'. buddy_inv (buddy_split found order idx b2) F' \<and> covered F' = covered F1 \<union> {idx + 2 ^ order..<idx + 2 ^ found} \<and>
     order_only {idx + 2 ^ order..<idx + 2 ^ found} b2 (buddy_split found order idx b2)"
  proof (rule split_ok [OF i2 fo(1) m(1,2)])
    show "idx + 2 ^ found \<le> nr_pages b2" using m(3) f2 by simp
    show "block idx found \<inter> covered F1 = {}" using c1 by blast
    have "pg_free (pages b p)" if "p \<in> block idx found" for p using blk that by (auto simp: free_pages_def)
    then show "\<forall>p \<in> {idx + 1..<idx + 2 ^ found}. pg_free (pages b2 p)" by (auto simp: f2 block_def)
  qed
  then obtain F' where F': "buddy_inv (buddy_split found order idx b2) F'" "covered F' = covered F1 \<union> {idx + 2 ^ order..<idx + 2 ^ found}"
    "order_only {idx + 2 ^ order..<idx + 2 ^ found} b2 (buddy_split found order idx b2)" by blast
  have sets: "block idx found = {idx..<idx + 2 ^ order} \<union> {idx + 2 ^ order..<idx + 2 ^ found}" unfolding block_def by (rule ivl_split [OF le])
  have c: "covered F' = free_pages b - {idx..<idx + 2 ^ order}"
    using F'(2) c1 blk unfolding sets by auto
  have r1: "buddy_inv b3 F'"
    by (rule buddy_inv_pages [OF F'(1)]) (use c n(2) in \<open>auto simp: b3_def mark_span_fields\<close>)
  have r2: "nr_pages b3 = nr_pages b" using F'(3) f2 by (simp add: b3_def mark_span_fields order_only_def)
  have oo: "\<And>p. p \<notin> {idx + 2 ^ order..<idx + 2 ^ found} \<Longrightarrow> pages (buddy_split found order idx b2) p = pages b2 p"
      "\<And>p. (pages (buddy_split found order idx b2) p)\<lparr>buddy_order := 0\<rparr> = (pages b2 p)\<lparr>buddy_order := 0\<rparr>"
    using F'(3) unfolding order_only_def by blast+
  have p2: "pages b2 p = pages b p" if "p \<noteq> idx" for p using that f2(2) by simp
  have e: "pages b3 p = pages (buddy_split found order idx b2) p" if "p \<notin> {idx..<idx + n}" for p
    using that by (simp only: b3_def mark_span_fields if_False)
  have r3: "(pages b3 p)\<lparr>buddy_order := 0\<rparr> = (pages b p)\<lparr>buddy_order := 0\<rparr>" if "p \<notin> {idx..<idx + n}" for p
  proof -
    have "p \<noteq> idx" using that n(1) by auto
    then show ?thesis unfolding e [OF that] oo(2) by (simp add: p2)
  qed
  have r4: "pages b3 p = pages b p" if "p \<notin> block idx found" for p
  proof -
    have "p \<noteq> idx" "p \<notin> {idx + 2 ^ order..<idx + 2 ^ found}" "p \<notin> {idx..<idx + 2 ^ order}" using that block_start [of idx found] sets by auto
    moreover from this have "p \<notin> {idx..<idx + n}" using n(2) by auto
    ultimately show ?thesis by (simp add: e oo(1) p2)
  qed
  have r5: "pages b3 p = span_page n (p - idx)" if "p \<in> {idx..<idx + n}" for p
    using that by (simp only: b3_def mark_span_fields if_True)
  have r6: "{idx..<idx + 2 ^ order} \<subseteq> free_pages b" using blk sets by blast
  show ?thesis
    by (rule exI [of _ F'], intro conjI ballI allI impI) (fact r1, fact c, fact r6, fact r2, erule r5, erule r3, erule r4)
qed

section \<open>Coalescing\<close>

lemma xor_one_nat: "(m :: nat) XOR 1 = (if even m then m + 1 else m - 1)"
  using xor_one_eq [of m] by auto

lemma buddy_of:
  "(2 ^ k * m) XOR 2 ^ k = (2 ^ k * (if even m then m + 1 else m - 1) :: nat)"
proof -
  have "push_bit k m XOR push_bit k 1 = push_bit k (m XOR 1)" by (simp add: push_bit_xor)
  then show ?thesis by (simp add: push_bit_eq_mult mult.commute xor_one_nat [unfolded One_nat_def])
qed

lemma block_div: "2 ^ k dvd i \<Longrightarrow> p \<in> block i k \<longleftrightarrow> p div 2 ^ k = i div 2 ^ k"
proof -
  assume "2 ^ k dvd i"
  then obtain m where i: "i = 2 ^ k * m" by blast
  have "p \<in> block i k \<longleftrightarrow> 2 ^ k * m \<le> p \<and> p < 2 ^ k * Suc m" by (simp add: block_def i add.commute)
  also have "\<dots> \<longleftrightarrow> p div 2 ^ k = m"
    by (metis (no_types, lifting) div_nat_eqI dividend_less_times_div mult.commute times_div_less_eq_dividend zero_less_numeral zero_less_power mult_Suc_right add.commute)
  finally show ?thesis by (simp add: i)
qed

text \<open>A page that passes the test of the merge is the start of a listed block of the same order.\<close>

lemma buddy_listed:
  assumes inv: "buddy_inv b F" and cov: "covered F = free_pages b" and i: "idx \<in> set (F ord)"
    and q: "q = idx XOR 2 ^ ord" "q < nr_pages b" "pg_free (pages b q)" "buddy_order (pages b q) = ord"
  shows "q \<in> set (F ord)" "q \<noteq> idx" "block idx ord \<union> block q ord = block (push_bit (ord + 1) (drop_bit (ord + 1) idx)) (ord + 1)"
proof -
  obtain m where m: "idx = 2 ^ ord * m" using block_member(2) [OF inv i] by blast
  define m' where "m' = (if even m then m + 1 else m - 1)"
  have qm: "q = 2 ^ ord * m'" by (simp add: q(1) m buddy_of m'_def)
  have half: "m' div 2 = m div 2" "m' \<noteq> m" by (auto simp: m'_def elim!: evenE oddE)
  show "q \<noteq> idx" using half by (simp add: qm m)
  have same: "q div 2 ^ o' = idx div 2 ^ o'" if lt: "ord < o'" for o'
  proof -
    obtain d where d: "o' = ord + Suc d" using less_imp_Suc_add [OF lt] by auto
    have "x div 2 ^ o' = x div 2 ^ ord div 2 div 2 ^ d" for x :: nat by (simp add: d power_add div_mult2_eq [symmetric] mult_ac)
    then show ?thesis using half by (simp add: qm m)
  qed
  have "q \<in> covered F" using cov q by (simp add: free_pages_def)
  then obtain o' j where j: "j \<in> set (F o')" "q \<in> block j o'" by (auto simp: covered_def)
  have dj: "q div 2 ^ o' = j div 2 ^ o'" using j(2) block_div [OF block_member(2) [OF inv j(1)]] by simp
  show "q \<in> set (F ord)"
  proof (cases "o' \<le> ord")
    case True
    then have "2 ^ o' dvd q" unfolding qm by (simp add: dvd_mult2 le_imp_power_dvd)
    then have "q = j" using dj block_member(2) [OF inv j(1)] by (metis dvd_mult_div_cancel)
    then have "o' = ord" using block_member(4) [OF inv j(1)] q(4) by simp
    then show ?thesis using j(1) \<open>q = j\<close> by simp
  next
    case False
    then have "idx \<in> block j o'" using same [of o'] dj block_div [OF block_member(2) [OF inv j(1)]] by simp
    then show ?thesis using block_disjoint [OF inv i j(1)] block_start [of idx ord] False by blast
  qed
  have "p \<in> block idx ord \<union> block q ord \<longleftrightarrow> p \<in> block (push_bit (ord + 1) (drop_bit (ord + 1) idx)) (ord + 1)" for p
  proof -
    have "2 ^ (ord + 1) dvd push_bit (ord + 1) (drop_bit (ord + 1) idx)" by (simp add: push_bit_eq_mult)
    then have "p \<in> block (push_bit (ord + 1) (drop_bit (ord + 1) idx)) (ord + 1) \<longleftrightarrow> p div 2 ^ (ord + 1) = idx div 2 ^ (ord + 1)"
      by (simp add: block_div push_bit_eq_mult drop_bit_eq_div)
    also have "\<dots> \<longleftrightarrow> p div 2 ^ ord div 2 = m div 2" by (simp add: m div_mult2_eq [symmetric] mult.commute)
    also have "\<dots> \<longleftrightarrow> p div 2 ^ ord = m \<or> p div 2 ^ ord = m'" by (auto simp: m'_def elim!: evenE oddE)
    also have "\<dots> \<longleftrightarrow> p \<in> block idx ord \<union> block q ord" by (simp add: block_div m qm)
    finally show ?thesis by simp
  qed
  then show "block idx ord \<union> block q ord = block (push_bit (ord + 1) (drop_bit (ord + 1) idx)) (ord + 1)" by blast
qed

definition buddy_state :: "buddy_allocator \<Rightarrow> (nat \<Rightarrow> nat list) \<Rightarrow> bool" where
  "buddy_state b F \<longleftrightarrow> buddy_inv b F \<and> covered F = free_pages b"

lemma order_only_free_pages: "order_only A b b' \<Longrightarrow> free_pages b' = free_pages b"
  using order_only_free [of A b b'] by (auto simp: free_pages_def order_only_def)

lemma merge_ok:
  assumes st: "buddy_state b F" and i: "idx \<in> set (F ord)" and o: "ord + 1 < BUDDY_MAX_ORDER"
    and q: "q = idx XOR 2 ^ ord" "q < nr_pages b" "pg_free (pages b q)" "buddy_order (pages b q) = ord"
  defines "mg \<equiv> push_bit (ord + 1) (drop_bit (ord + 1) idx)"
  defines "b' \<equiv> buddy_list_node_push mg (ord + 1) (node_reset mg (buddy_list_node_remove q (buddy_list_node_remove idx b)))"
  shows "\<exists>F'. buddy_state b' F' \<and> order_only UNIV b b' \<and> length (F' ord) + 2 = length (F ord)"
proof -
  have inv: "buddy_inv b F" and cov: "covered F = free_pages b" using st by (auto simp: buddy_state_def)
  note l = buddy_listed [OF inv cov i q, folded mg_def]
  define b1 where "b1 = buddy_list_node_remove idx b"
  define F1 where "F1 = F(ord := remove1 idx (F ord))"
  have i1: "buddy_inv b1 F1" and c1: "covered F1 = covered F - block idx ord" using remove_inv [OF inv i] by (simp_all add: b1_def F1_def)
  have q1: "q \<in> set (F1 ord)" using l(1,2) by (simp add: F1_def in_set_remove1)
  define b2 where "b2 = buddy_list_node_remove q b1"
  define F2 where "F2 = F1(ord := remove1 q (F1 ord))"
  have i2: "buddy_inv b2 F2" and c2: "covered F2 = covered F1 - block q ord" using remove_inv [OF i1 q1] by (simp_all add: b2_def F2_def)
  have nr: "nr_pages b2 = nr_pages b" by (simp add: b2_def b1_def remove_fields)
  have blk: "block mg (ord + 1) = block idx ord \<union> block q ord" using l(3) by simp
  have sub: "block mg (ord + 1) \<subseteq> covered F" unfolding blk using block_covered [where F = F, OF i] block_covered [where F = F, OF l(1)] by blast
  have fit: "mg + 2 ^ (ord + 1) \<le> nr_pages b2"
  proof -
    have "0 < (2 :: nat) ^ (ord + 1)" by simp
    then have "mg + 2 ^ (ord + 1) - 1 \<in> block mg (ord + 1)" unfolding block_def atLeastLessThan_iff by linarith
    then have "mg + 2 ^ (ord + 1) - 1 < nr_pages b" using sub covered_bound [OF inv] by blast
    then show ?thesis using nr by linarith
  qed
  have inv': "buddy_inv b' (F2(ord + 1 := mg # F2 (ord + 1)))" unfolding b'_def b2_def [symmetric] b1_def [symmetric]
  proof (rule push_inv [OF i2 o _ fit])
    show "2 ^ (ord + 1) dvd mg" by (simp add: mg_def push_bit_eq_mult)
    show "block mg (ord + 1) \<inter> covered F2 = {}" unfolding blk c2 c1 by blast
  qed
  have cov': "covered (F2(ord + 1 := mg # F2 (ord + 1))) = covered F"
    using sub unfolding covered_upd fun_upd_triv blk c2 c1 by blast
  have oo: "order_only UNIV b b'" by (simp add: b'_def order_only_def push_fields remove_fields)
  have rm: "length (remove1 x xs) + 1 = length xs" if "x \<in> set xs" for x :: nat and xs
    using length_pos_if_in_set [OF that] that by (simp add: length_remove1)
  have "length (F ord) = length (F2 ord) + 2" using rm [OF i] rm [OF q1] by (simp add: F2_def F1_def)
  then show ?thesis
    using inv' cov' order_only_free_pages [OF oo] cov oo unfolding buddy_state_def by (intro exI [of _ "F2(ord + 1 := mg # F2 (ord + 1))"] conjI) simp_all
qed

lemma coalesce_list_ok:
  "buddy_state b F \<Longrightarrow> ord + 1 < BUDDY_MAX_ORDER \<Longrightarrow> F ord = ys @ zs \<Longrightarrow> idx = hd_ix zs BUDDY_NIL \<Longrightarrow>
   length zs + 1 + length (F ord) * (length (F ord) + 1) \<le> fuel \<Longrightarrow>
   \<exists>b' F'. coalesce_list fuel ord idx b = Some b' \<and> buddy_state b' F' \<and> order_only UNIV b b'"
proof (induction fuel arbitrary: idx b F ys zs)
  case (Suc fuel)
  have inv: "buddy_inv b F" using Suc.prems(1) by (simp add: buddy_state_def)
  show ?case
  proof (cases zs)
    case Nil
    then show ?thesis using Suc.prems by (intro exI [of _ b] exI [of _ F]) simp
  next
    case (Cons z zs')
    have z: "idx = z" "idx \<in> set (F ord)" using Cons Suc.prems(3,4) by auto
    have nn: "idx \<noteq> BUDDY_NIL" using block_member(5) [OF inv z(2)] .
    define q where "q = idx XOR 2 ^ ord"
    show ?thesis
    proof (cases "q < nr_pages b \<and> pg_free (pages b q) \<and> buddy_order (pages b q) = ord")
      case True
      define mg where "mg = push_bit (ord + 1) (drop_bit (ord + 1) idx)"
      define b1 where "b1 = buddy_list_node_push mg (ord + 1) (node_reset mg (buddy_list_node_remove q (buddy_list_node_remove idx b)))"
      obtain F1 where F1: "buddy_state b1 F1" "order_only UNIV b b1" "length (F1 ord) + 2 = length (F ord)"
        using merge_ok [OF Suc.prems(1) z(2) Suc.prems(2) q_def, folded mg_def, folded b1_def] True by blast
      have head: "free_heads b1 ord = hd_ix (F1 ord) BUDDY_NIL"
        using F1(1) Suc.prems(2) by (simp add: buddy_state_def buddy_inv_def lists_linked_def)
      have "length (F1 ord) + 1 + length (F1 ord) * (length (F1 ord) + 1) \<le> fuel"
        using Suc.prems(5) unfolding F1(3) [symmetric] by (simp add: algebra_simps)
      then obtain b2 F2 where "coalesce_list fuel ord (free_heads b1 ord) b1 = Some b2" "buddy_state b2 F2" "order_only UNIV b1 b2"
        using Suc.IH [OF F1(1) Suc.prems(2) _ head, of "[]"] by auto
      moreover have "coalesce_list (Suc fuel) ord idx b = coalesce_list fuel ord (free_heads b1 ord) b1"
        unfolding coalesce_list.simps Let_def q_def [symmetric] mg_def [symmetric] b1_def [symmetric] if_not_P [OF nn] if_P [OF True] ..
      ultimately show ?thesis using order_only_trans [OF F1(2), of UNIV b2 UNIV] by auto
    next
      case False
      have lk: "blinks (nodes b) BUDDY_NIL (ys @ z # zs') BUDDY_NIL"
      proof -
        have "ord < BUDDY_MAX_ORDER" using Suc.prems(2) by simp
        then have "blinks (nodes b) BUDDY_NIL (F ord) BUDDY_NIL" using inv unfolding buddy_inv_def lists_linked_def by blast
        then show ?thesis by (simp only: Suc.prems(3) Cons)
      qed
      then have nx: "bn_next (nodes b idx) = hd_ix zs' BUDDY_NIL" by (simp add: blinks_append z(1))
      have "F ord = (ys @ [z]) @ zs'" using Suc.prems(3) Cons by simp
      moreover have "length zs' + 1 + length (F ord) * (length (F ord) + 1) \<le> fuel" using Suc.prems(5) Cons by simp
      ultimately obtain b2 F2 where "coalesce_list fuel ord (bn_next (nodes b idx)) b = Some b2" "buddy_state b2 F2" "order_only UNIV b b2"
        using Suc.IH [OF Suc.prems(1,2) _ nx] by blast
      moreover have "coalesce_list (Suc fuel) ord idx b = coalesce_list fuel ord (bn_next (nodes b idx)) b"
        unfolding coalesce_list.simps Let_def q_def [symmetric] if_not_P [OF nn] if_not_P [OF False] ..
      ultimately show ?thesis by auto
    qed
  qed
qed simp

lemma free_list_short:
  assumes "buddy_inv b F"
  shows "length (F ord) \<le> nr_pages b"
proof -
  have "i < nr_pages b" if "i \<in> set (F ord)" for i
  proof -
    have "0 < (2 :: nat) ^ ord" by simp
    then show ?thesis using block_member(3) [OF assms that] by linarith
  qed
  then have "set (F ord) \<subseteq> {..<nr_pages b}" by blast
  moreover have "distinct (F ord)" using assms by (simp add: buddy_inv_def blocks_ok_def)
  ultimately show ?thesis by (metis card_lessThan card_mono distinct_card finite_lessThan)
qed

lemma square_fuel: "(n :: nat) \<le> m \<Longrightarrow> n + 1 + n * (n + 1) \<le> (m + 1) ^ 2"
  using mult_le_mono [of "n + 1" "m + 1" "n + 1" "m + 1"] by (simp add: power2_eq_square)

lemma coalesce_from_ok:
  "buddy_state b F \<Longrightarrow> target < BUDDY_MAX_ORDER \<Longrightarrow> (nr_pages b + 1) ^ 2 \<le> fuel \<Longrightarrow>
   \<exists>r b' F'. coalesce_from fuel ord target b = Some (r, b') \<and> buddy_state b' F' \<and> order_only UNIV b b' \<and> (r \<longleftrightarrow> free_heads b' target \<noteq> BUDDY_NIL)"
proof (induction fuel ord target b arbitrary: F rule: coalesce_from.induct)
  case (1 fuel ord target b)
  show ?case
  proof (cases "ord < target \<and> ord + 1 < BUDDY_MAX_ORDER")
    case False
    then show ?thesis using 1 by (intro exI [of _ "free_heads b target \<noteq> BUDDY_NIL"] exI [of _ b] exI [of _ F]) (simp add: coalesce_from.simps)
  next
    case True
    have inv: "buddy_inv b F" using "1.prems"(1) by (simp add: buddy_state_def)
    have head: "free_heads b ord = hd_ix (F ord) BUDDY_NIL" using inv True by (simp add: buddy_inv_def lists_linked_def)
    have "length (F ord) + 1 + length (F ord) * (length (F ord) + 1) \<le> fuel"
      using square_fuel [OF free_list_short [OF inv]] "1.prems"(3) by (rule order_trans)
    then obtain b1 F1 where b1: "coalesce_list fuel ord (free_heads b ord) b = Some b1" "buddy_state b1 F1" "order_only UNIV b b1"
      using coalesce_list_ok [OF "1.prems"(1) conjunct2 [OF True] append_Nil [symmetric] head, of fuel] by blast
    show ?thesis
    proof (cases "free_heads b1 target \<noteq> BUDDY_NIL")
      case found: True
      then show ?thesis using True b1 by (intro exI [of _ True] exI [of _ b1] exI [of _ F1]) (simp add: coalesce_from.simps [of fuel ord])
    next
      case False
      have "(nr_pages b1 + 1) ^ 2 \<le> fuel" using b1(3) "1.prems"(3) by (simp add: order_only_def)
      then obtain r b2 F2 where b2: "coalesce_from fuel (ord + 1) target b1 = Some (r, b2)" "buddy_state b2 F2" "order_only UNIV b1 b2"
          "r \<longleftrightarrow> free_heads b2 target \<noteq> BUDDY_NIL"
        using "1.IH" [OF True b1(1) False b1(2) "1.prems"(2)] by blast
      have "coalesce_from fuel ord target b = Some (r, b2)" using True b1(1) False b2(1) by (simp add: coalesce_from.simps [of fuel ord])
      then show ?thesis using b2 order_only_trans [OF b1(3) b2(3), of UNIV] by auto
    qed
  qed
qed

lemma span_check_ok:
  assumes st: "buddy_state b F"
  shows "\<exists>r b' F'. buddy_span_check n b = Some (r, b') \<and> buddy_state b' F' \<and> order_only UNIV b b' \<and>
    (r \<longrightarrow> 0 < n \<and> buddy_math_ceil_log2 n < BUDDY_MAX_ORDER \<and> first_order (buddy_math_ceil_log2 n) b' \<noteq> None)"
proof (cases "n = 0 \<or> BUDDY_MAX_ORDER \<le> buddy_math_ceil_log2 n \<or> first_order (buddy_math_ceil_log2 n) b \<noteq> None")
  case True
  then show ?thesis using st
    by (intro exI [of _ "n \<noteq> 0 \<and> buddy_math_ceil_log2 n < BUDDY_MAX_ORDER"] exI [of _ b] exI [of _ F]) (auto simp: buddy_span_check_def Let_def)
next
  case False
  define t where "t = buddy_math_ceil_log2 n"
  have t: "t < BUDDY_MAX_ORDER" using False by (simp add: t_def)
  obtain r b' F' where c: "buddy_span_coalesce t b = Some (r, b')" "buddy_state b' F'" "order_only UNIV b b'" "r \<longleftrightarrow> free_heads b' t \<noteq> BUDDY_NIL"
    using coalesce_from_ok [OF st t le_refl] unfolding buddy_span_coalesce_def by blast
  have "first_order t b' \<noteq> None" if "free_heads b' t \<noteq> BUDDY_NIL"
    using that t by (auto simp: first_order_def find_None_iff)
  moreover have "buddy_span_check n b = Some (r, b')" using False c(1) by (simp add: buddy_span_check_def t_def)
  ultimately show ?thesis using c False by (intro exI [of _ r] exI [of _ b'] exI [of _ F']) (auto simp: t_def)
qed

lemma span_alloc_ok:
  assumes st: "buddy_state b F"
  shows "case buddy_span_alloc n b of
      (None, b') \<Rightarrow> b' = b \<and> (n = 0 \<or> BUDDY_MAX_ORDER \<le> buddy_math_ceil_log2 n \<or> first_order (buddy_math_ceil_log2 n) b = None)
    | (Some idx, b') \<Rightarrow> (\<exists>F'. buddy_state b' F') \<and> {idx..<idx + n} \<subseteq> free_pages b \<and> free_pages b' = free_pages b - {idx..<idx + n} \<and>
        (\<forall>p \<in> {idx..<idx + n}. pages b' p = span_page n (p - idx)) \<and> nr_pages b' = nr_pages b \<and>
        (\<forall>p. p \<notin> free_pages b \<longrightarrow> pages b' p = pages b p)"
proof (cases "n = 0 \<or> BUDDY_MAX_ORDER \<le> buddy_math_ceil_log2 n \<or> first_order (buddy_math_ceil_log2 n) b = None")
  case True
  then show ?thesis by (auto simp: buddy_span_alloc_def Let_def)
next
  case False
  define order where "order = buddy_math_ceil_log2 n"
  have inv: "buddy_inv b F" and cov: "covered F = free_pages b" using st by (auto simp: buddy_state_def)
  obtain found where f: "first_order order b = Some found" using False by (auto simp: order_def)
  obtain idx rest where F: "F found = idx # rest" and fo: "order \<le> found" and hd: "free_heads b found = idx"
    using first_order_cases(2) [OF inv f] by (cases "F found") auto
  have n: "0 < n" "n \<le> 2 ^ order" "order < BUDDY_MAX_ORDER" using False ceil_log2_bounds [of n] by (auto simp: order_def)
  define b1 where "b1 = buddy_list_node_remove idx b"
  define b2 where "b2 = b1\<lparr>pages := (pages b1)(idx := (pages b1 idx)\<lparr>pg_free := False\<rparr>)\<rparr>"
  define b3 where "b3 = mark_span idx n (buddy_split found order idx b2)"
  define b4 where "b4 = (if n < 2 ^ order then buddy_span_free (idx + n) (2 ^ order - n) b3 else b3)"
  have run: "buddy_span_alloc n b = (Some idx, b4)"
    using False f hd unfolding buddy_span_alloc_def order_def [symmetric] Let_def by (simp add: b4_def b3_def b2_def b1_def)
  obtain F3 where F3: "buddy_inv b3 F3" "covered F3 = free_pages b - {idx..<idx + 2 ^ order}" "{idx..<idx + 2 ^ order} \<subseteq> free_pages b"
    "nr_pages b3 = nr_pages b" "\<And>p. p \<in> {idx..<idx + n} \<Longrightarrow> pages b3 p = span_page n (p - idx)"
    "\<And>p. p \<notin> {idx..<idx + n} \<Longrightarrow> (pages b3 p)\<lparr>buddy_order := 0\<rparr> = (pages b p)\<lparr>buddy_order := 0\<rparr>"
    "\<And>p. p \<notin> block idx found \<Longrightarrow> pages b3 p = pages b p"
    using alloc_step [OF inv cov n(1,2) fo F, folded b1_def, folded b2_def, folded b3_def] by blast
  have split: "{idx..<idx + 2 ^ order} = {idx..<idx + n} \<union> {idx + n..<idx + 2 ^ order}" by (rule ivl_split [OF n(2)])
  have blk: "block idx found \<subseteq> free_pages b" using block_covered [of idx F found] F cov by simp
  define R where "R = {idx + n..<idx + n + (2 ^ order - n)}"
  have R: "R = {idx + n..<idx + 2 ^ order}" using n(2) by (simp add: R_def)
  have nr: "idx + 2 ^ order \<le> nr_pages b"
  proof -
    have "2 ^ order \<le> (2 :: nat) ^ found" using fo by simp
    moreover have "idx + 2 ^ found \<le> nr_pages b" by (rule block_member(3) [OF inv]) (simp add: F)
    ultimately show ?thesis by linarith
  qed
  have "\<exists>F4. buddy_inv b4 F4 \<and> covered F4 = covered F3 \<union> R \<and> nr_pages b4 = nr_pages b \<and>
     (\<forall>p. p \<notin> R \<longrightarrow> pages b4 p = pages b3 p) \<and> (\<forall>p \<in> R. pg_free (pages b4 p))"
  proof (cases "n < 2 ^ order")
    case True
    have lt: "2 ^ order - n < (2 :: nat) ^ BUDDY_MAX_ORDER"
      using n(1,3) power_strict_increasing [of order BUDDY_MAX_ORDER "2 :: nat"] by linarith
    have fit: "idx + n + (2 ^ order - n) \<le> nr_pages b3" using nr n(2) F3(4) by simp
    have "R \<subseteq> {idx..<idx + 2 ^ order}" unfolding R split by blast
    then have disj: "{idx + n..<idx + n + (2 ^ order - n)} \<inter> covered F3 = {}" unfolding F3(2) R_def [symmetric] by blast
    have e: "b4 = buddy_span_free (idx + n) (2 ^ order - n) b3" using True by (simp add: b4_def)
    obtain F4 where F4: "buddy_inv b4 F4" "covered F4 = covered F3 \<union> R" "nr_pages b4 = nr_pages b3"
      "\<And>p. p \<notin> R \<Longrightarrow> pages b4 p = pages b3 p" "\<And>p. p \<in> R \<Longrightarrow> (pages b4 p)\<lparr>buddy_order := 0\<rparr> = page_cleared"
      using span_free_ok [OF F3(1) fit disj lt, folded e R_def] by blast
    have "pg_free (pages b4 p)" if "p \<in> R" for p
    proof -
      have "pg_free ((pages b4 p)\<lparr>buddy_order := 0\<rparr>)" unfolding F4(5) [OF that] by (simp add: page_cleared_def)
      then show ?thesis by simp
    qed
    then show ?thesis using F4 F3(4) by (intro exI [of _ F4]) simp
  next
    case False
    then show ?thesis using F3 R by (intro exI [of _ F3]) (simp add: b4_def)
  qed
  then obtain F4 where F4: "buddy_inv b4 F4" "covered F4 = covered F3 \<union> R" "nr_pages b4 = nr_pages b"
    "\<And>p. p \<notin> R \<Longrightarrow> pages b4 p = pages b3 p" "\<And>p. p \<in> R \<Longrightarrow> pg_free (pages b4 p)" by blast
  have c4: "covered F4 = free_pages b - {idx..<idx + n}" using F4(2) F3(2,3) R unfolding split by auto
  have sp: "pages b4 p = span_page n (p - idx)" if "p \<in> {idx..<idx + n}" for p using F4(4) [of p] F3(5) [OF that] that by (auto simp: R)
  have flag: "pg_free (pages b4 p) \<longleftrightarrow> p \<notin> {idx..<idx + n} \<and> pg_free (pages b p)" if "p < nr_pages b" for p
  proof -
    consider "p \<in> {idx..<idx + n}" | "p \<in> R" | "p \<notin> {idx..<idx + n}" "p \<notin> R" by blast
    then show ?thesis
    proof cases
      case 1
      then show ?thesis using sp [OF 1] by (simp add: span_page_def)
    next
      case 2
      then have "p \<in> free_pages b" "p \<notin> {idx..<idx + n}" using F3(3) R split by auto
      then show ?thesis using F4(5) [OF 2] by (simp add: free_pages_def)
    next
      case 3
      have "pg_free ((pages b3 p)\<lparr>buddy_order := 0\<rparr>) = pg_free ((pages b p)\<lparr>buddy_order := 0\<rparr>)" unfolding F3(6) [OF 3(1)] ..
      then show ?thesis using F4(4) [OF 3(2)] 3 by simp
    qed
  qed
  have fp: "free_pages b4 = free_pages b - {idx..<idx + n}" using flag by (auto simp: free_pages_def F4(3))
  have frame: "pages b4 p = pages b p" if "p \<notin> free_pages b" for p
  proof -
    have "p \<notin> R" "p \<notin> block idx found" using that F3(3) R split blk by auto
    then show ?thesis using F4(4) F3(7) by simp
  qed
  have "buddy_state b4 F4" using F4(1) c4 fp by (simp add: buddy_state_def)
  moreover have "{idx..<idx + n} \<subseteq> free_pages b" using F3(3) split by blast
  ultimately show ?thesis unfolding run using fp sp frame F4(3) by auto
qed

section \<open>The set of free pages\<close>

definition buddy_ok :: "buddy_allocator \<Rightarrow> bool" where
  "buddy_ok b \<longleftrightarrow> (\<exists>F. buddy_state b F)"

lemma span_free_pages:
  assumes ok: "buddy_ok b" and r: "idx + n \<le> nr_pages b" "{idx..<idx + n} \<inter> free_pages b = {}" "n < 2 ^ BUDDY_MAX_ORDER"
  shows "buddy_ok (buddy_span_free idx n b) \<and> free_pages (buddy_span_free idx n b) = free_pages b \<union> {idx..<idx + n} \<and>
    nr_pages (buddy_span_free idx n b) = nr_pages b \<and> (\<forall>p. p \<notin> {idx..<idx + n} \<longrightarrow> pages (buddy_span_free idx n b) p = pages b p)"
proof -
  obtain F where inv: "buddy_inv b F" and cov: "covered F = free_pages b" using ok by (auto simp: buddy_ok_def buddy_state_def)
  define b' where "b' = buddy_span_free idx n b"
  obtain F' where F': "buddy_inv b' F'" "covered F' = covered F \<union> {idx..<idx + n}" "nr_pages b' = nr_pages b"
    "\<And>p. p \<notin> {idx..<idx + n} \<Longrightarrow> pages b' p = pages b p" "\<And>p. p \<in> {idx..<idx + n} \<Longrightarrow> (pages b' p)\<lparr>buddy_order := 0\<rparr> = page_cleared"
    using span_free_ok [OF inv r(1) r(2) [folded cov] r(3), folded b'_def] by blast
  have fr: "pg_free (pages b' p)" if "p \<in> {idx..<idx + n}" for p
  proof -
    have "pg_free ((pages b' p)\<lparr>buddy_order := 0\<rparr>)" unfolding F'(5) [OF that] by (simp add: page_cleared_def)
    then show ?thesis by simp
  qed
  have fp: "free_pages b' = free_pages b \<union> {idx..<idx + n}"
  proof (intro set_eqI)
    fix p show "p \<in> free_pages b' \<longleftrightarrow> p \<in> free_pages b \<union> {idx..<idx + n}"
      using fr [of p] F'(4) [of p] r(1) by (cases "p \<in> {idx..<idx + n}") (auto simp: free_pages_def F'(3))
  qed
  then have "buddy_state b' F'" using F'(1,2) cov by (simp add: buddy_state_def)
  then show ?thesis unfolding b'_def [symmetric] buddy_ok_def using fp F'(3,4) by blast
qed

text \<open>
  C14: The page allocator implements the set of free pages.  On a well-formed allocator an allocation of \<open>n\<close> pages
  either changes nothing or returns a run of \<open>n\<close> free pages, records its length and offsets in the page table, takes exactly
  these pages from the free set and writes no entry of a page in use; freeing a run gives exactly its
  pages back; the check with coalescing always ends, changes no page, and when it
  answers yes the allocation succeeds.  Every operation keeps the allocator well-formed.
\<close>

theorem buddy_refines_free_set:
  assumes ok: "buddy_ok b"
  shows "(case buddy_span_alloc n b of
      (None, b') \<Rightarrow> b' = b
    | (Some idx, b') \<Rightarrow> buddy_ok b' \<and> {idx..<idx + n} \<subseteq> free_pages b \<and> free_pages b' = free_pages b - {idx..<idx + n} \<and>
        (\<forall>p \<in> {idx..<idx + n}. pages b' p = span_page n (p - idx)) \<and>
        (\<forall>p. p \<notin> free_pages b \<longrightarrow> pages b' p = pages b p)) \<and>
    (\<forall>idx m. idx + m \<le> nr_pages b \<and> {idx..<idx + m} \<inter> free_pages b = {} \<and> m < 2 ^ BUDDY_MAX_ORDER \<longrightarrow>
       buddy_ok (buddy_span_free idx m b) \<and> free_pages (buddy_span_free idx m b) = free_pages b \<union> {idx..<idx + m}) \<and>
    (\<exists>r b'. buddy_span_check n b = Some (r, b') \<and> buddy_ok b' \<and> free_pages b' = free_pages b \<and>
       (r \<longrightarrow> fst (buddy_span_alloc n b') \<noteq> None))"
proof (intro conjI)
  obtain F where st: "buddy_state b F" using ok by (auto simp: buddy_ok_def)
  show "case buddy_span_alloc n b of
      (None, b') \<Rightarrow> b' = b
    | (Some idx, b') \<Rightarrow> buddy_ok b' \<and> {idx..<idx + n} \<subseteq> free_pages b \<and> free_pages b' = free_pages b - {idx..<idx + n} \<and>
        (\<forall>p \<in> {idx..<idx + n}. pages b' p = span_page n (p - idx)) \<and> (\<forall>p. p \<notin> free_pages b \<longrightarrow> pages b' p = pages b p)"
    using span_alloc_ok [OF st, of n] by (auto simp: buddy_ok_def split: prod.splits option.splits)
  show "\<forall>idx m. idx + m \<le> nr_pages b \<and> {idx..<idx + m} \<inter> free_pages b = {} \<and> m < 2 ^ BUDDY_MAX_ORDER \<longrightarrow>
       buddy_ok (buddy_span_free idx m b) \<and> free_pages (buddy_span_free idx m b) = free_pages b \<union> {idx..<idx + m}"
    using span_free_pages [OF ok] by blast
  obtain r b' F' where c: "buddy_span_check n b = Some (r, b')" "buddy_state b' F'" "order_only UNIV b b'"
    "r \<longrightarrow> 0 < n \<and> buddy_math_ceil_log2 n < BUDDY_MAX_ORDER \<and> first_order (buddy_math_ceil_log2 n) b' \<noteq> None"
    using span_check_ok [OF st] by blast
  have "fst (buddy_span_alloc n b') \<noteq> None" if r
    using span_alloc_ok [OF c(2), of n] c(4) that by (auto split: prod.splits option.splits)
  then show "\<exists>r b'. buddy_span_check n b = Some (r, b') \<and> buddy_ok b' \<and> free_pages b' = free_pages b \<and>
       (r \<longrightarrow> fst (buddy_span_alloc n b') \<noteq> None)"
    using c(1,2) order_only_free_pages [OF c(3)] by (intro exI [of _ r] exI [of _ b']) (auto simp: buddy_ok_def)
qed

text \<open>Eight pages, all free.\<close>

definition sample_buddy :: buddy_allocator where
  "sample_buddy = buddy_span_free 0 8 (buddy_alloc_init
     (\<lambda>_. \<lparr>pg_span = None, pg_span_size = 0, offset_in_span = 0, pg_free = False, buddy_order = 0\<rparr>) (\<lambda>_. \<lparr>bn_next = 0, bn_prev = 0\<rparr>) 8)"

lemma empty_buddy_ok:
  assumes "n \<le> BUDDY_NIL" "\<forall>p. \<not> pg_free (pgs p)"
  shows "buddy_ok (buddy_alloc_init pgs nds n)" "free_pages (buddy_alloc_init pgs nds n) = {}" "nr_pages (buddy_alloc_init pgs nds n) = n"
proof -
  show nr: "nr_pages (buddy_alloc_init pgs nds n) = n" and fp: "free_pages (buddy_alloc_init pgs nds n) = {}"
    using assms(2) by (auto simp: buddy_alloc_init_def free_pages_def)
  have "buddy_inv (buddy_alloc_init pgs nds n) (\<lambda>_. [])"
    using assms(1) by (simp add: buddy_inv_def lists_linked_def blocks_ok_def buddy_alloc_init_def)
  then show "buddy_ok (buddy_alloc_init pgs nds n)" using fp unfolding buddy_ok_def buddy_state_def by (intro exI [of _ "\<lambda>_. []"]) (simp add: covered_def)
qed

lemma sample_buddy_ok: "buddy_ok sample_buddy" "free_pages sample_buddy = {0..<8}"
proof -
  define b where "b = buddy_alloc_init (\<lambda>_. \<lparr>pg_span = None, pg_span_size = 0, offset_in_span = 0, pg_free = False, buddy_order = 0\<rparr>) (\<lambda>_. \<lparr>bn_next = 0, bn_prev = 0\<rparr>) 8"
  have b: "buddy_ok b" "free_pages b = {}" "nr_pages b = 8"
    unfolding b_def by (rule empty_buddy_ok; simp add: BUDDY_NIL_def)+
  show "buddy_ok sample_buddy" "free_pages sample_buddy = {0..<8}"
    using span_free_pages [OF b(1), of 0 8] b(2,3) by (simp_all add: sample_buddy_def b_def [symmetric] BUDDY_MAX_ORDER_def)
qed

lemma buddy_refines_free_set_witness:
  "fst (buddy_span_alloc 3 sample_buddy) = Some 0 \<and> free_pages (snd (buddy_span_alloc 3 sample_buddy)) = {3..<8}"
proof -
  have l: "log2n 8 = 3" "buddy_math_ceil_log2 3 = 2" by (simp_all add: log2n.simps buddy_math_ceil_log2_def)
  have fh: "free_heads sample_buddy = (\<lambda>_. BUDDY_NIL)(3 := 0)"
    by (simp add: sample_buddy_def buddy_span_free_def buddy_block_free_def buddy_list_node_push_def node_reset_def mark_free_def
        buddy_alloc_init_def set_bprev_def l Let_def)
  have "first_order 2 sample_buddy = Some 3" by (simp add: first_order_def fh BUDDY_MAX_ORDER_def BUDDY_NIL_def upt_rec_numeral)
  then have r: "fst (buddy_span_alloc 3 sample_buddy) = Some 0"
    by (simp add: buddy_span_alloc_def l fh BUDDY_MAX_ORDER_def Let_def)
  obtain b' where run: "buddy_span_alloc 3 sample_buddy = (Some 0, b')" using r by (cases "buddy_span_alloc 3 sample_buddy") auto
  have "free_pages b' = {0..<8} - {0..<0 + 3}"
    using buddy_refines_free_set [OF sample_buddy_ok(1), of 3] unfolding run by (simp add: sample_buddy_ok(2))
  then show ?thesis using run by auto
qed

end
