(* ===== verification/Pool.thy ===== *)
theory Pool
  imports Buddy
begin

text \<open>
  Model of \<open>mem/mem_pool.h\<close> and \<open>mem/mem_pool.c\<close>: size classes, spans of equal slots carved from the page allocator, and
  the deferred frees of the snapshot thread.  A span and a slot are byte addresses; pool \<open>META\<close> is \<open>span_meta_pool\<close>, the
  source of the \<open>span_info\<close> structures, and pools \<open>0..35\<close> are the size classes.  The intrusive lists (free slots of a span
  linked through their first word, the stack of spans to merge linked through \<open>next_to_merge\<close>, partial and empty spans linked through \<open>next\<close>/\<open>prev\<close>) are lists of addresses, head first.
\<close>

definition LPAGE_SIZE :: nat where "LPAGE_SIZE = 4096"
definition NR_SMALL_POOLS :: nat where "NR_SMALL_POOLS = 36"
definition SMALL_ALLOC_MAX :: nat where "SMALL_ALLOC_MAX = 65536"
definition META :: nat where "META = 36"

text \<open>\<open>sizeof(struct span_info)\<close>: six pointers, two 32-bit, two 16-bit and one 32-bit field.\<close>

definition SPAN_INFO_SIZE :: nat where "SPAN_INFO_SIZE = 64"

record span_info =
  sp_pool :: nat
  freelist :: "nat list"
  snap_freelist :: "nat list"
  head_lpage :: nat
  sp_size :: nat
  nr_alloc :: u16
  nr_snap_alloc :: u16

record small_pool =
  obj_size :: nat
  lpages_per_span :: nat
  objs_per_span :: nat
  partial_spans :: "nat list"
  empty_spans :: "nat list"
  nr_empty :: nat
  merge_head :: nat
  merge_tail :: nat
  merge_queue :: "nat \<Rightarrow> nat"
  merge_q_size :: nat
  to_merge_head :: "nat list"

definition POOL_CLASSES :: "nat list" where
  "POOL_CLASSES =
    [8, 16, 32, 48, 64, 80, 112, 144, 192,
     240, 304, 384, 480, 608, 768, 960, 1200, 1504,
     1888, 2368, 2960, 3712, 4096, 5120, 6400, 8000, 10000,
     12512, 15648, 19568, 24464, 30592, 38240, 47808, 59760, 65536]"

definition pool_idx_get :: "nat \<Rightarrow> nat" where
  "pool_idx_get sz = (case find (\<lambda>i. sz \<le> POOL_CLASSES ! i) [0..<NR_SMALL_POOLS] of Some i \<Rightarrow> i | None \<Rightarrow> NR_SMALL_POOLS)"

definition pool_lpages_calculate :: "nat \<Rightarrow> nat" where
  "pool_lpages_calculate sz =
     (let lpages = (sz * 64 + LPAGE_SIZE - 1) div LPAGE_SIZE in if lpages = 0 then 1 else lpages)"

definition pool_init :: "nat \<Rightarrow> small_pool" where
  "pool_init sz =
     (let lpages = pool_lpages_calculate sz
      in \<lparr>obj_size = sz, lpages_per_span = lpages, objs_per_span = lpages * LPAGE_SIZE div sz, partial_spans = [],
          empty_spans = [], nr_empty = 0, merge_head = 0, merge_tail = 0, merge_queue = (\<lambda>_. 0), merge_q_size = 128,
          to_merge_head = []\<rparr>)"

definition pool_set_init :: "nat \<Rightarrow> small_pool" where
  "pool_set_init i = pool_init (POOL_CLASSES ! i)"

text \<open>The parts of a thread heap the pools work on: the page allocator with its page table, the span structures by address,
  the pools by index and the start of the data region.\<close>

record pool_heap =
  buddy :: buddy_allocator
  spans :: "nat \<Rightarrow> span_info"
  pools :: "nat \<Rightarrow> small_pool"
  data_base :: nat

definition set_pool :: "nat \<Rightarrow> (small_pool \<Rightarrow> small_pool) \<Rightarrow> pool_heap \<Rightarrow> pool_heap" where
  "set_pool p f h = h\<lparr>pools := (pools h)(p := f (pools h p))\<rparr>"

definition set_span :: "nat \<Rightarrow> (span_info \<Rightarrow> span_info) \<Rightarrow> pool_heap \<Rightarrow> pool_heap" where
  "set_span a f h = h\<lparr>spans := (spans h)(a := f (spans h a))\<rparr>"

definition partial_add_head :: "nat \<Rightarrow> nat \<Rightarrow> pool_heap \<Rightarrow> pool_heap" where
  "partial_add_head p a = set_pool p (\<lambda>q. q\<lparr>partial_spans := a # partial_spans q\<rparr>)"

definition partial_remove :: "nat \<Rightarrow> nat \<Rightarrow> pool_heap \<Rightarrow> pool_heap" where
  "partial_remove p a = set_pool p (\<lambda>q. q\<lparr>partial_spans := remove1 a (partial_spans q)\<rparr>)"

definition empty_add_head :: "nat \<Rightarrow> nat \<Rightarrow> pool_heap \<Rightarrow> pool_heap" where
  "empty_add_head p a = set_pool p (\<lambda>q. q\<lparr>empty_spans := a # empty_spans q, nr_empty := nr_empty q + 1\<rparr>)"

text \<open>The slots of a span in the order the initialisation loop pushes them, so the last slot is the head.\<close>

definition slots_from :: "nat \<Rightarrow> nat \<Rightarrow> nat \<Rightarrow> nat \<Rightarrow> nat list" where
  "slots_from base k n sz = rev (map (\<lambda>i. base + i * sz) [k..<n])"

text \<open>The loop that enters the span in the page table.\<close>

definition pages_span :: "nat \<Rightarrow> nat \<Rightarrow> nat \<Rightarrow> buddy_allocator \<Rightarrow> buddy_allocator" where
  "pages_span a head n b = b\<lparr>pages := (\<lambda>p. if head \<le> p \<and> p < head + n
     then (pages b p)\<lparr>pg_span := Some a, pg_span_size := n, offset_in_span := (p - head) mod 65536\<rparr> else pages b p)\<rparr>"

definition pool_span_init :: "nat \<Rightarrow> nat \<Rightarrow> nat \<Rightarrow> nat \<Rightarrow> pool_heap \<Rightarrow> pool_heap" where
  "pool_span_init p a head n h =
     (let slab = data_base h + head * LPAGE_SIZE;
          h = set_span a (\<lambda>_. \<lparr>sp_pool = p, freelist = slots_from slab 0 (objs_per_span (pools h p)) (obj_size (pools h p)),
                snap_freelist = [], head_lpage = head, sp_size = n, nr_alloc = 0, nr_snap_alloc = 0\<rparr>) h
      in h\<lparr>buddy := pages_span a head n (buddy h)\<rparr>)"

text \<open>A span of the metadata pool keeps its own \<open>span_info\<close> in its first slot.\<close>

definition pool_meta_alloc :: "nat \<Rightarrow> pool_heap \<Rightarrow> nat option \<times> pool_heap" where
  "pool_meta_alloc p h =
     (case buddy_span_alloc (lpages_per_span (pools h p)) (buddy h) of
        (None, b) \<Rightarrow> (None, h\<lparr>buddy := b\<rparr>)
      | (Some head, b) \<Rightarrow>
          (let actual = pg_span_size (pages b head);
               ms = data_base h + head * LPAGE_SIZE;
               h = h\<lparr>buddy := b\<rparr>;
               h = set_span ms (\<lambda>_. \<lparr>sp_pool = p, freelist = slots_from ms 1 (objs_per_span (pools h p)) (obj_size (pools h p)),
                     snap_freelist = [], head_lpage = head, sp_size = actual, nr_alloc = 1, nr_snap_alloc = 0\<rparr>) h;
               h = h\<lparr>buddy := pages_span ms head actual (buddy h)\<rparr>
           in (Some ms, partial_add_head p ms h)))"

definition span_merge_logic :: "nat \<Rightarrow> nat \<Rightarrow> pool_heap \<Rightarrow> pool_heap" where
  "span_merge_logic p a h =
     (let sp = spans h a
      in if snap_freelist sp = [] then h
         else
           (let was_full = (freelist sp = []);
                left = nr_alloc sp - nr_snap_alloc sp;
                h = set_span a (\<lambda>sp. sp\<lparr>freelist := snap_freelist sp @ freelist sp, nr_alloc := left, snap_freelist := [],
                      nr_snap_alloc := 0\<rparr>) h
            in if left = 0 then empty_add_head p a (if \<not> was_full then partial_remove p a h else h)
               else if was_full then partial_add_head p a h
               else h))"

text \<open>Up to \<open>limit\<close> entries of the merge ring.\<close>

fun pool_snap_merge_incremental :: "nat \<Rightarrow> nat \<Rightarrow> pool_heap \<Rightarrow> pool_heap" where
  "pool_snap_merge_incremental p 0 h = h"
| "pool_snap_merge_incremental p (Suc limit) h =
     (let hix = merge_head (pools h p)
      in if hix = merge_tail (pools h p) then h
         else
           (let h = (case pg_span (pages (buddy h) (merge_queue (pools h p) hix)) of Some a \<Rightarrow> span_merge_logic p a h | None \<Rightarrow> h);
                h = set_pool p (\<lambda>q. q\<lparr>merge_head := (hix + 1) mod merge_q_size q\<rparr>) h
            in pool_snap_merge_incremental p limit h))"

text \<open>The stack of spans that did not fit in the ring.\<close>

fun merge_stack :: "nat \<Rightarrow> nat list \<Rightarrow> pool_heap \<Rightarrow> pool_heap" where
  "merge_stack p [] h = h"
| "merge_stack p (head # rest) h =
     (case pg_span (pages (buddy h) head) of None \<Rightarrow> h | Some a \<Rightarrow> merge_stack p rest (span_merge_logic p a h))"

definition pool_snap_merge :: "nat \<Rightarrow> pool_heap \<Rightarrow> pool_heap" where
  "pool_snap_merge p h =
     (let h = pool_snap_merge_incremental p (merge_q_size (pools h p)) h
      in merge_stack p (to_merge_head (pools h p)) (set_pool p (\<lambda>q. q\<lparr>to_merge_head := []\<rparr>) h))"

text \<open>The end of an allocation: the first free slot of the span.\<close>

definition span_take :: "nat \<Rightarrow> nat \<Rightarrow> pool_heap \<Rightarrow> nat \<times> pool_heap" where
  "span_take p a h =
     (let ob = hd (freelist (spans h a));
          h = set_span a (\<lambda>sp. sp\<lparr>freelist := tl (freelist sp), nr_alloc := nr_alloc sp + 1\<rparr>) h
      in (ob, if freelist (spans h a) = [] then partial_remove p a h else h))"

text \<open>
  A new span for pool \<open>p\<close>.  For the metadata pool the run of pages taken first is not used and not given back unless
  the second allocation fails, as in the source.
\<close>

definition meta_grow :: "pool_heap \<Rightarrow> nat option \<times> pool_heap" where
  "meta_grow h =
     (case buddy_span_alloc (lpages_per_span (pools h META)) (buddy h) of
        (None, b) \<Rightarrow> (None, h\<lparr>buddy := b\<rparr>)
      | (Some head, b) \<Rightarrow>
          (case pool_meta_alloc META (h\<lparr>buddy := b\<rparr>) of
             (None, h) \<Rightarrow> (None, h\<lparr>buddy := buddy_span_free head (pg_span_size (pages b head)) (buddy h)\<rparr>)
           | (Some ms, h) \<Rightarrow> (Some ms, h)))"

text \<open>The merges that precede a growth, and the allocation itself, for a given way to grow.\<close>

definition alloc_with :: "(pool_heap \<Rightarrow> nat option \<times> pool_heap) \<Rightarrow> nat \<Rightarrow> pool_heap \<Rightarrow> nat option \<times> pool_heap" where
  "alloc_with grow p h =
     (let fast = (\<lambda>h. case span_take p (hd (partial_spans (pools h p))) h of (ob, h) \<Rightarrow> (Some ob, h))
      in if partial_spans (pools h p) \<noteq> [] then fast h
         else
           (let h = pool_snap_merge_incremental p 16 h
            in if partial_spans (pools h p) \<noteq> [] then fast h
               else
                 (let h = pool_snap_merge p h
                  in if partial_spans (pools h p) \<noteq> [] then fast h
                     else (case grow h of
                             (None, h) \<Rightarrow> (None, h)
                           | (Some a, h) \<Rightarrow> (case span_take p a h of (ob, h) \<Rightarrow> (Some ob, h))))))"

definition pool_grow :: "nat \<Rightarrow> pool_heap \<Rightarrow> nat option \<times> pool_heap" where
  "pool_grow p h =
     (case buddy_span_alloc (lpages_per_span (pools h p)) (buddy h) of
        (None, b) \<Rightarrow> (None, h\<lparr>buddy := b\<rparr>)
      | (Some head, b) \<Rightarrow>
          (let actual = pg_span_size (pages b head)
           in case alloc_with meta_grow META (h\<lparr>buddy := b\<rparr>) of
                (None, h) \<Rightarrow> (None, h\<lparr>buddy := buddy_span_free head actual (buddy h)\<rparr>)
              | (Some ms, h) \<Rightarrow> (Some ms, partial_add_head p ms (pool_span_init p ms head actual h))))"

definition pool_obj_alloc :: "nat \<Rightarrow> pool_heap \<Rightarrow> nat option \<times> pool_heap" where
  "pool_obj_alloc p h = (if p = META then alloc_with meta_grow META h else alloc_with (pool_grow p) p h)"

definition pool_obj_free :: "nat \<Rightarrow> nat \<Rightarrow> nat \<Rightarrow> pool_heap \<Rightarrow> pool_heap" where
  "pool_obj_free p a ptr h =
     (let was_full = (freelist (spans h a) = []);
          h = set_span a (\<lambda>sp. sp\<lparr>freelist := ptr # freelist sp, nr_alloc := nr_alloc sp - 1\<rparr>) h
      in if nr_alloc (spans h a) = 0 then
           (let h = (if \<not> was_full then partial_remove p a h else h)
            in if obj_size (pools h p) = SPAN_INFO_SIZE then partial_add_head p a h else empty_add_head p a h)
         else if was_full then partial_add_head p a h
         else partial_add_head p a (partial_remove p a h))"

definition pool_snap_defer_free :: "nat \<Rightarrow> nat \<Rightarrow> pool_heap \<Rightarrow> pool_heap" where
  "pool_snap_defer_free a ptr h =
     set_span a (\<lambda>sp. sp\<lparr>snap_freelist := ptr # snap_freelist sp, nr_snap_alloc := nr_snap_alloc sp + 1\<rparr>) h"

definition pool_snap_enqueue :: "nat \<Rightarrow> nat \<Rightarrow> pool_heap \<Rightarrow> bool \<times> pool_heap" where
  "pool_snap_enqueue p a h =
     (let q = pools h p; nxt = (merge_tail q + 1) mod merge_q_size q
      in if nxt \<noteq> merge_head q then
           (True, set_pool p (\<lambda>q. q\<lparr>merge_queue := (merge_queue q)(merge_tail q := head_lpage (spans h a)), merge_tail := nxt\<rparr>) h)
         else (False, h))"

text \<open>\<open>span_of\<close> is the span that the page table gives for an address.\<close>

definition span_of :: "pool_heap \<Rightarrow> nat \<Rightarrow> nat option" where
  "span_of h ptr = pg_span (pages (buddy h) ((ptr - data_base h) mod 2 ^ 32 div LPAGE_SIZE))"

definition reclaim_span :: "nat \<Rightarrow> nat \<Rightarrow> pool_heap \<Rightarrow> pool_heap" where
  "reclaim_span p a h =
     (let h = set_pool p (\<lambda>q. q\<lparr>empty_spans := remove1 a (empty_spans q)\<rparr>) h;
          sp = spans h a;
          h = h\<lparr>buddy := buddy_span_free (head_lpage sp) (sp_size sp) (buddy h)\<rparr>;
          h = set_pool p (\<lambda>q. q\<lparr>nr_empty := nr_empty q - 1\<rparr>) h
      in case span_of h a of Some m \<Rightarrow> pool_obj_free META m a h | None \<Rightarrow> h)"

definition pool_span_force_reclaim_all :: "pool_heap \<Rightarrow> pool_heap" where
  "pool_span_force_reclaim_all h =
     fold (\<lambda>p h. fold (reclaim_span p) (empty_spans (pools h p)) h) [0..<NR_SMALL_POOLS] h"

section \<open>Spans and slots\<close>

definition span_pool :: "pool_heap \<Rightarrow> nat \<Rightarrow> small_pool" where
  "span_pool h a = pools h (sp_pool (spans h a))"

definition span_pages :: "pool_heap \<Rightarrow> nat \<Rightarrow> nat set" where
  "span_pages h a = {head_lpage (spans h a)..<head_lpage (spans h a) + sp_size (spans h a)}"

definition slot_at :: "pool_heap \<Rightarrow> nat \<Rightarrow> nat \<Rightarrow> nat" where
  "slot_at h a i = data_base h + head_lpage (spans h a) * LPAGE_SIZE + i * obj_size (span_pool h a)"

definition slots :: "pool_heap \<Rightarrow> nat \<Rightarrow> nat set" where
  "slots h a = slot_at h a ` {..<objs_per_span (span_pool h a)}"

definition pool_const :: "small_pool \<Rightarrow> bool" where
  "pool_const q \<longleftrightarrow> 0 < obj_size q \<and> 8 dvd obj_size q \<and> 0 < objs_per_span q \<and> objs_per_span q < 65536 \<and>
     objs_per_span q * obj_size q \<le> lpages_per_span q * LPAGE_SIZE \<and> lpages_per_span q < 2 ^ BUDDY_MAX_ORDER"

definition span_ok :: "pool_heap \<Rightarrow> nat \<Rightarrow> bool" where
  "span_ok h a \<longleftrightarrow>
     (let sp = spans h a
      in sp_pool sp \<le> META \<and> head_lpage sp + sp_size sp \<le> nr_pages (buddy h) \<and> sp_size sp = lpages_per_span (span_pool h a) \<and>
         (\<forall>pg \<in> span_pages h a. \<not> pg_free (pages (buddy h) pg) \<and> pg_span (pages (buddy h) pg) = Some a) \<and>
         distinct (freelist sp @ snap_freelist sp) \<and> set (freelist sp @ snap_freelist sp) \<subseteq> slots h a \<and>
         nr_alloc sp = of_nat (objs_per_span (span_pool h a) - length (freelist sp)) \<and>
         nr_snap_alloc sp = of_nat (length (snap_freelist sp)) \<and>
         (sp_pool sp = META \<longrightarrow> snap_freelist sp = [] \<and> a = slot_at h a 0 \<and> a \<notin> set (freelist sp)))"

text \<open>The structure of a span lies in a used slot of a metadata span.\<close>

definition anchored :: "pool_heap \<Rightarrow> nat set \<Rightarrow> nat \<Rightarrow> bool" where
  "anchored h S a \<longleftrightarrow> (sp_pool (spans h a) \<noteq> META \<longrightarrow>
     (\<exists>m \<in> S. sp_pool (spans h m) = META \<and> a \<in> slots h m \<and> a \<notin> set (freelist (spans h m))))"

definition lists_ok :: "pool_heap \<Rightarrow> nat set \<Rightarrow> bool" where
  "lists_ok h S \<longleftrightarrow> (\<forall>p \<le> META.
     distinct (partial_spans (pools h p) @ empty_spans (pools h p)) \<and>
     set (partial_spans (pools h p)) \<union> set (empty_spans (pools h p)) = {a \<in> S. sp_pool (spans h a) = p \<and> freelist (spans h a) \<noteq> []} \<and>
     (\<forall>a \<in> set (empty_spans (pools h p)). length (freelist (spans h a)) = objs_per_span (pools h p))) \<and>
     empty_spans (pools h META) = []"

text \<open>Runs of pages that are in use and belong to no span.\<close>

definition runs_ok :: "buddy_allocator \<Rightarrow> (nat \<times> nat) set \<Rightarrow> bool" where
  "runs_ok b R \<longleftrightarrow> (\<forall>(i, n) \<in> R. 0 < n \<and> n < 2 ^ BUDDY_MAX_ORDER \<and> i + n \<le> nr_pages b \<and>
     (\<forall>pg \<in> {i..<i + n}. \<not> pg_free (pages b pg) \<and> pg_span (pages b pg) = None \<and> pg_span_size (pages b pg) = n)) \<and>
     (\<forall>(i, n) \<in> R. \<forall>(j, m) \<in> R. (i, n) \<noteq> (j, m) \<longrightarrow> {i..<i + n} \<inter> {j..<j + m} = {})"

definition pool_core :: "pool_heap \<Rightarrow> nat set \<Rightarrow> (nat \<times> nat) set \<Rightarrow> bool" where
  "pool_core h S R \<longleftrightarrow> buddy_ok (buddy h) \<and> nr_pages (buddy h) \<le> 2 ^ 20 \<and> (\<forall>p \<le> META. pool_const (pools h p)) \<and>
     obj_size (pools h META) = SPAN_INFO_SIZE \<and> 1 < objs_per_span (pools h META) \<and> (\<forall>a \<in> S. span_ok h a \<and> anchored h S a) \<and> lists_ok h S \<and> runs_ok (buddy h) R"

text \<open>The heads of the spans waiting for a merge, by pool.\<close>

definition queues_ok :: "pool_heap \<Rightarrow> nat set \<Rightarrow> (nat \<Rightarrow> nat list) \<Rightarrow> bool" where
  "queues_ok h S Q \<longleftrightarrow> (\<forall>p \<le> META. distinct (Q p) \<and>
     (\<forall>i \<in> set (Q p). \<exists>a \<in> S. head_lpage (spans h a) = i \<and> sp_pool (spans h a) = p \<and> snap_freelist (spans h a) \<noteq> []))"

definition ring_list :: "small_pool \<Rightarrow> nat list" where
  "ring_list q = map (\<lambda>i. merge_queue q ((merge_head q + i) mod merge_q_size q))
     [0..<(merge_tail q + merge_q_size q - merge_head q) mod merge_q_size q]"

definition ring_ok :: "small_pool \<Rightarrow> bool" where
  "ring_ok q \<longleftrightarrow> merge_q_size q = 128 \<and> merge_head q < 128 \<and> merge_tail q < 128"

definition queued :: "small_pool \<Rightarrow> nat list" where
  "queued q = ring_list q @ to_merge_head q"

definition pool_inv :: "pool_heap \<Rightarrow> nat set \<Rightarrow> (nat \<times> nat) set \<Rightarrow> bool" where
  "pool_inv h S R \<longleftrightarrow> pool_core h S R \<and> (\<forall>p \<le> META. ring_ok (pools h p)) \<and> queues_ok h S (\<lambda>p. queued (pools h p))"

text \<open>The slots of the size classes that are neither free nor waiting for a merge.\<close>

definition live_slots :: "pool_heap \<Rightarrow> nat \<Rightarrow> nat set" where
  "live_slots h a = slots h a - set (freelist (spans h a)) - set (snap_freelist (spans h a))"

definition live :: "pool_heap \<Rightarrow> nat set \<Rightarrow> nat set" where
  "live h S = (\<Union>a \<in> {a \<in> S. sp_pool (spans h a) \<noteq> META}. live_slots h a)"

subsection \<open>Geometry\<close>

lemma slot_bytes:
  assumes "pool_const (span_pool h a)" "sp_size (spans h a) = lpages_per_span (span_pool h a)" "i < objs_per_span (span_pool h a)"
    "k < obj_size (span_pool h a)"
  shows "(slot_at h a i + k - data_base h) div LPAGE_SIZE \<in> span_pages h a"
proof -
  let ?q = "span_pool h a"
  define j where "j = i * obj_size ?q + k"
  have "j < (i + 1) * obj_size ?q" using assms(4) by (simp add: j_def)
  also have "\<dots> \<le> objs_per_span ?q * obj_size ?q" by (rule mult_le_mono1) (use assms(3) in simp)
  also have "\<dots> \<le> sp_size (spans h a) * LPAGE_SIZE" using assms(1,2) by (simp add: pool_const_def)
  finally have "j div LPAGE_SIZE < sp_size (spans h a)" by (simp add: less_mult_imp_div_less)
  moreover have "(slot_at h a i + k - data_base h) div LPAGE_SIZE = head_lpage (spans h a) + j div LPAGE_SIZE"
    by (simp add: slot_at_def j_def LPAGE_SIZE_def add.assoc)
  ultimately show ?thesis by (simp add: span_pages_def)
qed

lemma slot_at_inj: "pool_const (span_pool h a) \<Longrightarrow> inj_on (slot_at h a) A"
  by (auto simp: inj_on_def slot_at_def pool_const_def)

lemma card_slots: "pool_const (span_pool h a) \<Longrightarrow> card (slots h a) = objs_per_span (span_pool h a)"
  by (simp add: slots_def card_image [OF slot_at_inj])

lemma coreD:
  assumes "pool_core h S R" "a \<in> S"
  shows "span_ok h a" "anchored h S a" "pool_const (span_pool h a)" "sp_pool (spans h a) \<le> META"
    "sp_size (spans h a) = lpages_per_span (span_pool h a)"
proof -
  show ok: "span_ok h a" "anchored h S a" using assms by (simp_all add: pool_core_def)
  show "sp_pool (spans h a) \<le> META" "sp_size (spans h a) = lpages_per_span (span_pool h a)" using ok(1) by (simp_all add: span_ok_def Let_def)
  then show "pool_const (span_pool h a)" using assms(1) by (simp add: pool_core_def span_pool_def)
qed

lemma slot_page:
  assumes "pool_core h S R" "a \<in> S" "x \<in> slots h a" "k < obj_size (span_pool h a)"
  shows "(x + k - data_base h) div LPAGE_SIZE \<in> span_pages h a" "data_base h \<le> x"
proof -
  obtain i where i: "i < objs_per_span (span_pool h a)" "x = slot_at h a i" using assms(3) by (auto simp: slots_def)
  show "(x + k - data_base h) div LPAGE_SIZE \<in> span_pages h a"
    unfolding i(2) by (rule slot_bytes [OF coreD(3,5) [OF assms(1,2)] i(1) assms(4)])
  show "data_base h \<le> x" by (simp add: i(2) slot_at_def)
qed

lemma span_page_info:
  assumes "pool_core h S R" "a \<in> S" "pg \<in> span_pages h a"
  shows "\<not> pg_free (pages (buddy h) pg)" "pg_span (pages (buddy h) pg) = Some a" "pg < nr_pages (buddy h)"
  using coreD(1) [OF assms(1,2)] assms(3) by (auto simp: span_ok_def Let_def span_pages_def)

lemma span_pages_disjoint:
  assumes "pool_core h S R" "a \<in> S" "b \<in> S" "a \<noteq> b"
  shows "span_pages h a \<inter> span_pages h b = {}"
  using span_page_info(2) [OF assms(1,2)] span_page_info(2) [OF assms(1,3)] assms(4) by fastforce

lemma slots_disjoint:
  assumes c: "pool_core h S R" and ab: "a \<in> S" "b \<in> S" "a \<noteq> b"
  shows "slots h a \<inter> slots h b = {}"
proof (rule ccontr)
  assume "slots h a \<inter> slots h b \<noteq> {}"
  then obtain x where x: "x \<in> slots h a" "x \<in> slots h b" by blast
  have "(x + 0 - data_base h) div LPAGE_SIZE \<in> span_pages h a \<inter> span_pages h b"
    using slot_page(1) [OF c ab(1) x(1), of 0] slot_page(1) [OF c ab(2) x(2), of 0] coreD(3) [OF c ab(1)] coreD(3) [OF c ab(2)]
    by (simp add: pool_const_def)
  then show False using span_pages_disjoint [OF c ab] by blast
qed

text \<open>Slots never overlap, byte by byte.\<close>

lemma slot_bytes_disjoint:
  assumes c: "pool_core h S R" and a: "a \<in> S" "x \<in> slots h a" and b: "b \<in> S" "y \<in> slots h b" and ne: "x \<noteq> y"
  shows "{x..<x + obj_size (span_pool h a)} \<inter> {y..<y + obj_size (span_pool h b)} = {}"
proof (cases "a = b")
  case True
  obtain i j where ij: "x = slot_at h a i" "y = slot_at h a j" using a(2) b(2) True by (auto simp: slots_def)
  let ?s = "obj_size (span_pool h a)"
  consider "i + 1 \<le> j" | "j + 1 \<le> i" using ne ij by (cases i j rule: linorder_cases) auto
  then show ?thesis
  proof cases
    case 1
    then have "(i + 1) * ?s \<le> j * ?s" by (rule mult_le_mono1)
    then show ?thesis using True by (auto simp: ij slot_at_def)
  next
    case 2
    then have "(j + 1) * ?s \<le> i * ?s" by (rule mult_le_mono1)
    then show ?thesis using True by (auto simp: ij slot_at_def)
  qed
next
  case False
  show ?thesis
  proof (rule ccontr)
    assume "{x..<x + obj_size (span_pool h a)} \<inter> {y..<y + obj_size (span_pool h b)} \<noteq> {}"
    then obtain z where "z \<in> {x..<x + obj_size (span_pool h a)}" "z \<in> {y..<y + obj_size (span_pool h b)}" by blast
    then have z: "x \<le> z" "z < x + obj_size (span_pool h a)" "y \<le> z" "z < y + obj_size (span_pool h b)" by simp_all
    have "(x + (z - x) - data_base h) div LPAGE_SIZE \<in> span_pages h a" by (rule slot_page(1) [OF c a]) (use z in simp)
    moreover have "(y + (z - y) - data_base h) div LPAGE_SIZE \<in> span_pages h b" by (rule slot_page(1) [OF c b]) (use z in simp)
    ultimately show False using z span_pages_disjoint [OF c a(1) b(1) False] by auto
  qed
qed

text \<open>The address of a span is a slot of a metadata span in use.\<close>

lemma span_addr:
  assumes c: "pool_core h S R" and a: "a \<in> S"
  obtains m where "m \<in> S" "sp_pool (spans h m) = META" "a \<in> slots h m" "a \<notin> set (freelist (spans h m))"
proof (cases "sp_pool (spans h a) = META")
  case True
  then have "a = slot_at h a 0" "a \<notin> set (freelist (spans h a))" using coreD(1) [OF c a] by (simp_all add: span_ok_def Let_def)
  moreover have "0 < objs_per_span (span_pool h a)" using coreD(3) [OF c a] by (simp add: pool_const_def)
  ultimately have "a \<in> slots h a" by (auto simp: slots_def)
  then show ?thesis using that a True \<open>a \<notin> _\<close> by blast
next
  case False
  then show ?thesis using that coreD(2) [OF c a] by (auto simp: anchored_def)
qed

lemma not_full:
  assumes c: "pool_core h S R" and a: "a \<in> S" and x: "x \<in> slots h a" "x \<notin> set (freelist (spans h a))"
  shows "length (freelist (spans h a)) < objs_per_span (span_pool h a)"
proof -
  have f: "distinct (freelist (spans h a))" "set (freelist (spans h a)) \<subseteq> slots h a - {x}"
    using coreD(1) [OF c a] x(2) by (auto simp: span_ok_def Let_def)
  have fin: "finite (slots h a)" by (simp add: slots_def)
  have "length (freelist (spans h a)) = card (set (freelist (spans h a)))" using f(1) by (simp add: distinct_card)
  also have "\<dots> \<le> card (slots h a - {x})" by (rule card_mono) (use fin f(2) in auto)
  also have "\<dots> < card (slots h a)" by (rule card_Diff1_less [OF fin x(1)])
  finally show ?thesis using card_slots [OF coreD(3) [OF c a]] by simp
qed

lemma full_no_pending:
  assumes c: "pool_core h S R" and a: "a \<in> S" and f: "length (freelist (spans h a)) = objs_per_span (span_pool h a)"
  shows "snap_freelist (spans h a) = []" "live_slots h a = {}"
proof -
  have ok: "distinct (freelist (spans h a) @ snap_freelist (spans h a))"
    "set (freelist (spans h a) @ snap_freelist (spans h a)) \<subseteq> slots h a"
    using coreD(1) [OF c a] by (simp_all add: span_ok_def Let_def)
  have fin: "finite (slots h a)" by (simp add: slots_def)
  have all: "set (freelist (spans h a)) = slots h a"
    by (rule card_subset_eq [OF fin]) (use ok f card_slots [OF coreD(3) [OF c a]] in \<open>auto simp: distinct_card\<close>)
  have "set (freelist (spans h a)) \<inter> set (snap_freelist (spans h a)) = {}" "set (snap_freelist (spans h a)) \<subseteq> slots h a"
    using ok by (simp_all only: distinct_append set_append Un_subset_iff)
  then have "set (snap_freelist (spans h a)) = {}" unfolding all by (simp add: Int_absorb1)
  then show "snap_freelist (spans h a) = []" "live_slots h a = {}" by (simp_all add: live_slots_def all)
qed

subsection \<open>Updates\<close>

text \<open>The sizes of the pools and the place of every span are unchanged.\<close>

definition same_geom :: "nat set \<Rightarrow> pool_heap \<Rightarrow> pool_heap \<Rightarrow> bool" where
  "same_geom S h h' \<longleftrightarrow> data_base h' = data_base h \<and> nr_pages (buddy h') = nr_pages (buddy h) \<and>
     (\<forall>p. obj_size (pools h' p) = obj_size (pools h p) \<and> lpages_per_span (pools h' p) = lpages_per_span (pools h p) \<and>
          objs_per_span (pools h' p) = objs_per_span (pools h p)) \<and>
     (\<forall>a \<in> S. head_lpage (spans h' a) = head_lpage (spans h a) \<and> sp_size (spans h' a) = sp_size (spans h a) \<and>
          sp_pool (spans h' a) = sp_pool (spans h a))"

lemma geom_slots:
  assumes "same_geom S h h'" "a \<in> S"
  shows "slot_at h' a = slot_at h a" "slots h' a = slots h a" "span_pages h' a = span_pages h a"
    "obj_size (span_pool h' a) = obj_size (span_pool h a)" "objs_per_span (span_pool h' a) = objs_per_span (span_pool h a)"
    "lpages_per_span (span_pool h' a) = lpages_per_span (span_pool h a)" "sp_pool (spans h' a) = sp_pool (spans h a)"
    "head_lpage (spans h' a) = head_lpage (spans h a)" "sp_size (spans h' a) = sp_size (spans h a)"
proof -
  show eqs: "obj_size (span_pool h' a) = obj_size (span_pool h a)" "objs_per_span (span_pool h' a) = objs_per_span (span_pool h a)"
    "lpages_per_span (span_pool h' a) = lpages_per_span (span_pool h a)" "sp_pool (spans h' a) = sp_pool (spans h a)"
    "head_lpage (spans h' a) = head_lpage (spans h a)" "sp_size (spans h' a) = sp_size (spans h a)"
    using assms by (simp_all add: same_geom_def span_pool_def)
  have "data_base h' = data_base h" using assms(1) by (simp add: same_geom_def)
  then show at: "slot_at h' a = slot_at h a" by (simp add: fun_eq_iff slot_at_def eqs)
  show "slots h' a = slots h a" by (simp add: slots_def at eqs)
  show "span_pages h' a = span_pages h a" by (simp add: span_pages_def eqs)
qed

lemma geom_const:
  assumes "same_geom S h h'"
  shows "pool_const (pools h' p) = pool_const (pools h p)" "obj_size (pools h' p) = obj_size (pools h p)"
    "objs_per_span (pools h' p) = objs_per_span (pools h p)"
  using assms by (simp_all add: same_geom_def pool_const_def)

lemma span_ok_frame:
  assumes g: "same_geom S h h'" and a: "a \<in> S" and sp: "spans h' a = spans h a" and nr: "nr_pages (buddy h') = nr_pages (buddy h)"
    and pg: "\<And>pg. pg \<in> span_pages h a \<Longrightarrow> pg_free (pages (buddy h') pg) = pg_free (pages (buddy h) pg) \<and>
      pg_span (pages (buddy h') pg) = pg_span (pages (buddy h) pg)"
  shows "span_ok h' a = span_ok h a"
proof -
  have p: "(\<forall>pg \<in> span_pages h a. \<not> pg_free (pages (buddy h') pg) \<and> pg_span (pages (buddy h') pg) = Some a) \<longleftrightarrow>
     (\<forall>pg \<in> span_pages h a. \<not> pg_free (pages (buddy h) pg) \<and> pg_span (pages (buddy h) pg) = Some a)"
    by (rule ball_cong) (simp_all add: pg)
  show ?thesis unfolding span_ok_def Let_def geom_slots(1,2,3,5,6) [OF g a] sp nr p ..
qed

lemma core_buddy:
  assumes c: "pool_core h S R" and b: "buddy_ok b'" "nr_pages b' = nr_pages (buddy h)"
    and pg: "\<And>a pg. a \<in> S \<Longrightarrow> pg \<in> span_pages h a \<Longrightarrow> pg_free (pages b' pg) = pg_free (pages (buddy h) pg) \<and>
      pg_span (pages b' pg) = pg_span (pages (buddy h) pg)"
    and R: "runs_ok b' R'"
  shows "pool_core (h\<lparr>buddy := b'\<rparr>) S R'"
proof -
  let ?h = "h\<lparr>buddy := b'\<rparr>"
  have g: "same_geom S h ?h" by (simp add: same_geom_def b(2))
  have "span_ok ?h a \<and> anchored ?h S a" if "a \<in> S" for a
  proof
    show "span_ok ?h a" using span_ok_frame [OF g that] b(2) pg [OF that] coreD(1) [OF c that] by simp
    show "anchored ?h S a" using coreD(2) [OF c that] geom_slots(2) [OF g] by (auto simp: anchored_def)
  qed
  moreover have "lists_ok ?h S" using c by (simp add: pool_core_def lists_ok_def)
  ultimately show ?thesis using c b R by (simp add: pool_core_def)
qed

lemma core_span:
  assumes c: "pool_core h S R" and a: "a \<in> S" and g: "same_geom S h h'" and b: "buddy h' = buddy h"
    and sp: "\<And>x. x \<noteq> a \<Longrightarrow> spans h' x = spans h x" and ok: "span_ok h' a" and l: "lists_ok h' S"
    and anc: "sp_pool (spans h a) = META \<Longrightarrow> S \<inter> set (freelist (spans h' a)) = {}"
  shows "pool_core h' S R"
proof -
  have "span_ok h' x \<and> anchored h' S x" if x: "x \<in> S" for x
  proof
    show "span_ok h' x"
    proof (cases "x = a")
      case False
      then show ?thesis using span_ok_frame [OF g x sp [OF False]] b coreD(1) [OF c x] by simp
    qed (use ok in simp)
    have "\<exists>m \<in> S. sp_pool (spans h' m) = META \<and> x \<in> slots h' m \<and> x \<notin> set (freelist (spans h' m))"
      if "sp_pool (spans h' x) \<noteq> META"
    proof -
      obtain m where m: "m \<in> S" "sp_pool (spans h m) = META" "x \<in> slots h m" "x \<notin> set (freelist (spans h m))"
        by (rule span_addr [OF c x])
      have "x \<notin> set (freelist (spans h' m))" using m sp anc x by (cases "m = a") auto
      then show ?thesis using m geom_slots(2,7) [OF g m(1)] by (intro bexI [of _ m]) auto
    qed
    then show "anchored h' S x" by (simp add: anchored_def)
  qed
  then show ?thesis using c l b geom_const [OF g] by (simp add: pool_core_def)
qed

lemma lists_upd:
  assumes l: "lists_ok h S" and a: "a \<in> S" and p: "sp_pool (spans h a) = p" "p \<le> META" and g: "same_geom S h h'"
    and sp: "\<And>x. x \<noteq> a \<Longrightarrow> spans h' x = spans h x"
    and q: "\<And>r. r \<noteq> p \<Longrightarrow> pools h' r = pools h r"
    and d: "distinct (partial_spans (pools h' p) @ empty_spans (pools h' p))"
    and u: "set (partial_spans (pools h' p)) \<union> set (empty_spans (pools h' p)) =
      (set (partial_spans (pools h p)) \<union> set (empty_spans (pools h p)) - {a}) \<union> (if freelist (spans h' a) \<noteq> [] then {a} else {})"
    and e: "set (empty_spans (pools h' p)) \<subseteq> set (empty_spans (pools h p)) \<union> {a}"
    and ea: "a \<in> set (empty_spans (pools h' p)) \<Longrightarrow> length (freelist (spans h' a)) = objs_per_span (pools h p)"
    and m: "p = META \<Longrightarrow> empty_spans (pools h' p) = []"
  shows "lists_ok h' S"
proof -
  have same: "sp_pool (spans h' x) = sp_pool (spans h x)" if "x \<in> S" for x using geom_slots(7) [OF g that] .
  have one: "distinct (partial_spans (pools h' r) @ empty_spans (pools h' r)) \<and>
     set (partial_spans (pools h' r)) \<union> set (empty_spans (pools h' r)) = {x \<in> S. sp_pool (spans h' x) = r \<and> freelist (spans h' x) \<noteq> []} \<and>
     (\<forall>x \<in> set (empty_spans (pools h' r)). length (freelist (spans h' x)) = objs_per_span (pools h' r))" if r: "r \<le> META" for r
  proof (cases "r = p")
    case False
    have lr: "distinct (partial_spans (pools h r) @ empty_spans (pools h r))"
      "set (partial_spans (pools h r)) \<union> set (empty_spans (pools h r)) = {x \<in> S. sp_pool (spans h x) = r \<and> freelist (spans h x) \<noteq> []}"
      "\<And>x. x \<in> set (empty_spans (pools h r)) \<Longrightarrow> length (freelist (spans h x)) = objs_per_span (pools h r)"
      using l r by (simp_all add: lists_ok_def)
    have na: "x \<noteq> a" if "x \<in> set (empty_spans (pools h r))" for x using lr(2) that p(1) False by auto
    have "{x \<in> S. sp_pool (spans h x) = r \<and> freelist (spans h x) \<noteq> []} = {x \<in> S. sp_pool (spans h' x) = r \<and> freelist (spans h' x) \<noteq> []}"
    proof (rule Collect_cong)
      fix x show "(x \<in> S \<and> sp_pool (spans h x) = r \<and> freelist (spans h x) \<noteq> []) =
         (x \<in> S \<and> sp_pool (spans h' x) = r \<and> freelist (spans h' x) \<noteq> [])"
        using same sp p(1) False by (cases "x = a") auto
    qed
    then show ?thesis using lr na sp q [OF False] by auto
  next
    case True
    have lr: "set (partial_spans (pools h p)) \<union> set (empty_spans (pools h p)) = {x \<in> S. sp_pool (spans h x) = p \<and> freelist (spans h x) \<noteq> []}"
      "\<And>x. x \<in> set (empty_spans (pools h p)) \<Longrightarrow> length (freelist (spans h x)) = objs_per_span (pools h p)"
      using l p(2) by (simp_all add: lists_ok_def)
    have "{x \<in> S. sp_pool (spans h' x) = p \<and> freelist (spans h' x) \<noteq> []} =
       ({x \<in> S. sp_pool (spans h x) = p \<and> freelist (spans h x) \<noteq> []} - {a}) \<union> (if freelist (spans h' a) \<noteq> [] then {a} else {})"
    proof (rule set_eqI)
      fix x show "x \<in> {x \<in> S. sp_pool (spans h' x) = p \<and> freelist (spans h' x) \<noteq> []} \<longleftrightarrow>
        x \<in> ({x \<in> S. sp_pool (spans h x) = p \<and> freelist (spans h x) \<noteq> []} - {a}) \<union> (if freelist (spans h' a) \<noteq> [] then {a} else {})"
        using same sp p(1) a by (cases "x = a") auto
    qed
    moreover have "length (freelist (spans h' x)) = objs_per_span (pools h p)" if "x \<in> set (empty_spans (pools h' p))" for x
      using that e ea lr(2) sp by (cases "x = a") auto
    ultimately show ?thesis using True d u lr(1) geom_const(3) [OF g, of p] by simp
  qed
  have "empty_spans (pools h' META) = []"
    using m q [of META] l by (cases "p = META") (auto simp: lists_ok_def)
  then show ?thesis using one by (simp add: lists_ok_def)
qed

subsection \<open>Taking and giving back a slot\<close>

lemma set_pool_simps [simp]:
  "spans (set_pool p f h) = spans h" "buddy (set_pool p f h) = buddy h" "data_base (set_pool p f h) = data_base h"
  "pools (set_pool p f h) = (pools h)(p := f (pools h p))"
  by (simp_all add: set_pool_def)

lemma set_span_simps [simp]:
  "pools (set_span a f h) = pools h" "buddy (set_span a f h) = buddy h" "data_base (set_span a f h) = data_base h"
  "spans (set_span a f h) = (spans h)(a := f (spans h a))"
  by (simp_all add: set_span_def)

lemmas list_op_defs = partial_add_head_def partial_remove_def empty_add_head_def

text \<open>The merge queues are unchanged.\<close>

definition same_queues :: "pool_heap \<Rightarrow> pool_heap \<Rightarrow> bool" where
  "same_queues h h' \<longleftrightarrow> (\<forall>r. merge_head (pools h' r) = merge_head (pools h r) \<and> merge_tail (pools h' r) = merge_tail (pools h r) \<and>
      merge_queue (pools h' r) = merge_queue (pools h r) \<and> merge_q_size (pools h' r) = merge_q_size (pools h r) \<and>
      to_merge_head (pools h' r) = to_merge_head (pools h r))"

lemma span_lists:
  assumes c: "pool_core h S R" and a: "a \<in> S" and p: "sp_pool (spans h a) = p"
  shows "distinct (partial_spans (pools h p))" "distinct (empty_spans (pools h p))"
    "set (partial_spans (pools h p)) \<inter> set (empty_spans (pools h p)) = {}"
    "a \<in> set (partial_spans (pools h p)) \<or> a \<in> set (empty_spans (pools h p)) \<longleftrightarrow> freelist (spans h a) \<noteq> []"
    "a \<in> set (empty_spans (pools h p)) \<Longrightarrow> length (freelist (spans h a)) = objs_per_span (pools h p)" "p \<le> META"
    "empty_spans (pools h META) = []"
proof -
  show pm: "p \<le> META" using coreD(4) [OF c a] p by simp
  have l: "lists_ok h S" using c by (simp add: pool_core_def)
  then show "distinct (partial_spans (pools h p))" "distinct (empty_spans (pools h p))"
    "set (partial_spans (pools h p)) \<inter> set (empty_spans (pools h p)) = {}" "empty_spans (pools h META) = []"
    "a \<in> set (empty_spans (pools h p)) \<Longrightarrow> length (freelist (spans h a)) = objs_per_span (pools h p)"
    using pm by (simp_all add: lists_ok_def)
  have "a \<in> set (partial_spans (pools h p)) \<union> set (empty_spans (pools h p)) \<longleftrightarrow>
      a \<in> {a \<in> S. sp_pool (spans h a) = p \<and> freelist (spans h a) \<noteq> []}"
    using l pm by (simp add: lists_ok_def)
  then show "a \<in> set (partial_spans (pools h p)) \<or> a \<in> set (empty_spans (pools h p)) \<longleftrightarrow> freelist (spans h a) \<noteq> []"
    using a p by simp
qed

lemma span_okD:
  assumes "pool_core h S R" "a \<in> S"
  shows "distinct (freelist (spans h a) @ snap_freelist (spans h a))" "set (freelist (spans h a)) \<subseteq> slots h a"
    "set (snap_freelist (spans h a)) \<subseteq> slots h a"
    "nr_alloc (spans h a) = of_nat (objs_per_span (span_pool h a) - length (freelist (spans h a)))"
    "nr_snap_alloc (spans h a) = of_nat (length (snap_freelist (spans h a)))"
    "sp_pool (spans h a) = META \<Longrightarrow> snap_freelist (spans h a) = [] \<and> a = slot_at h a 0 \<and> a \<notin> set (freelist (spans h a))"
  using coreD(1) [OF assms] by (simp_all add: span_ok_def Let_def)

text \<open>What remains to be checked when only the free lists of one span change.\<close>

lemma span_ok_lists:
  assumes c: "pool_core h S R" and a: "a \<in> S" and g: "same_geom S h h'" and b: "buddy h' = buddy h"
    and d: "distinct (freelist (spans h' a) @ snap_freelist (spans h' a))"
    and f: "set (freelist (spans h' a) @ snap_freelist (spans h' a)) \<subseteq> slots h a"
    and n: "nr_alloc (spans h' a) = of_nat (objs_per_span (span_pool h a) - length (freelist (spans h' a)))"
      "nr_snap_alloc (spans h' a) = of_nat (length (snap_freelist (spans h' a)))"
    and m: "sp_pool (spans h a) = META \<Longrightarrow> snap_freelist (spans h' a) = [] \<and> a \<notin> set (freelist (spans h' a))"
  shows "span_ok h' a"
  using coreD(1) [OF c a] d f n m unfolding span_ok_def Let_def geom_slots [OF g a] b by simp

text \<open>No free slot holds the structure of a span.\<close>

lemma span_used:
  assumes c: "pool_core h S R" and a: "a \<in> S"
  shows "S \<inter> set (freelist (spans h a)) = {}"
proof -
  have "y \<notin> set (freelist (spans h a))" if y: "y \<in> S" for y
  proof -
    obtain m where m: "m \<in> S" "sp_pool (spans h m) = META" "y \<in> slots h m" "y \<notin> set (freelist (spans h m))"
      by (rule span_addr [OF c y])
    show ?thesis using m(3,4) slots_disjoint [OF c m(1) a] span_okD(2) [OF c a] by (cases "m = a") auto
  qed
  then show ?thesis by blast
qed

lemma span_take_core:
  assumes c: "pool_core h S R" and a: "a \<in> S" "sp_pool (spans h a) = p" "a \<in> set (partial_spans (pools h p))"
    and t: "span_take p a h = (x, h')"
  shows "pool_core h' S R" "x \<in> set (freelist (spans h a))" "same_geom S h h'" "buddy h' = buddy h"
    "\<And>y. y \<noteq> a \<Longrightarrow> spans h' y = spans h y" "freelist (spans h a) = x # freelist (spans h' a)"
    "snap_freelist (spans h' a) = snap_freelist (spans h a)"
    "same_queues h h'"
proof -
  note L = span_lists [OF c a(1,2)] and K = span_okD [OF c a(1)]
  obtain xs where f: "freelist (spans h a) = x # xs"
    using L(4) a(3) t by (cases "freelist (spans h a)") (auto simp: span_take_def Let_def)
  define h1 where "h1 = set_span a (\<lambda>sp. sp\<lparr>freelist := tl (freelist sp), nr_alloc := nr_alloc sp + 1\<rparr>) h"
  have h': "h' = (if xs = [] then partial_remove p a h1 else h1)" using t f by (auto simp: span_take_def Let_def h1_def)
  show "x \<in> set (freelist (spans h a))" by (simp add: f)
  show fl: "freelist (spans h a) = x # freelist (spans h' a)" and sn: "snap_freelist (spans h' a) = snap_freelist (spans h a)"
    and bd: "buddy h' = buddy h" and sp: "\<And>y. y \<noteq> a \<Longrightarrow> spans h' y = spans h y" and g: "same_geom S h h'"
    by (auto simp: h' h1_def list_op_defs f same_geom_def)
  show "same_queues h h'"
    by (auto simp: h' h1_def list_op_defs same_queues_def)
  have na: "nr_alloc (spans h' a) = nr_alloc (spans h a) + 1" "nr_snap_alloc (spans h' a) = nr_snap_alloc (spans h a)"
    by (auto simp: h' h1_def list_op_defs)
  have xs: "freelist (spans h' a) = xs" using fl f by simp
  have "length (freelist (spans h a)) \<le> objs_per_span (span_pool h a)"
    using K(1,2) card_slots [OF coreD(3) [OF c a(1)]] card_mono [of "slots h a" "set (freelist (spans h a))"]
    by (simp add: distinct_card slots_def)
  then have cnt: "objs_per_span (span_pool h a) - length xs = objs_per_span (span_pool h a) - length (freelist (spans h a)) + 1"
    by (simp add: f)
  have ok: "span_ok h' a"
    by (rule span_ok_lists [OF c a(1) g bd]) (use K f xs sn na cnt in auto)
  have pl: "partial_spans (pools h' p) = (if xs = [] then remove1 a (partial_spans (pools h p)) else partial_spans (pools h p))"
    "empty_spans (pools h' p) = empty_spans (pools h p)" "\<And>r. r \<noteq> p \<Longrightarrow> pools h' r = pools h r"
    by (auto simp: h' h1_def list_op_defs)
  have ne: "a \<notin> set (empty_spans (pools h p))" using L(3) a(3) by blast
  have lok: "lists_ok h' S"
  proof (rule lists_upd [OF _ a(1,2) L(6) g sp pl(3)])
    show "lists_ok h S" using c by (simp add: pool_core_def)
    show "distinct (partial_spans (pools h' p) @ empty_spans (pools h' p))" using L(1-3) by (auto simp: pl)
    show "set (partial_spans (pools h' p)) \<union> set (empty_spans (pools h' p)) =
      (set (partial_spans (pools h p)) \<union> set (empty_spans (pools h p)) - {a}) \<union> (if freelist (spans h' a) \<noteq> [] then {a} else {})"
      using L(1) ne a(3) by (auto simp: pl xs)
    show "set (empty_spans (pools h' p)) \<subseteq> set (empty_spans (pools h p)) \<union> {a}" by (simp add: pl subset_insertI)
    show "a \<in> set (empty_spans (pools h' p)) \<Longrightarrow> length (freelist (spans h' a)) = objs_per_span (pools h p)" using ne by (simp add: pl)
    show "p = META \<Longrightarrow> empty_spans (pools h' p) = []" using L(7) pl(2) by simp
  qed
  have anc: "S \<inter> set (freelist (spans h' a)) = {}" if "sp_pool (spans h a) = META"
    using span_used [OF c a(1)] by (auto simp: f xs)
  show "pool_core h' S R" by (rule core_span [OF c a(1) g bd sp ok lok anc])
qed

lemma of_nat_u16_zero: "n < 65536 \<Longrightarrow> (of_nat n :: u16) = 0 \<longleftrightarrow> n = 0"
  by (simp add: word_unat_eq_iff unat_of_nat)

lemma obj_free_core:
  assumes c: "pool_core h S R" and a: "a \<in> S" "sp_pool (spans h a) = p"
    and x: "x \<in> slots h a" "x \<notin> set (freelist (spans h a))" "x \<notin> set (snap_freelist (spans h a))" and m: "p = META \<longrightarrow> x \<notin> S"
  defines "h' \<equiv> pool_obj_free p a x h"
  shows "pool_core h' S R" "same_geom S h h'" "buddy h' = buddy h" "\<And>y. y \<noteq> a \<Longrightarrow> spans h' y = spans h y"
    "freelist (spans h' a) = x # freelist (spans h a)" "snap_freelist (spans h' a) = snap_freelist (spans h a)" "same_queues h h'"
proof -
  note L = span_lists [OF c a] and K = span_okD [OF c a(1)]
  let ?n = "objs_per_span (pools h p)" and ?f = "freelist (spans h a)"
  have q: "span_pool h a = pools h p" by (simp add: span_pool_def a(2))
  have lt: "length ?f < ?n" using not_full [OF c a(1) x(1,2)] q by simp
  have n16: "?n < 65536" using coreD(3) [OF c a(1)] q by (simp add: pool_const_def)
  have ne: "a \<notin> set (empty_spans (pools h p))" using L(5) lt by auto
  define h1 where "h1 = set_span a (\<lambda>sp. sp\<lparr>freelist := x # freelist sp, nr_alloc := nr_alloc sp - 1\<rparr>) h"
  have h': "h' = (if nr_alloc (spans h1 a) = 0 then
           (let h2 = (if ?f \<noteq> [] then partial_remove p a h1 else h1)
            in if obj_size (pools h2 p) = SPAN_INFO_SIZE then partial_add_head p a h2 else empty_add_head p a h2)
         else if ?f = [] then partial_add_head p a h1 else partial_add_head p a (partial_remove p a h1))"
    unfolding h'_def pool_obj_free_def Let_def h1_def by simp
  have n1: "nr_alloc (spans h1 a) = of_nat (?n - length (x # ?f))"
    using K(4) lt by (simp add: h1_def q of_nat_diff)
  have zero: "nr_alloc (spans h1 a) = 0 \<longleftrightarrow> length (x # ?f) = ?n"
    using n1 of_nat_u16_zero [of "?n - length (x # ?f)"] lt n16 by auto
  have s1: "spans h' = spans h1" "buddy h' = buddy h" "data_base h' = data_base h"
    by (simp_all add: h' list_op_defs h1_def Let_def)
  show fl: "freelist (spans h' a) = x # ?f" and sn: "snap_freelist (spans h' a) = snap_freelist (spans h a)"
    and bd: "buddy h' = buddy h" and sp: "\<And>y. y \<noteq> a \<Longrightarrow> spans h' y = spans h y"
    by (simp_all add: s1 h1_def)
  show sq: "same_queues h h'" by (simp add: same_queues_def h' list_op_defs h1_def Let_def)
  show g: "same_geom S h h'" by (simp add: same_geom_def h' list_op_defs h1_def Let_def)
  have ok: "span_ok h' a"
  proof (rule span_ok_lists [OF c a(1) g bd])
    show "nr_alloc (spans h' a) = of_nat (objs_per_span (span_pool h a) - length (freelist (spans h' a)))"
      unfolding s1(1) n1 fl [unfolded s1(1)] q ..
    show "nr_snap_alloc (spans h' a) = of_nat (length (snap_freelist (spans h' a)))" using K(5) by (simp add: s1 h1_def)
    show "sp_pool (spans h a) = META \<Longrightarrow> snap_freelist (spans h' a) = [] \<and> a \<notin> set (freelist (spans h' a))"
      using K(6) m a by (auto simp: fl sn)
  qed (use K x in \<open>auto simp: fl sn\<close>)
  have pr: "\<And>r. r \<noteq> p \<Longrightarrow> pools h' r = pools h r" by (simp add: h' list_op_defs h1_def Let_def)
  have pl: "partial_spans (pools h' p) = (if nr_alloc (spans h1 a) = 0 \<and> obj_size (pools h p) \<noteq> SPAN_INFO_SIZE
      then remove1 a (partial_spans (pools h p)) else a # remove1 a (partial_spans (pools h p)))"
    "empty_spans (pools h' p) = (if nr_alloc (spans h1 a) = 0 \<and> obj_size (pools h p) \<noteq> SPAN_INFO_SIZE
      then a # empty_spans (pools h p) else empty_spans (pools h p))"
    using L(4) by (auto simp: h' list_op_defs h1_def Let_def remove1_idem)
  have lok: "lists_ok h' S"
  proof (rule lists_upd [OF _ a L(6) g sp pr])
    show "lists_ok h S" using c by (simp add: pool_core_def)
    show "distinct (partial_spans (pools h' p) @ empty_spans (pools h' p))" using L(1-3) ne by (auto simp: pl)
    show "set (partial_spans (pools h' p)) \<union> set (empty_spans (pools h' p)) =
      (set (partial_spans (pools h p)) \<union> set (empty_spans (pools h p)) - {a}) \<union> (if freelist (spans h' a) \<noteq> [] then {a} else {})"
      using L(1) ne by (auto simp: pl fl)
    show "set (empty_spans (pools h' p)) \<subseteq> set (empty_spans (pools h p)) \<union> {a}" by (auto simp: pl)
    show "a \<in> set (empty_spans (pools h' p)) \<Longrightarrow> length (freelist (spans h' a)) = ?n" using ne zero by (auto simp: pl fl split: if_splits)
    show "p = META \<Longrightarrow> empty_spans (pools h' p) = []" using L(7) pl(2) c by (auto simp: pool_core_def)
  qed
  have anc: "S \<inter> set (freelist (spans h' a)) = {}" if "sp_pool (spans h a) = META"
    using span_used [OF c a(1)] m that a(2) by (auto simp: fl)
  show "pool_core h' S R" by (rule core_span [OF c a(1) g bd sp ok lok anc])
qed

subsection \<open>Deferred frees\<close>

lemma span_count:
  assumes c: "pool_core h S R" and a: "a \<in> S"
  shows "length (freelist (spans h a)) + length (snap_freelist (spans h a)) \<le> objs_per_span (span_pool h a)"
    "objs_per_span (span_pool h a) < 65536"
proof -
  note K = span_okD [OF c a]
  have "card (set (freelist (spans h a) @ snap_freelist (spans h a))) \<le> card (slots h a)"
    by (rule card_mono) (use K(2,3) in \<open>auto simp: slots_def\<close>)
  then show "length (freelist (spans h a)) + length (snap_freelist (spans h a)) \<le> objs_per_span (span_pool h a)"
    using K(1) card_slots [OF coreD(3) [OF c a]] by (simp only: distinct_card length_append)
  show "objs_per_span (span_pool h a) < 65536" using coreD(3) [OF c a] by (simp add: pool_const_def)
qed

lemma defer_free_core:
  assumes c: "pool_core h S R" and a: "a \<in> S" "sp_pool (spans h a) \<noteq> META" and x: "x \<in> live_slots h a"
  defines "h' \<equiv> pool_snap_defer_free a x h"
  shows "pool_core h' S R" "same_geom S h h'" "same_queues h h'"
proof -
  define p where "p = sp_pool (spans h a)"
  note L = span_lists [OF c a(1) p_def [symmetric]] and K = span_okD [OF c a(1)]
  have g: "same_geom S h h'" and b: "buddy h' = buddy h" and pl: "pools h' = pools h" and sp: "\<And>y. y \<noteq> a \<Longrightarrow> spans h' y = spans h y"
    and fl: "freelist (spans h' a) = freelist (spans h a)" "snap_freelist (spans h' a) = x # snap_freelist (spans h a)"
    by (auto simp: h'_def pool_snap_defer_free_def same_geom_def)
  show "same_geom S h h'" "same_queues h h'" using g pl by (simp_all add: same_queues_def)
  have x': "x \<in> slots h a" "x \<notin> set (freelist (spans h a))" "x \<notin> set (snap_freelist (spans h a))" using x by (simp_all add: live_slots_def)
  have ok: "span_ok h' a"
  proof (rule span_ok_lists [OF c a(1) g b])
    show "distinct (freelist (spans h' a) @ snap_freelist (spans h' a))" using K(1) x' by (auto simp: fl)
    show "set (freelist (spans h' a) @ snap_freelist (spans h' a)) \<subseteq> slots h a" using K(2,3) x' by (auto simp: fl)
    show "nr_alloc (spans h' a) = of_nat (objs_per_span (span_pool h a) - length (freelist (spans h' a)))"
      unfolding fl using K(4) by (simp add: h'_def pool_snap_defer_free_def)
    show "nr_snap_alloc (spans h' a) = of_nat (length (snap_freelist (spans h' a)))"
      unfolding fl using K(5) by (simp add: h'_def pool_snap_defer_free_def)
  qed (use a(2) in simp)
  have lok: "lists_ok h' S"
    by (rule lists_upd [OF _ a(1) p_def [symmetric] L(6) g sp])
      (use c L in \<open>auto simp: pl fl pool_core_def\<close>)
  show "pool_core h' S R" by (rule core_span [OF c a(1) g b sp ok lok]) (use a(2) in simp_all)
qed

lemma merge_core:
  assumes c: "pool_core h S R" and a: "a \<in> S" "sp_pool (spans h a) = p" and s: "snap_freelist (spans h a) \<noteq> []"
  defines "h' \<equiv> span_merge_logic p a h"
  shows "pool_core h' S R" "same_geom S h h'" "buddy h' = buddy h" "\<And>y. y \<noteq> a \<Longrightarrow> spans h' y = spans h y"
    "freelist (spans h' a) = snap_freelist (spans h a) @ freelist (spans h a)" "snap_freelist (spans h' a) = []" "same_queues h h'"
proof -
  note L = span_lists [OF c a] and K = span_okD [OF c a(1)] and N = span_count [OF c a(1)]
  let ?n = "objs_per_span (pools h p)" and ?f = "freelist (spans h a)" and ?s = "snap_freelist (spans h a)"
  have pm: "p \<noteq> META" using K(6) s a(2) by auto
  have q: "span_pool h a = pools h p" by (simp add: span_pool_def a(2))
  have ne: "a \<notin> set (empty_spans (pools h p))" using L(5) N(1) s q by auto
  define lft where "lft = nr_alloc (spans h a) - nr_snap_alloc (spans h a)"
  have lft: "lft = of_nat (?n - length (?s @ ?f))" using K(4,5) N(1) q by (simp add: lft_def of_nat_diff)
  have zero: "lft = 0 \<longleftrightarrow> length (?s @ ?f) = ?n" using lft of_nat_u16_zero [of "?n - length (?s @ ?f)"] N q by auto
  define h1 where "h1 = set_span a (\<lambda>sp. sp\<lparr>freelist := snap_freelist sp @ freelist sp, nr_alloc := lft, snap_freelist := [], nr_snap_alloc := 0\<rparr>) h"
  have h': "h' = (if lft = 0 then empty_add_head p a (if ?f \<noteq> [] then partial_remove p a h1 else h1)
               else if ?f = [] then partial_add_head p a h1 else h1)"
    using s unfolding h'_def span_merge_logic_def Let_def h1_def lft_def by simp
  have s1: "spans h' = spans h1" by (simp add: h' list_op_defs)
  show fl: "freelist (spans h' a) = ?s @ ?f" and sn: "snap_freelist (spans h' a) = []"
    and sp: "\<And>y. y \<noteq> a \<Longrightarrow> spans h' y = spans h y" by (simp_all add: s1 h1_def)
  show bd: "buddy h' = buddy h" by (simp add: h' list_op_defs h1_def)
  show "same_queues h h'" by (simp add: same_queues_def h' list_op_defs h1_def)
  show g: "same_geom S h h'" by (simp add: same_geom_def h' list_op_defs h1_def)
  have ok: "span_ok h' a"
  proof (rule span_ok_lists [OF c a(1) g bd])
    show "nr_alloc (spans h' a) = of_nat (objs_per_span (span_pool h a) - length (freelist (spans h' a)))"
      unfolding fl q using lft by (simp add: s1 h1_def)
    show "nr_snap_alloc (spans h' a) = of_nat (length (snap_freelist (spans h' a)))" unfolding sn by (simp add: s1 h1_def)
  qed (use K pm a(2) in \<open>auto simp: fl sn\<close>)
  have pr: "\<And>r. r \<noteq> p \<Longrightarrow> pools h' r = pools h r" by (simp add: h' list_op_defs h1_def)
  have pl: "partial_spans (pools h' p) = (if lft = 0 then remove1 a (partial_spans (pools h p)) else if ?f = [] then a # partial_spans (pools h p)
      else partial_spans (pools h p))"
    "empty_spans (pools h' p) = (if lft = 0 then a # empty_spans (pools h p) else empty_spans (pools h p))"
    using L(4) by (auto simp: h' list_op_defs h1_def remove1_idem)
  have lok: "lists_ok h' S"
  proof (rule lists_upd [OF _ a L(6) g sp pr])
    show "lists_ok h S" using c by (simp add: pool_core_def)
    show "distinct (partial_spans (pools h' p) @ empty_spans (pools h' p))" using L(1-4) ne by (auto simp: pl)
    show "set (partial_spans (pools h' p)) \<union> set (empty_spans (pools h' p)) =
      (set (partial_spans (pools h p)) \<union> set (empty_spans (pools h p)) - {a}) \<union> (if freelist (spans h' a) \<noteq> [] then {a} else {})"
      using L(1,4) ne s by (auto simp: pl fl)
    show "set (empty_spans (pools h' p)) \<subseteq> set (empty_spans (pools h p)) \<union> {a}" by (auto simp: pl)
    show "a \<in> set (empty_spans (pools h' p)) \<Longrightarrow> length (freelist (spans h' a)) = ?n" using ne zero by (auto simp: pl fl split: if_splits)
    show "p = META \<Longrightarrow> empty_spans (pools h' p) = []" using pm by simp
  qed
  show "pool_core h' S R" by (rule core_span [OF c a(1) g bd sp ok lok]) (use pm a(2) in simp_all)
qed

text \<open>A merge removes its span from the queue.\<close>

lemma merge_queue_ok:
  assumes c: "pool_core h S R" and Q: "queues_ok h S Q" and p: "p \<le> META" and i: "Q p = i # rest"
  obtains a where "a \<in> S" "sp_pool (spans h a) = p" "snap_freelist (spans h a) \<noteq> []" "pg_span (pages (buddy h) i) = Some a"
    "queues_ok (span_merge_logic p a h) S (Q(p := rest))"
proof -
  have Qp: "distinct (i # rest)" "\<And>r k. r \<le> META \<Longrightarrow> k \<in> set (Q r) \<Longrightarrow>
      \<exists>a \<in> S. head_lpage (spans h a) = k \<and> sp_pool (spans h a) = r \<and> snap_freelist (spans h a) \<noteq> []"
    using Q p i unfolding queues_ok_def by metis+
  obtain a where a: "a \<in> S" "head_lpage (spans h a) = i" "sp_pool (spans h a) = p" "snap_freelist (spans h a) \<noteq> []"
    using Qp(2) [OF p, of i] i by auto
  have "0 < objs_per_span (span_pool h a) * obj_size (span_pool h a)" using coreD(3) [OF c a(1)] by (simp add: pool_const_def)
  then have "0 < sp_size (spans h a)" using coreD(3,5) [OF c a(1)] by (cases "lpages_per_span (span_pool h a)") (auto simp: pool_const_def)
  then have "i \<in> span_pages h a" by (simp add: span_pages_def a(2))
  then have pg: "pg_span (pages (buddy h) i) = Some a" by (rule span_page_info(2) [OF c a(1)])
  note M = merge_core [OF c a(1,3,4)]
  have "queues_ok (span_merge_logic p a h) S (Q(p := rest))"
    unfolding queues_ok_def
  proof (intro allI impI conjI ballI)
    fix r assume r: "r \<le> META"
    show "distinct ((Q(p := rest)) r)" using Q Qp(1) r by (auto simp: queues_ok_def)
    fix k assume k: "k \<in> set ((Q(p := rest)) r)"
    then have "k \<in> set (Q r)" using i by (auto split: if_splits)
    then obtain x where x: "x \<in> S" "head_lpage (spans h x) = k" "sp_pool (spans h x) = r" "snap_freelist (spans h x) \<noteq> []"
      using Qp(2) [OF r] by blast
    have "x \<noteq> a" using x a k Qp(1) by (auto split: if_splits)
    then show "\<exists>x \<in> S. head_lpage (spans (span_merge_logic p a h) x) = k \<and> sp_pool (spans (span_merge_logic p a h) x) = r \<and>
        snap_freelist (spans (span_merge_logic p a h) x) \<noteq> []"
      using x M(4) by (intro bexI [of _ x]) auto
  qed
  then show thesis using that a pg by blast
qed

text \<open>Changing only the queue of a pool.\<close>

definition lists_of :: "small_pool \<Rightarrow> nat \<times> nat \<times> nat \<times> nat list \<times> nat list" where
  "lists_of q = (obj_size q, lpages_per_span q, objs_per_span q, partial_spans q, empty_spans q)"

lemma core_queues:
  assumes c: "pool_core h S R" and e: "buddy h' = buddy h" "spans h' = spans h" "data_base h' = data_base h"
    and q: "\<And>r. lists_of (pools h' r) = lists_of (pools h r)"
  shows "pool_core h' S R" "same_geom S h h'"
proof -
  have f: "obj_size (pools h' r) = obj_size (pools h r)" "lpages_per_span (pools h' r) = lpages_per_span (pools h r)"
    "objs_per_span (pools h' r) = objs_per_span (pools h r)" "partial_spans (pools h' r) = partial_spans (pools h r)"
    "empty_spans (pools h' r) = empty_spans (pools h r)" for r
    using q [of r] by (simp_all add: lists_of_def)
  show g: "same_geom S h h'" by (simp add: same_geom_def e f)
  have "span_ok h' a \<and> anchored h' S a" if "a \<in> S" for a
    using span_ok_frame [OF g that] coreD(1,2) [OF c that] geom_slots(2) [OF g] by (auto simp: e anchored_def)
  moreover have "lists_ok h' S" using c by (simp add: pool_core_def lists_ok_def e f)
  ultimately show "pool_core h' S R" using c by (simp add: pool_core_def e f pool_const_def)
qed

lemma same_geom_trans: "same_geom S a b \<Longrightarrow> same_geom S b c \<Longrightarrow> same_geom S a c"
  by (simp add: same_geom_def)

lemma same_queues_trans: "same_queues a b \<Longrightarrow> same_queues b c \<Longrightarrow> same_queues a c"
  by (simp add: same_queues_def)

lemma live_merge:
  assumes c: "pool_core h S R" and a: "a \<in> S" "sp_pool (spans h a) = p" and s: "snap_freelist (spans h a) \<noteq> []"
  shows "live (span_merge_logic p a h) S = live h S"
proof -
  note M = merge_core [OF c a s]
  have "live_slots (span_merge_logic p a h) x = live_slots h x" if "x \<in> S" for x
    using M(4,5,6) geom_slots(2) [OF M(2) that] by (cases "x = a") (auto simp: live_slots_def)
  then show ?thesis using geom_slots(7) [OF M(2)] by (auto simp: live_def)
qed

lemma same_queues_queued: "same_queues h h' \<Longrightarrow> queued (pools h' r) = queued (pools h r)"
  by (simp add: same_queues_def queued_def ring_list_def)

lemma same_queues_ring: "same_queues h h' \<Longrightarrow> ring_ok (pools h' r) = ring_ok (pools h r)"
  by (simp add: same_queues_def ring_ok_def)

lemma ring_pop:
  assumes "ring_ok q" "merge_head q \<noteq> merge_tail q"
  shows "ring_list q = merge_queue q (merge_head q) # ring_list (q\<lparr>merge_head := (merge_head q + 1) mod 128\<rparr>)"
proof -
  let ?c = "(merge_tail q + 128 - merge_head q) mod 128" and ?h = "(merge_head q + 1) mod 128"
  have r: "merge_q_size q = 128" "merge_head q < 128" "merge_tail q < 128" using assms(1) by (simp_all add: ring_ok_def)
  have c: "?c = Suc ((merge_tail q + 128 - ?h) mod 128)"
  proof (cases "merge_head q = 127")
    case True
    then show ?thesis using r assms(2) by simp
  next
    case False
    then have "?h = merge_head q + 1" using r by simp
    then show ?thesis using r assms(2) False
      by (cases "merge_head q < merge_tail q") (auto simp: mod_if)
  qed
  have m: "map (\<lambda>i. merge_queue q ((merge_head q + Suc i) mod 128)) [0..<n] = map (\<lambda>i. merge_queue q ((?h + i) mod 128)) [0..<n]" for n
    by (rule map_cong) (simp_all add: mod_add_left_eq)
  have "ring_list q = map (\<lambda>i. merge_queue q ((merge_head q + i) mod 128)) [0..<Suc ((merge_tail q + 128 - ?h) mod 128)]"
    by (simp add: ring_list_def r c)
  also have "\<dots> = merge_queue q (merge_head q) # map (\<lambda>i. merge_queue q ((merge_head q + Suc i) mod 128)) [0..<(merge_tail q + 128 - ?h) mod 128]"
    using r(2) by (simp only: upt_conv_Cons map_Suc_upt [symmetric] list.map map_map comp_def zero_less_Suc) simp
  also have "\<dots> = merge_queue q (merge_head q) # ring_list (q\<lparr>merge_head := ?h\<rparr>)" unfolding m by (simp add: ring_list_def r)
  finally show ?thesis .
qed

lemma queues_ok_cong:
  assumes "queues_ok h S Q" "\<And>r. r \<le> META \<Longrightarrow> distinct (Q' r) \<and> set (Q' r) \<subseteq> set (Q r)"
  shows "queues_ok h S Q'"
  using assms unfolding queues_ok_def by blast

lemma merge_incremental_inv:
  assumes "pool_inv h S R" "p \<le> META"
  shows "pool_inv (pool_snap_merge_incremental p n h) S R \<and> same_geom S h (pool_snap_merge_incremental p n h) \<and>
    buddy (pool_snap_merge_incremental p n h) = buddy h \<and> live (pool_snap_merge_incremental p n h) S = live h S"
  using assms(1)
proof (induction n arbitrary: h)
  case 0
  then show ?case by (simp add: same_geom_def)
next
  case (Suc n)
  have c: "pool_core h S R" and rg: "\<And>r. r \<le> META \<Longrightarrow> ring_ok (pools h r)" and Q: "queues_ok h S (\<lambda>r. queued (pools h r))"
    using Suc.prems by (simp_all add: pool_inv_def)
  define hix where "hix = merge_head (pools h p)"
  show ?case
  proof (cases "hix = merge_tail (pools h p)")
    case True
    then show ?thesis using Suc.prems by (simp add: hix_def same_geom_def)
  next
    case False
    define q' where "q' = (pools h p)\<lparr>merge_head := (hix + 1) mod 128\<rparr>"
    have pop: "queued (pools h p) = merge_queue (pools h p) hix # queued q'"
      using ring_pop [OF rg [OF assms(2)]] False by (simp add: queued_def hix_def q'_def)
    obtain a where a: "a \<in> S" "sp_pool (spans h a) = p" "snap_freelist (spans h a) \<noteq> []"
      "pg_span (pages (buddy h) (merge_queue (pools h p) hix)) = Some a"
      "queues_ok (span_merge_logic p a h) S ((\<lambda>r. queued (pools h r))(p := queued q'))"
      by (rule merge_queue_ok [OF c Q assms(2) pop])
    note M = merge_core [OF c a(1-3)]
    define h1 where "h1 = span_merge_logic p a h"
    define h2 where "h2 = set_pool p (\<lambda>q. q\<lparr>merge_head := (hix + 1) mod merge_q_size q\<rparr>) h1"
    have qs: "merge_q_size (pools h1 p) = 128" using M(7) rg [OF assms(2)] by (simp add: same_queues_def ring_ok_def h1_def)
    have run: "pool_snap_merge_incremental p (Suc n) h = pool_snap_merge_incremental p n h2"
      using False a(4) by (simp add: hix_def [symmetric] h2_def h1_def Let_def)
    have c2: "pool_core h2 S R" "same_geom S h1 h2"
      using core_queues [OF M(1), of h2] by (simp_all add: h2_def h1_def lists_of_def)
    have qd: "queued (pools h2 r) = ((\<lambda>r. queued (pools h r))(p := queued q')) r" for r
      using M(7) qs by (auto simp: h2_def h1_def queued_def ring_list_def q'_def same_queues_def)
    have rg2: "ring_ok (pools h2 r)" if "r \<le> META" for r
      using rg [OF that] M(7) qs by (auto simp: h2_def h1_def ring_ok_def same_queues_def)
    have "queues_ok h2 S (\<lambda>r. queued (pools h2 r))"
      using a(5) unfolding qd by (simp add: queues_ok_def h2_def h1_def)
    then have inv: "pool_inv h2 S R" using c2(1) rg2 by (simp add: pool_inv_def)
    have "live h2 S = live h1 S"
      using geom_slots(2,7) [OF c2(2)] by (auto simp: live_def live_slots_def h2_def)
    then have lv: "live h2 S = live h S" using live_merge [OF c a(1-3)] by (simp add: h1_def)
    have bd: "buddy h2 = buddy h" using M(3) by (simp add: h2_def h1_def)
    have g: "same_geom S h h2" using M(2) c2(2) by (simp add: same_geom_def h1_def)
    note IH = Suc.IH [OF inv]
    moreover have "same_geom S h (pool_snap_merge_incremental p n h2)" using same_geom_trans [OF g] IH by blast
    ultimately show ?thesis unfolding run using lv bd by simp
  qed
qed

lemma merge_stack_inv:
  assumes "pool_core h S R" "queues_ok h S Q" "Q p = xs @ ys" "p \<le> META"
  shows "pool_core (merge_stack p xs h) S R \<and> queues_ok (merge_stack p xs h) S (Q(p := ys)) \<and> same_geom S h (merge_stack p xs h) \<and>
    same_queues h (merge_stack p xs h) \<and> buddy (merge_stack p xs h) = buddy h \<and> live (merge_stack p xs h) S = live h S"
  using assms
proof (induction xs arbitrary: h Q)
  case Nil
  then have "Q(p := ys) = Q" by auto
  then show ?case using Nil by (simp add: same_geom_def same_queues_def)
next
  case (Cons i xs)
  obtain a where a: "a \<in> S" "sp_pool (spans h a) = p" "snap_freelist (spans h a) \<noteq> []"
    "pg_span (pages (buddy h) i) = Some a" "queues_ok (span_merge_logic p a h) S (Q(p := xs @ ys))"
    by (rule merge_queue_ok [OF Cons.prems(1,2,4)]) (use Cons.prems(3) in simp)
  note M = merge_core [OF Cons.prems(1) a(1-3)] and lv = live_merge [OF Cons.prems(1) a(1-3)]
  have Q2: "(\<lambda>a. if a = p then ys else if a = p then xs @ ys else Q a) = Q(p := ys)" "(\<lambda>a. if a = p then ys else Q a) = Q(p := ys)" by auto
  have "pool_core (merge_stack p xs (span_merge_logic p a h)) S R \<and>
    queues_ok (merge_stack p xs (span_merge_logic p a h)) S (Q(p := ys)) \<and>
    same_geom S (span_merge_logic p a h) (merge_stack p xs (span_merge_logic p a h)) \<and>
    same_queues (span_merge_logic p a h) (merge_stack p xs (span_merge_logic p a h)) \<and>
    buddy (merge_stack p xs (span_merge_logic p a h)) = buddy (span_merge_logic p a h) \<and>
    live (merge_stack p xs (span_merge_logic p a h)) S = live (span_merge_logic p a h) S"
    using Cons.IH [OF M(1) a(5) _ Cons.prems(4)] by (simp add: Q2)
  moreover have run: "merge_stack p (i # xs) h = merge_stack p xs (span_merge_logic p a h)" using a(4) by simp
  ultimately show ?case unfolding run using M(3) lv same_geom_trans [OF M(2)] same_queues_trans [OF M(7)] by (simp add: Q2)
qed

lemma snap_merge_inv:
  assumes inv: "pool_inv h S R" and p: "p \<le> META"
  shows "pool_inv (pool_snap_merge p h) S R \<and> same_geom S h (pool_snap_merge p h) \<and> buddy (pool_snap_merge p h) = buddy h \<and>
    live (pool_snap_merge p h) S = live h S"
proof -
  define h1 where "h1 = pool_snap_merge_incremental p (merge_q_size (pools h p)) h"
  have i1: "pool_inv h1 S R" "same_geom S h h1" "buddy h1 = buddy h" "live h1 S = live h S"
    using merge_incremental_inv [OF inv p] by (simp_all add: h1_def)
  define h2 where "h2 = set_pool p (\<lambda>q. q\<lparr>to_merge_head := []\<rparr>) h1"
  define xs where "xs = to_merge_head (pools h1 p)"
  have c1: "pool_core h1 S R" "\<And>r. r \<le> META \<Longrightarrow> ring_ok (pools h1 r)" "queues_ok h1 S (\<lambda>r. queued (pools h1 r))"
    using i1(1) by (simp_all add: pool_inv_def)
  have c2: "pool_core h2 S R" "same_geom S h1 h2" using core_queues [OF c1(1), of h2] by (simp_all add: h2_def lists_of_def)
  let ?Q = "(\<lambda>r. queued (pools h1 r))(p := xs @ ring_list (pools h1 p))"
  have "queues_ok h1 S ?Q"
    by (rule queues_ok_cong [OF c1(3)]) (use c1(3) in \<open>auto simp: queues_ok_def queued_def xs_def\<close>)
  then have Q2: "queues_ok h2 S ?Q" by (simp add: queues_ok_def h2_def)
  have S3: "pool_core (merge_stack p xs h2) S R \<and> queues_ok (merge_stack p xs h2) S (?Q(p := ring_list (pools h1 p))) \<and>
    same_geom S h2 (merge_stack p xs h2) \<and> same_queues h2 (merge_stack p xs h2) \<and> buddy (merge_stack p xs h2) = buddy h2 \<and>
    live (merge_stack p xs h2) S = live h2 S"
    by (rule merge_stack_inv [OF c2(1) Q2 _ p]) simp
  define h3 where "h3 = merge_stack p xs h2"
  have run: "pool_snap_merge p h = h3" by (simp add: pool_snap_merge_def Let_def h1_def h2_def xs_def h3_def)
  note S3 = S3 [folded h3_def]
  have qd: "queued (pools h3 r) = (?Q(p := ring_list (pools h1 p))) r" for r
    using S3 by (auto simp: same_queues_def h2_def queued_def ring_list_def)
  have "(\<lambda>r. queued (pools h3 r)) = ?Q(p := ring_list (pools h1 p))" by (rule ext) (rule qd)
  then have "queues_ok h3 S (\<lambda>r. queued (pools h3 r))" using S3 by simp
  moreover have "ring_ok (pools h3 r)" if "r \<le> META" for r using c1(2) [OF that] S3 by (auto simp: same_queues_def h2_def ring_ok_def)
  moreover have "live h2 S = live h1 S" using geom_slots(2,7) [OF c2(2)] by (auto simp: live_def live_slots_def h2_def)
  ultimately show ?thesis unfolding run
    using S3 i1(3,4) same_geom_trans [OF same_geom_trans [OF i1(2) c2(2)]] by (simp add: pool_inv_def h2_def)
qed

subsection \<open>Runs of pages and new spans\<close>

lemma inv_buddy:
  assumes inv: "pool_inv h S R" and c: "pool_core (h\<lparr>buddy := b'\<rparr>) S R'" and nr: "nr_pages b' = nr_pages (buddy h)"
  shows "pool_inv (h\<lparr>buddy := b'\<rparr>) S R'" "live (h\<lparr>buddy := b'\<rparr>) S = live h S" "same_geom S h (h\<lparr>buddy := b'\<rparr>)"
proof -
  show "pool_inv (h\<lparr>buddy := b'\<rparr>) S R'" using inv c by (simp add: pool_inv_def queues_ok_def)
  show g: "same_geom S h (h\<lparr>buddy := b'\<rparr>)" by (simp add: same_geom_def nr)
  show "live (h\<lparr>buddy := b'\<rparr>) S = live h S" using geom_slots(2) [OF g] by (auto simp: live_def live_slots_def)
qed

lemma span_alloc_small:
  assumes "buddy_span_alloc n b = (Some i, b')"
  shows "0 < n" "n < 2 ^ BUDDY_MAX_ORDER"
proof -
  have o: "n \<noteq> 0" "\<not> BUDDY_MAX_ORDER \<le> buddy_math_ceil_log2 n" using assms by (auto simp: buddy_span_alloc_def Let_def split: if_splits)
  then show "0 < n" by simp
  have "n \<le> 2 ^ buddy_math_ceil_log2 n" using ceil_log2_bounds [of n] o(1) by simp
  also have "(2 :: nat) ^ buddy_math_ceil_log2 n < 2 ^ BUDDY_MAX_ORDER" using o(2) by (simp add: power_strict_increasing)
  finally show "n < 2 ^ BUDDY_MAX_ORDER" .
qed

lemma run_page:
  assumes "runs_ok b R" "(i, n) \<in> R" "pg \<in> {i..<i + n}"
  shows "\<not> pg_free (pages b pg)" "pg_span (pages b pg) = None" "pg_span_size (pages b pg) = n" "pg < nr_pages b"
  using assms by (auto simp: runs_ok_def)

lemma span_run_disjoint:
  assumes c: "pool_core h S R" and a: "a \<in> S" and r: "(i, n) \<in> R"
  shows "span_pages h a \<inter> {i..<i + n} = {}"
  using span_page_info(2) [OF c a] run_page(2) [OF _ r] c by (fastforce simp: pool_core_def)

lemma run_alloc_inv:
  assumes inv: "pool_inv h S R" and al: "buddy_span_alloc n (buddy h) = (Some i, b')"
  shows "pool_inv (h\<lparr>buddy := b'\<rparr>) S (insert (i, n) R)" "(i, n) \<notin> R" "live (h\<lparr>buddy := b'\<rparr>) S = live h S"
    "pg_span_size (pages b' i) = n" "same_geom S h (h\<lparr>buddy := b'\<rparr>)"
proof -
  let ?b = "buddy h" and ?I = "{i..<i + n}"
  have c: "pool_core h S R" using inv by (simp add: pool_inv_def)
  then obtain F where st: "buddy_state ?b F" by (auto simp: pool_core_def buddy_ok_def)
  have A: "buddy_ok b'" "?I \<subseteq> free_pages ?b" "free_pages b' = free_pages ?b - ?I" "\<And>pg. pg \<in> ?I \<Longrightarrow> pages b' pg = span_page n (pg - i)"
    "nr_pages b' = nr_pages ?b" "\<And>pg. pg \<notin> free_pages ?b \<Longrightarrow> pages b' pg = pages ?b pg"
    using span_alloc_ok [OF st, of n] al by (auto simp: buddy_ok_def)
  note n = span_alloc_small [OF al]
  have runs: "runs_ok ?b R" using c by (simp add: pool_core_def)
  have off: "pg \<notin> free_pages ?b" if "(j, m) \<in> R" "pg \<in> {j..<j + m}" for j m pg
    using run_page(1) [OF runs that] by (simp add: free_pages_def)
  have iI: "i \<in> ?I" using n by simp
  show "(i, n) \<notin> R" using off A(2) iI by blast
  show "pg_span_size (pages b' i) = n" using A(4) [OF iI] by (simp add: span_page_def)
  have old: "0 < m \<and> m < 2 ^ BUDDY_MAX_ORDER \<and> j + m \<le> nr_pages b' \<and> (\<forall>pg \<in> {j..<j + m}. \<not> pg_free (pages b' pg) \<and>
      pg_span (pages b' pg) = None \<and> pg_span_size (pages b' pg) = m)" if "(j, m) \<in> R" for j m
    using runs that A(5) A(6) [OF off [OF that]] by (fastforce simp: runs_ok_def)
  have new: "0 < n \<and> n < 2 ^ BUDDY_MAX_ORDER \<and> i + n \<le> nr_pages b' \<and> (\<forall>pg \<in> ?I. \<not> pg_free (pages b' pg) \<and>
      pg_span (pages b' pg) = None \<and> pg_span_size (pages b' pg) = n)"
  proof (intro conjI ballI)
    have "i + n - 1 \<in> ?I" using n by simp
    then have "i + n - 1 < nr_pages ?b" using A(2) by (auto simp: free_pages_def)
    then show "i + n \<le> nr_pages b'" using A(5) n by simp
  qed (use n A(4) in \<open>simp_all add: span_page_def\<close>)
  have dis: "?I \<inter> {j..<j + m} = {}" if "(j, m) \<in> R" for j m using off [OF that] A(2) by blast
  have "runs_ok b' (insert (i, n) R)"
    unfolding runs_ok_def
  proof (intro conjI)
    show "\<forall>(i, n) \<in> insert (i, n) R. 0 < n \<and> n < 2 ^ BUDDY_MAX_ORDER \<and> i + n \<le> nr_pages b' \<and>
      (\<forall>pg \<in> {i..<i + n}. \<not> pg_free (pages b' pg) \<and> pg_span (pages b' pg) = None \<and> pg_span_size (pages b' pg) = n)"
      using old new by blast
    have pw: "{j..<j + m} \<inter> {k..<k + l} = {}" if "(j, m) \<in> R" "(k, l) \<in> R" "(j, m) \<noteq> (k, l)" for j m k l
      using runs that unfolding runs_ok_def by blast
    have "{j..<j + m} \<inter> {k..<k + l} = {}" if "(j, m) \<in> insert (i, n) R" "(k, l) \<in> insert (i, n) R" "(j, m) \<noteq> (k, l)" for j m k l
    proof (cases "(j, m) = (i, n)")
      case True
      then have "(k, l) \<in> R" using that by auto
      then show ?thesis using dis [of k l] True by blast
    next
      case False
      then have jm: "(j, m) \<in> R" using that by auto
      show ?thesis
      proof (cases "(k, l) = (i, n)")
        case True
        then show ?thesis using dis [OF jm] by blast
      qed (use pw [OF jm] that in auto)
    qed
    then show "\<forall>(j, m) \<in> insert (i, n) R. \<forall>(k, l) \<in> insert (i, n) R. (j, m) \<noteq> (k, l) \<longrightarrow> {j..<j + m} \<inter> {k..<k + l} = {}" by blast
  qed
  moreover have "pages b' pg = pages ?b pg" if "a \<in> S" "pg \<in> span_pages h a" for a pg
    by (rule A(6)) (use span_page_info(1) [OF c that] in \<open>simp add: free_pages_def\<close>)
  ultimately have "pool_core (h\<lparr>buddy := b'\<rparr>) S (insert (i, n) R)" by (intro core_buddy [OF c A(1,5)]) simp_all
  then show "pool_inv (h\<lparr>buddy := b'\<rparr>) S (insert (i, n) R)" "live (h\<lparr>buddy := b'\<rparr>) S = live h S"
    "same_geom S h (h\<lparr>buddy := b'\<rparr>)" using inv_buddy [OF inv _ A(5)] by blast+
qed

lemma run_free_inv:
  assumes inv: "pool_inv h S R" and r: "(i, n) \<in> R"
  defines "b' \<equiv> buddy_span_free i n (buddy h)"
  shows "pool_inv (h\<lparr>buddy := b'\<rparr>) S (R - {(i, n)})" "live (h\<lparr>buddy := b'\<rparr>) S = live h S" "same_geom S h (h\<lparr>buddy := b'\<rparr>)"
proof -
  let ?b = "buddy h" and ?I = "{i..<i + n}"
  have c: "pool_core h S R" using inv by (simp add: pool_inv_def)
  have runs: "runs_ok ?b R" and ok: "buddy_ok ?b" using c by (simp_all add: pool_core_def)
  have n: "i + n \<le> nr_pages ?b" "n < 2 ^ BUDDY_MAX_ORDER" using runs r by (auto simp: runs_ok_def)
  have dis: "?I \<inter> free_pages ?b = {}" using run_page(1) [OF runs r] by (auto simp: free_pages_def)
  have A: "buddy_ok b'" "nr_pages b' = nr_pages ?b" "\<And>pg. pg \<notin> ?I \<Longrightarrow> pages b' pg = pages ?b pg"
    using span_free_pages [OF ok n(1) dis n(2)] by (simp_all add: b'_def)
  have pw: "{j..<j + m} \<inter> ?I = {}" if "(j, m) \<in> R - {(i, n)}" for j m
    using runs r that unfolding runs_ok_def by fastforce
  have "runs_ok b' (R - {(i, n)})"
  proof -
    have "pages b' pg = pages ?b pg" if "(j, m) \<in> R - {(i, n)}" "pg \<in> {j..<j + m}" for j m pg
      by (rule A(3)) (use pw [OF that(1)] that(2) in blast)
    then show ?thesis using runs A(2) unfolding runs_ok_def by fastforce
  qed
  moreover have "pages b' pg = pages ?b pg" if "a \<in> S" "pg \<in> span_pages h a" for a pg
    by (rule A(3)) (use span_run_disjoint [OF c that(1) r] that(2) in blast)
  ultimately have "pool_core (h\<lparr>buddy := b'\<rparr>) S (R - {(i, n)})" by (intro core_buddy [OF c A(1,2)]) simp_all
  then show "pool_inv (h\<lparr>buddy := b'\<rparr>) S (R - {(i, n)})" "live (h\<lparr>buddy := b'\<rparr>) S = live h S"
    "same_geom S h (h\<lparr>buddy := b'\<rparr>)" using inv_buddy [OF inv _ A(2)] by blast+
qed

text \<open>A run becomes a span of pool \<open>p\<close> whose first \<open>k\<close> slots are in use.\<close>

definition new_span :: "nat \<Rightarrow> nat \<Rightarrow> nat \<Rightarrow> nat \<Rightarrow> nat \<Rightarrow> pool_heap \<Rightarrow> pool_heap" where
  "new_span p a i n k h =
     (let slab = data_base h + i * LPAGE_SIZE;
          h = set_span a (\<lambda>_. \<lparr>sp_pool = p, freelist = slots_from slab k (objs_per_span (pools h p)) (obj_size (pools h p)),
                snap_freelist = [], head_lpage = i, sp_size = n, nr_alloc = of_nat k, nr_snap_alloc = 0\<rparr>) h
      in partial_add_head p a (h\<lparr>buddy := pages_span a i n (buddy h)\<rparr>))"

lemma new_span_simps:
  "data_base (new_span p a i n k h) = data_base h" "buddy (new_span p a i n k h) = pages_span a i n (buddy h)"
  "x \<noteq> a \<Longrightarrow> spans (new_span p a i n k h) x = spans h x"
  "spans (new_span p a i n k h) a = \<lparr>sp_pool = p, freelist = slots_from (data_base h + i * LPAGE_SIZE) k (objs_per_span (pools h p)) (obj_size (pools h p)),
     snap_freelist = [], head_lpage = i, sp_size = n, nr_alloc = of_nat k, nr_snap_alloc = 0\<rparr>"
  "pools (new_span p a i n k h) = (pools h)(p := (pools h p)\<lparr>partial_spans := a # partial_spans (pools h p)\<rparr>)"
  by (simp_all add: new_span_def Let_def partial_add_head_def)

lemma pages_span_page:
  "pages (pages_span a i n b) pg = (if pg \<in> {i..<i + n} then (pages b pg)\<lparr>pg_span := Some a, pg_span_size := n, offset_in_span := (pg - i) mod 65536\<rparr>
     else pages b pg)"
  "nr_pages (pages_span a i n b) = nr_pages b" "nodes (pages_span a i n b) = nodes b" "free_heads (pages_span a i n b) = free_heads b"
  by (simp_all add: pages_span_def)

lemma pages_span_ok:
  assumes "buddy_ok b" "{i..<i + n} \<inter> free_pages b = {}"
  shows "buddy_ok (pages_span a i n b)"
proof -
  obtain F where F: "buddy_inv b F" "covered F = free_pages b" using assms(1) by (auto simp: buddy_ok_def buddy_state_def)
  have "buddy_inv (pages_span a i n b) F"
    by (rule buddy_inv_pages [OF F(1)]) (use assms(2) F(2) in \<open>auto simp: pages_span_page\<close>)
  moreover have "free_pages (pages_span a i n b) = free_pages b" by (auto simp: free_pages_def pages_span_page)
  ultimately show ?thesis using F(2) by (auto simp: buddy_ok_def buddy_state_def)
qed

lemma new_span_inv:
  assumes inv: "pool_inv h S R" and r: "(i, n) \<in> R" and p: "p \<le> META" "n = lpages_per_span (pools h p)"
    and k: "k < objs_per_span (pools h p)" and a: "a \<notin> S"
    and m: "p = META \<Longrightarrow> k = 1 \<and> a = data_base h + i * LPAGE_SIZE"
    and o: "p \<noteq> META \<Longrightarrow> k = 0 \<and> (\<exists>m \<in> S. sp_pool (spans h m) = META \<and> a \<in> slots h m \<and> a \<notin> set (freelist (spans h m)))"
  defines "h' \<equiv> new_span p a i n k h"
  shows "pool_inv h' (insert a S) (R - {(i, n)})" "live h' (insert a S) = live h S" "same_geom S h h'"
    "a \<in> set (partial_spans (pools h' p))" "sp_pool (spans h' a) = p"
proof -
  let ?b = "buddy h" and ?I = "{i..<i + n}" and ?q = "pools h p"
  note N = new_span_simps [where p = p and a = a and i = i and n = n and k = k and h = h, folded h'_def]
  have c: "pool_core h S R" and rg: "\<And>r. r \<le> META \<Longrightarrow> ring_ok (pools h r)" and Q: "queues_ok h S (\<lambda>p. queued (pools h p))"
    using inv by (simp_all add: pool_inv_def)
  have runs: "runs_ok ?b R" and ok: "buddy_ok ?b" and L: "lists_ok h S" and q: "pool_const ?q" using c p by (simp_all add: pool_core_def)
  have sp: "spans h' x = spans h x" if "x \<in> S" for x using N(3) [of x] a that by auto
  show g: "same_geom S h h'" using sp by (auto simp: same_geom_def N pages_span_page)
  show ain: "a \<in> set (partial_spans (pools h' p))" and ap: "sp_pool (spans h' a) = p" by (simp_all add: N)
  have qa: "objs_per_span (span_pool h' a) = objs_per_span ?q" "obj_size (span_pool h' a) = obj_size ?q"
    "lpages_per_span (span_pool h' a) = lpages_per_span ?q" by (simp_all add: span_pool_def N)
  have at: "slot_at h' a j = data_base h + i * LPAGE_SIZE + j * obj_size ?q" for j by (simp add: slot_at_def qa N)
  have fl: "freelist (spans h' a) = rev (map (slot_at h' a) [k..<objs_per_span ?q])" by (simp add: N slots_from_def at)
  have sn: "snap_freelist (spans h' a) = []" by (simp add: N)
  have inj: "inj_on (slot_at h' a) A" for A using q by (auto simp: inj_on_def at pool_const_def)
  have fp: "?I \<inter> free_pages ?b = {}" using run_page(1) [OF runs r] by (auto simp: free_pages_def)
  have oka: "span_ok h' a"
    unfolding span_ok_def Let_def
  proof (intro conjI impI ballI)
    show "head_lpage (spans h' a) + sp_size (spans h' a) \<le> nr_pages (buddy h')" using runs r by (auto simp: runs_ok_def N pages_span_page)
    fix pg assume "pg \<in> span_pages h' a"
    then have "pg \<in> ?I" by (simp add: span_pages_def N)
    then show "\<not> pg_free (pages (buddy h') pg)" "pg_span (pages (buddy h') pg) = Some a"
      using run_page(1) [OF runs r] by (simp_all add: N pages_span_page)
  next
    show "distinct (freelist (spans h' a) @ snap_freelist (spans h' a))" using inj by (simp add: fl sn distinct_map)
    show "set (freelist (spans h' a) @ snap_freelist (spans h' a)) \<subseteq> slots h' a" by (auto simp: fl sn slots_def qa)
    show "nr_alloc (spans h' a) = of_nat (objs_per_span (span_pool h' a) - length (freelist (spans h' a)))"
      unfolding fl qa using k by (simp add: N)
    show "nr_snap_alloc (spans h' a) = of_nat (length (snap_freelist (spans h' a)))" by (simp add: N)
    assume "sp_pool (spans h' a) = META"
    then have pm: "k = 1" "a = data_base h + i * LPAGE_SIZE" using m by (simp_all add: N)
    show a0: "a = slot_at h' a 0" using at [of 0] pm(2) by simp
    have "slot_at h' a 0 \<notin> slot_at h' a ` {1..<objs_per_span ?q}" using inj [of "{0..<objs_per_span ?q}"] by (auto dest!: inj_onD)
    then show "a \<notin> set (freelist (spans h' a))" using a0 pm(1) by (simp add: fl)
  qed (use p q in \<open>simp_all add: N qa\<close>)
  have oks: "span_ok h' x" if x: "x \<in> S" for x
  proof -
    have "span_ok h' x = span_ok h x"
      by (rule span_ok_frame [OF g x sp [OF x]]) (use span_run_disjoint [OF c x r] in \<open>auto simp: N pages_span_page\<close>)
    then show ?thesis using coreD(1) [OF c x] by simp
  qed
  have anch: "anchored h' (insert a S) x" if x: "x \<in> insert a S" for x
  proof -
    have "\<exists>m \<in> insert a S. sp_pool (spans h' m) = META \<and> x \<in> slots h' m \<and> x \<notin> set (freelist (spans h' m))"
      if ne: "sp_pool (spans h' x) \<noteq> META"
    proof -
      obtain m where m: "m \<in> S" "sp_pool (spans h m) = META" "x \<in> slots h m" "x \<notin> set (freelist (spans h m))"
      proof (cases "x = a")
        case True
        then show ?thesis using that o ne ap by auto
      next
        case False
        then have "x \<in> S" using x by simp
        then show ?thesis using that span_addr [OF c] by blast
      qed
      then show ?thesis using sp [OF m(1)] geom_slots(2) [OF g m(1)] by (intro bexI [of _ m]) auto
    qed
    then show ?thesis by (simp add: anchored_def)
  qed
  have lok: "lists_ok h' (insert a S)"
  proof -
    have na: "a \<notin> set (partial_spans (pools h r)) \<union> set (empty_spans (pools h r))" if "r \<le> META" for r
      using L that a by (auto simp: lists_ok_def)
    have ne: "freelist (spans h' a) \<noteq> []" using k by (simp add: fl)
    have "set (partial_spans (pools h' r)) \<union> set (empty_spans (pools h' r)) =
        {x \<in> insert a S. sp_pool (spans h' x) = r \<and> freelist (spans h' x) \<noteq> []}" if r: "r \<le> META" for r
    proof -
      have "set (partial_spans (pools h r)) \<union> set (empty_spans (pools h r)) = {x \<in> S. sp_pool (spans h x) = r \<and> freelist (spans h x) \<noteq> []}"
        using L r by (simp add: lists_ok_def)
      also have "\<dots> = {x \<in> S. sp_pool (spans h' x) = r \<and> freelist (spans h' x) \<noteq> []}" using sp by auto
      finally show ?thesis using ne ap by (cases "r = p") (auto simp: N(5))
    qed
    moreover have "distinct (partial_spans (pools h' r) @ empty_spans (pools h' r))" if "r \<le> META" for r
      using L na [OF that] that by (auto simp: lists_ok_def N)
    moreover have "length (freelist (spans h' x)) = objs_per_span (pools h' r)" if "r \<le> META" "x \<in> set (empty_spans (pools h' r))" for r x
    proof -
      have x: "x \<in> set (empty_spans (pools h r))" using that(2) by (auto simp: N split: if_splits)
      then have "x \<in> S" using L that(1) by (auto simp: lists_ok_def)
      then show ?thesis using L that(1) x sp by (auto simp: lists_ok_def N)
    qed
    moreover have "empty_spans (pools h' META) = []" using L by (auto simp: lists_ok_def N)
    ultimately show ?thesis by (simp add: lists_ok_def)
  qed
  have pw: "{j..<j + l} \<inter> ?I = {}" if "(j, l) \<in> R - {(i, n)}" for j l
    using runs r that unfolding runs_ok_def by fastforce
  have "runs_ok (buddy h') (R - {(i, n)})"
  proof -
    have "pages (buddy h') pg = pages ?b pg" if "(j, l) \<in> R - {(i, n)}" "pg \<in> {j..<j + l}" for j l pg
      using pw [OF that(1)] that(2) by (auto simp: N pages_span_page)
    then show ?thesis using runs unfolding runs_ok_def by (fastforce simp: N pages_span_page)
  qed
  moreover have "buddy_ok (buddy h')" unfolding N by (rule pages_span_ok [OF ok fp])
  moreover have "pool_const (pools h' r) = pool_const (pools h r)" for r by (simp add: N pool_const_def)
  ultimately have core: "pool_core h' (insert a S) (R - {(i, n)})"
    using c oka oks anch lok by (simp add: pool_core_def N pages_span_page)
  have qd: "queued (pools h' r) = queued (pools h r)" "ring_ok (pools h' r) = ring_ok (pools h r)" for r
    by (simp_all add: N queued_def ring_list_def ring_ok_def)
  have "queues_ok h' (insert a S) (\<lambda>r. queued (pools h' r))" using Q sp unfolding queues_ok_def qd by fastforce
  then show "pool_inv h' (insert a S) (R - {(i, n)})" using core rg by (simp add: pool_inv_def qd)
  have "live_slots h' a = {}" if "p \<noteq> META"
    using o [OF that] by (auto simp: live_slots_def fl slots_def qa)
  moreover have "live_slots h' x = live_slots h x" if "x \<in> S" for x using sp [OF that] geom_slots(2) [OF g that] by (simp add: live_slots_def)
  ultimately show "live h' (insert a S) = live h S" using sp ap a by (auto simp: live_def)
qed

subsection \<open>Allocation\<close>

lemma inv_fewer_runs: "pool_inv h S R \<Longrightarrow> R' \<subseteq> R \<Longrightarrow> pool_inv h S R'"
  by (simp add: pool_inv_def pool_core_def runs_ok_def) blast

lemma partial_in:
  assumes "pool_core h S R" "a \<in> set (partial_spans (pools h p))" "p \<le> META"
  shows "a \<in> S" "sp_pool (spans h a) = p"
  using assms by (auto simp: pool_core_def lists_ok_def)

text \<open>What a slot handed out by pool \<open>p\<close> is.\<close>

definition slot_of :: "pool_heap \<Rightarrow> nat set \<Rightarrow> nat \<Rightarrow> nat \<Rightarrow> bool" where
  "slot_of h S p x \<longleftrightarrow> x \<notin> S \<and> (\<exists>a \<in> S. sp_pool (spans h a) = p \<and> x \<in> live_slots h a)"

lemma take_inv:
  assumes inv: "pool_inv h S R" and a: "a \<in> set (partial_spans (pools h p))" "p \<le> META" and t: "span_take p a h = (x, h')"
  shows "pool_inv h' S R" "slot_of h' S p x" "live h' S = (if p = META then live h S else insert x (live h S))" "x \<notin> live h S" "same_geom S h h'"
proof -
  have c: "pool_core h S R" using inv by (simp add: pool_inv_def)
  note aS = partial_in [OF c a]
  note T = span_take_core [OF c aS a(1) t] and K = span_okD [OF c aS(1)]
  show "same_geom S h h'" by (rule T(3))
  have "queues_ok h' S (\<lambda>r. queued (pools h' r))"
  proof -
    have "queues_ok h S (\<lambda>r. queued (pools h r))" using inv by (simp add: pool_inv_def)
    moreover have "head_lpage (spans h' y) = head_lpage (spans h y) \<and> sp_pool (spans h' y) = sp_pool (spans h y) \<and>
        snap_freelist (spans h' y) = snap_freelist (spans h y)" if "y \<in> S" for y
      using T(5,7) geom_slots(7,8) [OF T(3) that] by (cases "y = a") auto
    ultimately show ?thesis unfolding queues_ok_def same_queues_queued [OF T(8)] by metis
  qed
  then show "pool_inv h' S R" using inv T(1) same_queues_ring [OF T(8)] by (simp add: pool_inv_def)
  have x: "x \<in> slots h a" "x \<notin> set (freelist (spans h' a))" "x \<notin> set (snap_freelist (spans h a))" using K(1,2) T(2,6) by auto
  have xS: "x \<notin> S" using span_used [OF c aS(1)] T(2) by blast
  have la: "live_slots h' a = insert x (live_slots h a)"
    using x T(6,7) K(2) geom_slots(2) [OF T(3) aS(1)] by (auto simp: live_slots_def)
  have lo: "live_slots h' y = live_slots h y" if "y \<in> S" "y \<noteq> a" for y using T(5) [OF that(2)] geom_slots(2) [OF T(3) that(1)] by (simp add: live_slots_def)
  show "slot_of h' S p x" using xS aS la geom_slots(7) [OF T(3) aS(1)] by (auto simp: slot_of_def)
  show "x \<notin> live h S"
  proof
    assume "x \<in> live h S"
    then obtain y where y: "y \<in> S" "x \<in> live_slots h y" by (auto simp: live_def)
    have "y = a" using slots_disjoint [OF c y(1) aS(1)] y(2) x(1) by (auto simp: live_slots_def)
    then show False using y(2) T(2) by (simp add: live_slots_def)
  qed
  have same: "sp_pool (spans h' y) = sp_pool (spans h y)" if "y \<in> S" for y by (rule geom_slots(7) [OF T(3) that])
  show "live h' S = (if p = META then live h S else insert x (live h S))"
  proof (cases "p = META")
    case True
    have "live_slots h' y = live_slots h y" if "y \<in> S" "sp_pool (spans h y) \<noteq> META" for y
      by (rule lo [OF that(1)]) (use that(2) aS(2) True in auto)
    then show ?thesis using True same by (auto simp: live_def)
  next
    case False
    have "live h S = live_slots h a \<union> (\<Union>y \<in> {y \<in> S. y \<noteq> a \<and> sp_pool (spans h y) \<noteq> META}. live_slots h y)" using aS False by (auto simp: live_def)
    moreover have "live h' S = live_slots h' a \<union> (\<Union>y \<in> {y \<in> S. y \<noteq> a \<and> sp_pool (spans h y) \<noteq> META}. live_slots h' y)" using aS False same by (auto simp: live_def)
    ultimately show ?thesis using False la lo by auto
  qed
qed

text \<open>The contract of growing a pool by one span, and what an allocation does on top of it.\<close>

locale span_source =
  fixes grow :: "pool_heap \<Rightarrow> nat option \<times> pool_heap" and p :: nat
  assumes pool: "p \<le> META"
    and grow_none: "pool_inv h S R \<Longrightarrow> grow h = (None, h') \<Longrightarrow> pool_inv h' S R \<and> live h' S = live h S \<and> same_geom S h h'"
    and grow_some: "pool_inv h S R \<Longrightarrow> grow h = (Some a, h') \<Longrightarrow>
      \<exists>S'. S \<subseteq> S' \<and> pool_inv h' S' R \<and> live h' S' = live h S \<and> same_geom S h h' \<and> a \<in> set (partial_spans (pools h' p))"
begin

lemma fast_path:
  assumes inv: "pool_inv h S R" and ne: "partial_spans (pools h p) \<noteq> []"
    and t: "span_take p (hd (partial_spans (pools h p))) h = (x, h')"
  shows "pool_inv h' S R \<and> slot_of h' S p x \<and> live h' S = (if p = META then live h S else insert x (live h S)) \<and>
    x \<notin> live h S \<and> same_geom S h h'"
  using take_inv [OF inv _ pool t] ne by simp

lemma alloc_cases:
  assumes inv: "pool_inv h S R"
  obtains h1 where "pool_inv h1 S R" "live h1 S = live h S" "same_geom S h h1" "partial_spans (pools h1 p) \<noteq> []"
      "alloc_with grow p h = (case span_take p (hd (partial_spans (pools h1 p))) h1 of (ob, h) \<Rightarrow> (Some ob, h))"
  | h1 where "pool_inv h1 S R" "live h1 S = live h S" "same_geom S h h1"
      "alloc_with grow p h = (case grow h1 of (None, h) \<Rightarrow> (None, h)
         | (Some a, h) \<Rightarrow> (case span_take p a h of (ob, h) \<Rightarrow> (Some ob, h)))"
proof -
  define h1 where "h1 = pool_snap_merge_incremental p 16 h"
  have i1: "pool_inv h1 S R" "same_geom S h h1" "live h1 S = live h S" using merge_incremental_inv [OF inv pool] by (simp_all add: h1_def)
  define h2 where "h2 = pool_snap_merge p h1"
  have i2: "pool_inv h2 S R" "live h2 S = live h S" using snap_merge_inv [OF i1(1) pool] i1(3) by (simp_all add: h2_def)
  have g2: "same_geom S h h2" using snap_merge_inv [OF i1(1) pool] same_geom_trans [OF i1(2)] by (simp add: h2_def)
  have r: "same_geom S h h" by (simp add: same_geom_def)
  show thesis
  proof (cases "partial_spans (pools h p) = []")
    case False
    then show thesis using that(1) [OF inv _ r] by (simp add: alloc_with_def Let_def)
  next
    case e0: True
    show thesis
    proof (cases "partial_spans (pools h1 p) = []")
      case False
      then show thesis using that(1) [OF i1(1,3,2)] e0 by (simp add: alloc_with_def Let_def h1_def)
    next
      case e1: True
      show thesis
      proof (cases "partial_spans (pools h2 p) = []")
        case False
        then show thesis using that(1) [OF i2 g2] e0 e1 by (simp add: alloc_with_def Let_def h1_def h2_def)
      next
        case True
        then show thesis using that(2) [OF i2 g2] e0 e1 by (simp add: alloc_with_def Let_def h1_def h2_def)
      qed
    qed
  qed
qed

lemma alloc_none:
  assumes inv: "pool_inv h S R" and r: "alloc_with grow p h = (None, h')"
  shows "pool_inv h' S R \<and> live h' S = live h S \<and> same_geom S h h'"
proof (rule alloc_cases [OF inv])
  fix h1 assume "alloc_with grow p h = (case span_take p (hd (partial_spans (pools h1 p))) h1 of (ob, h) \<Rightarrow> (Some ob, h))"
  then show ?thesis using r by (simp split: prod.splits)
next
  fix h1 assume h1: "pool_inv h1 S R" "live h1 S = live h S" "same_geom S h h1"
    "alloc_with grow p h = (case grow h1 of (None, h) \<Rightarrow> (None, h) | (Some a, h) \<Rightarrow> (case span_take p a h of (ob, h) \<Rightarrow> (Some ob, h)))"
  have "grow h1 = (None, h')" using h1(4) r by (auto split: prod.splits option.splits)
  then show ?thesis using grow_none [OF h1(1)] h1(2) same_geom_trans [OF h1(3)] by simp
qed

lemma alloc_some:
  assumes inv: "pool_inv h S R" and r: "alloc_with grow p h = (Some x, h')"
  shows "\<exists>S'. S \<subseteq> S' \<and> pool_inv h' S' R \<and> slot_of h' S' p x \<and> live h' S' = (if p = META then live h S else insert x (live h S)) \<and>
    x \<notin> live h S \<and> same_geom S h h'"
proof (rule alloc_cases [OF inv])
  fix h1 assume h1: "pool_inv h1 S R" "live h1 S = live h S" "same_geom S h h1" "partial_spans (pools h1 p) \<noteq> []"
    "alloc_with grow p h = (case span_take p (hd (partial_spans (pools h1 p))) h1 of (ob, h) \<Rightarrow> (Some ob, h))"
  then have "span_take p (hd (partial_spans (pools h1 p))) h1 = (x, h')" using r by (simp split: prod.splits)
  then show ?thesis using fast_path [OF h1(1,4)] h1(2) same_geom_trans [OF h1(3)] by (intro exI [of _ S]) simp
next
  fix h1 assume h1: "pool_inv h1 S R" "live h1 S = live h S" "same_geom S h h1"
    "alloc_with grow p h = (case grow h1 of (None, h) \<Rightarrow> (None, h) | (Some a, h) \<Rightarrow> (case span_take p a h of (ob, h) \<Rightarrow> (Some ob, h)))"
  obtain a h2 where g: "grow h1 = (Some a, h2)" "span_take p a h2 = (x, h')" using h1(4) r by (auto split: prod.splits option.splits)
  obtain S' where S': "S \<subseteq> S'" "pool_inv h2 S' R" "live h2 S' = live h1 S" "same_geom S h1 h2" "a \<in> set (partial_spans (pools h2 p))"
    using grow_some [OF h1(1) g(1)] by blast
  note T = take_inv [OF S'(2,5) pool g(2)]
  have "same_geom S h2 h'" using T(5) S'(1) by (auto simp: same_geom_def)
  then show ?thesis using S' T(1-4) h1(2) same_geom_trans [OF same_geom_trans [OF h1(3) S'(4)]] by (intro exI [of _ S']) simp
qed

end

lemma span_alloc_none: "buddy_ok b \<Longrightarrow> buddy_span_alloc n b = (None, b') \<Longrightarrow> b' = b"
  using span_alloc_ok [of b _ n] by (auto simp: buddy_ok_def)

lemma inv_buddy_ok: "pool_inv h S R \<Longrightarrow> buddy_ok (buddy h)"
  by (simp add: pool_inv_def pool_core_def)

lemma same_buddy: "h\<lparr>buddy := buddy h\<rparr> = h"
  by simp

lemma run_start_new:
  assumes c: "pool_core h S R" and r: "(i, n) \<in> R"
  shows "data_base h + i * LPAGE_SIZE \<notin> S"
proof
  assume a: "data_base h + i * LPAGE_SIZE \<in> S"
  obtain m where m: "m \<in> S" "sp_pool (spans h m) = META" "data_base h + i * LPAGE_SIZE \<in> slots h m"
    "data_base h + i * LPAGE_SIZE \<notin> set (freelist (spans h m))" by (rule span_addr [OF c a])
  have "(data_base h + i * LPAGE_SIZE + 0 - data_base h) div LPAGE_SIZE \<in> span_pages h m"
    by (rule slot_page(1) [OF c m(1,3)]) (use coreD(3) [OF c m(1)] in \<open>simp add: pool_const_def\<close>)
  then have "i \<in> span_pages h m" by (simp add: LPAGE_SIZE_def)
  moreover have "i \<in> {i..<i + n}" using c r by (auto simp: pool_core_def runs_ok_def)
  ultimately show False using span_run_disjoint [OF c m(1) r] by blast
qed

lemma meta_alloc_eq:
  assumes "buddy_span_alloc (lpages_per_span (pools h META)) (buddy h) = (Some i, b)" "pg_span_size (pages b i) = n"
  shows "pool_meta_alloc META h = (Some (data_base h + i * LPAGE_SIZE), new_span META (data_base h + i * LPAGE_SIZE) i n 1 (h\<lparr>buddy := b\<rparr>))"
  using assms by (simp add: pool_meta_alloc_def new_span_def Let_def)

interpretation meta_src: span_source meta_grow META
proof
  show "META \<le> META" by simp
  fix h S R h'
  assume inv: "pool_inv h S R"
  let ?n = "lpages_per_span (pools h META)"
  have refl: "same_geom S h h" by (simp add: same_geom_def)
  {
    assume r: "meta_grow h = (None, h')"
    show "pool_inv h' S R \<and> live h' S = live h S \<and> same_geom S h h'"
    proof (cases "fst (buddy_span_alloc ?n (buddy h))")
      case None
      then obtain b where b: "buddy_span_alloc ?n (buddy h) = (None, b)" by (cases "buddy_span_alloc ?n (buddy h)") auto
      have "h' = h" using r b span_alloc_none [OF inv_buddy_ok [OF inv] b] by (simp add: meta_grow_def)
      then show ?thesis using inv refl by simp
    next
      case (Some i)
      then obtain b where b: "buddy_span_alloc ?n (buddy h) = (Some i, b)" by (cases "buddy_span_alloc ?n (buddy h)") auto
      note A = run_alloc_inv [OF inv b]
      define h1 where "h1 = h\<lparr>buddy := b\<rparr>"
      have b2: "fst (buddy_span_alloc ?n b) = None"
      proof (rule ccontr)
        assume "fst (buddy_span_alloc ?n b) \<noteq> None"
        then obtain j b2 where "buddy_span_alloc ?n b = (Some j, b2)" by (cases "buddy_span_alloc ?n b") auto
        then show False using r b meta_alloc_eq [of h1 j b2] by (simp add: meta_grow_def h1_def)
      qed
      then obtain b3 where b3: "buddy_span_alloc ?n b = (None, b3)" by (cases "buddy_span_alloc ?n b") auto
      have "b3 = b" using span_alloc_none [OF _ b3] inv_buddy_ok [OF A(1)] by simp
      then have h': "h' = h1\<lparr>buddy := buddy_span_free i ?n (buddy h1)\<rparr>"
        using r b b3 A(4) by (simp add: meta_grow_def pool_meta_alloc_def h1_def)
      have "insert (i, ?n) R - {(i, ?n)} = R" using A(2) by simp
      then show ?thesis using run_free_inv [OF A(1), of i ?n] A(3,5) unfolding h' h1_def by (simp add: same_geom_def)
    qed
  }
  {
    fix a assume r: "meta_grow h = (Some a, h')"
    obtain i b where b: "buddy_span_alloc ?n (buddy h) = (Some i, b)" and r2: "pool_meta_alloc META (h\<lparr>buddy := b\<rparr>) = (Some a, h')"
      using r by (auto simp: meta_grow_def split: prod.splits option.splits)
    note A = run_alloc_inv [OF inv b]
    define h1 where "h1 = h\<lparr>buddy := b\<rparr>"
    obtain j b2 where b2: "buddy_span_alloc (lpages_per_span (pools h1 META)) (buddy h1) = (Some j, b2)"
      using r2 by (auto simp: pool_meta_alloc_def h1_def split: prod.splits option.splits)
    note B = run_alloc_inv [OF A(1) [folded h1_def] b2]
    define h2 where "h2 = h1\<lparr>buddy := b2\<rparr>"
    define ms where "ms = data_base h + j * LPAGE_SIZE"
    have out: "a = ms" "h' = new_span META ms j ?n 1 h2"
      using r2 meta_alloc_eq [OF b2 B(4)] by (simp_all add: h1_def h2_def ms_def)
    have c2: "pool_core h2 S (insert (j, ?n) (insert (i, ?n) R))" using B(1) by (simp add: pool_inv_def h2_def h1_def)
    have new: "ms \<notin> S" using run_start_new [OF c2, of j ?n] by (simp add: h2_def h1_def ms_def)
    have k: "1 < objs_per_span (pools h2 META)" using c2 by (simp add: pool_core_def)
    have inv2: "pool_inv h2 S (insert (j, ?n) (insert (i, ?n) R))" using B(1) by (simp add: h2_def h1_def)
    note N = new_span_inv [OF inv2 insertI1 le_refl _ k new, folded out(2)]
    have N': "pool_inv h' (insert ms S) (insert (j, ?n) (insert (i, ?n) R) - {(j, ?n)})" "live h' (insert ms S) = live h2 S"
      "same_geom S h2 h'" "ms \<in> set (partial_spans (pools h' META))"
      by (rule N; simp add: h2_def h1_def ms_def)+
    have "pool_inv h' (insert ms S) R" by (rule inv_fewer_runs [OF N'(1)]) (use B(2) A(2) in \<open>auto simp: h1_def\<close>)
    moreover have "same_geom S h h'" using N'(3) A(5) B(5) by (simp add: same_geom_def h2_def h1_def)
    ultimately show "\<exists>S'. S \<subseteq> S' \<and> pool_inv h' S' R \<and> live h' S' = live h S \<and> same_geom S h h' \<and> a \<in> set (partial_spans (pools h' META))"
      using N'(2,4) A(3) B(3) out(1) by (intro exI [of _ "insert ms S"]) (auto simp: h2_def h1_def)
  }
qed

lemma pool_grow_eq:
  assumes "buddy_span_alloc (lpages_per_span (pools h p)) (buddy h) = (Some i, b)" "pg_span_size (pages b i) = n"
    and "alloc_with meta_grow META (h\<lparr>buddy := b\<rparr>) = (Some ms, h2)"
  shows "pool_grow p h = (Some ms, new_span p ms i n 0 h2)"
  using assms by (simp add: pool_grow_def new_span_def pool_span_init_def Let_def)

lemma class_src:
  assumes p: "p < META"
  shows "span_source (pool_grow p) p"
proof
  show "p \<le> META" using p by simp
  fix h S R h'
  assume inv: "pool_inv h S R"
  let ?n = "lpages_per_span (pools h p)"
  {
    assume r: "pool_grow p h = (None, h')"
    show "pool_inv h' S R \<and> live h' S = live h S \<and> same_geom S h h'"
    proof (cases "fst (buddy_span_alloc ?n (buddy h))")
      case None
      then obtain b where b: "buddy_span_alloc ?n (buddy h) = (None, b)" by (cases "buddy_span_alloc ?n (buddy h)") auto
      have "h' = h" using r b span_alloc_none [OF inv_buddy_ok [OF inv] b] by (simp add: pool_grow_def)
      then show ?thesis using inv by (simp add: same_geom_def)
    next
      case (Some i)
      then obtain b where b: "buddy_span_alloc ?n (buddy h) = (Some i, b)" by (cases "buddy_span_alloc ?n (buddy h)") auto
      note A = run_alloc_inv [OF inv b]
      obtain h2 where h2: "alloc_with meta_grow META (h\<lparr>buddy := b\<rparr>) = (None, h2)"
        using r b by (auto simp: pool_grow_def Let_def split: prod.splits option.splits)
      note B = meta_src.alloc_none [OF A(1) h2]
      have h': "h' = h2\<lparr>buddy := buddy_span_free i ?n (buddy h2)\<rparr>" using r b h2 A(4) by (simp add: pool_grow_def)
      have "insert (i, ?n) R - {(i, ?n)} = R" using A(2) by simp
      then show ?thesis using run_free_inv [of h2 S "insert (i, ?n) R" i ?n] A(3,5) B unfolding h' by (simp add: same_geom_def)
    qed
  }
  {
    fix a assume r: "pool_grow p h = (Some a, h')"
    obtain i b ms h2 where b: "buddy_span_alloc ?n (buddy h) = (Some i, b)" and h2: "alloc_with meta_grow META (h\<lparr>buddy := b\<rparr>) = (Some ms, h2)"
      using r by (auto simp: pool_grow_def Let_def split: prod.splits option.splits)
    note A = run_alloc_inv [OF inv b]
    have out: "a = ms" "h' = new_span p ms i ?n 0 h2" using r pool_grow_eq [OF b A(4) h2] by auto
    obtain S1 where S1: "S \<subseteq> S1" "pool_inv h2 S1 (insert (i, ?n) R)" "slot_of h2 S1 META ms" "live h2 S1 = live (h\<lparr>buddy := b\<rparr>) S"
      "same_geom S (h\<lparr>buddy := b\<rparr>) h2"
      using meta_src.alloc_some [OF A(1) h2] by (auto split: if_splits)
    have sizes: "lpages_per_span (pools h2 p) = ?n" using S1(5) by (simp add: same_geom_def)
    have k: "0 < objs_per_span (pools h2 p)" using S1(2) p by (simp add: pool_inv_def pool_core_def pool_const_def)
    obtain m where m: "ms \<notin> S1" "m \<in> S1" "sp_pool (spans h2 m) = META" "ms \<in> slots h2 m" "ms \<notin> set (freelist (spans h2 m))"
      using S1(3) by (auto simp: slot_of_def live_slots_def)
    have N: "pool_inv h' (insert ms S1) (insert (i, ?n) R - {(i, ?n)})" "live h' (insert ms S1) = live h2 S1" "same_geom S1 h2 h'"
      "ms \<in> set (partial_spans (pools h' p))"
      unfolding out(2) by (rule new_span_inv [OF S1(2) insertI1 _ _ k m(1)]; use p sizes m in auto)+
    have g: "same_geom S h h'" using S1(1,5) N(3) A(5) by (auto simp: same_geom_def)
    show "\<exists>S'. S \<subseteq> S' \<and> pool_inv h' S' R \<and> live h' S' = live h S \<and> same_geom S h h' \<and> a \<in> set (partial_spans (pools h' p))"
      using N(1,2,4) g S1(1,4) A(2,3) out(1) by (intro exI [of _ "insert ms S1"]) auto
  }
qed

text \<open>The result of an allocation of pool \<open>p\<close>.\<close>

lemma obj_alloc_inv:
  assumes inv: "pool_inv h S R" and p: "p < META"
  shows "case pool_obj_alloc p h of
      (None, h') \<Rightarrow> pool_inv h' S R \<and> live h' S = live h S \<and> same_geom S h h'
    | (Some x, h') \<Rightarrow> \<exists>S'. S \<subseteq> S' \<and> pool_inv h' S' R \<and> slot_of h' S' p x \<and> live h' S' = insert x (live h S) \<and>
        x \<notin> live h S \<and> same_geom S h h'"
proof -
  have e: "pool_obj_alloc p h = alloc_with (pool_grow p) p h" using p by (simp add: pool_obj_alloc_def)
  obtain r h' where r: "alloc_with (pool_grow p) p h = (r, h')" by (cases "alloc_with (pool_grow p) p h")
  note src = class_src [OF p]
  show ?thesis
    using span_source.alloc_none [OF src inv] span_source.alloc_some [OF src inv] r p unfolding e by (cases r) simp_all
qed

subsection \<open>Freeing and reclaiming\<close>

lemma queues_frame:
  assumes "queues_ok h S (\<lambda>r. queued (pools h r))" "same_queues h h'" "same_geom S h h'"
    "\<And>a. a \<in> S \<Longrightarrow> snap_freelist (spans h a) \<noteq> [] \<Longrightarrow> snap_freelist (spans h' a) \<noteq> []"
  shows "queues_ok h' S (\<lambda>r. queued (pools h' r))"
  using assms(1,4) geom_slots(7,8) [OF assms(3)] unfolding queues_ok_def same_queues_queued [OF assms(2)] by metis

lemma live_of_slots:
  assumes "same_geom S h h'" "a \<in> S" "\<And>y. y \<in> S \<Longrightarrow> y \<noteq> a \<Longrightarrow> live_slots h' y = live_slots h y"
    and "pool_core h S R" "x \<in> slots h a" "live_slots h' a = live_slots h a - {x}" "sp_pool (spans h a) \<noteq> META"
  shows "live h' S = live h S - {x}"
proof -
  have o: "x \<notin> live_slots h y" if "y \<in> S" "y \<noteq> a" for y
    using slots_disjoint [OF assms(4) that(1) assms(2) that(2)] assms(5) by (auto simp: live_slots_def)
  have same: "sp_pool (spans h' y) = sp_pool (spans h y)" if "y \<in> S" for y by (rule geom_slots(7) [OF assms(1) that])
  have "live h S = live_slots h a \<union> (\<Union>y \<in> {y \<in> S. y \<noteq> a \<and> sp_pool (spans h y) \<noteq> META}. live_slots h y)" using assms(2,7) by (auto simp: live_def)
  moreover have "live h' S = live_slots h' a \<union> (\<Union>y \<in> {y \<in> S. y \<noteq> a \<and> sp_pool (spans h y) \<noteq> META}. live_slots h' y)"
    using assms(2,7) same by (auto simp: live_def)
  moreover have "(\<Union>y \<in> {y \<in> S. y \<noteq> a \<and> sp_pool (spans h y) \<noteq> META}. live_slots h' y) =
      (\<Union>y \<in> {y \<in> S. y \<noteq> a \<and> sp_pool (spans h y) \<noteq> META}. live_slots h y) - {x}" using assms(3) o by auto
  ultimately show ?thesis using assms(6) by auto
qed

lemma obj_free_inv:
  assumes inv: "pool_inv h S R" and a: "a \<in> S" "sp_pool (spans h a) = p" and x: "x \<in> live_slots h a" and m: "p = META \<longrightarrow> x \<notin> S"
  shows "pool_inv (pool_obj_free p a x h) S R" "same_geom S h (pool_obj_free p a x h)" "buddy (pool_obj_free p a x h) = buddy h"
    "live (pool_obj_free p a x h) S = (if p = META then live h S else live h S - {x})"
    "\<And>y. y \<noteq> a \<Longrightarrow> spans (pool_obj_free p a x h) y = spans h y" "\<And>r. r \<noteq> p \<Longrightarrow> pools (pool_obj_free p a x h) r = pools h r"
proof -
  define h' where "h' = pool_obj_free p a x h"
  have c: "pool_core h S R" using inv by (simp add: pool_inv_def)
  have x': "x \<in> slots h a" "x \<notin> set (freelist (spans h a))" "x \<notin> set (snap_freelist (spans h a))" using x by (simp_all add: live_slots_def)
  note F = obj_free_core [OF c a x' m, folded h'_def]
  have "queues_ok h' S (\<lambda>r. queued (pools h' r))"
  proof (rule queues_frame [OF _ F(7,2)])
    show "queues_ok h S (\<lambda>r. queued (pools h r))" using inv by (simp add: pool_inv_def)
    fix y assume "y \<in> S" "snap_freelist (spans h y) \<noteq> []"
    then show "snap_freelist (spans h' y) \<noteq> []" using F(4,6) by (cases "y = a") auto
  qed
  then show "pool_inv (pool_obj_free p a x h) S R" using inv F(1) same_queues_ring [OF F(7)] by (simp add: pool_inv_def h'_def)
  show "same_geom S h (pool_obj_free p a x h)" "buddy (pool_obj_free p a x h) = buddy h" using F(2,3) by (simp_all add: h'_def)
  show "\<And>y. y \<noteq> a \<Longrightarrow> spans (pool_obj_free p a x h) y = spans h y" using F(4) by (simp add: h'_def)
  show "\<And>r. r \<noteq> p \<Longrightarrow> pools (pool_obj_free p a x h) r = pools h r" by (simp add: pool_obj_free_def list_op_defs Let_def)
  have la: "live_slots h' a = live_slots h a - {x}" using F(5,6) geom_slots(2) [OF F(2) a(1)] by (auto simp: live_slots_def)
  have lo: "live_slots h' y = live_slots h y" if "y \<in> S" "y \<noteq> a" for y using F(4) [OF that(2)] geom_slots(2) [OF F(2) that(1)] by (simp add: live_slots_def)
  have "live h' S = (if p = META then live h S else live h S - {x})"
  proof (cases "p = META")
    case True
    have "live_slots h' y = live_slots h y" if "y \<in> S" "sp_pool (spans h y) \<noteq> META" for y
      by (rule lo [OF that(1)]) (use that(2) a(2) True in auto)
    then show ?thesis using True geom_slots(7) [OF F(2)] by (auto simp: live_def)
  next
    case False
    then show ?thesis using live_of_slots [OF F(2) a(1) lo c x'(1) la] a(2) by simp
  qed
  then show "live (pool_obj_free p a x h) S = (if p = META then live h S else live h S - {x})" by (simp add: h'_def)
qed

lemma defer_free_inv:
  assumes inv: "pool_inv h S R" and a: "a \<in> S" "sp_pool (spans h a) \<noteq> META" and x: "x \<in> live_slots h a"
  shows "pool_inv (pool_snap_defer_free a x h) S R" "live (pool_snap_defer_free a x h) S = live h S - {x}"
    "same_geom S h (pool_snap_defer_free a x h)"
proof -
  define h' where "h' = pool_snap_defer_free a x h"
  have c: "pool_core h S R" using inv by (simp add: pool_inv_def)
  note D = defer_free_core [OF c a x, folded h'_def]
  have sp: "freelist (spans h' a) = freelist (spans h a)" "snap_freelist (spans h' a) = x # snap_freelist (spans h a)"
    "\<And>y. y \<noteq> a \<Longrightarrow> spans h' y = spans h y" by (simp_all add: h'_def pool_snap_defer_free_def)
  have "queues_ok h' S (\<lambda>r. queued (pools h' r))"
  proof (rule queues_frame [OF _ D(3,2)])
    show "queues_ok h S (\<lambda>r. queued (pools h r))" using inv by (simp add: pool_inv_def)
    fix y assume "y \<in> S" "snap_freelist (spans h y) \<noteq> []"
    then show "snap_freelist (spans h' y) \<noteq> []" using sp by (cases "y = a") auto
  qed
  then show "pool_inv (pool_snap_defer_free a x h) S R" using inv D(1) same_queues_ring [OF D(3)] by (simp add: pool_inv_def h'_def)
  show "same_geom S h (pool_snap_defer_free a x h)" using D(2) by (simp add: h'_def)
  have "live h' S = live h S - {x}"
  proof (rule live_of_slots [OF D(2) a(1) _ c _ _ a(2)])
    show "x \<in> slots h a" using x by (simp add: live_slots_def)
    show "live_slots h' a = live_slots h a - {x}" using sp geom_slots(2) [OF D(2) a(1)] by (auto simp: live_slots_def)
    show "live_slots h' y = live_slots h y" if "y \<in> S" "y \<noteq> a" for y using sp(3) [OF that(2)] geom_slots(2) [OF D(2) that(1)] by (simp add: live_slots_def)
  qed
  then show "live (pool_snap_defer_free a x h) S = live h S - {x}" by (simp add: h'_def)
qed

lemma span_of_slot:
  assumes c: "pool_core h S R" and m: "m \<in> S" "x \<in> slots h m"
  shows "span_of h x = Some m"
proof -
  let ?pg = "(x - data_base h) div LPAGE_SIZE"
  have "(x + 0 - data_base h) div LPAGE_SIZE \<in> span_pages h m"
    by (rule slot_page(1) [OF c m]) (use coreD(3) [OF c m(1)] in \<open>simp add: pool_const_def\<close>)
  then have pg: "?pg \<in> span_pages h m" by simp
  have "?pg < 2 ^ 20" using span_page_info(3) [OF c m(1) pg] c by (simp add: pool_core_def)
  then have "x - data_base h < 2 ^ 20 * LPAGE_SIZE" by (simp add: LPAGE_SIZE_def div_less_iff_less_mult)
  then have "(x - data_base h) mod 2 ^ 32 = x - data_base h" by (simp add: LPAGE_SIZE_def)
  then show ?thesis using span_page_info(2) [OF c m(1) pg] by (simp add: span_of_def)
qed

text \<open>Giving the pages of an empty span back, before its structure is freed.\<close>

definition drop_span :: "nat \<Rightarrow> nat \<Rightarrow> pool_heap \<Rightarrow> pool_heap" where
  "drop_span p a h = set_pool p (\<lambda>q. q\<lparr>empty_spans := remove1 a (empty_spans q), nr_empty := nr_empty q - 1\<rparr>)
     (h\<lparr>buddy := buddy_span_free (head_lpage (spans h a)) (sp_size (spans h a)) (buddy h)\<rparr>)"

lemma drop_span_inv:
  assumes inv: "pool_inv h S R" and p: "p < META" and a: "a \<in> set (empty_spans (pools h p))"
  shows "pool_inv (drop_span p a h) (S - {a}) R" "live (drop_span p a h) (S - {a}) = live h S" "a \<in> S" "sp_pool (spans h a) = p"
    "same_geom S h (drop_span p a h)"
proof -
  define h' where "h' = drop_span p a h"
  define b' where "b' = buddy_span_free (head_lpage (spans h a)) (sp_size (spans h a)) (buddy h)"
  have h': "buddy h' = b'" "spans h' = spans h" "data_base h' = data_base h"
    "pools h' = (pools h)(p := (pools h p)\<lparr>empty_spans := remove1 a (empty_spans (pools h p)), nr_empty := nr_empty (pools h p) - 1\<rparr>)"
    by (simp_all add: h'_def drop_span_def b'_def)
  have c: "pool_core h S R" and rg: "\<And>r. r \<le> META \<Longrightarrow> ring_ok (pools h r)" and Q: "queues_ok h S (\<lambda>r. queued (pools h r))"
    using inv by (simp_all add: pool_inv_def)
  have L: "lists_ok h S" and ok: "buddy_ok (buddy h)" and runs: "runs_ok (buddy h) R" using c by (simp_all add: pool_core_def)
  have pl: "p \<le> META" using p by simp
  have "set (partial_spans (pools h p)) \<union> set (empty_spans (pools h p)) = {x \<in> S. sp_pool (spans h x) = p \<and> freelist (spans h x) \<noteq> []}"
    using L pl by (simp add: lists_ok_def)
  then have "a \<in> {x \<in> S. sp_pool (spans h x) = p \<and> freelist (spans h x) \<noteq> []}" using a by blast
  then show aS: "a \<in> S" and ap: "sp_pool (spans h a) = p" by simp_all
  have full: "length (freelist (spans h a)) = objs_per_span (span_pool h a)" using L p a by (auto simp: lists_ok_def span_pool_def ap)
  note E = full_no_pending [OF c aS full]
  let ?i = "head_lpage (spans h a)" and ?n = "sp_size (spans h a)"
  have I: "{?i..<?i + ?n} = span_pages h a" by (simp add: span_pages_def)
  have n: "?i + ?n \<le> nr_pages (buddy h)" "?n < 2 ^ BUDDY_MAX_ORDER"
    using coreD(1,3,5) [OF c aS] by (simp_all add: span_ok_def Let_def pool_const_def)
  have dis: "{?i..<?i + ?n} \<inter> free_pages (buddy h) = {}" using span_page_info(1) [OF c aS] unfolding I by (auto simp: free_pages_def)
  have B: "buddy_ok b'" "nr_pages b' = nr_pages (buddy h)" "\<And>pg. pg \<notin> span_pages h a \<Longrightarrow> pages b' pg = pages (buddy h) pg"
    using span_free_pages [OF ok n(1) dis n(2)] unfolding I by (simp_all add: b'_def)
  have g: "same_geom S h h'" by (simp add: same_geom_def h' B(2))
  then show "same_geom S h (drop_span p a h)" by (simp add: h'_def)
  have runs': "runs_ok b' R"
  proof -
    have "pages b' pg = pages (buddy h) pg" if "(j, l) \<in> R" "pg \<in> {j..<j + l}" for j l pg
      by (rule B(3)) (use span_run_disjoint [OF c aS that(1)] that(2) in blast)
    then show ?thesis using runs B(2) unfolding runs_ok_def by fastforce
  qed
  have oks: "span_ok h' x" if x: "x \<in> S" "x \<noteq> a" for x
  proof -
    have "pages b' pg = pages (buddy h) pg" if "pg \<in> span_pages h x" for pg
      by (rule B(3)) (use that span_pages_disjoint [OF c x(1) aS x(2)] in blast)
    then have "span_ok h' x = span_ok h x"
      by (intro span_ok_frame [OF g x(1)]) (simp_all add: h' B(2))
    then show ?thesis using coreD(1) [OF c x(1)] by simp
  qed
  have anch: "anchored h' (S - {a}) x" if x: "x \<in> S" for x
  proof -
    obtain m where m: "m \<in> S" "sp_pool (spans h m) = META" "x \<in> slots h m" "x \<notin> set (freelist (spans h m))" by (rule span_addr [OF c x])
    have "m \<noteq> a" using m(2) ap p by auto
    then show ?thesis using m geom_slots(2) [OF g m(1)] by (auto simp: anchored_def h' intro!: bexI [of _ m])
  qed
  have lok: "lists_ok h' (S - {a})"
    unfolding lists_ok_def
  proof (intro conjI allI impI ballI)
    fix r assume r: "r \<le> META"
    have Lr: "distinct (partial_spans (pools h r) @ empty_spans (pools h r))"
      "set (partial_spans (pools h r)) \<union> set (empty_spans (pools h r)) = {x \<in> S. sp_pool (spans h x) = r \<and> freelist (spans h x) \<noteq> []}"
      "\<And>x. x \<in> set (empty_spans (pools h r)) \<Longrightarrow> length (freelist (spans h x)) = objs_per_span (pools h r)"
      using L r by (simp_all add: lists_ok_def)
    show "distinct (partial_spans (pools h' r) @ empty_spans (pools h' r))" using Lr(1) by (auto simp: h')
    show "set (partial_spans (pools h' r)) \<union> set (empty_spans (pools h' r)) =
        {x \<in> S - {a}. sp_pool (spans h' x) = r \<and> freelist (spans h' x) \<noteq> []}"
    proof (cases "r = p")
      case True
      have "set (partial_spans (pools h' p)) \<union> set (empty_spans (pools h' p)) = set (partial_spans (pools h p)) \<union> set (empty_spans (pools h p)) - {a}"
        using Lr(1) a True by (auto simp: h')
      then show ?thesis using Lr(2) True by (auto simp: h')
    next
      case False
      then show ?thesis using Lr(2) ap by (auto simp: h')
    qed
    fix x assume "x \<in> set (empty_spans (pools h' r))"
    then show "length (freelist (spans h' x)) = objs_per_span (pools h' r)"
      using Lr(3) notin_set_remove1 by (fastforce simp: h' split: if_splits)
  next
    show "empty_spans (pools h' META) = []" using L p by (auto simp: lists_ok_def h')
  qed
  have "pool_const (pools h' r) = pool_const (pools h r)" for r by (simp add: h' pool_const_def)
  then have core: "pool_core h' (S - {a}) R" using c B(1,2) runs' oks anch lok by (simp add: pool_core_def h')
  have qd: "queued (pools h' r) = queued (pools h r)" "ring_ok (pools h' r) = ring_ok (pools h r)" for r
    by (simp_all add: h' queued_def ring_list_def ring_ok_def)
  have "queues_ok h' (S - {a}) (\<lambda>r. queued (pools h' r))"
    unfolding queues_ok_def qd h'(2)
  proof (intro allI impI conjI ballI)
    fix r assume r: "r \<le> META"
    show "distinct (queued (pools h r))" using Q r by (simp add: queues_ok_def)
    fix i assume "i \<in> set (queued (pools h r))"
    then obtain x where "x \<in> S" "head_lpage (spans h x) = i" "sp_pool (spans h x) = r" "snap_freelist (spans h x) \<noteq> []"
      using Q r by (auto simp: queues_ok_def)
    moreover from this have "x \<noteq> a" using E(1) by auto
    ultimately show "\<exists>x \<in> S - {a}. head_lpage (spans h x) = i \<and> sp_pool (spans h x) = r \<and> snap_freelist (spans h x) \<noteq> []" by blast
  qed
  then show "pool_inv (drop_span p a h) (S - {a}) R" using core rg by (simp add: pool_inv_def qd h'_def [symmetric])
  have "live_slots h' x = live_slots h x" if "x \<in> S" for x using geom_slots(2) [OF g that] by (simp add: live_slots_def h')
  then have "live h' (S - {a}) = live h S" using E(2) by (auto simp: live_def h')
  then show "live (drop_span p a h) (S - {a}) = live h S" by (simp add: h'_def)
qed

lemma reclaim_span_inv:
  assumes inv: "pool_inv h S R" and p: "p < META" and a: "a \<in> set (empty_spans (pools h p))"
  shows "pool_inv (reclaim_span p a h) (S - {a}) R \<and> live (reclaim_span p a h) (S - {a}) = live h S \<and>
    same_geom (S - {a}) h (reclaim_span p a h) \<and> empty_spans (pools (reclaim_span p a h) p) = remove1 a (empty_spans (pools h p))"
proof -
  note D = drop_span_inv [OF inv p a]
  define h1 where "h1 = drop_span p a h"
  have c: "pool_core h S R" and c1: "pool_core h1 (S - {a}) R" using inv D(1) by (simp_all add: pool_inv_def h1_def)
  obtain m where m: "m \<in> S" "sp_pool (spans h m) = META" "a \<in> slots h m" "a \<notin> set (freelist (spans h m))" by (rule span_addr [OF c D(3)])
  have ne: "m \<noteq> a" using m(2) D(4) p by auto
  then have m1: "m \<in> S - {a}" using m(1) by simp
  have s1: "spans h1 = spans h" by (simp add: h1_def drop_span_def)
  have sl: "slots h1 m = slots h m" using geom_slots(2) [OF D(5) m(1)] by (simp add: h1_def)
  have so: "span_of h1 a = Some m" by (rule span_of_slot [OF c1 m1]) (use m(3) sl in simp)
  have "snap_freelist (spans h m) = []" using span_okD(6) [OF c m(1,2)] by simp
  then have lv: "a \<in> live_slots h1 m" using m(3,4) sl by (simp add: live_slots_def s1)
  have pm: "sp_pool (spans h1 m) = META" using m(2) by (simp add: s1)
  have run: "reclaim_span p a h = pool_obj_free META m a h1"
  proof -
    have "set_pool p (\<lambda>q. q\<lparr>nr_empty := nr_empty q - 1\<rparr>) ((set_pool p (\<lambda>q. q\<lparr>empty_spans := remove1 a (empty_spans q)\<rparr>) h)
        \<lparr>buddy := buddy_span_free (head_lpage (spans h a)) (sp_size (spans h a)) (buddy h)\<rparr>) = h1"
      by (simp add: h1_def drop_span_def set_pool_def)
    then show ?thesis using so by (simp add: reclaim_span_def Let_def)
  qed
  note F = obj_free_inv [OF D(1) [folded h1_def] m1 pm lv]
  have "pools (reclaim_span p a h) p = pools h1 p" unfolding run by (rule F(6)) (use p in auto)
  then have "empty_spans (pools (reclaim_span p a h) p) = remove1 a (empty_spans (pools h p))" by (simp add: h1_def drop_span_def)
  moreover have "same_geom (S - {a}) h (reclaim_span p a h)" using F(2) D(5) unfolding run by (auto simp: same_geom_def h1_def)
  ultimately show ?thesis using F(1,4) D(2) unfolding run by (simp add: h1_def)
qed

lemma reclaim_list_inv:
  assumes "pool_inv h S R" "p < META" "empty_spans (pools h p) = xs"
  shows "\<exists>S' \<subseteq> S. pool_inv (fold (reclaim_span p) xs h) S' R \<and> live (fold (reclaim_span p) xs h) S' = live h S \<and>
    same_geom S' h (fold (reclaim_span p) xs h)"
  using assms
proof (induction xs arbitrary: h S)
  case Nil
  then show ?case by (intro exI [of _ S]) (simp add: same_geom_def)
next
  case (Cons a xs)
  have R: "pool_inv (reclaim_span p a h) (S - {a}) R" "live (reclaim_span p a h) (S - {a}) = live h S"
    "same_geom (S - {a}) h (reclaim_span p a h)" "empty_spans (pools (reclaim_span p a h) p) = xs"
    using reclaim_span_inv [OF Cons.prems(1,2), of a] Cons.prems(3) by auto
  obtain S' where S': "S' \<subseteq> S - {a}" "pool_inv (fold (reclaim_span p) xs (reclaim_span p a h)) S' R"
    "live (fold (reclaim_span p) xs (reclaim_span p a h)) S' = live (reclaim_span p a h) (S - {a})"
    "same_geom S' (reclaim_span p a h) (fold (reclaim_span p) xs (reclaim_span p a h))"
    using Cons.IH [OF R(1) Cons.prems(2) R(4)] by blast
  have "same_geom S' h (reclaim_span p a h)" using R(3) S'(1) by (auto simp: same_geom_def)
  then have "same_geom S' h (fold (reclaim_span p) xs (reclaim_span p a h))" by (rule same_geom_trans [OF _ S'(4)])
  then show ?case using S' R(2) by (intro exI [of _ S']) auto
qed

lemma force_reclaim_inv:
  assumes "pool_inv h S R"
  shows "\<exists>S' \<subseteq> S. pool_inv (pool_span_force_reclaim_all h) S' R \<and> live (pool_span_force_reclaim_all h) S' = live h S \<and>
    same_geom S' h (pool_span_force_reclaim_all h)"
proof -
  have "\<exists>S' \<subseteq> S. pool_inv (fold (\<lambda>p h. fold (reclaim_span p) (empty_spans (pools h p)) h) ps h) S' R \<and>
      live (fold (\<lambda>p h. fold (reclaim_span p) (empty_spans (pools h p)) h) ps h) S' = live h S \<and>
      same_geom S' h (fold (\<lambda>p h. fold (reclaim_span p) (empty_spans (pools h p)) h) ps h)" if "\<forall>p \<in> set ps. p < META" for ps
    using that assms
  proof (induction ps arbitrary: h S)
    case Nil
    then show ?case by (intro exI [of _ S]) (simp add: same_geom_def)
  next
    case (Cons p ps)
    define h1 where "h1 = fold (reclaim_span p) (empty_spans (pools h p)) h"
    obtain S1 where S1: "S1 \<subseteq> S" "pool_inv h1 S1 R" "live h1 S1 = live h S" "same_geom S1 h h1"
      using reclaim_list_inv [OF Cons.prems(2) _ refl, of p] Cons.prems(1) by (auto simp: h1_def)
    define h2 where "h2 = fold (\<lambda>p h. fold (reclaim_span p) (empty_spans (pools h p)) h) ps h1"
    obtain S2 where S2: "S2 \<subseteq> S1" "pool_inv h2 S2 R" "live h2 S2 = live h1 S1" "same_geom S2 h1 h2"
      using Cons.IH [OF _ S1(2)] Cons.prems(1) by (auto simp: h2_def)
    have "same_geom S2 h h2" using S1(4) S2(1,4) by (auto simp: same_geom_def)
    then show ?case using S1 S2 by (intro exI [of _ S2]) (auto simp: h1_def [symmetric] h2_def [symmetric])
  qed
  then show ?thesis unfolding pool_span_force_reclaim_all_def by (simp add: NR_SMALL_POOLS_def META_def)
qed

subsection \<open>The initial pools\<close>

definition init_pools :: "nat \<Rightarrow> small_pool" where
  "init_pools p = (if p = META then pool_init SPAN_INFO_SIZE else pool_set_init p)"

lemma pool_classes_const: "\<forall>sz \<in> set POOL_CLASSES. pool_const (pool_init sz)"
  by (simp add: POOL_CLASSES_def pool_const_def pool_init_def pool_lpages_calculate_def LPAGE_SIZE_def BUDDY_MAX_ORDER_def)

lemma init_pools_const:
  assumes "p \<le> META" shows "pool_const (init_pools p)"
proof (cases "p = META")
  case True
  then show ?thesis
    by (simp add: init_pools_def SPAN_INFO_SIZE_def pool_const_def pool_init_def pool_lpages_calculate_def LPAGE_SIZE_def BUDDY_MAX_ORDER_def)
next
  case False
  then have "POOL_CLASSES ! p \<in> set POOL_CLASSES" using assms by (intro nth_mem) (simp add: POOL_CLASSES_def META_def)
  then show ?thesis using pool_classes_const False by (simp add: init_pools_def pool_set_init_def)
qed

lemma init_pool_inv:
  assumes "buddy_ok b" "nr_pages b \<le> 2 ^ 20"
  shows "pool_inv \<lparr>buddy = b, spans = sp, pools = init_pools, data_base = d\<rparr> {} {}" "live \<lparr>buddy = b, spans = sp, pools = init_pools, data_base = d\<rparr> {} = {}"
proof -
  have m: "obj_size (init_pools META) = SPAN_INFO_SIZE" "1 < objs_per_span (init_pools META)"
    by (simp_all add: init_pools_def pool_init_def Let_def SPAN_INFO_SIZE_def pool_lpages_calculate_def LPAGE_SIZE_def)
  have f: "partial_spans (init_pools p) = []" "empty_spans (init_pools p) = []" "queued (init_pools p) = []" "ring_ok (init_pools p)" for p
    by (simp_all add: init_pools_def pool_set_init_def pool_init_def Let_def queued_def ring_list_def ring_ok_def)
  show "pool_inv \<lparr>buddy = b, spans = sp, pools = init_pools, data_base = d\<rparr> {} {}"
    using assms init_pools_const m f by (simp add: pool_inv_def pool_core_def lists_ok_def runs_ok_def queues_ok_def)
  show "live \<lparr>buddy = b, spans = sp, pools = init_pools, data_base = d\<rparr> {} = {}" by (simp add: live_def)
qed

text \<open>
  C15: The size-class pools implement a set of live slots.  On well-formed pools an allocation returns a slot of
  its class that was not live and makes exactly this slot live, or fails and leaves the live set alone, also
  when it merges the deferred frees of the snapshot thread or takes a new span; an immediate and a deferred free remove
  exactly the freed slot; reclaiming empty spans removes none.  Live slots never overlap.  Every operation keeps the pools well-formed.
\<close>

theorem pool_refines_live_set:
  assumes inv: "pool_inv h S R" and p: "p < META"
  shows "(case pool_obj_alloc p h of
      (None, h') \<Rightarrow> pool_inv h' S R \<and> live h' S = live h S
    | (Some x, h') \<Rightarrow> \<exists>S'. pool_inv h' S' R \<and> slot_of h' S' p x \<and> x \<notin> live h S \<and> live h' S' = insert x (live h S)) \<and>
    (\<forall>a \<in> S. \<forall>x \<in> live_slots h a. sp_pool (spans h a) \<noteq> META \<longrightarrow>
       pool_inv (pool_obj_free (sp_pool (spans h a)) a x h) S R \<and> live (pool_obj_free (sp_pool (spans h a)) a x h) S = live h S - {x} \<and>
       pool_inv (pool_snap_defer_free a x h) S R \<and> live (pool_snap_defer_free a x h) S = live h S - {x}) \<and>
    (\<exists>S' \<subseteq> S. pool_inv (pool_span_force_reclaim_all h) S' R \<and> live (pool_span_force_reclaim_all h) S' = live h S) \<and>
    (\<forall>a \<in> S. \<forall>b \<in> S. \<forall>x \<in> live_slots h a. \<forall>y \<in> live_slots h b. x \<noteq> y \<longrightarrow>
       {x..<x + obj_size (span_pool h a)} \<inter> {y..<y + obj_size (span_pool h b)} = {})"
proof (intro conjI ballI impI)
  show "case pool_obj_alloc p h of
      (None, h') \<Rightarrow> pool_inv h' S R \<and> live h' S = live h S
    | (Some x, h') \<Rightarrow> \<exists>S'. pool_inv h' S' R \<and> slot_of h' S' p x \<and> x \<notin> live h S \<and> live h' S' = insert x (live h S)"
    using obj_alloc_inv [OF inv p] by (auto split: prod.splits option.splits)
  show "\<exists>S' \<subseteq> S. pool_inv (pool_span_force_reclaim_all h) S' R \<and> live (pool_span_force_reclaim_all h) S' = live h S"
    using force_reclaim_inv [OF inv] by blast
next
  fix a x assume a: "a \<in> S" "x \<in> live_slots h a" "sp_pool (spans h a) \<noteq> META"
  show "pool_inv (pool_obj_free (sp_pool (spans h a)) a x h) S R" "live (pool_obj_free (sp_pool (spans h a)) a x h) S = live h S - {x}"
    using obj_free_inv(1,4) [OF inv a(1) refl a(2)] a(3) by simp_all
  show "pool_inv (pool_snap_defer_free a x h) S R" "live (pool_snap_defer_free a x h) S = live h S - {x}"
    by (rule defer_free_inv [OF inv a(1,3,2)])+
next
  fix a b x y assume a: "a \<in> S" "b \<in> S" "x \<in> live_slots h a" "y \<in> live_slots h b" "x \<noteq> y"
  have c: "pool_core h S R" using inv by (simp add: pool_inv_def)
  show "{x..<x + obj_size (span_pool h a)} \<inter> {y..<y + obj_size (span_pool h b)} = {}"
    by (rule slot_bytes_disjoint [OF c a(1) _ a(2) _ a(5)]) (use a in \<open>simp_all add: live_slots_def\<close>)
qed

text \<open>Eight free pages and fresh pools.\<close>

definition sample_heap :: pool_heap where
  "sample_heap = \<lparr>buddy = sample_buddy, spans = (\<lambda>_. \<lparr>sp_pool = 0, freelist = [], snap_freelist = [], head_lpage = 0, sp_size = 0, nr_alloc = 0, nr_snap_alloc = 0\<rparr>),
     pools = init_pools, data_base = 4096\<rparr>"

lemma sample_heap_inv: "pool_inv sample_heap {} {}" "live sample_heap {} = {}"
proof -
  have "nr_pages sample_buddy = 8"
    by (simp add: sample_buddy_def buddy_span_free_def buddy_block_free_def buddy_list_node_push_def node_reset_def mark_free_def
        buddy_alloc_init_def set_bprev_def Let_def)
  then show "pool_inv sample_heap {} {}" "live sample_heap {} = {}"
    using init_pool_inv [OF sample_buddy_ok(1)] by (simp_all add: sample_heap_def)
qed

lemma one_page:
  assumes "buddy_ok b" "free_pages b \<noteq> {}"
  obtains i b' where "buddy_span_alloc 1 b = (Some i, b')" "buddy_ok b'" "free_pages b' = free_pages b - {i}" "pg_span_size (pages b' i) = 1"
proof -
  obtain F where F: "buddy_state b F" "buddy_inv b F" "covered F = free_pages b" using assms(1) by (auto simp: buddy_ok_def buddy_state_def)
  have "first_order 0 b \<noteq> None"
  proof
    assume "first_order 0 b = None"
    then have "F ord = []" for ord
      using first_order_cases(1) [OF F(2)] F(2) by (cases "F ord") (auto simp: buddy_inv_def blocks_ok_def)
    then show False using F(3) assms(2) by (simp add: covered_def)
  qed
  then have "fst (buddy_span_alloc 1 b) \<noteq> None"
    using span_alloc_ok [OF F(1), of 1] by (auto simp: buddy_math_ceil_log2_def BUDDY_MAX_ORDER_def split: prod.splits option.splits)
  then obtain i b' where r: "buddy_span_alloc 1 b = (Some i, b')" by (cases "buddy_span_alloc 1 b") auto
  then show thesis using that [OF r] span_alloc_ok [OF F(1), of 1] by (auto simp: buddy_ok_def span_page_def)
qed

lemma idle_merges:
  assumes "merge_head (pools h p) = merge_tail (pools h p)" "to_merge_head (pools h p) = []"
  shows "pool_snap_merge_incremental p n h = h" "pool_snap_merge p h = h"
proof -
  show i: "pool_snap_merge_incremental p n h = h" for n using assms(1) by (cases n) simp_all
  have "(pools h p)\<lparr>to_merge_head := []\<rparr> = pools h p" using assms(2) by simp
  then have "set_pool p (\<lambda>q. q\<lparr>to_merge_head := []\<rparr>) h = h" by (simp add: set_pool_def)
  then show "pool_snap_merge p h = h" by (simp add: pool_snap_merge_def i assms(2))
qed

lemma init_pools_idle:
  "merge_head (init_pools p) = merge_tail (init_pools p)" "to_merge_head (init_pools p) = []" "partial_spans (init_pools p) = []"
  by (simp_all add: init_pools_def pool_set_init_def pool_init_def Let_def)

lemma init_alloc_with:
  assumes "pools h = init_pools"
  shows "alloc_with grow p h = (case grow h of (None, h) \<Rightarrow> (None, h) | (Some a, h) \<Rightarrow> (case span_take p a h of (ob, h) \<Rightarrow> (Some ob, h)))"
proof -
  have "pool_snap_merge_incremental p 16 h = h" "pool_snap_merge p h = h" by (rule idle_merges; simp add: assms init_pools_idle)+
  then show ?thesis by (simp add: alloc_with_def assms init_pools_idle)
qed

lemma init_alloc_some:
  assumes ip: "pools h = init_pools" and ok: "buddy_ok (buddy h)" and c: "3 \<le> card (free_pages (buddy h))"
  shows "\<exists>x h'. pool_obj_alloc 4 h = (Some x, h')"
proof -
  have lp: "lpages_per_span (init_pools 4) = 1" "lpages_per_span (init_pools META) = 1"
    by (simp_all add: init_pools_def pool_set_init_def pool_init_def Let_def POOL_CLASSES_def META_def SPAN_INFO_SIZE_def pool_lpages_calculate_def LPAGE_SIZE_def)
  have "free_pages (buddy h) \<noteq> {}" using c by auto
  then obtain i1 b1 where b1: "buddy_span_alloc 1 (buddy h) = (Some i1, b1)" "buddy_ok b1" "free_pages b1 = free_pages (buddy h) - {i1}" "pg_span_size (pages b1 i1) = 1"
    by (rule one_page [OF ok])
  have "2 \<le> card (free_pages b1)" using c b1(3) by (cases "i1 \<in> free_pages (buddy h)") (auto simp: card_Diff_singleton_if)
  then have c1: "free_pages b1 \<noteq> {}" "1 \<le> card (free_pages b1 - {i})" for i by (auto simp: card_Diff_singleton_if)
  obtain i2 b2 where b2: "buddy_span_alloc 1 b1 = (Some i2, b2)" "buddy_ok b2" "free_pages b2 = free_pages b1 - {i2}" "pg_span_size (pages b2 i2) = 1"
    by (rule one_page [OF b1(2) c1(1)])
  have "free_pages b2 \<noteq> {}" using c1(2) [of i2, folded b2(3)] by (metis card.empty not_one_le_zero)
  then obtain i3 b3 where b3: "buddy_span_alloc 1 b2 = (Some i3, b3)" "pg_span_size (pages b3 i3) = 1" by (rule one_page [OF b2(2)]) blast
  have "\<exists>ms h2. meta_grow (h\<lparr>buddy := b1\<rparr>) = (Some ms, h2)"
    using b2 b3 lp by (simp add: meta_grow_def pool_meta_alloc_def ip Let_def)
  then obtain ms h2 where "alloc_with meta_grow META (h\<lparr>buddy := b1\<rparr>) = (Some ms, h2)"
    by (fastforce simp: init_alloc_with ip split: prod.splits)
  then have "\<exists>a h3. pool_grow 4 h = (Some a, h3)" using pool_grow_eq [of h 4 i1 b1 1 ms h2] b1 lp ip by simp
  then show ?thesis by (auto simp: pool_obj_alloc_def META_def init_alloc_with ip split: prod.splits)
qed

lemma sample_alloc: "\<exists>x h'. pool_obj_alloc 4 sample_heap = (Some x, h')"
  by (rule init_alloc_some) (simp_all add: sample_heap_def sample_buddy_ok)

lemma pool_refines_live_set_witness:
  "\<exists>x h' S'. pool_obj_alloc 4 sample_heap = (Some x, h') \<and> pool_inv h' S' {} \<and> slot_of h' S' 4 x \<and> live h' S' = {x}"
proof -
  obtain x h' where r: "pool_obj_alloc 4 sample_heap = (Some x, h')" using sample_alloc by blast
  have "4 < META" by (simp add: META_def)
  then show ?thesis using pool_refines_live_set [OF sample_heap_inv(1), of 4] unfolding r by (auto simp: sample_heap_inv(2))
qed

end
