(* ===== verification/Heap.thy ===== *)
theory Heap
  imports Pool Kv_Object
begin

text \<open>
  Model of \<open>mem/mem_arena.h\<close>, \<open>mem/mem_arena.c\<close>, \<open>mem/mem_heap.c\<close>, \<open>mem/mem_barrier.c\<close> and \<open>mem/mem_api.c\<close>: the reserved
  address ranges and their slices per thread, a thread's heap, growth under limits and memory pressure, and
  \<open>mem_malloc\<close> and \<open>mem_free\<close>.  Addresses are 64-bit numbers.  What the operating system answers (the amount of memory
  \<open>/proc/meminfo\<close> allows, whether \<open>mprotect\<close> succeeds) is an argument.
\<close>

section \<open>Address ranges\<close>

definition HPAGE_SIZE :: nat where "HPAGE_SIZE = 2097152"
definition LPAGE_SHIFT :: nat where "LPAGE_SHIFT = 12"

record mem_global_arena =
  ar_data_base :: nat
  ar_meta_base :: nat
  ar_arena_base :: nat
  per_thread_data_size :: nat
  per_thread_meta_size :: nat
  per_thread_arena_size :: nat
  n_threads :: nat
  thread_id_shift :: nat

definition ptr_offset :: "mem_global_arena \<Rightarrow> nat \<Rightarrow> nat" where
  "ptr_offset ar ptr = (ptr + 2 ^ 64 - ar_data_base ar) mod 2 ^ 64"

definition ptr_thread_id :: "mem_global_arena \<Rightarrow> nat \<Rightarrow> nat" where
  "ptr_thread_id ar ptr = drop_bit (thread_id_shift ar) (ptr_offset ar ptr) mod 2 ^ 32"

definition thread_data_base :: "mem_global_arena \<Rightarrow> nat \<Rightarrow> nat" where
  "thread_data_base ar t = ar_data_base ar + push_bit (thread_id_shift ar) t"

definition thread_meta_base :: "mem_global_arena \<Rightarrow> nat \<Rightarrow> nat" where
  "thread_meta_base ar t = ar_meta_base ar + t * per_thread_meta_size ar"

definition thread_arena_base :: "mem_global_arena \<Rightarrow> nat \<Rightarrow> nat" where
  "thread_arena_base ar t = ar_arena_base ar + t * per_thread_arena_size ar"

text \<open>The cast to 32 bits comes before the shift.\<close>

definition ptr_lpage_idx :: "mem_global_arena \<Rightarrow> nat \<Rightarrow> nat" where
  "ptr_lpage_idx ar ptr = drop_bit LPAGE_SHIFT ((ptr + 2 ^ 64 - thread_data_base ar (ptr_thread_id ar ptr)) mod 2 ^ 64 mod 2 ^ 32)"

definition prev_power_of_2 :: "u64 \<Rightarrow> u64" where
  "prev_power_of_2 n =
     (if n = 0 then 0
      else
        (let n = n OR drop_bit 1 n; n = n OR drop_bit 2 n; n = n OR drop_bit 4 n;
             n = n OR drop_bit 8 n; n = n OR drop_bit 16 n; n = n OR drop_bit 32 n
         in n - drop_bit 1 n))"

definition log2_u64 :: "nat \<Rightarrow> nat" where
  "log2_u64 n = log2n n"

text \<open>
  The sizes chosen by \<open>mem_lib_init\<close>: \<open>share\<close> is 80 percent of the available memory divided by the threads, computed in
  floating point, and \<open>hint\<close> is the requested size.
\<close>

definition data_size_for :: "u64 \<Rightarrow> u64 \<Rightarrow> nat" where
  "data_size_for share hint =
     (let max_per_thread = prev_power_of_2 share;
          sz = (if 0 < hint then
                  (if max_per_thread < prev_power_of_2 hint then max_per_thread else prev_power_of_2 hint)
                else max_per_thread)
      in if sz < 268435456 then 268435456 else unat sz)"

definition meta_size_for :: "nat \<Rightarrow> nat" where
  "meta_size_for data_size = (if data_size div 32 < 16777216 then 16777216 else data_size div 32)"

definition ARENA_LINEAR_RESERVE :: nat where "ARENA_LINEAR_RESERVE = 2 ^ 37"

definition mem_lib_init :: "nat \<Rightarrow> u64 \<Rightarrow> u64 \<Rightarrow> (nat \<times> nat \<times> nat) option \<Rightarrow> mem_global_arena option" where
  "mem_lib_init threads hint share mmaps =
     (if threads = 0 \<or> 256 < threads then None
      else
        (let data_size = data_size_for share hint
         in map_option (\<lambda>(d, m, a). \<lparr>ar_data_base = d, ar_meta_base = m, ar_arena_base = a, per_thread_data_size = data_size,
              per_thread_meta_size = meta_size_for data_size, per_thread_arena_size = ARENA_LINEAR_RESERVE, n_threads = threads,
              thread_id_shift = log2_u64 data_size\<rparr>) mmaps))"

section \<open>Memory pressure\<close>

datatype MemPressure = MEM_PRESSURE_NONE | MEM_PRESSURE_LOW | MEM_PRESSURE_HIGH | MEM_PRESSURE_CRIT

text \<open>
  What \<open>parse_meminfo\<close> reports: the two counters, and which of the thresholds 0.50, 0.20 and 0.05 the quotient exceeds.
\<close>

record MemInfo =
  mem_total_kb :: u64
  mem_available_kb :: u64
  above_half :: bool
  above_fifth :: bool
  above_twentieth :: bool

definition pressure_of :: "MemInfo \<Rightarrow> MemPressure" where
  "pressure_of i =
     (if above_half i then MEM_PRESSURE_NONE else if above_fifth i then MEM_PRESSURE_LOW
      else if above_twentieth i then MEM_PRESSURE_HIGH else MEM_PRESSURE_CRIT)"

definition mem_pressure_check :: "MemInfo option \<Rightarrow> MemPressure" where
  "mem_pressure_check info = (case info of None \<Rightarrow> MEM_PRESSURE_CRIT | Some i \<Rightarrow> pressure_of i)"

definition mem_barrier_allowed_bytes :: "MemInfo option \<Rightarrow> nat \<Rightarrow> nat" where
  "mem_barrier_allowed_bytes info requested =
     (case info of
        None \<Rightarrow> 0
      | Some i \<Rightarrow>
          (case pressure_of i of
             MEM_PRESSURE_NONE \<Rightarrow> requested
           | MEM_PRESSURE_LOW \<Rightarrow> requested
           | MEM_PRESSURE_HIGH \<Rightarrow>
               (let cap = unat (mem_available_kb i * 1024) div 2 in if requested < cap then requested else cap)
           | MEM_PRESSURE_CRIT \<Rightarrow> 0))"

section \<open>Dirty bitmaps\<close>

definition dirty_bit_set :: "(nat \<Rightarrow> u64) \<Rightarrow> nat \<Rightarrow> nat \<Rightarrow> u64" where
  "dirty_bit_set d lpage = d(drop_bit 6 lpage := d (drop_bit 6 lpage) OR push_bit (lpage AND 63) 1)"

definition dirty_bit_clear :: "(nat \<Rightarrow> u64) \<Rightarrow> nat \<Rightarrow> nat \<Rightarrow> u64" where
  "dirty_bit_clear d lpage = d(drop_bit 6 lpage := d (drop_bit 6 lpage) AND NOT (push_bit (lpage AND 63) 1))"

definition dirty_bit_test :: "(nat \<Rightarrow> u64) \<Rightarrow> nat \<Rightarrow> bool" where
  "dirty_bit_test d lpage \<longleftrightarrow> drop_bit (lpage AND 63) (d (drop_bit 6 lpage)) AND 1 \<noteq> 0"

definition modified_bit_set :: "(nat \<Rightarrow> u8) \<Rightarrow> nat \<Rightarrow> nat \<Rightarrow> nat \<Rightarrow> u8" where
  "modified_bit_set m lpage slot =
     (if slot < SNAP_MODIFIED_SIZE * 8 then
        (let i = lpage * SNAP_MODIFIED_SIZE + drop_bit 3 slot in m(i := m i OR push_bit (slot AND 7) 1))
      else m)"

definition modified_bit_clear :: "(nat \<Rightarrow> u8) \<Rightarrow> nat \<Rightarrow> nat \<Rightarrow> nat \<Rightarrow> u8" where
  "modified_bit_clear m lpage slot =
     (if slot < SNAP_MODIFIED_SIZE * 8 then
        (let i = lpage * SNAP_MODIFIED_SIZE + drop_bit 3 slot in m(i := m i AND NOT (push_bit (slot AND 7) 1)))
      else m)"

definition modified_bit_test :: "(nat \<Rightarrow> u8) \<Rightarrow> nat \<Rightarrow> nat \<Rightarrow> bool" where
  "modified_bit_test m lpage slot \<longleftrightarrow>
     slot < SNAP_MODIFIED_SIZE * 8 \<and> drop_bit (slot AND 7) (m (lpage * SNAP_MODIFIED_SIZE + drop_bit 3 slot)) AND 1 \<noteq> 0"

definition modified_any :: "(nat \<Rightarrow> u8) \<Rightarrow> nat \<Rightarrow> bool" where
  "modified_any m lpage \<longleftrightarrow> (\<exists>i \<in> set [0..<SNAP_MODIFIED_SIZE]. m (lpage * SNAP_MODIFIED_SIZE + i) \<noteq> 0)"

definition page_first_slot_offset :: "(nat \<Rightarrow> page_info) \<Rightarrow> nat \<Rightarrow> nat \<Rightarrow> nat" where
  "page_first_slot_offset pgs lpage sz =
     (let page_start = offset_in_span (pgs lpage) * LPAGE_SIZE;
          first_idx = (page_start + sz - 1) div sz
      in first_idx * sz - page_start)"

text \<open>\<open>None\<close> for \<open>INVALID\<close>; \<open>off\<close> is the distance of the pointer from the start of the data region.\<close>

definition ptr_to_page_slot :: "(nat \<Rightarrow> page_info) \<Rightarrow> nat \<Rightarrow> nat \<Rightarrow> nat option" where
  "ptr_to_page_slot pgs off sz =
     (let lpage = drop_bit LPAGE_SHIFT off;
          byte_in_page = off AND (LPAGE_SIZE - 1);
          first_off = page_first_slot_offset pgs lpage sz
      in if byte_in_page < first_off then None else Some ((byte_in_page - first_off) div sz))"

section \<open>Thread heap\<close>

record thread_heap =
  ph :: pool_heap
  data_reserved :: nat
  data_committed :: nat
  linear_committed :: nat
  dirty_bits :: "nat \<Rightarrow> u64"
  snap_dirty_bits :: "nat \<Rightarrow> u64"
  slot_bits :: "nat \<Rightarrow> u8"
  snap_slot_bits :: "nat \<Rightarrow> u8"
  nr_pages_committed :: nat
  nr_pages_dirty :: nat
  snap_large_freelist :: "nat list"
  limit_bytes :: nat

record mem_state =
  g_mem_arena :: mem_global_arena
  g_thread_heaps :: "nat \<Rightarrow> thread_heap"

definition set_heap :: "nat \<Rightarrow> (thread_heap \<Rightarrow> thread_heap) \<Rightarrow> mem_state \<Rightarrow> mem_state" where
  "set_heap t f m = m\<lparr>g_thread_heaps := (g_thread_heaps m)(t := f (g_thread_heaps m t))\<rparr>"

definition align_hpage :: "nat \<Rightarrow> nat" where
  "align_hpage n = (n + HPAGE_SIZE - 1) div HPAGE_SIZE * HPAGE_SIZE"

text \<open>
  The commit at the end of \<open>mem_data_grow\<close>, after the protection of the ranges was changed: new page entries, links and bitmap
  words are zero and the new pages are handed to the page allocator as one free run.
\<close>

definition zero_from :: "nat \<Rightarrow> nat \<Rightarrow> 'a \<Rightarrow> (nat \<Rightarrow> 'a) \<Rightarrow> nat \<Rightarrow> 'a" where
  "zero_from a b z f = (\<lambda>i. if a \<le> i \<and> i < b then z else f i)"

definition page_zero :: page_info where
  "page_zero = \<lparr>pg_span = None, pg_span_size = 0, offset_in_span = 0, pg_free = False, buddy_order = 0\<rparr>"

definition data_commit :: "nat \<Rightarrow> thread_heap \<Rightarrow> thread_heap" where
  "data_commit aligned h =
     (let old_pages = data_committed h div LPAGE_SIZE; new_pages = aligned div LPAGE_SIZE;
          old_words = (old_pages + 63) div 64; new_words = (new_pages + 63) div 64;
          b = buddy (ph h);
          b = b\<lparr>pages := zero_from old_pages new_pages page_zero (pages b),
                nodes := zero_from old_pages new_pages \<lparr>bn_next = 0, bn_prev = 0\<rparr> (nodes b), nr_pages := new_pages\<rparr>;
          b = (if old_pages < new_pages then buddy_span_free old_pages (new_pages - old_pages) b else b)
      in h\<lparr>ph := (ph h)\<lparr>buddy := b\<rparr>,
           slot_bits := zero_from (old_pages * SNAP_MODIFIED_SIZE) (new_pages * SNAP_MODIFIED_SIZE) 0 (slot_bits h),
           snap_slot_bits := zero_from (old_pages * SNAP_MODIFIED_SIZE) (new_pages * SNAP_MODIFIED_SIZE) 0 (snap_slot_bits h),
           dirty_bits := zero_from old_words new_words 0 (dirty_bits h),
           snap_dirty_bits := zero_from old_words new_words 0 (snap_dirty_bits h),
           data_committed := aligned, nr_pages_committed := new_pages\<rparr>)"

text \<open>
  The environment of an allocation: what \<open>/proc/meminfo\<close> says at the first and at the second look, and whether all
  \<open>mprotect\<close> calls succeed.
\<close>

record grow_env =
  info1 :: "MemInfo option"
  info2 :: "MemInfo option"
  mprotect_ok :: bool

text \<open>
  \<open>mem_data_grow\<close> for a program state \<open>'s\<close> that holds the memory state: \<open>gt\<close> reads it and \<open>up\<close> changes it.  The
  eviction callback works on the whole program state, since it frees objects of the same heap.
\<close>

definition mem_data_grow ::
  "('s \<Rightarrow> thread_heap) \<Rightarrow> ((thread_heap \<Rightarrow> thread_heap) \<Rightarrow> 's \<Rightarrow> 's) \<Rightarrow> (nat \<Rightarrow> 's \<Rightarrow> nat \<times> 's) option \<Rightarrow>
   grow_env \<Rightarrow> nat \<Rightarrow> 's \<Rightarrow> bool \<times> 's" where
  "mem_data_grow gt up evict env new_committed s =
     (let h = gt s
      in if new_committed \<le> data_committed h then (True, s)
         else if data_reserved h < new_committed then (False, s)
         else if 0 < limit_bytes h \<and> limit_bytes h < linear_committed h + new_committed then (False, s)
         else
           (let aligned = align_hpage new_committed;
                grow_bytes = aligned - data_committed h;
                commit = (\<lambda>s. if mprotect_ok env then (True, up (data_commit aligned) s) else (False, s));
                allowed = mem_barrier_allowed_bytes (info1 env) grow_bytes
            in if grow_bytes \<le> allowed then commit s
               else
                 (case evict of
                    None \<Rightarrow> (False, s)
                  | Some ev \<Rightarrow>
                      (case ev grow_bytes s of
                         (freed, s) \<Rightarrow>
                           if freed < grow_bytes then (False, s)
                           else if mem_barrier_allowed_bytes (info2 env) grow_bytes < grow_bytes then (False, s)
                           else commit s))))"

definition thread_heap_init :: "mem_global_arena \<Rightarrow> nat \<Rightarrow> grow_env \<Rightarrow> thread_heap \<Rightarrow> bool \<times> thread_heap" where
  "thread_heap_init ar t env h =
     (if n_threads ar \<le> t then (False, h)
      else
        (let b = buddy_alloc_init (\<lambda>_. page_zero) (\<lambda>_. \<lparr>bn_next = 0, bn_prev = 0\<rparr>) 0;
             h = \<lparr>ph = \<lparr>buddy = b, spans = spans (ph h), pools = pools (ph h), data_base = thread_data_base ar t\<rparr>,
                  data_reserved = per_thread_data_size ar, data_committed = 0, linear_committed = 0,
                  dirty_bits = (\<lambda>_. 0), snap_dirty_bits = (\<lambda>_. 0), slot_bits = (\<lambda>_. 0), snap_slot_bits = (\<lambda>_. 0),
                  nr_pages_committed = 0, nr_pages_dirty = 0, snap_large_freelist = [], limit_bytes = 0\<rparr>
         in case mem_data_grow id id None env HPAGE_SIZE h of
              (False, h) \<Rightarrow> (False, h)
            | (True, h) \<Rightarrow>
                (True, h\<lparr>ph := (ph h)\<lparr>pools := (\<lambda>p. if p = META then pool_init SPAN_INFO_SIZE else pool_set_init p)\<rparr>\<rparr>)))"

definition mem_limit_set :: "nat \<Rightarrow> nat \<Rightarrow> mem_state \<Rightarrow> mem_state" where
  "mem_limit_set t limit m = (if n_threads (g_mem_arena m) \<le> t then m else set_heap t (\<lambda>h. h\<lparr>limit_bytes := limit\<rparr>) m)"

definition mem_usage_get :: "nat \<Rightarrow> mem_state \<Rightarrow> nat" where
  "mem_usage_get t m =
     (if n_threads (g_mem_arena m) \<le> t then 0
      else data_committed (g_thread_heaps m t) + linear_committed (g_thread_heaps m t))"

section \<open>malloc and free\<close>

definition heap_pool_alloc :: "nat \<Rightarrow> thread_heap \<Rightarrow> nat option \<times> thread_heap" where
  "heap_pool_alloc p h = (case pool_obj_alloc p (ph h) of (r, q) \<Rightarrow> (r, h\<lparr>ph := q\<rparr>))"

definition heap_span_alloc :: "nat \<Rightarrow> thread_heap \<Rightarrow> nat option \<times> thread_heap" where
  "heap_span_alloc n h =
     (case buddy_span_alloc n (buddy (ph h)) of
        (r, b) \<Rightarrow> (map_option (\<lambda>l. data_base (ph h) + l * LPAGE_SIZE) r, h\<lparr>ph := (ph h)\<lparr>buddy := b\<rparr>\<rparr>))"

text \<open>A second try after the data region grew by one huge page; \<open>t\<close> is the calling thread and \<open>threads\<close> the number of heaps.\<close>

definition mem_malloc ::
  "nat \<Rightarrow> nat \<Rightarrow> ('s \<Rightarrow> thread_heap) \<Rightarrow> ((thread_heap \<Rightarrow> thread_heap) \<Rightarrow> 's \<Rightarrow> 's) \<Rightarrow> (nat \<Rightarrow> 's \<Rightarrow> nat \<times> 's) option \<Rightarrow>
   grow_env \<Rightarrow> nat \<Rightarrow> 's \<Rightarrow> nat option \<times> 's" where
  "mem_malloc threads t gt up evict env sz s =
     (if sz = 0 \<or> threads \<le> t then (None, s)
      else
        (let attempt = (if sz \<le> SMALL_ALLOC_MAX \<and> pool_idx_get sz < NR_SMALL_POOLS then heap_pool_alloc (pool_idx_get sz)
                        else heap_span_alloc (((sz + LPAGE_SIZE - 1) div LPAGE_SIZE) mod 2 ^ 32));
             step = (\<lambda>s. case attempt (gt s) of (r, h) \<Rightarrow> (r, up (\<lambda>_. h) s))
         in case step s of
              (Some a, s) \<Rightarrow> (Some a, s)
            | (None, s) \<Rightarrow>
                (case mem_data_grow gt up evict env (data_committed (gt s) + HPAGE_SIZE) s of
                   (True, s) \<Rightarrow> step s
                 | (False, s) \<Rightarrow> (None, s))))"

text \<open>Freeing through the page table of the thread the address belongs to.\<close>

definition mem_free :: "nat \<Rightarrow> mem_state \<Rightarrow> mem_state" where
  "mem_free ptr m =
     (if ptr = 0 then m
      else
        (let t = ptr_thread_id (g_mem_arena m) ptr
         in if n_threads (g_mem_arena m) \<le> t then m
            else
              (let h = g_thread_heaps m t; lpage = ptr_lpage_idx (g_mem_arena m) ptr
               in if nr_pages_committed h \<le> lpage then m
                  else
                    (let pi = pages (buddy (ph h)) lpage
                     in case pg_span pi of
                          Some a \<Rightarrow> set_heap t (\<lambda>h. h\<lparr>ph := pool_obj_free (sp_pool (spans (ph h) a)) a ptr (ph h)\<rparr>) m
                        | None \<Rightarrow>
                            if 0 < pg_span_size pi
                            then set_heap t (\<lambda>h. h\<lparr>ph := (ph h)\<lparr>buddy := buddy_span_free lpage (pg_span_size pi) (buddy (ph h))\<rparr>\<rparr>) m
                            else m))))"

definition mem_snap_free :: "nat \<Rightarrow> mem_state \<Rightarrow> mem_state" where
  "mem_snap_free ptr m =
     (if ptr = 0 then m
      else
        (let t = ptr_thread_id (g_mem_arena m) ptr
         in if n_threads (g_mem_arena m) \<le> t then m
            else
              (let h = g_thread_heaps m t; lpage = ptr_lpage_idx (g_mem_arena m) ptr
               in if nr_pages_committed h \<le> lpage then m
                  else
                    (let pi = pages (buddy (ph h)) lpage
                     in case pg_span pi of
                          Some a \<Rightarrow> set_heap t (\<lambda>h. h\<lparr>ph := pool_snap_defer_free a ptr (ph h)\<rparr>) m
                        | None \<Rightarrow>
                            if 0 < pg_span_size pi
                            then set_heap t (\<lambda>h. h\<lparr>snap_large_freelist := ptr # snap_large_freelist h\<rparr>) m
                            else m))))"

definition mem_alloc_size :: "nat \<Rightarrow> mem_state \<Rightarrow> nat" where
  "mem_alloc_size ptr m =
     (if ptr = 0 then 0
      else
        (let t = ptr_thread_id (g_mem_arena m) ptr
         in if n_threads (g_mem_arena m) \<le> t then 0
            else
              (let h = g_thread_heaps m t; lpage = ptr_lpage_idx (g_mem_arena m) ptr
               in if nr_pages_committed h \<le> lpage then 0
                  else
                    (let pi = pages (buddy (ph h)) lpage
                     in case pg_span pi of
                          Some a \<Rightarrow> obj_size (pools (ph h) (sp_pool (spans (ph h) a)))
                        | None \<Rightarrow> if 0 < pg_span_size pi then pg_span_size pi * LPAGE_SIZE else 0))))"

section \<open>Marks for the snapshot\<close>

text \<open>\<open>snap_obj_mark\<close> of \<open>core/snapshot.c\<close>; an object size of 0 stands for an object with pages of its own.\<close>

definition snap_mark_page :: "nat \<Rightarrow> thread_heap \<Rightarrow> thread_heap" where
  "snap_mark_page lpage h =
     (if dirty_bit_test (dirty_bits h) lpage then h
      else h\<lparr>dirty_bits := dirty_bit_set (dirty_bits h) lpage, nr_pages_dirty := nr_pages_dirty h + 1\<rparr>)"

definition snap_obj_mark :: "nat \<Rightarrow> nat \<Rightarrow> thread_heap \<Rightarrow> thread_heap" where
  "snap_obj_mark ptr sz h =
     (let off = ptr - data_base (ph h); lpage = drop_bit LPAGE_SHIFT off mod 2 ^ 32; pgs = pages (buddy (ph h))
      in if nr_pages_committed h \<le> lpage then h
         else if sz = 0 then
           (let head_lpage = lpage - offset_in_span (pgs lpage); h = snap_mark_page head_lpage h
            in h\<lparr>slot_bits := modified_bit_set (slot_bits h) head_lpage 0\<rparr>)
         else
           (let h = snap_mark_page lpage h
            in case ptr_to_page_slot pgs off sz of
                 Some slot \<Rightarrow> h\<lparr>slot_bits := modified_bit_set (slot_bits h) lpage slot\<rparr>
               | None \<Rightarrow> h))"

definition snap_obj_clear_modified :: "nat \<Rightarrow> nat \<Rightarrow> thread_heap \<Rightarrow> thread_heap" where
  "snap_obj_clear_modified lpage slot h = h\<lparr>slot_bits := modified_bit_clear (slot_bits h) lpage slot\<rparr>"

section \<open>Well-formed heaps\<close>

definition heap_inv :: "thread_heap \<Rightarrow> nat set \<Rightarrow> (nat \<times> nat) set \<Rightarrow> bool" where
  "heap_inv h S R \<longleftrightarrow> pool_inv (ph h) S R \<and> nr_pages (buddy (ph h)) = nr_pages_committed h \<and>
     nr_pages_committed h * LPAGE_SIZE = data_committed h \<and> HPAGE_SIZE dvd data_committed h \<and>
     data_committed h \<le> data_reserved h \<and> data_reserved h \<le> 2 ^ 32 \<and> 0 < data_base (ph h)"

text \<open>The addresses in use: live slots and the starts of large runs.\<close>

definition run_addr :: "thread_heap \<Rightarrow> nat \<times> nat \<Rightarrow> nat" where
  "run_addr h r = data_base (ph h) + fst r * LPAGE_SIZE"

definition heap_live :: "thread_heap \<Rightarrow> nat set \<Rightarrow> (nat \<times> nat) set \<Rightarrow> nat set" where
  "heap_live h S R = live (ph h) S \<union> run_addr h ` R"

lemma heap_invD:
  assumes "heap_inv h S R"
  shows "pool_inv (ph h) S R" "pool_core (ph h) S R" "nr_pages (buddy (ph h)) = nr_pages_committed h" "runs_ok (buddy (ph h)) R"
    "nr_pages_committed h \<le> 2 ^ 20"
  using assms by (simp_all add: heap_inv_def pool_inv_def pool_core_def)

text \<open>Live slots and large runs lie in the committed part of the data region.\<close>

lemma live_page:
  assumes h: "heap_inv h S R" and a: "a \<in> S" "x \<in> slots (ph h) a"
  shows "data_base (ph h) \<le> x" "(x - data_base (ph h)) div LPAGE_SIZE \<in> span_pages (ph h) a" "x - data_base (ph h) < data_committed h"
proof -
  note c = heap_invD(2) [OF h]
  show "data_base (ph h) \<le> x" by (rule slot_page(2) [OF c a, of 0]) (use coreD(3) [OF c a(1)] in \<open>simp add: pool_const_def\<close>)
  have "(x + 0 - data_base (ph h)) div LPAGE_SIZE \<in> span_pages (ph h) a"
    by (rule slot_page(1) [OF c a]) (use coreD(3) [OF c a(1)] in \<open>simp add: pool_const_def\<close>)
  then show pg: "(x - data_base (ph h)) div LPAGE_SIZE \<in> span_pages (ph h) a" by simp
  have "(x - data_base (ph h)) div LPAGE_SIZE < nr_pages_committed h" using span_page_info(3) [OF c a(1) pg] heap_invD(3) [OF h] by simp
  then show "x - data_base (ph h) < data_committed h" using h by (simp add: heap_inv_def LPAGE_SIZE_def div_less_iff_less_mult)
qed

lemma run_page_addr:
  assumes h: "heap_inv h S R" and r: "(i, n) \<in> R"
  shows "run_addr h (i, n) - data_base (ph h) < data_committed h" "(run_addr h (i, n) - data_base (ph h)) div LPAGE_SIZE = i" "0 < n"
    "i < nr_pages_committed h" "n < 2 ^ BUDDY_MAX_ORDER"
proof -
  show n: "0 < n" "n < 2 ^ BUDDY_MAX_ORDER" using heap_invD(4) [OF h] r by (auto simp: runs_ok_def)
  have "i + n \<le> nr_pages_committed h" using heap_invD(3,4) [OF h] r by (auto simp: runs_ok_def)
  then show i: "i < nr_pages_committed h" using n by simp
  then have "i * LPAGE_SIZE < nr_pages_committed h * LPAGE_SIZE" by (simp add: LPAGE_SIZE_def)
  also have "\<dots> = data_committed h" using h by (simp add: heap_inv_def)
  finally show "run_addr h (i, n) - data_base (ph h) < data_committed h" by (simp add: run_addr_def)
  show "(run_addr h (i, n) - data_base (ph h)) div LPAGE_SIZE = i" by (simp add: run_addr_def LPAGE_SIZE_def)
qed

lemma run_inj:
  assumes h: "heap_inv h S R" and r: "(i, n) \<in> R" "(j, m) \<in> R" "run_addr h (i, n) = run_addr h (j, m)"
  shows "(i, n) = (j, m)"
proof -
  have "i = j" using r(3) by (simp add: run_addr_def LPAGE_SIZE_def)
  moreover have "pg_span_size (pages (buddy (ph h)) i) = n" "pg_span_size (pages (buddy (ph h)) j) = m"
    using run_page(3) [OF heap_invD(4) [OF h] r(1), of i] run_page(3) [OF heap_invD(4) [OF h] r(2), of j]
      run_page_addr(3) [OF h r(1)] run_page_addr(3) [OF h r(2)] by simp_all
  ultimately show ?thesis by simp
qed

lemma run_not_live:
  assumes h: "heap_inv h S R" and r: "(i, n) \<in> R"
  shows "run_addr h (i, n) \<notin> live (ph h) S"
proof
  assume "run_addr h (i, n) \<in> live (ph h) S"
  then obtain a where a: "a \<in> S" "run_addr h (i, n) \<in> slots (ph h) a" by (auto simp: live_def live_slots_def)
  have "i \<in> span_pages (ph h) a" using live_page(2) [OF h a] run_page_addr(2) [OF h r] by simp
  moreover have "i \<in> {i..<i + n}" using run_page_addr(3) [OF h r] by simp
  ultimately show False using span_run_disjoint [OF heap_invD(2) [OF h] a(1) r] by blast
qed

lemma heap_live_pos: "heap_inv h S R \<Longrightarrow> x \<in> heap_live h S R \<Longrightarrow> 0 < x"
  using live_page(1) [of h S R] by (auto simp: heap_live_def live_def live_slots_def run_addr_def heap_inv_def) (metis gr_zeroI le_zero_eq)

section \<open>Allocation\<close>

lemma heap_pool_alloc_inv:
  assumes h: "heap_inv h S R" and p: "p < NR_SMALL_POOLS"
  shows "case heap_pool_alloc p h of
      (None, h') \<Rightarrow> heap_inv h' S R \<and> heap_live h' S R = heap_live h S R
    | (Some x, h') \<Rightarrow> \<exists>S'. heap_inv h' S' R \<and> heap_live h' S' R = insert x (heap_live h S R) \<and> x \<notin> heap_live h S R"
proof -
  obtain r q where q: "pool_obj_alloc p (ph h) = (r, q)" by (cases "pool_obj_alloc p (ph h)")
  have pm: "p < META" using p by (simp add: NR_SMALL_POOLS_def META_def)
  note A = obj_alloc_inv [OF heap_invD(1) [OF h] pm, unfolded q]
  define h' where "h' = h\<lparr>ph := q\<rparr>"
  have g: "data_base q = data_base (ph h)" "nr_pages (buddy q) = nr_pages (buddy (ph h))" using A by (auto simp: same_geom_def split: option.splits)
  have keep: "heap_inv h' S' R" if "pool_inv q S' R" for S' using h that g by (simp add: heap_inv_def h'_def)
  have ra: "run_addr h' = run_addr h" by (simp add: fun_eq_iff run_addr_def h'_def g)
  show ?thesis
  proof (cases r)
    case None
    then show ?thesis using A keep by (simp add: heap_pool_alloc_def q heap_live_def ra flip: h'_def) (simp add: h'_def)
  next
    case (Some x)
    obtain S' where S': "S \<subseteq> S'" "pool_inv q S' R" "slot_of q S' p x" "live q S' = insert x (live (ph h) S)" "x \<notin> live (ph h) S"
      using A Some by auto
    have i': "heap_inv h' S' R" by (rule keep [OF S'(2)])
    have "x \<notin> run_addr h ` R"
    proof
      assume "x \<in> run_addr h ` R"
      then obtain i n where r: "(i, n) \<in> R" "x = run_addr h' (i, n)" by (auto simp: ra)
      then show False using run_not_live [OF i' r(1)] S'(4) by (simp add: h'_def)
    qed
    then show ?thesis using Some S' i' by (auto simp: heap_pool_alloc_def q heap_live_def ra simp flip: h'_def intro!: exI [of _ S']) (auto simp: h'_def)
  qed
qed

lemma heap_span_alloc_inv:
  assumes h: "heap_inv h S R"
  shows "case heap_span_alloc n h of
      (None, h') \<Rightarrow> heap_inv h' S R \<and> heap_live h' S R = heap_live h S R
    | (Some x, h') \<Rightarrow> \<exists>R'. heap_inv h' S R' \<and> heap_live h' S R' = insert x (heap_live h S R) \<and> x \<notin> heap_live h S R"
proof -
  obtain r b where b: "buddy_span_alloc n (buddy (ph h)) = (r, b)" by (cases "buddy_span_alloc n (buddy (ph h))")
  show ?thesis
  proof (cases r)
    case None
    then have "b = buddy (ph h)" using span_alloc_none [OF inv_buddy_ok [OF heap_invD(1) [OF h]]] b by simp
    then show ?thesis using h b None by (simp add: heap_span_alloc_def)
  next
    case (Some i)
    note A = run_alloc_inv [OF heap_invD(1) [OF h] b [unfolded Some]]
    define h' where "h' = h\<lparr>ph := (ph h)\<lparr>buddy := b\<rparr>\<rparr>"
    have i': "heap_inv h' S (insert (i, n) R)" using h A(1,5) by (simp add: heap_inv_def h'_def same_geom_def)
    have ra: "run_addr h' = run_addr h" by (simp add: fun_eq_iff run_addr_def h'_def)
    have lv: "live (ph h') S = live (ph h) S" using A(3) by (simp add: h'_def)
    have "run_addr h (i, n) \<notin> live (ph h) S" using run_not_live [OF i', of i n] by (simp add: ra lv)
    moreover have "run_addr h (i, n) \<notin> run_addr h ` R"
    proof
      assume "run_addr h (i, n) \<in> run_addr h ` R"
      then obtain j m where r: "(j, m) \<in> R" "run_addr h' (i, n) = run_addr h' (j, m)" by (auto simp: ra)
      then show False using run_inj [OF i' insertI1 insertI2 [OF r(1)] r(2)] A(2) by simp
    qed
    ultimately show ?thesis using b Some i' lv
      by (auto simp: heap_span_alloc_def heap_live_def ra run_addr_def [of h "(i, n)"] simp flip: h'_def intro!: exI [of _ "insert (i, n) R"])
  qed
qed

section \<open>Growth\<close>

lemma buddy_extend:
  assumes ok: "buddy_ok b" and n: "nr_pages b \<le> n" "n \<le> BUDDY_NIL"
    and old: "\<And>i. i < nr_pages b \<Longrightarrow> pages b' i = pages b i \<and> nodes b' i = nodes b i"
    and new: "\<And>i. nr_pages b \<le> i \<Longrightarrow> i < n \<Longrightarrow> \<not> pg_free (pages b' i)"
    and h: "free_heads b' = free_heads b" "nr_pages b' = n"
  shows "buddy_ok b'" "free_pages b' = free_pages b"
proof -
  obtain F where F: "buddy_inv b F" "covered F = free_pages b" using ok by (auto simp: buddy_ok_def buddy_state_def)
  show fp: "free_pages b' = free_pages b"
  proof (rule set_eqI)
    fix p show "p \<in> free_pages b' \<longleftrightarrow> p \<in> free_pages b"
      using old [of p] new [of p] n(1) h(2) by (cases "p < nr_pages b") (auto simp: free_pages_def)
  qed
  have mem: "i < nr_pages b" if "i \<in> set (F ord)" for i ord
  proof -
    have "i + 2 ^ ord \<le> nr_pages b" using F(1) that by (simp add: buddy_inv_def blocks_ok_def)
    moreover have "(0 :: nat) < 2 ^ ord" by simp
    ultimately show ?thesis by linarith
  qed
  have "blinks (nodes b') BUDDY_NIL (F ord) BUDDY_NIL = blinks (nodes b) BUDDY_NIL (F ord) BUDDY_NIL" for ord
    by (rule blinks_frame) (use old mem in blast)
  then have "lists_linked b' F" using F(1) h(1) by (simp add: buddy_inv_def lists_linked_def)
  moreover have "blocks_ok b' F"
  proof -
    have "i + 2 ^ ord \<le> nr_pages b' \<and> buddy_order (pages b' i) = ord" if "i \<in> set (F ord)" for i ord
      using F(1) that old [OF mem [OF that]] n(1) h(2) by (auto simp: buddy_inv_def blocks_ok_def intro: le_trans)
    then show ?thesis using F(1) n(2) h(2) by (simp add: buddy_inv_def blocks_ok_def)
  qed
  ultimately show "buddy_ok b'" using F(2) fp by (auto simp: buddy_ok_def buddy_state_def buddy_inv_def)
qed

lemma core_extend:
  assumes c: "pool_core h S R" and n: "nr_pages (buddy h) \<le> nr_pages b'" "nr_pages b' \<le> 2 ^ 20" "buddy_ok b'"
    and old: "\<And>i. i < nr_pages (buddy h) \<Longrightarrow> (pages b' i)\<lparr>buddy_order := 0\<rparr> = (pages (buddy h) i)\<lparr>buddy_order := 0\<rparr>"
  shows "pool_core (h\<lparr>buddy := b'\<rparr>) S R"
proof -
  let ?h = "h\<lparr>buddy := b'\<rparr>"
  have sl: "slots ?h a = slots h a" "slot_at ?h a = slot_at h a" "span_pages ?h a = span_pages h a" "span_pool ?h a = span_pool h a" for a
    by (simp_all add: slots_def fun_eq_iff slot_at_def span_pages_def span_pool_def)
  have old': "pg_free (pages b' i) = pg_free (pages (buddy h) i)" "pg_span (pages b' i) = pg_span (pages (buddy h) i)"
    "pg_span_size (pages b' i) = pg_span_size (pages (buddy h) i)" if "i < nr_pages (buddy h)" for i
    using arg_cong [OF old [OF that], of pg_free] arg_cong [OF old [OF that], of pg_span] arg_cong [OF old [OF that], of pg_span_size] by simp_all
  have "span_ok ?h a \<and> anchored ?h S a" if a: "a \<in> S" for a
  proof
    have "\<not> pg_free (pages b' pg) \<and> pg_span (pages b' pg) = Some a" if "pg \<in> span_pages h a" for pg
      using span_page_info [OF c a that] old' by simp
    then show "span_ok ?h a" using coreD(1) [OF c a] n(1) unfolding span_ok_def Let_def sl by auto
    show "anchored ?h S a" using coreD(2) [OF c a] by (simp add: anchored_def sl)
  qed
  moreover have "runs_ok b' R"
  proof -
    have r: "runs_ok (buddy h) R" using c by (simp add: pool_core_def)
    have "pg < nr_pages (buddy h)" if "(i, m) \<in> R" "pg \<in> {i..<i + m}" for i m pg
      by (rule run_page(4) [OF r that])
    then have "pg_free (pages b' pg) = pg_free (pages (buddy h) pg) \<and> pg_span (pages b' pg) = pg_span (pages (buddy h) pg) \<and>
        pg_span_size (pages b' pg) = pg_span_size (pages (buddy h) pg)" if "(i, m) \<in> R" "pg \<in> {i..<i + m}" for i m pg
      using old' that by blast
    then show ?thesis using r n(1) unfolding runs_ok_def by fastforce
  qed
  moreover have "lists_ok ?h S" using c by (simp add: pool_core_def lists_ok_def)
  ultimately show ?thesis using c n by (simp add: pool_core_def)
qed

lemma data_commit_inv:
  assumes h: "heap_inv h S R" and al: "data_committed h < aligned" "HPAGE_SIZE dvd aligned" "aligned \<le> data_reserved h"
  shows "heap_inv (data_commit aligned h) S R" "heap_live (data_commit aligned h) S R = heap_live h S R"
    "free_pages (buddy (ph (data_commit aligned h))) = free_pages (buddy (ph h)) \<union> {nr_pages_committed h..<aligned div LPAGE_SIZE}"
proof -
  define old where "old = data_committed h div LPAGE_SIZE"
  define new where "new = aligned div LPAGE_SIZE"
  let ?b = "buddy (ph h)"
  have lp: "LPAGE_SIZE dvd HPAGE_SIZE" by (simp add: LPAGE_SIZE_def HPAGE_SIZE_def)
  have dv: "LPAGE_SIZE dvd data_committed h" "LPAGE_SIZE dvd aligned" using h al(2) dvd_trans [OF lp] by (simp_all add: heap_inv_def)
  have oe: "old = nr_pages_committed h" using h by (auto simp: old_def heap_inv_def LPAGE_SIZE_def)
  have ne: "new * LPAGE_SIZE = aligned" using dv(2) by (simp add: new_def)
  have on: "old < new" using al(1) dv by (simp add: old_def new_def LPAGE_SIZE_def dvd_div_eq_mult div_less_iff_less_mult)
  have n20: "new \<le> 2 ^ 20"
  proof -
    have "aligned \<le> 2 ^ 32" using al(3) h by (simp add: heap_inv_def)
    then have "aligned div LPAGE_SIZE \<le> 2 ^ 32 div LPAGE_SIZE" by (rule div_le_mono)
    then show ?thesis by (simp add: new_def LPAGE_SIZE_def)
  qed
  define b1 where "b1 = ?b\<lparr>pages := zero_from old new page_zero (pages ?b), nodes := zero_from old new \<lparr>bn_next = 0, bn_prev = 0\<rparr> (nodes ?b), nr_pages := new\<rparr>"
  define b2 where "b2 = buddy_span_free old (new - old) b1"
  have c: "pool_core (ph h) S R" by (rule heap_invD(2) [OF h])
  have nr: "nr_pages ?b = old" using heap_invD(3) [OF h] oe by simp
  have b1: "buddy_ok b1" "free_pages b1 = free_pages ?b"
    by (rule buddy_extend [of ?b new]; use inv_buddy_ok [OF heap_invD(1) [OF h]] nr on n20 in \<open>auto simp: b1_def zero_from_def page_zero_def BUDDY_NIL_def\<close>)+
  have dis: "{old..<old + (new - old)} \<inter> free_pages b1 = {}" unfolding b1(2) using nr by (auto simp: free_pages_def)
  have sm: "new - old < 2 ^ BUDDY_MAX_ORDER" using n20 on by (simp add: BUDDY_MAX_ORDER_def)
  have b1n: "nr_pages b1 = new" by (simp add: b1_def)
  have b2: "buddy_ok b2" "nr_pages b2 = new" "\<And>p. p < old \<Longrightarrow> pages b2 p = pages ?b p" "free_pages b2 = free_pages ?b \<union> {old..<new}"
  proof -
    have A: "buddy_ok b2 \<and> free_pages b2 = free_pages b1 \<union> {old..<old + (new - old)} \<and> nr_pages b2 = new \<and> (\<forall>p. p \<notin> {old..<old + (new - old)} \<longrightarrow> pages b2 p = pages b1 p)"
      using span_free_pages [OF b1(1) _ dis sm] on by (simp add: b2_def b1n)
    then show "buddy_ok b2" "nr_pages b2 = new" "free_pages b2 = free_pages ?b \<union> {old..<new}" using on b1(2) by simp_all
    fix p assume "p < old"
    then show "pages b2 p = pages ?b p" using A by (simp add: b1_def zero_from_def)
  qed
  have run: "ph (data_commit aligned h) = (ph h)\<lparr>buddy := b2\<rparr>" "nr_pages_committed (data_commit aligned h) = new"
    "data_committed (data_commit aligned h) = aligned" "data_reserved (data_commit aligned h) = data_reserved h"
    using on by (simp_all add: data_commit_def Let_def b2_def b1_def old_def new_def)
  show "free_pages (buddy (ph (data_commit aligned h))) = free_pages (buddy (ph h)) \<union> {nr_pages_committed h..<aligned div LPAGE_SIZE}"
    using b2(4) by (simp add: run oe new_def)
  have core: "pool_core ((ph h)\<lparr>buddy := b2\<rparr>) S R" by (rule core_extend [OF c]) (use b2 nr on n20 in simp_all)
  have inv: "pool_inv ((ph h)\<lparr>buddy := b2\<rparr>) S R" using core heap_invD(1) [OF h] by (simp add: pool_inv_def queues_ok_def)
  then show "heap_inv (data_commit aligned h) S R" using h al ne b2(2) by (simp add: heap_inv_def run)
  have "live ((ph h)\<lparr>buddy := b2\<rparr>) S = live (ph h) S" by (simp add: live_def live_slots_def slots_def slot_at_def span_pool_def)
  then show "heap_live (data_commit aligned h) S R = heap_live h S R" by (simp add: heap_live_def run run_addr_def)
qed

section \<open>Updates that change no live address\<close>

definition heap_same :: "thread_heap \<Rightarrow> nat set \<Rightarrow> (nat \<times> nat) set \<Rightarrow> thread_heap \<Rightarrow> nat set \<Rightarrow> (nat \<times> nat) set \<Rightarrow> bool" where
  "heap_same h S R h' S' R' \<longleftrightarrow> heap_inv h' S' R' \<and> heap_live h' S' R' = heap_live h S R \<and> data_base (ph h') = data_base (ph h) \<and>
     data_reserved h' = data_reserved h \<and> data_committed h' = data_committed h \<and> limit_bytes h' = limit_bytes h"

lemma snap_mark_page_simps [simp]:
  "ph (snap_mark_page i h) = ph h" "data_reserved (snap_mark_page i h) = data_reserved h" "data_committed (snap_mark_page i h) = data_committed h"
  "limit_bytes (snap_mark_page i h) = limit_bytes h" "nr_pages_committed (snap_mark_page i h) = nr_pages_committed h"
  by (simp_all add: snap_mark_page_def)

lemma snap_obj_mark_same:
  assumes "heap_inv h S R"
  shows "heap_same h S R (snap_obj_mark a sz h) S R"
proof -
  have "ph (snap_obj_mark a sz h) = ph h" "data_reserved (snap_obj_mark a sz h) = data_reserved h"
    "data_committed (snap_obj_mark a sz h) = data_committed h" "limit_bytes (snap_obj_mark a sz h) = limit_bytes h"
    "nr_pages_committed (snap_obj_mark a sz h) = nr_pages_committed h"
    by (simp_all add: snap_obj_mark_def Let_def split: option.splits)
  then show ?thesis using assms by (simp add: heap_same_def heap_inv_def heap_live_def fun_eq_iff run_addr_def)
qed

lemma reclaim_all_same:
  assumes h: "heap_inv h S R"
  shows "\<exists>S'. heap_same h S R (h\<lparr>ph := pool_span_force_reclaim_all (ph h)\<rparr>) S' R"
proof -
  obtain S' where S': "pool_inv (pool_span_force_reclaim_all (ph h)) S' R" "live (pool_span_force_reclaim_all (ph h)) S' = live (ph h) S"
    "same_geom S' (ph h) (pool_span_force_reclaim_all (ph h))"
    using force_reclaim_inv [OF heap_invD(1) [OF h]] by blast
  then show ?thesis using h
    by (intro exI [of _ S']) (simp add: heap_same_def heap_inv_def heap_live_def run_addr_def same_geom_def)
qed

lemma span_check_same:
  assumes h: "heap_inv h S R"
  shows "\<exists>r b. buddy_span_check n (buddy (ph h)) = Some (r, b) \<and> heap_same h S R (h\<lparr>ph := (ph h)\<lparr>buddy := b\<rparr>\<rparr>) S R"
proof -
  obtain F where F: "buddy_state (buddy (ph h)) F" using inv_buddy_ok [OF heap_invD(1) [OF h]] by (auto simp: buddy_ok_def)
  obtain r b F' where c: "buddy_span_check n (buddy (ph h)) = Some (r, b)" "buddy_state b F'" "order_only UNIV (buddy (ph h)) b"
    using span_check_ok [OF F] by blast
  have nr: "nr_pages b = nr_pages (buddy (ph h))" using c(3) by (simp add: order_only_def)
  have core: "pool_core ((ph h)\<lparr>buddy := b\<rparr>) S R"
    by (rule core_extend [OF heap_invD(2) [OF h]])
      (use nr c heap_invD(3,5) [OF h] in \<open>auto simp: order_only_def buddy_ok_def\<close>)
  then have "pool_inv ((ph h)\<lparr>buddy := b\<rparr>) S R" using heap_invD(1) [OF h] by (simp add: pool_inv_def queues_ok_def)
  moreover have "live ((ph h)\<lparr>buddy := b\<rparr>) S = live (ph h) S" by (simp add: live_def live_slots_def slots_def slot_at_def span_pool_def)
  ultimately have "heap_same h S R (h\<lparr>ph := (ph h)\<lparr>buddy := b\<rparr>\<rparr>) S R"
    using h nr by (simp add: heap_same_def heap_inv_def heap_live_def run_addr_def)
  then show ?thesis using c(1) by blast
qed

text \<open>Live addresses are multiples of eight from the start of the region, so there are fewer than \<open>2 ^ 29\<close>.\<close>

lemma heap_live_eight:
  assumes h: "heap_inv h S R" and x: "x \<in> heap_live h S R"
  shows "\<exists>k < 2 ^ 29. x = data_base (ph h) + 8 * k"
proof -
  note c = heap_invD(2) [OF h]
  have k: "\<exists>k < 2 ^ 29. x = data_base (ph h) + 8 * k" if b: "data_base (ph h) \<le> x" "x - data_base (ph h) < data_committed h" "8 dvd x - data_base (ph h)"
  proof -
    obtain k where k: "x - data_base (ph h) = 8 * k" using b(3) ..
    have "8 * k < 2 ^ 32" using b(2) k h by (simp add: heap_inv_def)
    then show ?thesis using k b(1) by (intro exI [of _ k]) simp
  qed
  consider a where "a \<in> S" "x \<in> slots (ph h) a" | i n where "(i, n) \<in> R" "x = run_addr h (i, n)"
    using x by (auto simp: heap_live_def live_def live_slots_def)
  then show ?thesis
  proof cases
    case 1
    have "8 dvd obj_size (span_pool (ph h) a)" using coreD(3) [OF c 1(1)] by (simp add: pool_const_def)
    then have "8 dvd x - data_base (ph h)" using 1(2) by (auto simp: slots_def slot_at_def LPAGE_SIZE_def intro!: dvd_add)
    then show ?thesis using k live_page(1,3) [OF h 1] by blast
  next
    case 2
    have "8 dvd x - data_base (ph h)" by (simp add: 2 run_addr_def LPAGE_SIZE_def)
    then show ?thesis using k run_page_addr(1) [OF h 2(1)] by (simp add: 2(2)) (simp add: run_addr_def)
  qed
qed

lemma heap_live_card:
  assumes "heap_inv h S R"
  shows "finite (heap_live h S R)" "card (heap_live h S R) \<le> 2 ^ 29"
proof -
  have sub: "heap_live h S R \<subseteq> (\<lambda>k. data_base (ph h) + 8 * k) ` {..<2 ^ 29}" using heap_live_eight [OF assms] by fastforce
  then show "finite (heap_live h S R)" using finite_surj by blast
  have "card (heap_live h S R) \<le> card ((\<lambda>k. data_base (ph h) + 8 * k) ` {..<2 ^ 29 :: nat})" by (rule card_mono [OF _ sub]) simp
  also have "\<dots> \<le> 2 ^ 29" using card_image_le [of "{..<2 ^ 29 :: nat}"] by (metis card_lessThan finite_lessThan)
  finally show "card (heap_live h S R) \<le> 2 ^ 29" .
qed

section \<open>Addresses and free\<close>

definition arena_ok :: "mem_global_arena \<Rightarrow> bool" where
  "arena_ok ar \<longleftrightarrow> per_thread_data_size ar = 2 ^ thread_id_shift ar \<and> thread_id_shift ar \<le> 32 \<and> n_threads ar \<le> 256 \<and>
     0 < ar_data_base ar \<and> ar_data_base ar + n_threads ar * 2 ^ thread_id_shift ar \<le> 2 ^ 64"

definition mem_ok :: "mem_state \<Rightarrow> nat \<Rightarrow> nat set \<Rightarrow> (nat \<times> nat) set \<Rightarrow> bool" where
  "mem_ok m t S R \<longleftrightarrow> arena_ok (g_mem_arena m) \<and> t < n_threads (g_mem_arena m) \<and> heap_inv (g_thread_heaps m t) S R \<and>
     data_base (ph (g_thread_heaps m t)) = thread_data_base (g_mem_arena m) t \<and>
     data_reserved (g_thread_heaps m t) = per_thread_data_size (g_mem_arena m)"

definition mem_live :: "mem_state \<Rightarrow> nat \<Rightarrow> nat set \<Rightarrow> (nat \<times> nat) set \<Rightarrow> nat set" where
  "mem_live m t S R = heap_live (g_thread_heaps m t) S R"

text \<open>Every address of a thread's slice is decoded to its thread and page.\<close>

lemma ptr_decode:
  assumes ar: "arena_ok ar" and t: "t < n_threads ar" and off: "off < 2 ^ thread_id_shift ar"
  shows "ptr_thread_id ar (thread_data_base ar t + off) = t" "ptr_lpage_idx ar (thread_data_base ar t + off) = off div LPAGE_SIZE"
proof -
  let ?k = "thread_id_shift ar" and ?p = "thread_data_base ar t + off"
  have b: "thread_data_base ar t = ar_data_base ar + t * 2 ^ ?k" by (simp add: thread_data_base_def push_bit_eq_mult)
  have "(t + 1) * 2 ^ ?k \<le> n_threads ar * 2 ^ ?k" by (rule mult_le_mono1) (use t in simp)
  then have hi: "t * 2 ^ ?k + off < n_threads ar * 2 ^ ?k" using off by simp
  then have lt: "t * 2 ^ ?k + off < 2 ^ 64" "ar_data_base ar + (t * 2 ^ ?k + off) < 2 ^ 64" using ar by (auto simp: arena_ok_def)
  have e: "?p + 2 ^ 64 - ar_data_base ar = (t * 2 ^ ?k + off) + 2 ^ 64" using b by simp
  have o: "ptr_offset ar ?p = t * 2 ^ ?k + off" unfolding ptr_offset_def e using lt(1) by simp
  have "(t * 2 ^ ?k + off) div 2 ^ ?k = t" using off by simp
  moreover have "t < 2 ^ 32" using t ar by (simp add: arena_ok_def)
  ultimately show id: "ptr_thread_id ar ?p = t" by (simp add: ptr_thread_id_def o drop_bit_eq_div)
  have "off < 2 ^ 32" using off ar power_increasing [of ?k 32 "2 :: nat"] by (simp add: arena_ok_def)
  then show "ptr_lpage_idx ar ?p = off div LPAGE_SIZE"
    by (simp add: ptr_lpage_idx_def id drop_bit_eq_div LPAGE_SHIFT_def LPAGE_SIZE_def)
qed

lemma mem_okD:
  assumes "mem_ok m t S R"
  shows "heap_inv (g_thread_heaps m t) S R" "t < n_threads (g_mem_arena m)" "arena_ok (g_mem_arena m)"
    "data_base (ph (g_thread_heaps m t)) = thread_data_base (g_mem_arena m) t"
    "data_committed (g_thread_heaps m t) \<le> 2 ^ thread_id_shift (g_mem_arena m)"
  using assms by (auto simp: mem_ok_def arena_ok_def heap_inv_def)

lemma live_cases:
  assumes m: "mem_ok m t S R" and x: "x \<in> mem_live m t S R"
  obtains (slot) a where "a \<in> S" "sp_pool (spans (ph (g_thread_heaps m t)) a) \<noteq> META" "x \<in> live_slots (ph (g_thread_heaps m t)) a"
      "pg_span (pages (buddy (ph (g_thread_heaps m t))) (ptr_lpage_idx (g_mem_arena m) x)) = Some a"
      "ptr_thread_id (g_mem_arena m) x = t" "ptr_lpage_idx (g_mem_arena m) x < nr_pages_committed (g_thread_heaps m t)"
  | (run) i n where "(i, n) \<in> R" "x = run_addr (g_thread_heaps m t) (i, n)" "ptr_lpage_idx (g_mem_arena m) x = i"
      "pg_span (pages (buddy (ph (g_thread_heaps m t))) i) = None" "pg_span_size (pages (buddy (ph (g_thread_heaps m t))) i) = n" "0 < n"
      "ptr_thread_id (g_mem_arena m) x = t" "ptr_lpage_idx (g_mem_arena m) x < nr_pages_committed (g_thread_heaps m t)"
proof -
  let ?h = "g_thread_heaps m t" and ?ar = "g_mem_arena m"
  note M = mem_okD [OF m]
  define off where "off = x - data_base (ph ?h)"
  have dec: "ptr_thread_id ?ar x = t \<and> ptr_lpage_idx ?ar x = off div LPAGE_SIZE" if "data_base (ph ?h) \<le> x" "off < data_committed ?h"
  proof -
    have e: "x = thread_data_base ?ar t + off" using that(1) M(4) by (simp add: off_def)
    have "off < 2 ^ thread_id_shift ?ar" using that(2) M(5) by simp
    then show ?thesis using ptr_decode [OF M(3,2)] e by metis
  qed
  consider a where "a \<in> S" "sp_pool (spans (ph ?h) a) \<noteq> META" "x \<in> live_slots (ph ?h) a" | i n where "(i, n) \<in> R" "x = run_addr ?h (i, n)"
    using x by (auto simp: mem_live_def heap_live_def live_def)
  then show thesis
  proof cases
    case 1
    have sl: "x \<in> slots (ph ?h) a" using 1(3) by (simp add: live_slots_def)
    note P = live_page [OF M(1) 1(1) sl, folded off_def]
    note info = span_page_info [OF heap_invD(2) [OF M(1)] 1(1) P(2)]
    show thesis using slot [OF 1] dec [OF P(1,3)] info heap_invD(3) [OF M(1)] by simp
  next
    case 2
    note P = run_page_addr [OF M(1) 2(1), folded 2(2), folded off_def]
    have pg: "i \<in> {i..<i + n}" using P(3) by simp
    have "data_base (ph ?h) \<le> x" by (simp add: 2(2) run_addr_def)
    then show thesis using run [OF 2] dec [OF _ P(1)] P run_page(2,3) [OF heap_invD(4) [OF M(1)] 2(1) pg] by simp
  qed
qed

lemma mem_set_ok:
  assumes "mem_ok m t S R" "heap_inv (f (g_thread_heaps m t)) S' R'"
    "data_base (ph (f (g_thread_heaps m t))) = data_base (ph (g_thread_heaps m t))"
    "data_reserved (f (g_thread_heaps m t)) = data_reserved (g_thread_heaps m t)"
  shows "mem_ok (set_heap t f m) t S' R'" "mem_live (set_heap t f m) t S' R' = heap_live (f (g_thread_heaps m t)) S' R'"
  using assms by (simp_all add: mem_ok_def set_heap_def mem_live_def)

lemma mem_free_ok:
  assumes m: "mem_ok m t S R" and x: "x \<in> mem_live m t S R"
  shows "\<exists>R' \<subseteq> R. mem_ok (mem_free x m) t S R' \<and> mem_live (mem_free x m) t S R' = mem_live m t S R - {x}"
proof -
  let ?h = "g_thread_heaps m t" and ?ar = "g_mem_arena m"
  note M = mem_okD [OF m]
  have x0: "x \<noteq> 0" using heap_live_pos [OF M(1)] x by (auto simp: mem_live_def)
  have lt: "\<not> n_threads ?ar \<le> t" using M(2) by simp
  from m x show ?thesis
  proof (cases rule: live_cases)
    case (slot a)
    define p where "p = sp_pool (spans (ph ?h) a)"
    define f :: "thread_heap \<Rightarrow> thread_heap" where "f = (\<lambda>h. h\<lparr>ph := pool_obj_free (sp_pool (spans (ph h) a)) a x (ph h)\<rparr>)"
    have run: "mem_free x m = set_heap t f m" using slot x0 lt by (simp add: mem_free_def Let_def f_def)
    note F = obj_free_inv [OF heap_invD(1) [OF M(1)] slot(1) refl slot(3)]
    have pm: "p \<noteq> META" using slot(2) by (simp add: p_def)
    have Fi: "pool_inv (ph (f ?h)) S R" "live (ph (f ?h)) S = live (ph ?h) S - {x}" "same_geom S (ph ?h) (ph (f ?h))"
      using F pm by (simp_all add: f_def p_def)
    have fd: "data_base (ph (f ?h)) = data_base (ph ?h)" "nr_pages (buddy (ph (f ?h))) = nr_pages (buddy (ph ?h))"
      using Fi(3) by (simp_all add: same_geom_def)
    have ff: "data_reserved (f ?h) = data_reserved ?h" "data_committed (f ?h) = data_committed ?h" "nr_pages_committed (f ?h) = nr_pages_committed ?h"
      by (simp_all add: f_def)
    have hi: "heap_inv (f ?h) S R" using M(1) Fi(1) fd ff by (simp add: heap_inv_def)
    have "x \<notin> run_addr ?h ` R" using run_not_live [OF M(1)] slot(1-3) by (auto simp: live_def)
    then have "heap_live (f ?h) S R = heap_live ?h S R - {x}" using Fi(2) fd by (auto simp: heap_live_def run_addr_def)
    then show ?thesis using mem_set_ok [where f = f, OF m hi fd(1) ff(1)] run by (intro exI [of _ R]) (simp add: mem_live_def)
  next
    case (run i n)
    define f :: "thread_heap \<Rightarrow> thread_heap" where "f = (\<lambda>h. h\<lparr>ph := (ph h)\<lparr>buddy := buddy_span_free i n (buddy (ph h))\<rparr>\<rparr>)"
    have rn: "mem_free x m = set_heap t f m" using run x0 lt by (simp add: mem_free_def Let_def f_def)
    note F = run_free_inv [OF heap_invD(1) [OF M(1)] run(1)]
    have Fi: "pool_inv (ph (f ?h)) S (R - {(i, n)})" "live (ph (f ?h)) S = live (ph ?h) S" "same_geom S (ph ?h) (ph (f ?h))"
      using F by (simp_all add: f_def)
    have fd: "data_base (ph (f ?h)) = data_base (ph ?h)" "nr_pages (buddy (ph (f ?h))) = nr_pages (buddy (ph ?h))"
      using Fi(3) by (simp_all add: same_geom_def)
    have ff: "data_reserved (f ?h) = data_reserved ?h" "data_committed (f ?h) = data_committed ?h" "nr_pages_committed (f ?h) = nr_pages_committed ?h"
      by (simp_all add: f_def)
    have hi: "heap_inv (f ?h) S (R - {(i, n)})" using M(1) Fi(1) fd ff by (simp add: heap_inv_def)
    have "run_addr ?h ` (R - {(i, n)}) = run_addr ?h ` R - {x}" using run_inj [OF M(1)] run(1,2) by fastforce
    moreover have "x \<notin> live (ph ?h) S" using run_not_live [OF M(1) run(1)] run(2) by simp
    moreover have "run_addr (f ?h) = run_addr ?h" by (simp add: fun_eq_iff run_addr_def fd)
    ultimately have "heap_live (f ?h) S (R - {(i, n)}) = heap_live ?h S R - {x}" using Fi(2) by (auto simp: heap_live_def)
    then show ?thesis using mem_set_ok [where f = f, OF m hi fd(1) ff(1)] rn by (intro exI [of _ "R - {(i, n)}"]) (auto simp: mem_live_def)
  qed
qed

section \<open>Clients of malloc\<close>

text \<open>
  A program state that holds a heap: \<open>gt\<close> reads it, \<open>up\<close> replaces it.  The client's invariant \<open>Inv\<close> survives a heap update that
  loses no live address, and its eviction callback keeps it; \<open>rel\<close> is what the client guarantees about a run of such steps.
\<close>

definition extends :: "thread_heap \<Rightarrow> nat set \<Rightarrow> (nat \<times> nat) set \<Rightarrow> thread_heap \<Rightarrow> nat set \<Rightarrow> (nat \<times> nat) set \<Rightarrow> bool" where
  "extends h S R h' S' R' \<longleftrightarrow> heap_inv h' S' R' \<and> heap_live h S R \<subseteq> heap_live h' S' R' \<and> data_base (ph h') = data_base (ph h) \<and>
     data_reserved h' = data_reserved h \<and> limit_bytes h' = limit_bytes h \<and> linear_committed h' = linear_committed h"

locale malloc_client =
  fixes gt :: "'s \<Rightarrow> thread_heap" and up :: "(thread_heap \<Rightarrow> thread_heap) \<Rightarrow> 's \<Rightarrow> 's"
    and ev :: "(nat \<Rightarrow> 's \<Rightarrow> nat \<times> 's) option"
    and Inv :: "'s \<Rightarrow> nat set \<Rightarrow> (nat \<times> nat) set \<Rightarrow> bool" and rel :: "'s \<Rightarrow> 's \<Rightarrow> bool"
  assumes heap_ok: "Inv s S R \<Longrightarrow> heap_inv (gt s) S R"
    and up_fun: "up f s = up (\<lambda>_. f (gt s)) s"
    and gt_up: "gt (up (\<lambda>_. h) s) = h"
    and up_inv: "Inv s S R \<Longrightarrow> extends (gt s) S R h S' R' \<Longrightarrow> Inv (up (\<lambda>_. h) s) S' R' \<and> rel s (up (\<lambda>_. h) s)"
    and evict_inv: "ev = Some e \<Longrightarrow> Inv s S R \<Longrightarrow> e n s = (k, s') \<Longrightarrow>
      \<exists>S' R'. Inv s' S' R' \<and> rel s s' \<and> data_committed (gt s') = data_committed (gt s) \<and> data_reserved (gt s') = data_reserved (gt s)"
    and rel_refl: "rel s s"
    and rel_trans: "rel a b \<Longrightarrow> rel b c \<Longrightarrow> rel a c"
begin

lemma attempt_ok:
  assumes inv: "Inv s S R" and p: "q = heap_pool_alloc p \<and> p < NR_SMALL_POOLS \<or> q = heap_span_alloc n" and r: "q (gt s) = (r, h)"
  shows "\<exists>S' R'. Inv (up (\<lambda>_. h) s) S' R' \<and> rel s (up (\<lambda>_. h) s) \<and> data_committed h = data_committed (gt s) \<and> data_reserved h = data_reserved (gt s) \<and>
    (case r of None \<Rightarrow> True | Some x \<Rightarrow> x \<notin> heap_live (gt s) S R \<and> heap_live h S' R' = insert x (heap_live (gt s) S R))"
proof -
  note H = heap_ok [OF inv]
  have f: "data_committed h = data_committed (gt s)" "data_reserved h = data_reserved (gt s)" "limit_bytes h = limit_bytes (gt s)"
    "linear_committed h = linear_committed (gt s)"
    using p r by (auto simp: heap_pool_alloc_def heap_span_alloc_def split: prod.splits)
  have base: "data_base (ph h) = data_base (ph (gt s))"
  proof (cases "q = heap_span_alloc n")
    case True
    then show ?thesis using r by (auto simp: heap_span_alloc_def split: prod.splits)
  next
    case False
    then have q: "q = heap_pool_alloc p" "p < META" using p by (auto simp: NR_SMALL_POOLS_def META_def)
    then show ?thesis using r obj_alloc_inv [OF heap_invD(1) [OF H] q(2)]
      by (auto simp: heap_pool_alloc_def same_geom_def split: prod.splits option.splits)
  qed
  have "\<exists>S' R'. heap_inv h S' R' \<and> (case r of None \<Rightarrow> heap_live h S' R' = heap_live (gt s) S R
      | Some x \<Rightarrow> x \<notin> heap_live (gt s) S R \<and> heap_live h S' R' = insert x (heap_live (gt s) S R))"
  proof (cases "q = heap_span_alloc n")
    case True
    then show ?thesis using heap_span_alloc_inv [OF H, of n] r by (cases r) auto
  next
    case False
    then have q: "q = heap_pool_alloc p" "p < NR_SMALL_POOLS" using p by auto
    then show ?thesis using heap_pool_alloc_inv [OF H q(2)] r by (cases r) auto
  qed
  then obtain S' R' where S': "heap_inv h S' R'" "case r of None \<Rightarrow> heap_live h S' R' = heap_live (gt s) S R
      | Some x \<Rightarrow> x \<notin> heap_live (gt s) S R \<and> heap_live h S' R' = insert x (heap_live (gt s) S R)" by blast
  have "extends (gt s) S R h S' R'" using S' base f by (cases r) (auto simp: extends_def)
  then show ?thesis using up_inv [OF inv] S'(2) f by (cases r) (auto intro!: exI [of _ S'] exI [of _ R'])
qed

lemma commit_ok:
  assumes inv: "Inv s S R" and a: "data_committed (gt s) < aligned" "HPAGE_SIZE dvd aligned" "aligned \<le> data_reserved (gt s)"
  shows "Inv (up (data_commit aligned) s) S R \<and> rel s (up (data_commit aligned) s)"
proof -
  note D = data_commit_inv [OF heap_ok [OF inv] a]
  have "extends (gt s) S R (data_commit aligned (gt s)) S R"
    using D by (simp add: extends_def) (simp add: data_commit_def Let_def)
  then show ?thesis using up_inv [OF inv] up_fun [of "data_commit aligned" s] by simp
qed

lemma grow_attempt_ok:
  assumes inv: "Inv s S R" and g: "mem_data_grow gt up ev env (data_committed (gt s) + HPAGE_SIZE) s = (ok, s')"
  shows "\<exists>S' R'. Inv s' S' R' \<and> rel s s'"
proof -
  let ?h = "gt s"
  define n where "n = data_committed ?h + HPAGE_SIZE"
  note H = heap_ok [OF inv]
  have hp: "0 < HPAGE_SIZE" by (simp add: HPAGE_SIZE_def)
  have al: "align_hpage n = n"
  proof -
    have "HPAGE_SIZE dvd n" using H by (simp add: heap_inv_def n_def)
    then obtain k where "n = HPAGE_SIZE * k" ..
    then show ?thesis by (simp add: align_hpage_def HPAGE_SIZE_def)
  qed
  have dv: "HPAGE_SIZE dvd n" using H by (simp add: heap_inv_def n_def)
  have commit: "\<exists>S' R'. Inv s2 S' R' \<and> rel s s2" if i1: "Inv s1 S1 R1" "rel s s1" "data_committed (gt s1) = data_committed ?h" "data_reserved (gt s1) = data_reserved ?h"
    and le: "n \<le> data_reserved ?h" and c: "(if mprotect_ok env then (True, up (data_commit n) s1) else (False, s1)) = (b, s2)" for s1 S1 R1 b s2
  proof (cases "mprotect_ok env")
    case True
    have "Inv (up (data_commit n) s1) S1 R1 \<and> rel s1 (up (data_commit n) s1)"
      by (rule commit_ok [OF i1(1)]) (use i1 le dv hp in \<open>simp_all add: n_def\<close>)
    then show ?thesis using True c rel_trans [OF i1(2)] by auto
  qed (use i1 c in auto)
  consider "s' = s" | "n \<le> data_reserved ?h" "(if mprotect_ok env then (True, up (data_commit n) s) else (False, s)) = (ok, s')"
    | e k s1 where "n \<le> data_reserved ?h" "ev = Some e" "e (n - data_committed ?h) s = (k, s1)" "s' = s1"
    | e k s1 where "n \<le> data_reserved ?h" "ev = Some e" "e (n - data_committed ?h) s = (k, s1)"
        "(if mprotect_ok env then (True, up (data_commit n) s1) else (False, s1)) = (ok, s')"
    using g hp unfolding mem_data_grow_def Let_def n_def [symmetric] al
    by (auto split: if_splits option.splits prod.splits)
  then show ?thesis
  proof cases
    case 1
    then show ?thesis using inv rel_refl by blast
  next
    case 2
    then show ?thesis using commit [OF inv rel_refl refl refl] by blast
  next
    case 3
    then show ?thesis using evict_inv [OF 3(2) inv 3(3)] by blast
  next
    case 4
    obtain S1 R1 where "Inv s1 S1 R1" "rel s s1" "data_committed (gt s1) = data_committed ?h" "data_reserved (gt s1) = data_reserved ?h"
      using evict_inv [OF 4(2) inv 4(3)] by blast
    then show ?thesis by (rule commit [OF _ _ _ _ 4(1,4)])
  qed
qed

lemma malloc_ok:
  assumes inv: "Inv s S R" and m: "mem_malloc nt t gt up ev env sz s = (r, s')"
  shows "\<exists>S' R'. Inv s' S' R' \<and> rel s s' \<and> (case r of None \<Rightarrow> True
    | Some x \<Rightarrow> \<exists>s1 S1 R1 h. Inv s1 S1 R1 \<and> rel s s1 \<and> s' = up (\<lambda>_. h) s1 \<and> x \<notin> heap_live (gt s1) S1 R1 \<and>
        heap_live h S' R' = insert x (heap_live (gt s1) S1 R1))"
proof (cases "sz = 0 \<or> nt \<le> t")
  case True
  then show ?thesis using m inv rel_refl by (auto simp: mem_malloc_def)
next
  case False
  define p where "p = pool_idx_get sz"
  define n where "n = ((sz + LPAGE_SIZE - 1) div LPAGE_SIZE) mod 2 ^ 32"
  define q where "q = (if sz \<le> SMALL_ALLOC_MAX \<and> p < NR_SMALL_POOLS then heap_pool_alloc p else heap_span_alloc n)"
  have qc: "q = heap_pool_alloc p \<and> p < NR_SMALL_POOLS \<or> q = heap_span_alloc n" by (simp add: q_def)
  obtain r1 h1 where s1: "q (gt s) = (r1, h1)" by (cases "q (gt s)")
  define sa where "sa = up (\<lambda>_. h1) s"
  obtain Sa Ra where A: "Inv sa Sa Ra" "rel s sa" "case r1 of None \<Rightarrow> True | Some x \<Rightarrow> x \<notin> heap_live (gt s) S R \<and>
      heap_live h1 Sa Ra = insert x (heap_live (gt s) S R)"
    using attempt_ok [OF inv qc s1] unfolding sa_def by blast
  show ?thesis
  proof (cases r1)
    case (Some x)
    have e: "r = Some x" "s' = up (\<lambda>_. h1) s" using m False s1 Some unfolding mem_malloc_def Let_def q_def p_def n_def by auto
    show ?thesis unfolding e using A Some inv rel_refl [of s] by (intro exI [of _ Sa] exI [of _ Ra]) (simp add: sa_def, blast)
  next
    case None
    obtain ok sb where g: "mem_data_grow gt up ev env (data_committed (gt sa) + HPAGE_SIZE) sa = (ok, sb)" by fastforce
    obtain Sb Rb where B: "Inv sb Sb Rb" "rel sa sb" using grow_attempt_ok [OF A(1) g] by blast
    have rb: "rel s sb" by (rule rel_trans [OF A(2) B(2)])
    obtain r2 h2 where s2: "q (gt sb) = (r2, h2)" by (cases "q (gt sb)")
    have out: "(r, s') = (if ok then (r2, up (\<lambda>_. h2) sb) else (None, sb))"
      using m False s1 s2 g None unfolding mem_malloc_def Let_def q_def [unfolded p_def n_def, symmetric] sa_def by (auto split: bool.splits)
    obtain Sc Rc where C: "Inv (up (\<lambda>_. h2) sb) Sc Rc" "rel sb (up (\<lambda>_. h2) sb)" "case r2 of None \<Rightarrow> True | Some x \<Rightarrow> x \<notin> heap_live (gt sb) Sb Rb \<and>
        heap_live h2 Sc Rc = insert x (heap_live (gt sb) Sb Rb)"
      using attempt_ok [OF B(1) qc s2] by blast
    show ?thesis
    proof (cases ok)
      case True
      then have e: "r = r2" "s' = up (\<lambda>_. h2) sb" using out by simp_all
      show ?thesis using C B(1) rb rel_trans [OF rb C(2)] unfolding e
        by (intro exI [of _ Sc] exI [of _ Rc] conjI) (auto split: option.splits)
    next
      case False
      then show ?thesis using out B rb by auto
    qed
  qed
qed

end

text \<open>Memory without an eviction callback: a thread that calls \<open>mem_malloc\<close> for itself.\<close>

interpretation own_heap: malloc_client id id None heap_inv "\<lambda>h h'. data_base (ph h') = data_base (ph h)"
  by unfold_locales (auto simp: extends_def)

lemma mem_client: "malloc_client (\<lambda>m. g_thread_heaps m t) (set_heap t) None (\<lambda>m S R. mem_ok m t S R \<and> L \<subseteq> mem_live m t S R) (\<lambda>_ _. True)"
  by unfold_locales (auto simp: set_heap_def mem_ok_def extends_def mem_live_def)

section \<open>Initial memory\<close>

lemma empty_heap_inv:
  assumes "0 < d" "rs \<le> 2 ^ 32"
  shows "heap_inv \<lparr>ph = \<lparr>buddy = buddy_alloc_init (\<lambda>_. page_zero) nd 0, spans = sp, pools = init_pools, data_base = d\<rparr>,
    data_reserved = rs, data_committed = 0, linear_committed = lc, dirty_bits = db, snap_dirty_bits = sdb, slot_bits = sb,
    snap_slot_bits = ssb, nr_pages_committed = 0, nr_pages_dirty = nd', snap_large_freelist = fl, limit_bytes = lb\<rparr> {} {}"
proof -
  have "buddy_ok (buddy_alloc_init (\<lambda>_. page_zero) nd 0)" "nr_pages (buddy_alloc_init (\<lambda>_. page_zero) nd 0) = 0"
    by (rule empty_buddy_ok; simp add: page_zero_def)+
  then show ?thesis using init_pool_inv(1) assms by (simp add: heap_inv_def)
qed

lemma thread_heap_init_inv:
  assumes ar: "arena_ok ar" and r: "thread_heap_init ar t env h = (True, h')"
  shows "heap_inv h' {} {}" "t < n_threads ar" "data_base (ph h') = thread_data_base ar t" "data_reserved h' = per_thread_data_size ar"
    "pools (ph h') = init_pools" "free_pages (buddy (ph h')) = {0..<512}"
proof -
  define h0 where "h0 = \<lparr>ph = \<lparr>buddy = buddy_alloc_init (\<lambda>_. page_zero) (\<lambda>_. \<lparr>bn_next = 0, bn_prev = 0\<rparr>) 0, spans = spans (ph h), pools = pools (ph h), data_base = thread_data_base ar t\<rparr>,
    data_reserved = per_thread_data_size ar, data_committed = 0, linear_committed = 0,
    dirty_bits = (\<lambda>_. 0), snap_dirty_bits = (\<lambda>_. 0), slot_bits = (\<lambda>_. 0), snap_slot_bits = (\<lambda>_. 0),
    nr_pages_committed = 0, nr_pages_dirty = 0, snap_large_freelist = [], limit_bytes = 0\<rparr>"
  define h1 where "h1 = h0\<lparr>ph := (ph h0)\<lparr>pools := init_pools\<rparr>\<rparr>"
  define P where "P = (\<lambda>p. if p = META then pool_init SPAN_INFO_SIZE else pool_set_init p)"
  have P: "P = init_pools" by (simp add: P_def fun_eq_iff init_pools_def)
  obtain ok g where g: "mem_data_grow id id None env HPAGE_SIZE h0 = (ok, g)" by fastforce
  have lt: "\<not> n_threads ar \<le> t" using r by (auto simp: thread_heap_init_def)
  then show "t < n_threads ar" by simp
  have ok: "ok" "h' = g\<lparr>ph := (ph g)\<lparr>pools := P\<rparr>\<rparr>"
    using r lt g unfolding thread_heap_init_def Let_def h0_def [symmetric] P_def [symmetric] by (auto split: bool.splits)
  have c0: "data_committed h0 = 0" by (simp add: h0_def)
  have "mem_data_grow id id None env HPAGE_SIZE h0 = (True, g)" using g ok(1) by simp
  then have gc: "g = data_commit (align_hpage HPAGE_SIZE) h0" "HPAGE_SIZE \<le> data_reserved h0"
    unfolding mem_data_grow_def Let_def using c0 by (auto simp: HPAGE_SIZE_def split: if_splits)
  have al: "align_hpage HPAGE_SIZE = HPAGE_SIZE" by (simp add: align_hpage_def HPAGE_SIZE_def)
  have b: "0 < thread_data_base ar t" "per_thread_data_size ar \<le> 2 ^ 32"
    using ar power_increasing [of "thread_id_shift ar" 32 "2 :: nat"] by (auto simp: arena_ok_def thread_data_base_def)
  have i1: "heap_inv h1 {} {}" using empty_heap_inv [OF b] by (simp add: h1_def h0_def)
  have i2: "heap_inv (data_commit HPAGE_SIZE h1) {} {}"
    "free_pages (buddy (ph (data_commit HPAGE_SIZE h1))) = free_pages (buddy (ph h1)) \<union> {nr_pages_committed h1..<HPAGE_SIZE div LPAGE_SIZE}"
    by (rule data_commit_inv(1,3) [OF i1]; use gc(2) in \<open>simp_all add: h1_def h0_def HPAGE_SIZE_def\<close>)+
  have hc: "data_commit HPAGE_SIZE h1 = h'" unfolding ok(2) gc(1) al h1_def P by (simp add: data_commit_def Let_def)
  then show "heap_inv h' {} {}" using i2(1) by simp
  have "free_pages (buddy (ph h1)) = {}" by (simp add: h1_def h0_def free_pages_def buddy_alloc_init_def)
  then show "free_pages (buddy (ph h')) = {0..<512}" using i2(2) hc by (simp add: h1_def h0_def HPAGE_SIZE_def LPAGE_SIZE_def)
  show "pools (ph h') = init_pools" by (simp add: ok(2) P)
  show "data_base (ph h') = thread_data_base ar t" "data_reserved h' = per_thread_data_size ar"
    by (simp_all add: ok(2) gc(1) data_commit_def Let_def h0_def)
qed

text \<open>
  C16: \<open>mem_malloc\<close> and \<open>mem_free\<close> implement a set of live addresses of a thread.  On well-formed memory an
  allocation that succeeds returns an address that is not live and keeps every live address, and every live address is decoded to the thread it
  belongs to and \<open>mem_free\<close> removes exactly it; memory stays well-formed.  The hypotheses on the address ranges hold for
  slices of at most 4 GiB per thread.
\<close>

theorem malloc_free_live:
  assumes ok: "mem_ok m t S R"
  shows "(\<exists>S' R'. mem_ok (snd (mem_malloc nt t (\<lambda>m. g_thread_heaps m t) (set_heap t) None env sz m)) t S' R' \<and>
      mem_live m t S R \<subseteq> mem_live (snd (mem_malloc nt t (\<lambda>m. g_thread_heaps m t) (set_heap t) None env sz m)) t S' R' \<and>
      (\<forall>x. fst (mem_malloc nt t (\<lambda>m. g_thread_heaps m t) (set_heap t) None env sz m) = Some x \<longrightarrow>
         x \<notin> mem_live m t S R \<and> x \<in> mem_live (snd (mem_malloc nt t (\<lambda>m. g_thread_heaps m t) (set_heap t) None env sz m)) t S' R')) \<and>
    (\<forall>x \<in> mem_live m t S R. ptr_thread_id (g_mem_arena m) x = t \<and>
      (\<exists>R'. mem_ok (mem_free x m) t S R' \<and> mem_live (mem_free x m) t S R' = mem_live m t S R - {x}))"
proof (intro conjI ballI)
  define L where "L = mem_live m t S R"
  obtain r m' where r: "mem_malloc nt t (\<lambda>m. g_thread_heaps m t) (set_heap t) None env sz m = (r, m')" by fastforce
  note client = mem_client [of t L]
  have inv: "mem_ok m t S R \<and> L \<subseteq> mem_live m t S R" using ok by (simp add: L_def)
  obtain S' R' where S': "mem_ok m' t S' R'" "L \<subseteq> mem_live m' t S' R'"
    "case r of None \<Rightarrow> True | Some x \<Rightarrow> \<exists>m1 S1 R1 h. (mem_ok m1 t S1 R1 \<and> L \<subseteq> mem_live m1 t S1 R1) \<and> True \<and> m' = set_heap t (\<lambda>_. h) m1 \<and>
       x \<notin> heap_live (g_thread_heaps m1 t) S1 R1 \<and> heap_live h S' R' = insert x (heap_live (g_thread_heaps m1 t) S1 R1)"
    using malloc_client.malloc_ok [OF client inv r] by blast
  have "x \<notin> L \<and> x \<in> mem_live m' t S' R'" if "r = Some x" for x
    using S'(3) that by (auto simp: mem_live_def set_heap_def)
  then show "\<exists>S' R'. mem_ok (snd (mem_malloc nt t (\<lambda>m. g_thread_heaps m t) (set_heap t) None env sz m)) t S' R' \<and>
      mem_live m t S R \<subseteq> mem_live (snd (mem_malloc nt t (\<lambda>m. g_thread_heaps m t) (set_heap t) None env sz m)) t S' R' \<and>
      (\<forall>x. fst (mem_malloc nt t (\<lambda>m. g_thread_heaps m t) (set_heap t) None env sz m) = Some x \<longrightarrow>
         x \<notin> mem_live m t S R \<and> x \<in> mem_live (snd (mem_malloc nt t (\<lambda>m. g_thread_heaps m t) (set_heap t) None env sz m)) t S' R')"
    unfolding r using S'(1,2) by (intro exI [of _ S'] exI [of _ R']) (simp add: L_def)
  fix x assume x: "x \<in> mem_live m t S R"
  from ok x show "ptr_thread_id (g_mem_arena m) x = t" by (cases rule: live_cases)
  show "\<exists>R'. mem_ok (mem_free x m) t S R' \<and> mem_live (mem_free x m) t S R' = mem_live m t S R - {x}" using mem_free_ok [OF ok x] by blast
qed

text \<open>One thread with a slice of 256 MiB and one committed huge page.\<close>

definition sample_arena :: mem_global_arena where
  "sample_arena = \<lparr>ar_data_base = 4096, ar_meta_base = 0, ar_arena_base = 0, per_thread_data_size = 2 ^ 28, per_thread_meta_size = 16777216,
     per_thread_arena_size = ARENA_LINEAR_RESERVE, n_threads = 1, thread_id_shift = 28\<rparr>"

definition calm_env :: grow_env where
  "calm_env = (let i = Some \<lparr>mem_total_kb = 8, mem_available_kb = 8, above_half = True, above_fifth = True, above_twentieth = True\<rparr>
     in \<lparr>info1 = i, info2 = i, mprotect_ok = True\<rparr>)"

definition blank_heap :: thread_heap where
  "blank_heap = \<lparr>ph = sample_heap, data_reserved = 0, data_committed = 0, linear_committed = 0, dirty_bits = (\<lambda>_. 0), snap_dirty_bits = (\<lambda>_. 0),
     slot_bits = (\<lambda>_. 0), snap_slot_bits = (\<lambda>_. 0), nr_pages_committed = 0, nr_pages_dirty = 0, snap_large_freelist = [], limit_bytes = 0\<rparr>"

definition sample_mem :: mem_state where
  "sample_mem = \<lparr>g_mem_arena = sample_arena, g_thread_heaps = (\<lambda>_. snd (thread_heap_init sample_arena 0 calm_env blank_heap))\<rparr>"

lemma sample_arena_ok: "arena_ok sample_arena"
  by (simp add: arena_ok_def sample_arena_def)

lemma sample_init: "fst (thread_heap_init sample_arena 0 calm_env blank_heap)"
  by (simp add: thread_heap_init_def sample_arena_def mem_data_grow_def align_hpage_def HPAGE_SIZE_def mem_barrier_allowed_bytes_def calm_env_def
      pressure_of_def Let_def)

lemma sample_mem_ok:
  "mem_ok sample_mem 0 {} {}" "mem_live sample_mem 0 {} {} = {}" "pools (ph (g_thread_heaps sample_mem 0)) = init_pools"
  "free_pages (buddy (ph (g_thread_heaps sample_mem 0))) = {0..<512}"
proof -
  have r: "thread_heap_init sample_arena 0 calm_env blank_heap = (True, snd (thread_heap_init sample_arena 0 calm_env blank_heap))"
    using sample_init by (cases "thread_heap_init sample_arena 0 calm_env blank_heap") simp
  note I = thread_heap_init_inv [OF sample_arena_ok r]
  show "mem_ok sample_mem 0 {} {}" using I sample_arena_ok by (simp add: mem_ok_def sample_mem_def)
  show "mem_live sample_mem 0 {} {} = {}" by (simp add: mem_live_def heap_live_def live_def)
  show "pools (ph (g_thread_heaps sample_mem 0)) = init_pools" "free_pages (buddy (ph (g_thread_heaps sample_mem 0))) = {0..<512}"
    using I by (simp_all add: sample_mem_def)
qed

lemma pool_idx_64: "pool_idx_get 64 = 4"
  by (simp add: pool_idx_get_def NR_SMALL_POOLS_def POOL_CLASSES_def upt_conv_Cons)

lemma malloc_free_live_witness:
  "\<exists>x m' S' R'. mem_malloc 1 0 (\<lambda>m. g_thread_heaps m 0) (set_heap 0) None calm_env 64 sample_mem = (Some x, m') \<and>
     mem_ok m' 0 S' R' \<and> x \<in> mem_live m' 0 S' R' \<and> ptr_thread_id (g_mem_arena m') x = 0"
proof -
  let ?h = "g_thread_heaps sample_mem 0"
  have "\<exists>x q. pool_obj_alloc 4 (ph ?h) = (Some x, q)"
    by (rule init_alloc_some) (use sample_mem_ok inv_buddy_ok [OF heap_invD(1) [OF mem_okD(1) [OF sample_mem_ok(1)]]] in simp_all)
  then obtain x q where "heap_pool_alloc 4 ?h = (Some x, q)" by (auto simp: heap_pool_alloc_def)
  then have r: "mem_malloc 1 0 (\<lambda>m. g_thread_heaps m 0) (set_heap 0) None calm_env 64 sample_mem = (Some x, set_heap 0 (\<lambda>_. q) sample_mem)"
    by (simp add: mem_malloc_def pool_idx_64 SMALL_ALLOC_MAX_def NR_SMALL_POOLS_def)
  obtain S' R' where S': "mem_ok (set_heap 0 (\<lambda>_. q) sample_mem) 0 S' R'" "x \<in> mem_live (set_heap 0 (\<lambda>_. q) sample_mem) 0 S' R'"
    using malloc_free_live [OF sample_mem_ok(1), of 1 calm_env 64, unfolded r] by auto
  then have "ptr_thread_id (g_mem_arena (set_heap 0 (\<lambda>_. q) sample_mem)) x = 0" using malloc_free_live [OF S'(1)] by blast
  then show ?thesis using r S' by blast
qed

end
