(* ===== verification/Shard.thy ===== *)
theory Shard
  imports Lru Htable Ttl_Index Heap
begin

text \<open>
  Model of the operations of \<open>core/shard.c\<close> on one shard: object life cycle with reference counts and snapshot flags,
  set, get, delete, expire, TTL queries, the active expiry pass, eviction and flush.  The state holds the table, the expiry heap, the
  LRU lists, the object store and the memory of all threads.  Two fields are ghosts: \<open>freed\<close> lists
  the addresses given to \<open>mem_free\<close>, and \<open>dropped\<close> the buckets a rehash step lost.
\<close>

definition LRU_POOLS :: nat where "LRU_POOLS = NR_SMALL_POOLS + 1"
definition KV_OBJ_SIZE :: nat where "KV_OBJ_SIZE = 48"

record shard =
  sh_id :: nat
  table :: hash_table
  ttl_idx :: ttl_index
  lrus :: lru_lists
  store :: objs
  gmem :: mem_state
  freed :: "addr list"
  dropped :: "bucket list"

text \<open>
  The surroundings of one operation: whether snapshots are on and one is being written, the answers of the two bucket
  arenas and of \<open>realloc\<close>, those of the operating system to heap growth, and the bytes that
  follow the data of a new object in its memory block.
\<close>

record shard_env =
  g_snapshot_active :: bool
  is_snapshotting :: bool
  grow_ht :: "nat \<Rightarrow> bool"
  grow_ovf :: "nat \<Rightarrow> bool"
  ttl_realloc :: "nat \<Rightarrow> bool"
  mem_env :: grow_env
  slack :: bytes

definition my_heap :: "shard \<Rightarrow> thread_heap" where
  "my_heap s = g_thread_heaps (gmem s) (sh_id s)"

definition upd_heap :: "(thread_heap \<Rightarrow> thread_heap) \<Rightarrow> shard \<Rightarrow> shard" where
  "upd_heap f s = s\<lparr>gmem := set_heap (sh_id s) f (gmem s)\<rparr>"

definition upd_obj :: "addr \<Rightarrow> (kv_obj \<Rightarrow> kv_obj) \<Rightarrow> shard \<Rightarrow> shard" where
  "upd_obj a f s = s\<lparr>store := (store s)(a := f (store s a))\<rparr>"

definition do_lru :: "(lru_state \<Rightarrow> lru_state) \<Rightarrow> shard \<Rightarrow> shard" where
  "do_lru f s = (case f (lrus s, store s) of (l, mem) \<Rightarrow> s\<lparr>lrus := l, store := mem\<rparr>)"

definition do_free :: "addr \<Rightarrow> shard \<Rightarrow> shard" where
  "do_free a s = s\<lparr>gmem := mem_free a (gmem s), freed := freed s @ [a]\<rparr>"

section \<open>Object life cycle\<close>

definition obj_total :: "kv_obj \<Rightarrow> nat" where
  "obj_total ob = KV_OBJ_SIZE + unat (key_len ob) + unat (val_len ob) + 1"

definition class_size :: "nat \<Rightarrow> nat" where
  "class_size tot = (if tot \<le> SMALL_ALLOC_MAX then POOL_CLASSES ! pool_idx_get tot else 0)"

definition shard_obj_free :: "addr \<Rightarrow> shard \<Rightarrow> shard" where
  "shard_obj_free a s =
     (let s = (if val_len (store s a) = 0 \<and> obj_val_ptr_get (store s a) \<noteq> 0
               then do_free (unat (obj_val_ptr_get (store s a))) s else s)
      in do_free a s)"

definition shard_obj_ref :: "addr \<Rightarrow> shard \<Rightarrow> shard" where
  "shard_obj_ref a s = upd_obj a (\<lambda>ob. ob\<lparr>refcount := refcount ob + 1\<rparr>) s"

definition shard_obj_unref :: "addr \<Rightarrow> shard \<Rightarrow> shard" where
  "shard_obj_unref a s =
     (let last_ref = (refcount (store s a) = 1);
          s = upd_obj a (\<lambda>ob. ob\<lparr>refcount := refcount ob - 1\<rparr>) s
      in if last_ref \<and> marked_deletion (store s a) \<noteq> 0 then shard_obj_free a s else s)"

text \<open>Whether the snapshot thread still has the slot of the object in its frozen bitmaps.\<close>

definition snap_will_visit :: "shard_env \<Rightarrow> addr \<Rightarrow> nat \<Rightarrow> shard \<Rightarrow> bool" where
  "snap_will_visit env a sz s \<longleftrightarrow>
     is_snapshotting env \<and>
     (let h = my_heap s; lpage = ptr_lpage_idx (g_mem_arena (gmem s)) a
      in lpage < nr_pages_committed h \<and> dirty_bit_test (snap_dirty_bits h) lpage \<and>
         (case (if 0 < sz then ptr_to_page_slot (pages (buddy (ph h))) (a - data_base (ph h)) sz else Some 0) of
            None \<Rightarrow> False
          | Some slot \<Rightarrow> modified_bit_test (snap_slot_bits h) lpage slot))"

definition snap_flag_dead :: "bool \<Rightarrow> kv_obj \<Rightarrow> kv_obj" where
  "snap_flag_dead will_visit ob =
     (if will_visit \<and> snap_flag ob = SNAP_FLAG_LIVE_FRESH then ob\<lparr>snap_flag := SNAP_FLAG_DEAD_PENDING\<rparr>
      else ob\<lparr>snap_flag := SNAP_FLAG_DEAD_SAFE\<rparr>)"

definition snap_part :: "shard_env \<Rightarrow> addr \<Rightarrow> shard \<Rightarrow> shard" where
  "snap_part env a s =
     (if g_snapshot_active env then
        (let sz = class_size (obj_total (store s a));
             s = upd_heap (snap_obj_mark a sz) s
         in upd_obj a (snap_flag_dead (snap_will_visit env a sz s)) s)
      else s)"

definition ttl_forget :: "addr \<Rightarrow> shard \<Rightarrow> shard" where
  "ttl_forget a s =
     (if heap_idx (store s a) \<noteq> HEAP_IDX_NONE then
        (case ttl_index_node_remove (ttl_idx s) (store s) a of (idx, mem) \<Rightarrow> s\<lparr>ttl_idx := idx, store := mem\<rparr>)
      else s)"

definition shard_obj_destroy :: "shard_env \<Rightarrow> addr \<Rightarrow> shard \<Rightarrow> shard" where
  "shard_obj_destroy env a s =
     (if a = 0 then s
      else
        (let s = upd_obj a (\<lambda>ob. ob\<lparr>marked_deletion := 1\<rparr>) s;
             s = snap_part env a s;
             s = do_lru (lru_node_remove a) s;
             s = ttl_forget a s
         in shard_obj_unref a s))"

section \<open>Eviction\<close>

definition evict_victim :: "nat \<Rightarrow> shard \<Rightarrow> addr option" where
  "evict_victim target s =
     (case lru_tail (lrus s) target of
        Some v \<Rightarrow> Some v
      | None \<Rightarrow>
          (case find (\<lambda>p. lru_tail (lrus s) p \<noteq> None) (rev [0..<LRU_POOLS]) of
             Some p \<Rightarrow> lru_tail (lrus s) p
           | None \<Rightarrow> None))"

text \<open>One round of at most \<open>n\<close> victims; the first component counts the evicted entries.\<close>

fun evict_batch :: "nat \<Rightarrow> shard_env \<Rightarrow> nat \<Rightarrow> shard \<Rightarrow> nat \<times> shard" where
  "evict_batch 0 env target s = (0, s)"
| "evict_batch (Suc n) env target s =
     (case evict_victim target s of
        None \<Rightarrow> (0, s)
      | Some v \<Rightarrow>
          (case ht_bucket_take_if_unlocked (store s) (table s) (obj_key_get (store s v)) VAL_TYPE_STRING v of
             (Some taken, _, ht) \<Rightarrow>
               (case evict_batch n env target (shard_obj_destroy env taken (s\<lparr>table := ht\<rparr>)) of (k, s) \<Rightarrow> (Suc k, s))
           | (None, True, ht) \<Rightarrow> evict_batch n env target (do_lru (lru_node_prepend v) (s\<lparr>table := ht\<rparr>))
           | (None, False, ht) \<Rightarrow> evict_batch n env target (do_lru (lru_node_remove v) (s\<lparr>table := ht\<rparr>))))"

definition upd_pools :: "(pool_heap \<Rightarrow> pool_heap) \<Rightarrow> shard \<Rightarrow> shard" where
  "upd_pools f s = upd_heap (\<lambda>h. h\<lparr>ph := f (ph h)\<rparr>) s"

definition soft_ok :: "nat \<Rightarrow> shard \<Rightarrow> bool" where
  "soft_ok size_req s \<longleftrightarrow>
     limit_bytes (my_heap s) = 0 \<or> mem_usage_get (sh_id s) (gmem s) + size_req \<le> limit_bytes (my_heap s)"

text \<open>\<open>need == 0 || buddy_span_check(need)\<close>; the check may coalesce free blocks.\<close>

definition hard_ok :: "nat \<Rightarrow> shard \<Rightarrow> (bool \<times> shard) option" where
  "hard_ok need s =
     (if need = 0 then Some (True, s)
      else map_option (\<lambda>(ok, b). (ok, upd_pools (\<lambda>q. q\<lparr>buddy := b\<rparr>) s)) (buddy_span_check need (buddy (ph (my_heap s)))))"

definition has_spans :: "nat \<Rightarrow> shard \<Rightarrow> bool" where
  "has_spans p s \<longleftrightarrow> partial_spans (pools (ph (my_heap s)) p) \<noteq> [] \<or> empty_spans (pools (ph (my_heap s)) p) \<noteq> []"

text \<open>The outer loop: every round but the last evicts an entry, so the number of entries bounds the rounds.\<close>

fun evict_loop :: "nat \<Rightarrow> shard_env \<Rightarrow> nat \<Rightarrow> nat \<Rightarrow> nat \<Rightarrow> nat \<Rightarrow> shard \<Rightarrow> (bool \<times> shard) option" where
  "evict_loop 0 env target size_req need tot s = None"
| "evict_loop (Suc fuel) env target size_req need tot s =
     (case evict_batch 100 env target s of
        (n, s) \<Rightarrow>
          if n = 0 then Some (False, s)
          else if size_req = 0 then Some (True, s)
          else
            (let (tot, s) = (if 200 \<le> tot + n then (0, upd_pools pool_span_force_reclaim_all s) else (tot + n, s));
                 need = (if size_req \<le> SMALL_ALLOC_MAX \<and> has_spans target s then 0 else need)
             in case hard_ok need s of
                  None \<Rightarrow> None
                | Some (hard, s) \<Rightarrow>
                    if soft_ok size_req s \<and> hard then Some (True, s)
                    else if used (table s) = 0 then Some (False, s)
                    else evict_loop fuel env target size_req need tot s))"

definition shard_mem_evict :: "nat \<Rightarrow> shard_env \<Rightarrow> nat \<Rightarrow> shard \<Rightarrow> (bool \<times> shard) option" where
  "shard_mem_evict fuel env size_req s =
     (let target = (if size_req = 0 then NR_SMALL_POOLS else if size_req \<le> SMALL_ALLOC_MAX then pool_idx_get size_req else NR_SMALL_POOLS);
          need = (if size_req = 0 then 0
                  else if size_req \<le> SMALL_ALLOC_MAX then (if has_spans target s then 0 else lpages_per_span (pools (ph (my_heap s)) target))
                  else ((size_req + LPAGE_SIZE - 1) div LPAGE_SIZE) mod 2 ^ 32);
          s = upd_pools pool_span_force_reclaim_all s
      in case hard_ok need s of
           None \<Rightarrow> None
         | Some (hard, s) \<Rightarrow>
             if size_req \<noteq> 0 \<and> soft_ok size_req s \<and> hard then Some (True, s)
             else evict_loop fuel env target size_req need 0 s)"

text \<open>The number of entries of the table bounds the rounds.\<close>

definition evict_fuel :: "shard \<Rightarrow> nat" where
  "evict_fuel s = length (concat (buckets (table s))) + 1"

definition evict_now :: "shard_env \<Rightarrow> nat \<Rightarrow> shard \<Rightarrow> bool \<times> shard" where
  "evict_now env size_req s = (case shard_mem_evict (evict_fuel s) env size_req s of Some r \<Rightarrow> r | None \<Rightarrow> (False, s))"

definition shard_evict_callback :: "shard_env \<Rightarrow> nat \<Rightarrow> shard \<Rightarrow> nat \<times> shard" where
  "shard_evict_callback env bytes_needed s =
     (case evict_now env bytes_needed s of (ok, s) \<Rightarrow> (if ok then bytes_needed else 0, s))"

definition shard_malloc :: "shard_env \<Rightarrow> nat \<Rightarrow> shard \<Rightarrow> addr option \<times> shard" where
  "shard_malloc env sz s =
     mem_malloc (n_threads (g_mem_arena (gmem s))) (sh_id s) my_heap upd_heap (Some (shard_evict_callback env)) (mem_env env) sz s"

section \<open>Key operations\<close>

definition table_put :: "shard_env \<Rightarrow> addr \<Rightarrow> val_type \<Rightarrow> u64 \<Rightarrow> u32 \<Rightarrow> shard \<Rightarrow> put_result \<times> shard" where
  "table_put env ob type expire flags s =
     (case ht_bucket_put (store s) (grow_ht env) (grow_ovf env) (table s) ob type expire flags of
        (r, ht, lost) \<Rightarrow> (r, s\<lparr>table := ht, dropped := dropped s @ lost\<rparr>))"

definition shard_bucket_put :: "shard_env \<Rightarrow> addr \<Rightarrow> val_type \<Rightarrow> u64 \<Rightarrow> u32 \<Rightarrow> shard \<Rightarrow> put_result \<times> shard" where
  "shard_bucket_put env ob type expire flags s =
     (case table_put env ob type expire flags s of
        (Put_Full, s) \<Rightarrow>
          (case evict_now env 0 s of
             (True, s) \<Rightarrow> table_put env ob type expire flags s
           | (False, s) \<Rightarrow> (Put_Full, s))
      | r \<Rightarrow> r)"

definition ttl_push :: "shard_env \<Rightarrow> addr \<Rightarrow> u64 \<Rightarrow> shard \<Rightarrow> shard" where
  "ttl_push env a expire s =
     (case ttl_index_node_push (ttl_realloc env) (ttl_idx s) (store s) a expire of
        (_, idx, mem) \<Rightarrow> s\<lparr>ttl_idx := idx, store := mem\<rparr>)"

text \<open>The initialisation of a new object; lengths are truncated to their fields.\<close>

definition new_kv_obj :: "shard_env \<Rightarrow> nat \<Rightarrow> bytes \<Rightarrow> bytes \<Rightarrow> u64 \<Rightarrow> kv_obj" where
  "new_kv_obj env tot key val expire =
     \<lparr>heap_idx = HEAP_IDX_NONE,
      pool_idx = (if tot \<le> SMALL_ALLOC_MAX then of_nat (pool_idx_get tot) else of_nat NR_SMALL_POOLS),
      lru_prev = None, lru_next = None, refcount = (if g_snapshot_active env then 2 else 1), val_len = of_nat (length val),
      expire_ms = expire, key_len = of_nat (length key), marked_deletion = 0, snap_flag = SNAP_FLAG_LIVE_FRESH,
      data = key @ val @ [0] @ slack env\<rparr>"

definition shard_key_set :: "shard_env \<Rightarrow> bytes \<Rightarrow> bytes \<Rightarrow> u64 \<Rightarrow> u32 \<Rightarrow> shard \<Rightarrow> bool \<times> shard" where
  "shard_key_set env key val expire put_flags s =
     (let present = (ht_bucket_get (store s) (table s) key VAL_TYPE_STRING 0 \<noteq> None)
      in if put_flags AND HT_PUT_NX \<noteq> 0 \<and> present then (False, s)
         else if put_flags AND HT_PUT_NX = 0 \<and> put_flags AND HT_PUT_XX \<noteq> 0 \<and> \<not> present then (False, s)
         else
           (let tot = KV_OBJ_SIZE + length key + length val + 1
            in case shard_malloc env tot s of
                 (None, s) \<Rightarrow> (False, s)
               | (Some ob, s) \<Rightarrow>
                   (let s = upd_obj ob (\<lambda>_. new_kv_obj env tot key val expire) s;
                        s = (if g_snapshot_active env then upd_heap (snap_obj_mark ob (class_size tot)) s else s)
                    in case shard_bucket_put env ob VAL_TYPE_STRING expire HT_PUT_NONE s of
                         (Put_Full, s) \<Rightarrow> (False, shard_obj_destroy env ob s)
                       | (r, s) \<Rightarrow>
                           (let s = do_lru (lru_node_prepend ob) s;
                                s = (case r of Put_Old old \<Rightarrow> shard_obj_destroy env old s | _ \<Rightarrow> s);
                                s = (if 0 < expire then ttl_push env ob expire s else s)
                            in (True, s)))))"

definition shard_key_get :: "shard_env \<Rightarrow> bytes \<Rightarrow> u64 \<Rightarrow> shard \<Rightarrow> addr option \<times> shard" where
  "shard_key_get env key now s =
     (case ht_bucket_get_lazy (store s) (table s) key VAL_TYPE_STRING now of
        (v, expired, ht) \<Rightarrow>
          (let s = s\<lparr>table := ht\<rparr>;
               s = (case v of Some a \<Rightarrow> do_lru (lru_node_touch a) s | None \<Rightarrow> s);
               s = (case expired of Some a \<Rightarrow> shard_obj_destroy env a s | None \<Rightarrow> s)
           in (v, s)))"

definition shard_key_delete :: "shard_env \<Rightarrow> bytes \<Rightarrow> shard \<Rightarrow> bool \<times> shard" where
  "shard_key_delete env key s =
     (case ht_bucket_take (store s) (table s) key VAL_TYPE_STRING of
        (None, ht) \<Rightarrow> (False, s\<lparr>table := ht\<rparr>)
      | (Some a, ht) \<Rightarrow> (True, shard_obj_destroy env a (s\<lparr>table := ht\<rparr>)))"

text \<open>\<open>None\<close>: the flush of the table read past its bucket array.\<close>

definition shard_table_flush :: "shard \<Rightarrow> shard option" where
  "shard_table_flush s =
     (case ht_table_flush (table s) of
        None \<Rightarrow> None
      | Some (obs, ht) \<Rightarrow>
          Some ((fold do_free obs s)\<lparr>table := ht, ttl_idx := ttl_index_init,
            lrus := \<lparr>lru_head = (\<lambda>p. if p < LRU_POOLS then None else lru_head (lrus s) p),
                     lru_tail = (\<lambda>p. if p < LRU_POOLS then None else lru_tail (lrus s) p)\<rparr>\<rparr>))"

definition shard_key_expire :: "shard_env \<Rightarrow> bytes \<Rightarrow> u64 \<Rightarrow> shard \<Rightarrow> bool \<times> shard" where
  "shard_key_expire env key expire s =
     (let current_expire = ht_expire_get (store s) (table s) key VAL_TYPE_STRING
      in if current_expire = - 1 then (False, s)
         else if expire = 0 \<and> current_expire = 0 then (False, s)
         else
           (case ht_bucket_get (store s) (table s) key VAL_TYPE_STRING 0 of
              None \<Rightarrow> (False, s)
            | Some a \<Rightarrow>
                (let (_, s) = shard_bucket_put env a VAL_TYPE_STRING expire HT_PUT_NONE s
                 in (True,
                     if 0 < expire then
                       (if heap_idx (store s a) = HEAP_IDX_NONE then ttl_push env a expire s
                        else (case ttl_index_node_update (ttl_idx s) (store s) a expire of
                                (idx, mem) \<Rightarrow> s\<lparr>ttl_idx := idx, store := mem\<rparr>))
                     else ttl_forget a s))))"

definition shard_key_ttl :: "bytes \<Rightarrow> u64 \<Rightarrow> bool \<Rightarrow> shard \<Rightarrow> int" where
  "shard_key_ttl key cur_ms ms s =
     (let ex = ht_expire_get (store s) (table s) key VAL_TYPE_STRING
      in if ex = - 1 then - 2
         else if ex = 0 then - 1
         else if ex \<le> cur_ms then 0
         else (let diff = ex - cur_ms in if ms then sint diff else sint ((diff + 999) div 1000)))"

definition shard_key_expire_get :: "bytes \<Rightarrow> shard \<Rightarrow> u64" where
  "shard_key_expire_get key s = ht_expire_get (store s) (table s) key VAL_TYPE_STRING"

definition shard_obj_put :: "shard_env \<Rightarrow> addr \<Rightarrow> val_type \<Rightarrow> u64 \<Rightarrow> shard \<Rightarrow> put_result \<times> shard" where
  "shard_obj_put env a type expire s =
     (let s = upd_obj a (\<lambda>ob. ob\<lparr>expire_ms := (if expire = - 1 then 0 else expire)\<rparr>) s;
          s = do_lru (lru_node_touch a) s
      in shard_bucket_put env a type expire HT_PUT_NONE s)"

text \<open>The active expiry pass, at most \<open>max_work\<close> nodes; the first component counts the expired entries.\<close>

fun shard_ttl_drain :: "nat \<Rightarrow> shard_env \<Rightarrow> u64 \<Rightarrow> shard \<Rightarrow> nat \<times> shard" where
  "shard_ttl_drain 0 env now s = (0, s)"
| "shard_ttl_drain (Suc max_work) env now s =
     (if now < ttl_index_node_peek (ttl_idx s) then (0, s)
      else
        (case ttl_index_node_pop (ttl_idx s) (store s) of
           (None, idx, mem) \<Rightarrow> (0, s\<lparr>ttl_idx := idx, store := mem\<rparr>)
         | (Some (expire, a), idx, mem) \<Rightarrow>
             (let s = s\<lparr>ttl_idx := idx, store := mem\<rparr>
              in case ht_bucket_take_if_unlocked (store s) (table s) (obj_key_get (store s a)) VAL_TYPE_STRING a of
                   (_, True, ht) \<Rightarrow> shard_ttl_drain max_work env now (ttl_push env a expire (s\<lparr>table := ht\<rparr>))
                 | (Some taken, False, ht) \<Rightarrow>
                     (case shard_ttl_drain max_work env now (shard_obj_destroy env taken (s\<lparr>table := ht\<rparr>)) of (k, s) \<Rightarrow> (Suc k, s))
                 | (None, False, ht) \<Rightarrow> shard_ttl_drain max_work env now (s\<lparr>table := ht\<rparr>))))"

end
