(* ===== verification/Shard_Inv.thy ===== *)
theory Shard_Inv
  imports Shard
begin

text \<open>
  The invariant of a shard, which ties its table, expiry index, LRU lists and heap together, and its preservation by the
  operations of theory \<open>Shard\<close>: an object that the table, the index or a list mentions is live in the heap, and
  the operations act on the map from keys to values and expiry times.
\<close>

section \<open>What the structures read of an object\<close>

definition payload :: "kv_obj \<Rightarrow> u16 \<times> u32 \<times> bytes \<times> u32" where
  "payload ob = (key_len ob, val_len ob, data ob, pool_idx ob)"

definition lnk :: "kv_obj \<Rightarrow> addr option \<times> addr option" where
  "lnk ob = (lru_prev ob, lru_next ob)"

lemma payload_fields:
  assumes "payload x = payload y"
  shows "key_len x = key_len y" "val_len x = val_len y" "data x = data y" "pool_idx x = pool_idx y"
    "obj_key_get x = obj_key_get y" "obj_val_get x = obj_val_get y" "obj_wf x = obj_wf y" "obj_val_ptr_get x = obj_val_ptr_get y"
  using assms by (simp_all add: payload_def obj_key_get_def obj_val_get_def obj_wf_def obj_val_ptr_get_def)

lemma payload_upd [simp]:
  "payload (ob\<lparr>refcount := r\<rparr>) = payload ob" "payload (ob\<lparr>marked_deletion := m\<rparr>) = payload ob" "payload (ob\<lparr>snap_flag := f\<rparr>) = payload ob"
  "payload (ob\<lparr>heap_idx := i\<rparr>) = payload ob" "payload (ob\<lparr>expire_ms := e\<rparr>) = payload ob" "payload (snap_flag_dead w ob) = payload ob"
  "lnk (ob\<lparr>refcount := r\<rparr>) = lnk ob" "lnk (ob\<lparr>marked_deletion := m\<rparr>) = lnk ob" "lnk (ob\<lparr>snap_flag := f\<rparr>) = lnk ob"
  "lnk (ob\<lparr>heap_idx := i\<rparr>) = lnk ob" "lnk (ob\<lparr>expire_ms := e\<rparr>) = lnk ob" "lnk (snap_flag_dead w ob) = lnk ob"
  "heap_idx (snap_flag_dead w ob) = heap_idx ob"
  by (simp_all add: payload_def lnk_def snap_flag_dead_def)

lemma erase_links_keep:
  assumes e: "erase_links x = erase_links y"
  shows "payload x = payload y" "heap_idx x = heap_idx y" "refcount x = refcount y"
proof -
  have "payload (erase_links z) = payload z" "heap_idx (erase_links z) = heap_idx z" "refcount (erase_links z) = refcount z" for z
    by (simp_all add: erase_links_def payload_def)
  then show "payload x = payload y" "heap_idx x = heap_idx y" "refcount x = refcount y" using e by metis+
qed

lemma idx_frame_keep:
  assumes "idx_frame A mem mem'"
  shows "payload (mem' x) = payload (mem x)" "lnk (mem' x) = lnk (mem x)" "refcount (mem' x) = refcount (mem x)"
proof -
  have e: "(mem' x)\<lparr>heap_idx := 0\<rparr> = (mem x)\<lparr>heap_idx := 0\<rparr>" using assms by (simp add: idx_frame_def)
  show "payload (mem' x) = payload (mem x)" using arg_cong [OF e, of payload] by simp
  show "lnk (mem' x) = lnk (mem x)" using arg_cong [OF e, of lnk] by simp
  show "refcount (mem' x) = refcount (mem x)" using arg_cong [OF e, of refcount] by simp
qed

lemma ht_payload:
  assumes "\<And>b. b \<in> set (ht_entries ht) \<Longrightarrow> payload (mem' (b_obj b)) = payload (mem (b_obj b))"
  shows "ht_inv mem' ht = ht_inv mem ht" "ht_abs mem' ht = ht_abs mem ht"
proof -
  have k: "bkey mem' b = bkey mem b" "bucket_ok mem' b = bucket_ok mem b" if "b \<in> set (ht_entries ht)" for b
    using payload_fields [OF assms [OF that]] by (simp_all add: bkey_def bucket_ok_def)
  have "b \<in> set (ht_entries ht)" if "i < length (buckets ht)" "b \<in> set (buckets ht ! i)" for i b
    using that by (auto simp: set_ht_entries)
  then have sl: "ht_slots mem' ht r = ht_slots mem ht r" for r using k(2) by (auto simp: ht_slots_def)
  have m: "map (bkey mem') (ht_entries ht) = map (bkey mem) (ht_entries ht)" using k(1) by simp
  show "ht_inv mem' ht = ht_inv mem ht" unfolding ht_inv_def sl m ..
  have "map (\<lambda>b. (bkey mem' b, b)) (ht_entries ht) = map (\<lambda>b. (bkey mem b, b)) (ht_entries ht)" using k(1) by simp
  then show "ht_abs mem' ht = ht_abs mem ht" by (simp only: ht_abs_def)
qed

lemma lru_ok_cong:
  assumes "\<And>p x. x \<in> set (X p) \<Longrightarrow> lnk (mem' x) = lnk (mem x) \<and> pool_idx (mem' x) = pool_idx (mem x)"
  shows "lru_ok (l, mem') X = lru_ok (l, mem) X"
proof -
  have "links mem' None (X p) None = links mem None (X p) None" for p
    by (rule links_frame) (use assms in \<open>simp add: lnk_def\<close>)
  then show ?thesis using assms by (simp add: lru_ok_def dll_def lru_pool_def)
qed

lemma ttl_inv_cong:
  assumes "\<And>x. x \<in> ttl_objs idx \<Longrightarrow> heap_idx (mem' x) = heap_idx (mem x)"
  shows "ttl_inv idx mem' = ttl_inv idx mem"
  using assms by (simp add: ttl_inv_def idx_ok_def ttl_objs_def)

section \<open>The invariant\<close>

definition entry_objs :: "hash_table \<Rightarrow> addr set" where
  "entry_objs ht = b_obj ` set (ht_entries ht)"

definition listed :: "(nat \<Rightarrow> addr list) \<Rightarrow> addr set" where
  "listed X = (\<Union>p. set (X p))"

definition obj_ok :: "kv_obj \<Rightarrow> bool" where
  "obj_ok ob \<longleftrightarrow> unat (pool_idx ob) < LRU_POOLS \<and> (val_len ob = 0 \<longrightarrow> obj_val_ptr_get ob = 0) \<and>
     unat (key_len ob) + unat (val_len ob) \<le> length (data ob)"

lemma obj_ok_payload: "payload x = payload y \<Longrightarrow> obj_ok x = obj_ok y"
  by (frule payload_fields(1), frule payload_fields(2), frule payload_fields(3), frule payload_fields(4), drule payload_fields(8)) (simp add: obj_ok_def)

text \<open>
  \<open>T\<close> are the objects in the hands of the shard.  Everything the table, the lists and the index mention is among them, and
  they are live in the shard's heap.
\<close>

definition sh_inv :: "shard \<Rightarrow> (nat \<Rightarrow> addr list) \<Rightarrow> nat set \<Rightarrow> (nat \<times> nat) set \<Rightarrow> addr set \<Rightarrow> bool" where
  "sh_inv s X S R T \<longleftrightarrow>
     ht_inv (store s) (table s) \<and> lru_ok (lrus s, store s) X \<and> ttl_inv (ttl_idx s) (store s) \<and> mem_ok (gmem s) (sh_id s) S R \<and>
     entry_objs (table s) \<subseteq> T \<and> listed X \<subseteq> T \<and> ttl_objs (ttl_idx s) \<subseteq> T \<and> T \<subseteq> mem_live (gmem s) (sh_id s) S R \<and>
     (\<forall>a \<in> T. obj_ok (store s a) \<and> (heap_idx (store s a) \<noteq> HEAP_IDX_NONE \<longrightarrow> a \<in> ttl_objs (ttl_idx s)) \<and>
        (a \<notin> listed X \<longrightarrow> detached (store s) a)) \<and>
     (\<forall>n \<in> set (theap (ttl_idx s)). \<forall>b \<in> set (ht_entries (table s)). n_obj n = b_obj b \<longrightarrow> n_expire n = b_expire b)"

lemma sh_invD:
  assumes "sh_inv s X S R T"
  shows "ht_inv (store s) (table s)" "lru_ok (lrus s, store s) X" "ttl_inv (ttl_idx s) (store s)" "mem_ok (gmem s) (sh_id s) S R"
    "entry_objs (table s) \<subseteq> T" "listed X \<subseteq> T" "ttl_objs (ttl_idx s) \<subseteq> T" "T \<subseteq> mem_live (gmem s) (sh_id s) S R"
  using assms by (simp_all add: sh_inv_def)

lemma sh_inv_obj:
  assumes "sh_inv s X S R T" "a \<in> T"
  shows "obj_ok (store s a)" "heap_idx (store s a) \<noteq> HEAP_IDX_NONE \<Longrightarrow> a \<in> ttl_objs (ttl_idx s)" "a \<notin> listed X \<Longrightarrow> detached (store s) a" "0 < a"
  using assms heap_live_pos [OF mem_okD(1)] by (auto simp: sh_inv_def mem_live_def)

lemma heap_idx_tracked:
  assumes "ttl_inv idx mem" "a \<in> ttl_objs idx"
  shows "heap_idx (mem a) \<noteq> HEAP_IDX_NONE"
proof -
  have i: "idx_ok (theap idx, mem)" using assms(1) by (simp add: ttl_inv_def)
  show ?thesis by (rule tracked_pos [OF i assms(2) [unfolded ttl_objs_def]])
qed

text \<open>What one step leaves alone: outside \<open>A\<close> the objects are untouched, and key, value and size class of every object stay.\<close>

definition frame :: "addr set \<Rightarrow> shard \<Rightarrow> shard \<Rightarrow> bool" where
  "frame A s s' \<longleftrightarrow> sh_id s' = sh_id s \<and> dropped s' = dropped s \<and> g_mem_arena (gmem s') = g_mem_arena (gmem s) \<and>
     data_committed (my_heap s') = data_committed (my_heap s) \<and> data_reserved (my_heap s') = data_reserved (my_heap s) \<and>
     (\<forall>x. payload (store s' x) = payload (store s x)) \<and> (\<forall>x. x \<notin> A \<longrightarrow> store s' x = store s x)"

lemma frame_refl [simp]: "frame A s s"
  by (simp add: frame_def)

lemma frame_mono: "frame A s s' \<Longrightarrow> A \<subseteq> B \<Longrightarrow> frame B s s'"
  unfolding frame_def by blast

lemma frame_trans1: "frame A a b \<Longrightarrow> frame A b c \<Longrightarrow> frame A a c"
  unfolding frame_def by (intro conjI allI impI) simp_all

lemma frame_trans: "frame A a b \<Longrightarrow> frame B b c \<Longrightarrow> A \<subseteq> C \<Longrightarrow> B \<subseteq> C \<Longrightarrow> frame C a c"
  by (rule frame_trans1; rule frame_mono)

section \<open>Single steps\<close>

lemma step_simps [simp]:
  "table (upd_obj a f s) = table s" "ttl_idx (upd_obj a f s) = ttl_idx s" "lrus (upd_obj a f s) = lrus s" "gmem (upd_obj a f s) = gmem s"
  "sh_id (upd_obj a f s) = sh_id s" "dropped (upd_obj a f s) = dropped s" "freed (upd_obj a f s) = freed s"
  "table (upd_heap g s) = table s" "ttl_idx (upd_heap g s) = ttl_idx s" "lrus (upd_heap g s) = lrus s" "store (upd_heap g s) = store s"
  "sh_id (upd_heap g s) = sh_id s" "dropped (upd_heap g s) = dropped s" "freed (upd_heap g s) = freed s"
  "table (do_lru k s) = table s" "ttl_idx (do_lru k s) = ttl_idx s" "gmem (do_lru k s) = gmem s"
  "sh_id (do_lru k s) = sh_id s" "dropped (do_lru k s) = dropped s" "freed (do_lru k s) = freed s"
  "table (do_free a s) = table s" "ttl_idx (do_free a s) = ttl_idx s" "lrus (do_free a s) = lrus s" "store (do_free a s) = store s"
  "sh_id (do_free a s) = sh_id s" "dropped (do_free a s) = dropped s"
  by (simp_all add: upd_obj_def upd_heap_def do_lru_def do_free_def split: prod.split)

lemma ttl_step_simps [simp]:
  "table (ttl_forget a s) = table s" "lrus (ttl_forget a s) = lrus s" "gmem (ttl_forget a s) = gmem s"
  "sh_id (ttl_forget a s) = sh_id s" "dropped (ttl_forget a s) = dropped s" "freed (ttl_forget a s) = freed s"
  "table (ttl_push env a e s) = table s" "lrus (ttl_push env a e s) = lrus s" "gmem (ttl_push env a e s) = gmem s"
  "sh_id (ttl_push env a e s) = sh_id s" "dropped (ttl_push env a e s) = dropped s" "freed (ttl_push env a e s) = freed s"
  by (simp_all add: ttl_forget_def ttl_push_def split: prod.split)

lemma inv_restruct:
  assumes inv: "sh_inv s X S R T" and pay: "\<And>x. payload (mem' x) = payload (store s x)"
    and new: "lru_ok (l', mem') X'" "ttl_inv idx' mem'" "listed X' \<subseteq> T" "ttl_objs idx' \<subseteq> T"
    and ob: "\<And>a. a \<in> T \<Longrightarrow> heap_idx (mem' a) \<noteq> HEAP_IDX_NONE \<longrightarrow> a \<in> ttl_objs idx'" "\<And>a. a \<in> T \<Longrightarrow> a \<notin> listed X' \<longrightarrow> detached mem' a"
    and ag: "\<And>n b. n \<in> set (theap idx') \<Longrightarrow> b \<in> set (ht_entries (table s)) \<Longrightarrow> n_obj n = b_obj b \<longrightarrow> n_expire n = b_expire b"
  shows "sh_inv (s\<lparr>lrus := l', ttl_idx := idx', store := mem'\<rparr>) X' S R T"
proof -
  have "ht_inv mem' (table s)" using ht_payload(1) [of "table s" mem' "store s"] pay sh_invD(1) [OF inv] by simp
  moreover have "obj_ok (mem' a)" if "a \<in> T" for a using sh_inv_obj(1) [OF inv that] obj_ok_payload [OF pay] by simp
  ultimately show ?thesis using sh_invD [OF inv] new ob ag by (simp add: sh_inv_def)
qed

lemma inv_upd_obj:
  assumes inv: "sh_inv s X S R T" and f: "\<And>ob. payload (f ob) = payload ob" "\<And>ob. lnk (f ob) = lnk ob" "\<And>ob. heap_idx (f ob) = heap_idx ob"
  shows "sh_inv (upd_obj a f s) X S R T" "frame {a} s (upd_obj a f s)"
proof -
  let ?m = "(store s)(a := f (store s a))"
  have k: "payload (?m x) = payload (store s x)" "lnk (?m x) = lnk (store s x)" "heap_idx (?m x) = heap_idx (store s x)" for x
    using f by simp_all
  have "sh_inv (s\<lparr>lrus := lrus s, ttl_idx := ttl_idx s, store := ?m\<rparr>) X S R T"
  proof (rule inv_restruct [OF inv k(1)])
    have "lru_ok (lrus s, ?m) X = lru_ok (lrus s, store s) X" by (rule lru_ok_cong) (use k payload_fields(4) [OF k(1)] in blast)
    then show "lru_ok (lrus s, ?m) X" using sh_invD(2) [OF inv] by simp
    have "ttl_inv (ttl_idx s) ?m = ttl_inv (ttl_idx s) (store s)" by (rule ttl_inv_cong) (rule k(3))
    then show "ttl_inv (ttl_idx s) ?m" using sh_invD(3) [OF inv] by simp
    show "heap_idx (?m x) \<noteq> HEAP_IDX_NONE \<longrightarrow> x \<in> ttl_objs (ttl_idx s)" if "x \<in> T" for x using sh_inv_obj(2) [OF inv that] k(3) by simp
    show "x \<notin> listed X \<longrightarrow> detached ?m x" if "x \<in> T" for x
      using sh_inv_obj(3) [OF inv that] k(2) [of x] by (simp add: detached_def lnk_def)
  qed (use inv in \<open>auto simp: sh_inv_def\<close>)
  then show "sh_inv (upd_obj a f s) X S R T" by (simp add: upd_obj_def)
  show "frame {a} s (upd_obj a f s)" using f(1) by (simp add: frame_def my_heap_def) (simp add: upd_obj_def)
qed

lemma inv_upd_heap:
  assumes inv: "sh_inv s X S R T" and f: "heap_same (my_heap s) S R (f (my_heap s)) S' R'"
  shows "sh_inv (upd_heap f s) X S' R' T" "frame {} s (upd_heap f s)"
proof -
  have "mem_ok (set_heap (sh_id s) f (gmem s)) (sh_id s) S' R'"
    "mem_live (set_heap (sh_id s) f (gmem s)) (sh_id s) S' R' = heap_live (f (my_heap s)) S' R'"
    using mem_set_ok [OF sh_invD(4) [OF inv], of f S' R'] f by (simp_all add: heap_same_def my_heap_def)
  moreover have "heap_live (f (my_heap s)) S' R' = mem_live (gmem s) (sh_id s) S R" using f by (simp add: heap_same_def mem_live_def my_heap_def)
  ultimately show "sh_inv (upd_heap f s) X S' R' T" using inv by (simp add: sh_inv_def) (simp add: upd_heap_def)
  show "frame {} s (upd_heap f s)" using f by (simp add: frame_def heap_same_def my_heap_def) (simp add: upd_heap_def set_heap_def)
qed

lemma inv_free:
  assumes inv: "sh_inv s X S R T" and a: "a \<in> mem_live (gmem s) (sh_id s) S R" "a \<notin> entry_objs (table s)" "a \<notin> listed X" "a \<notin> ttl_objs (ttl_idx s)"
  shows "\<exists>R'. sh_inv (do_free a s) X S R' (T - {a})"
proof -
  obtain R' where "mem_ok (mem_free a (gmem s)) (sh_id s) S R'" "mem_live (mem_free a (gmem s)) (sh_id s) S R' = mem_live (gmem s) (sh_id s) S R - {a}"
    using mem_free_ok [OF sh_invD(4) [OF inv] a(1)] by blast
  then have "sh_inv (do_free a s) X S R' (T - {a})" using inv a unfolding sh_inv_def by (simp add: do_free_def) blast
  then show ?thesis ..
qed

lemma inv_shrink:
  assumes inv: "sh_inv s X S R T" and T: "T' \<subseteq> T" "entry_objs (table s) \<subseteq> T'" "listed X \<subseteq> T'" "ttl_objs (ttl_idx s) \<subseteq> T'"
  shows "sh_inv s X S R T'"
  using inv T unfolding sh_inv_def by blast

lemma inv_table:
  assumes inv: "sh_inv s X S R T" and t: "ht_inv (store s) ht" "entry_objs ht \<subseteq> T"
    and ag: "\<And>n b. n \<in> set (theap (ttl_idx s)) \<Longrightarrow> b \<in> set (ht_entries ht) \<Longrightarrow> n_obj n = b_obj b \<longrightarrow> n_expire n = b_expire b"
  shows "sh_inv (s\<lparr>table := ht\<rparr>) X S R T"
  using inv t ag by (simp add: sh_inv_def)

lemma mem_free_keeps:
  "g_mem_arena (mem_free a m) = g_mem_arena m" "data_committed (g_thread_heaps (mem_free a m) t) = data_committed (g_thread_heaps m t)"
  "data_reserved (g_thread_heaps (mem_free a m) t) = data_reserved (g_thread_heaps m t)"
  by (simp_all add: mem_free_def Let_def set_heap_def split: option.split)

lemma frame_free: "frame {} s (do_free a s)"
  by (simp add: frame_def my_heap_def) (simp add: do_free_def mem_free_keeps)

lemma inv_lists:
  assumes inv: "sh_inv s X S R T" and a: "a \<in> T" and p: "p = lru_pool (store s) a"
  shows "a \<in> set (X p) \<or> detached (store s) a" "listed (X(p := remove1 a (X p))) = listed X - {a}"
    "listed (X(p := a # remove1 a (X p))) = insert a (listed X)"
proof -
  note ok = sh_invD(2) [OF inv]
  have own: "a \<in> set (X q) \<longleftrightarrow> q = p \<and> a \<in> set (X p)" for q
    using lru_pool_member [OF ok, of a q] p by auto
  show "a \<in> set (X p) \<or> detached (store s) a"
    using sh_inv_obj(3) [OF inv a] own unfolding listed_def by blast
  have d: "distinct (X p)" using lru_dll [OF ok, of p] by (simp add: dll_def)
  have r: "set (remove1 a (X p)) = set (X p) - {a}" using d by simp
  show "listed (X(p := remove1 a (X p))) = listed X - {a}"
  proof (rule set_eqI)
    fix x show "x \<in> listed (X(p := remove1 a (X p))) \<longleftrightarrow> x \<in> listed X - {a}"
    proof
      assume "x \<in> listed (X(p := remove1 a (X p)))"
      then obtain q where q: "x \<in> set ((X(p := remove1 a (X p))) q)" by (auto simp: listed_def)
      have "x \<in> set (X q) \<and> x \<noteq> a"
      proof (cases "q = p")
        case True
        then have "x \<in> set (remove1 a (X p))" using q by simp
        then show ?thesis using r True by blast
      next
        case False
        then have "x \<in> set (X q)" using q by simp
        then show ?thesis using own False by blast
      qed
      then show "x \<in> listed X - {a}" by (auto simp: listed_def)
    next
      assume "x \<in> listed X - {a}"
      then obtain q where q: "x \<in> set (X q)" "x \<noteq> a" by (auto simp: listed_def)
      then have "x \<in> set ((X(p := remove1 a (X p))) q)" using r by (cases "q = p") auto
      then show "x \<in> listed (X(p := remove1 a (X p)))" unfolding listed_def by blast
    qed
  qed
  show "listed (X(p := a # remove1 a (X p))) = insert a (listed X)"
  proof (rule set_eqI)
    fix x show "x \<in> listed (X(p := a # remove1 a (X p))) \<longleftrightarrow> x \<in> insert a (listed X)"
    proof
      assume "x \<in> listed (X(p := a # remove1 a (X p)))"
      then obtain q where q: "x \<in> set ((X(p := a # remove1 a (X p))) q)" by (auto simp: listed_def)
      then have "x = a \<or> x \<in> set (X q)" using r by (cases "q = p") auto
      then show "x \<in> insert a (listed X)" by (auto simp: listed_def)
    next
      assume "x \<in> insert a (listed X)"
      then consider "x = a" | q where "x \<noteq> a" "x \<in> set (X q)" by (auto simp: listed_def)
      then show "x \<in> listed (X(p := a # remove1 a (X p)))"
      proof cases
        case 1
        then have "x \<in> set ((X(p := a # remove1 a (X p))) p)" by simp
        then show ?thesis unfolding listed_def by blast
      next
        case 2
        then have "x \<in> set ((X(p := a # remove1 a (X p))) q)" using r by (cases "q = p") auto
        then show ?thesis unfolding listed_def by blast
      qed
    qed
  qed
qed

lemma inv_links:
  assumes inv: "sh_inv s X S R T" and a: "a \<in> T" and k: "k (lrus s, store s) = (l', mem')" "lru_ok (l', mem') X'" "links_only X a (store s) mem'"
    and sub: "listed X' \<subseteq> T" "listed X - {a} \<subseteq> listed X'" "a \<notin> listed X' \<Longrightarrow> detached mem' a"
  shows "sh_inv (do_lru k s) X' S R T" "frame (insert a (listed X)) s (do_lru k s)"
proof -
  have er: "erase_links (mem' x) = erase_links (store s x)" "x \<noteq> a \<Longrightarrow> x \<notin> listed X \<Longrightarrow> mem' x = store s x" for x
    using k(3) by (simp_all add: links_only_def listed_def)
  note kp = erase_links_keep [OF er(1)]
  have run: "do_lru k s = s\<lparr>lrus := l', ttl_idx := ttl_idx s, store := mem'\<rparr>" using k(1) by (simp add: do_lru_def)
  show "sh_inv (do_lru k s) X' S R T" unfolding run
  proof (rule inv_restruct [OF inv kp(1) k(2)])
    have "ttl_inv (ttl_idx s) mem' = ttl_inv (ttl_idx s) (store s)" by (rule ttl_inv_cong) (rule kp(2))
    then show "ttl_inv (ttl_idx s) mem'" using sh_invD(3) [OF inv] by simp
    show "heap_idx (mem' x) \<noteq> HEAP_IDX_NONE \<longrightarrow> x \<in> ttl_objs (ttl_idx s)" if "x \<in> T" for x using sh_inv_obj(2) [OF inv that] kp(2) by simp
    show "x \<notin> listed X' \<longrightarrow> detached mem' x" if "x \<in> T" for x
    proof
      assume x: "x \<notin> listed X'"
      show "detached mem' x"
      proof (cases "x = a")
        case True
        then show ?thesis using sub(3) x by simp
      next
        case False
        then have "x \<notin> listed X" using sub(2) x by blast
        then show ?thesis using sh_inv_obj(3) [OF inv that] er(2) [OF False] by (simp add: detached_def)
      qed
    qed
  qed (use sub inv in \<open>auto simp: sh_inv_def\<close>)
  show "frame (insert a (listed X)) s (do_lru k s)" unfolding frame_def
    using kp(1) er(2) by (simp add: my_heap_def) (simp add: run)
qed

lemma inv_lru_remove:
  assumes inv: "sh_inv s X S R T" and a: "a \<in> T"
  shows "\<exists>X'. sh_inv (do_lru (lru_node_remove a) s) X' S R T \<and> listed X' = listed X - {a} \<and> frame (insert a (listed X)) s (do_lru (lru_node_remove a) s)"
proof -
  define p where "p = lru_pool (store s) a"
  note li = inv_lists [OF inv a p_def]
  obtain l' mem' where r: "lru_node_remove a (lrus s, store s) = (l', mem')" "lru_ok (l', mem') (X(p := remove1 a (X p)))" "detached mem' a"
    "links_only X a (store s) mem'"
    using lru_remove_ok [OF sh_invD(2) [OF inv], of a] li(1) by (auto simp: p_def)
  have sub: "listed (X(p := remove1 a (X p))) \<subseteq> T" "listed X - {a} \<subseteq> listed (X(p := remove1 a (X p)))"
    using li(2) sh_invD(6) [OF inv] by auto
  show ?thesis using inv_links [where k = "lru_node_remove a", OF inv a r(1,2,4) sub r(3)] li(2) by blast
qed

lemma inv_lru_prepend:
  assumes inv: "sh_inv s X S R T" and a: "a \<in> T"
  shows "\<exists>X'. sh_inv (do_lru (lru_node_prepend a) s) X' S R T \<and> listed X' = insert a (listed X) \<and> frame (insert a (listed X)) s (do_lru (lru_node_prepend a) s)"
proof -
  define p where "p = lru_pool (store s) a"
  note li = inv_lists [OF inv a p_def]
  obtain l' mem' where r: "lru_node_prepend a (lrus s, store s) = (l', mem')" "lru_ok (l', mem') (X(p := a # remove1 a (X p)))"
    "links_only X a (store s) mem'"
    using lru_prepend_ok [OF sh_invD(2) [OF inv], of a] li(1) by (auto simp: p_def)
  have sub: "listed (X(p := a # remove1 a (X p))) \<subseteq> T" "listed X - {a} \<subseteq> listed (X(p := a # remove1 a (X p)))"
    using li(3) sh_invD(6) [OF inv] a by auto
  have "a \<in> listed (X(p := a # remove1 a (X p)))" using li(3) by simp
  then show ?thesis using inv_links [where k = "lru_node_prepend a", OF inv a r(1,2,3) sub] li(3) by blast
qed

text \<open>The index has at most one node per object, so it is far from its limit.\<close>

lemma ttl_distinct:
  assumes "ttl_inv idx mem"
  shows "distinct (map n_obj (theap idx))"
proof -
  have "idx_ok (theap idx, mem)" using assms by (simp add: ttl_inv_def)
  then show ?thesis using idx_ok_inj by (fastforce simp: distinct_conv_nth)
qed

lemma ttl_room:
  assumes inv: "sh_inv s X S R T"
  shows "length (theap (ttl_idx s)) < 2 ^ 32 - 2"
proof -
  have "length (theap (ttl_idx s)) = card (ttl_objs (ttl_idx s))"
    using distinct_card [OF ttl_distinct [OF sh_invD(3) [OF inv]]] by (simp add: ttl_objs_def)
  also have "\<dots> \<le> card (mem_live (gmem s) (sh_id s) S R)"
    by (rule card_mono) (use heap_live_card(1) [OF mem_okD(1) [OF sh_invD(4) [OF inv]]] sh_invD(7,8) [OF inv] in \<open>auto simp: mem_live_def\<close>)
  also have "\<dots> \<le> 2 ^ 29" using heap_live_card(2) [OF mem_okD(1) [OF sh_invD(4) [OF inv]]] by (simp add: mem_live_def)
  finally show ?thesis by simp
qed

lemma inv_ttl:
  assumes inv: "sh_inv s X S R T" and new: "ttl_inv idx' mem'" "idx_frame A (store s) mem'" "ttl_objs idx' \<subseteq> T"
    and hx: "\<And>x. x \<in> T \<Longrightarrow> heap_idx (mem' x) \<noteq> HEAP_IDX_NONE \<longrightarrow> x \<in> ttl_objs idx'"
    and ag: "\<And>n b. n \<in> set (theap idx') \<Longrightarrow> b \<in> set (ht_entries (table s)) \<Longrightarrow> n_obj n = b_obj b \<longrightarrow> n_expire n = b_expire b"
  shows "sh_inv (s\<lparr>ttl_idx := idx', store := mem'\<rparr>) X S R T" "frame A s (s\<lparr>ttl_idx := idx', store := mem'\<rparr>)"
proof -
  note k = idx_frame_keep [OF new(2)]
  have "sh_inv (s\<lparr>lrus := lrus s, ttl_idx := idx', store := mem'\<rparr>) X S R T"
  proof (rule inv_restruct [OF inv k(1) _ new(1) _ new(3) hx _ ag])
    have "lru_ok (lrus s, mem') X = lru_ok (lrus s, store s) X" by (rule lru_ok_cong) (use k payload_fields(4) [OF k(1)] in blast)
    then show "lru_ok (lrus s, mem') X" using sh_invD(2) [OF inv] by simp
    show "x \<notin> listed X \<longrightarrow> detached mem' x" if "x \<in> T" for x
      using sh_inv_obj(3) [OF inv that] k(2) [of x] by (simp add: detached_def lnk_def)
  qed (use sh_invD(6) [OF inv] in auto)
  then show "sh_inv (s\<lparr>ttl_idx := idx', store := mem'\<rparr>) X S R T" by simp
  show "frame A s (s\<lparr>ttl_idx := idx', store := mem'\<rparr>)" using k(1) new(2) by (simp add: frame_def my_heap_def idx_frame_def)
qed

lemma inv_ttl_forget:
  assumes inv: "sh_inv s X S R T" and a: "a \<in> T"
  shows "sh_inv (ttl_forget a s) X S R T" "ttl_objs (ttl_idx (ttl_forget a s)) = ttl_objs (ttl_idx s) - {a}"
    "frame (ttl_objs (ttl_idx s)) s (ttl_forget a s)"
proof -
  have "sh_inv (ttl_forget a s) X S R T \<and> ttl_objs (ttl_idx (ttl_forget a s)) = ttl_objs (ttl_idx s) - {a} \<and>
    frame (ttl_objs (ttl_idx s)) s (ttl_forget a s)"
  proof (cases "heap_idx (store s a) = HEAP_IDX_NONE")
    case True
    then have "a \<notin> ttl_objs (ttl_idx s)" using heap_idx_tracked [OF sh_invD(3) [OF inv]] by blast
    moreover have "ttl_forget a s = s" using True by (simp add: ttl_forget_def)
    ultimately show ?thesis using inv by simp
  next
    case False
    then have at: "a \<in> ttl_objs (ttl_idx s)" using sh_inv_obj(2) [OF inv a] by blast
    obtain idx' mem' where r: "ttl_index_node_remove (ttl_idx s) (store s) a = (idx', mem')" by fastforce
    note K = remove_ok [OF sh_invD(3) [OF inv] at r]
    obtain e where e: "ttl_abs (ttl_idx s) = ttl_abs idx' + {#\<lparr>n_expire = e, n_obj = a\<rparr>#}" using K by blast
    have st: "set (theap (ttl_idx s)) = insert \<lparr>n_expire = e, n_obj = a\<rparr> (set (theap idx'))"
      using arg_cong [OF e, of set_mset] by (simp add: ttl_abs_def)
    have ob: "ttl_objs (ttl_idx s) = insert a (ttl_objs idx')" by (simp add: ttl_objs_def st)
    then have ob': "ttl_objs idx' = ttl_objs (ttl_idx s) - {a}" using K by blast
    have run: "ttl_forget a s = s\<lparr>ttl_idx := idx', store := mem'\<rparr>" using False r by (simp add: ttl_forget_def)
    have hx: "heap_idx (mem' x) \<noteq> HEAP_IDX_NONE \<longrightarrow> x \<in> ttl_objs idx'" if "x \<in> T" for x
    proof
      assume h: "heap_idx (mem' x) \<noteq> HEAP_IDX_NONE"
      have xa: "x \<noteq> a" using K h by auto
      show "x \<in> ttl_objs idx'"
      proof (cases "x \<in> ttl_objs (ttl_idx s)")
        case True
        then show ?thesis using ob' xa by blast
      next
        case False
        then have "mem' x = store s x" using K by (simp add: idx_frame_def)
        then show ?thesis using sh_inv_obj(2) [OF inv that] h False by simp
      qed
    qed
    have "ttl_objs idx' \<subseteq> T" using ob' sh_invD(7) [OF inv] by blast
    moreover have "n_obj n = b_obj b \<longrightarrow> n_expire n = b_expire b" if "n \<in> set (theap idx')" "b \<in> set (ht_entries (table s))" for n b
      using inv that st by (simp add: sh_inv_def)
    ultimately have "sh_inv (ttl_forget a s) X S R T" "frame (ttl_objs (ttl_idx s)) s (ttl_forget a s)"
      unfolding run using inv_ttl [OF inv, of idx' mem' "ttl_objs (ttl_idx s)"] K hx by blast+
    then show ?thesis using ob' run by simp
  qed
  then show "sh_inv (ttl_forget a s) X S R T" "ttl_objs (ttl_idx (ttl_forget a s)) = ttl_objs (ttl_idx s) - {a}"
    "frame (ttl_objs (ttl_idx s)) s (ttl_forget a s)" by blast+
qed

lemma inv_ttl_push:
  assumes inv: "sh_inv s X S R T" and a: "a \<in> T" "a \<notin> ttl_objs (ttl_idx s)"
    and e: "\<And>b. b \<in> set (ht_entries (table s)) \<Longrightarrow> b_obj b = a \<longrightarrow> b_expire b = e"
  shows "sh_inv (ttl_push env a e s) X S R T" "ttl_objs (ttl_idx (ttl_push env a e s)) \<subseteq> insert a (ttl_objs (ttl_idx s))"
    "frame (insert a (ttl_objs (ttl_idx s))) s (ttl_push env a e s)"
proof -
  obtain ok idx' mem' where r: "ttl_index_node_push (ttl_realloc env) (ttl_idx s) (store s) a e = (ok, idx', mem')" by (metis prod_cases3)
  have run: "ttl_push env a e s = s\<lparr>ttl_idx := idx', store := mem'\<rparr>" using r by (simp add: ttl_push_def)
  have "sh_inv (ttl_push env a e s) X S R T \<and> ttl_objs idx' \<subseteq> insert a (ttl_objs (ttl_idx s)) \<and>
    frame (insert a (ttl_objs (ttl_idx s))) s (ttl_push env a e s)"
  proof (cases ok)
    case False
    then have "idx' = ttl_idx s" "mem' = store s" using r by (auto simp: ttl_index_node_push_def Let_def split: if_splits prod.splits)
    then show ?thesis using inv by (simp add: run subset_insertI)
  next
    case True
    then have "ttl_index_node_push (ttl_realloc env) (ttl_idx s) (store s) a e = (True, idx', mem')" using r by simp
    note K = push_ok [OF sh_invD(3) [OF inv] a(2) ttl_room [OF inv] this]
    have st: "set (theap idx') = insert \<lparr>n_expire = e, n_obj = a\<rparr> (set (theap (ttl_idx s)))"
      using K arg_cong [of _ _ set_mset, of "ttl_abs idx'"] by (simp add: ttl_abs_def) (metis set_mset_add_mset_insert set_mset_mset)
    have ob: "ttl_objs idx' = insert a (ttl_objs (ttl_idx s))" by (simp add: ttl_objs_def st)
    have hx: "heap_idx (mem' x) \<noteq> HEAP_IDX_NONE \<longrightarrow> x \<in> ttl_objs idx'" if "x \<in> T" for x
    proof (cases "x \<in> insert a (ttl_objs (ttl_idx s))")
      case False
      then have "mem' x = store s x" using K by (simp add: idx_frame_def)
      then show ?thesis using sh_inv_obj(2) [OF inv that] ob by simp
    qed (simp add: ob)
    have ag: "n_obj n = b_obj b \<longrightarrow> n_expire n = b_expire b" if "n \<in> set (theap idx')" "b \<in> set (ht_entries (table s))" for n b
      using inv that e [OF that(2)] st by (auto simp: sh_inv_def)
    have sub: "ttl_objs idx' \<subseteq> T" using a(1) sh_invD(7) [OF inv] by (simp add: ob)
    have fr: "idx_frame (insert a (ttl_objs (ttl_idx s))) (store s) mem'" and ti: "ttl_inv idx' mem'" using K by blast+
    show ?thesis unfolding run using inv_ttl [OF inv ti fr sub hx ag] ob by blast
  qed
  then show "sh_inv (ttl_push env a e s) X S R T" "ttl_objs (ttl_idx (ttl_push env a e s)) \<subseteq> insert a (ttl_objs (ttl_idx s))"
    "frame (insert a (ttl_objs (ttl_idx s))) s (ttl_push env a e s)" by (simp_all add: run)
qed

section \<open>Destroying an object\<close>

lemma obj_free_ok:
  assumes inv: "sh_inv s X S R T" and a: "a \<in> T" "a \<notin> entry_objs (table s)" "a \<notin> listed X" "a \<notin> ttl_objs (ttl_idx s)"
  shows "\<exists>R'. sh_inv (shard_obj_free a s) X S R' (T - {a})" "frame {} s (shard_obj_free a s)"
    "table (shard_obj_free a s) = table s" "ttl_idx (shard_obj_free a s) = ttl_idx s"
proof -
  have "shard_obj_free a s = do_free a s" using sh_inv_obj(1) [OF inv a(1)] by (auto simp: shard_obj_free_def obj_ok_def)
  then show "\<exists>R'. sh_inv (shard_obj_free a s) X S R' (T - {a})" "frame {} s (shard_obj_free a s)"
    "table (shard_obj_free a s) = table s" "ttl_idx (shard_obj_free a s) = ttl_idx s"
    using inv_free [OF inv _ a(2-4)] a(1) sh_invD(8) [OF inv] by (auto simp: frame_free)
qed

lemma unref_ok:
  assumes inv: "sh_inv s X S R T" and a: "a \<in> T" "a \<notin> entry_objs (table s)" "a \<notin> listed X" "a \<notin> ttl_objs (ttl_idx s)"
  shows "\<exists>R'. sh_inv (shard_obj_unref a s) X S R' (T - {a})" "frame {a} s (shard_obj_unref a s)"
    "table (shard_obj_unref a s) = table s" "ttl_idx (shard_obj_unref a s) = ttl_idx s"
proof -
  define u where "u = upd_obj a (\<lambda>ob. ob\<lparr>refcount := refcount ob - 1\<rparr>) s"
  have u: "sh_inv u X S R T" "frame {a} s u" unfolding u_def by (rule inv_upd_obj [OF inv]; simp)+
  have tb: "table u = table s" "ttl_idx u = ttl_idx s" by (simp_all add: u_def)
  note F = obj_free_ok [OF u(1) a(1), unfolded tb, OF a(2-4)]
  have "sh_inv u X S R (T - {a})" by (rule inv_shrink [OF u(1)]) (use sh_invD(5-7) [OF inv] a tb in auto)
  moreover have "shard_obj_unref a s = shard_obj_free a u \<or> shard_obj_unref a s = u" by (simp add: shard_obj_unref_def u_def Let_def)
  moreover have "frame {a} s (shard_obj_free a u)" by (rule frame_trans [OF u(2) F(2)]) simp_all
  ultimately show "\<exists>R'. sh_inv (shard_obj_unref a s) X S R' (T - {a})" "frame {a} s (shard_obj_unref a s)"
    "table (shard_obj_unref a s) = table s" "ttl_idx (shard_obj_unref a s) = ttl_idx s"
    using F u(2) tb by (metis, metis, metis, metis)
qed

lemma snap_part_ok:
  assumes inv: "sh_inv s X S R T"
  shows "sh_inv (snap_part env a s) X S R T" "frame {a} s (snap_part env a s)"
    "table (snap_part env a s) = table s" "ttl_idx (snap_part env a s) = ttl_idx s"
proof -
  define sz where "sz = class_size (obj_total (store s a))"
  define u where "u = upd_heap (snap_obj_mark a sz) s"
  define w where "w = snap_will_visit env a sz u"
  have hi: "heap_inv (my_heap s) S R" using mem_okD(1) [OF sh_invD(4) [OF inv]] by (simp add: my_heap_def)
  note U = inv_upd_heap [where f = "snap_obj_mark a sz", OF inv snap_obj_mark_same [OF hi], folded u_def]
  have V: "sh_inv (upd_obj a (snap_flag_dead w) u) X S R T" "frame {a} u (upd_obj a (snap_flag_dead w) u)"
    by (rule inv_upd_obj [OF U(1)]; simp)+
  have run: "snap_part env a s = (if g_snapshot_active env then upd_obj a (snap_flag_dead w) u else s)"
    by (simp add: snap_part_def Let_def u_def w_def sz_def)
  show "sh_inv (snap_part env a s) X S R T" unfolding run using V(1) inv by simp
  have "frame {a} s (upd_obj a (snap_flag_dead w) u)" by (rule frame_trans [OF U(2) V(2)]) simp_all
  then show "frame {a} s (snap_part env a s)" by (simp add: run)
  show "table (snap_part env a s) = table s" "ttl_idx (snap_part env a s) = ttl_idx s" by (simp_all add: run u_def)
qed

lemma destroy_ok:
  assumes inv: "sh_inv s X S R T" and a: "a \<in> T" "a \<notin> entry_objs (table s)"
    and s': "s' = shard_obj_destroy env a s"
  shows "\<exists>X' S' R'. sh_inv s' X' S' R' (T - {a}) \<and> listed X' = listed X - {a} \<and> ttl_objs (ttl_idx s') = ttl_objs (ttl_idx s) - {a} \<and>
    table s' = table s \<and> frame (insert a (listed X \<union> ttl_objs (ttl_idx s))) s s'"
proof -
  let ?A = "insert a (listed X \<union> ttl_objs (ttl_idx s))"
  define s1 where "s1 = upd_obj a (\<lambda>ob. ob\<lparr>marked_deletion := 1\<rparr>) s"
  define s2 where "s2 = snap_part env a s1"
  define s3 where "s3 = do_lru (lru_node_remove a) s2"
  define s4 where "s4 = ttl_forget a s3"
  have 1: "sh_inv s1 X S R T" "frame {a} s s1" unfolding s1_def by (rule inv_upd_obj [OF inv]; simp)+
  note 2 = snap_part_ok [where env = env and a = a, OF 1(1), folded s2_def]
  obtain X' where 3: "sh_inv s3 X' S R T" "listed X' = listed X - {a}" "frame (insert a (listed X)) s2 s3"
    using inv_lru_remove [OF 2(1) a(1)] by (auto simp: s3_def)
  note 4 = inv_ttl_forget [OF 3(1) a(1), folded s4_def]
  have tb: "table s4 = table s" "ttl_idx s3 = ttl_idx s" using 2(3,4) by (simp_all add: s4_def s3_def s1_def)
  have a4: "a \<notin> entry_objs (table s4)" "a \<notin> listed X'" "a \<notin> ttl_objs (ttl_idx s4)" using a(2) 3(2) 4(2) tb by simp_all
  note 5 = unref_ok [OF 4(1) a(1) a4]
  have run: "s' = shard_obj_unref a s4" using sh_inv_obj(4) [OF inv a(1)]
    by (simp add: s' shard_obj_destroy_def s4_def s3_def s2_def s1_def Let_def)
  have "frame ?A s s1" "frame ?A s1 s2" "frame ?A s2 s3" "frame ?A s3 s4" "frame ?A s4 s'"
    unfolding run by (rule frame_mono [OF 1(2)] frame_mono [OF 2(2)] frame_mono [OF 3(3)] frame_mono [OF 4(3)] frame_mono [OF 5(2)]; use tb in auto)+
  then have "frame ?A s s'" by (metis frame_trans1)
  then show ?thesis using 5(1,3,4) 3(2) 4(2) tb unfolding run by metis
qed

section \<open>Between two operations\<close>

text \<open>
  Between operations the lists hold exactly the objects of the table, and the index some of them.  \<open>L\<close> are objects that the
  caller holds and has not linked anywhere.
\<close>

definition sh_ok :: "shard \<Rightarrow> nat set \<Rightarrow> (nat \<times> nat) set \<Rightarrow> addr set \<Rightarrow> bool" where
  "sh_ok s S R L \<longleftrightarrow> (\<exists>X. sh_inv s X S R (entry_objs (table s) \<union> L) \<and> listed X = entry_objs (table s)) \<and>
     ttl_objs (ttl_idx s) \<subseteq> entry_objs (table s) \<and> L \<inter> entry_objs (table s) = {}"

text \<open>The map a shard stands for: the value and the expiry time of every key.\<close>

definition kv_abs :: "shard \<Rightarrow> bytes \<Rightarrow> (bytes \<times> u64) option" where
  "kv_abs s k = map_option (\<lambda>b. (obj_val_get (store s (b_obj b)), b_expire b)) (ht_abs (store s) (table s) k)"

text \<open>Entries may have disappeared, nothing else has happened to the stored data or to the objects in \<open>L\<close>.\<close>

definition settles :: "addr set \<Rightarrow> shard \<Rightarrow> shard \<Rightarrow> bool" where
  "settles L s s' \<longleftrightarrow> sh_id s' = sh_id s \<and> dropped s' = dropped s \<and> g_mem_arena (gmem s') = g_mem_arena (gmem s) \<and>
     set (ht_entries (table s')) \<subseteq> set (ht_entries (table s)) \<and> (\<forall>x. payload (store s' x) = payload (store s x)) \<and>
     (\<forall>x \<in> L. store s' x = store s x)"

lemma settles_refl: "settles L s s"
  by (simp add: settles_def)

lemma settles_trans: "settles L a b \<Longrightarrow> settles L b c \<Longrightarrow> settles L a c"
  unfolding settles_def by (intro conjI allI ballI) (simp_all, blast)

lemma frame_settles:
  "frame A s s' \<Longrightarrow> A \<inter> L = {} \<Longrightarrow> set (ht_entries (table s')) \<subseteq> set (ht_entries (table s)) \<Longrightarrow> settles L s s'"
  unfolding settles_def frame_def by blast

text \<open>Only the sizes matter to the allocator's callback.\<close>

definition same_size :: "shard \<Rightarrow> shard \<Rightarrow> bool" where
  "same_size s s' \<longleftrightarrow> data_committed (my_heap s') = data_committed (my_heap s) \<and> data_reserved (my_heap s') = data_reserved (my_heap s)"

lemma frame_same_size: "frame A s s' \<Longrightarrow> same_size s s'"
  by (simp add: frame_def same_size_def)

lemma same_size_trans: "same_size a b \<Longrightarrow> same_size b c \<Longrightarrow> same_size a c"
  by (simp add: same_size_def)

lemma entries_abs: "ht_inv mem ht \<Longrightarrow> b \<in> set (ht_entries ht) \<longleftrightarrow> ht_abs mem ht (bkey mem b) = Some b"
  using ht_abs_iff [of mem ht] by (simp add: ht_inv_def)

lemma entries_inj:
  assumes "ht_inv mem ht" "b \<in> set (ht_entries ht)" "c \<in> set (ht_entries ht)" "b_obj b = b_obj c"
  shows "b = c"
  using entries_abs [OF assms(1), of b] entries_abs [OF assms(1), of c] assms by (simp add: bkey_def)

lemma entries_taken:
  assumes i: "ht_inv mem ht" "ht_inv mem ht'" and k: "ht_abs mem ht' = (ht_abs mem ht)(key := None)" "ht_abs mem ht key = Some b"
  shows "set (ht_entries ht') = set (ht_entries ht) - {b}" "entry_objs ht' = entry_objs ht - {b_obj b}" "b_obj b \<in> entry_objs ht"
    "length (ht_entries ht) = Suc (length (ht_entries ht'))"
proof -
  have b: "b \<in> set (ht_entries ht)" "bkey mem b = key" using k(2) ht_abs_iff [of mem ht key b] i(1) by (simp_all add: ht_inv_def)
  show e: "set (ht_entries ht') = set (ht_entries ht) - {b}"
  proof (rule set_eqI)
    fix c show "c \<in> set (ht_entries ht') \<longleftrightarrow> c \<in> set (ht_entries ht) - {b}"
      using entries_abs [OF i(1), of c] entries_abs [OF i(2), of c] k b by auto
  qed
  show "b_obj b \<in> entry_objs ht" using b(1) by (simp add: entry_objs_def)
  show "entry_objs ht' = entry_objs ht - {b_obj b}"
    using entries_inj [OF i(1) b(1)] by (auto simp: entry_objs_def e) metis
  have "distinct (ht_entries ht)" "distinct (ht_entries ht')" using i by (auto simp: ht_inv_def distinct_map)
  then show "length (ht_entries ht) = Suc (length (ht_entries ht'))"
    using e b(1) by (metis List.finite_set card_Suc_Diff1 distinct_card)
qed

lemma kv_abs_eq: "ht_inv (store s) (table s) \<Longrightarrow> ht_abs (store s) (table s) key = Some b \<Longrightarrow> kv_abs s key = Some (obj_val_get (store s (b_obj b)), b_expire b)"
  by (simp add: kv_abs_def)

lemma settles_kv:
  assumes s: "settles L s s'" and i: "ht_inv (store s) (table s)" "ht_inv (store s') (table s')"
  shows "kv_abs s' \<subseteq>\<^sub>m kv_abs s"
  unfolding map_le_def
proof
  fix k assume "k \<in> dom (kv_abs s')"
  then obtain b where b: "ht_abs (store s') (table s') k = Some b" by (auto simp: kv_abs_def)
  have be: "b \<in> set (ht_entries (table s'))" "bkey (store s') b = k"
    using b i(2) ht_abs_iff [of "store s'" "table s'" k b] by (simp_all add: ht_inv_def)
  have p: "payload (store s' (b_obj b)) = payload (store s (b_obj b))" using s by (simp add: settles_def)
  have "b \<in> set (ht_entries (table s))" using s be(1) by (auto simp: settles_def)
  moreover have "bkey (store s) b = k" using be(2) payload_fields(5) [OF p] by (simp add: bkey_def)
  ultimately have "ht_abs (store s) (table s) k = Some b" using entries_abs [OF i(1), of b] by simp
  then show "kv_abs s' k = kv_abs s k" using b payload_fields(6) [OF p] by (simp add: kv_abs_def)
qed

lemma sh_okD:
  assumes "sh_ok s S R L"
  obtains X where "sh_inv s X S R (entry_objs (table s) \<union> L)" "listed X = entry_objs (table s)"
  using assms by (auto simp: sh_ok_def)

lemma sh_ok_table: "sh_ok s S R L \<Longrightarrow> ht_inv (store s) (table s)"
  by (auto simp: sh_ok_def sh_inv_def)

lemma take_if_unlocked_cases:
  assumes i: "ht_inv mem ht" and key: "length key < 65536" and r: "ht_bucket_take_if_unlocked mem ht key VAL_TYPE_STRING v = (r, l, ht')"
  obtains (gone) "r = None" "\<not> l" "ht' = ht" "ht_abs mem ht key = None \<or> b_obj (the (ht_abs mem ht key)) \<noteq> v"
  | (locked) b where "r = None" "l" "ht' = ht" "ht_abs mem ht key = Some b" "b_obj b = v" "ht_meta_is_locked (b_meta b)"
  | (taken) b where "r = Some v" "\<not> l" "ht_inv mem ht'" "ht_abs mem ht' = (ht_abs mem ht)(key := None)" "ht_abs mem ht key = Some b" "b_obj b = v"
      "\<not> ht_meta_is_locked (b_meta b)"
proof -
  from i key show thesis
  proof (cases rule: ht_lookup_cases)
    case miss
    then show thesis using gone r by (simp add: ht_bucket_take_if_unlocked_def)
  next
    case (hit x y)
    define b where "b = ht_at ht (x, y)"
    note U = ht_unlink_inv [OF i hit(3,4)]
    have "ht_abs mem (ht_bucket_node_unlink ht (x, y)) = (ht_abs mem ht)(key := None)" using U(2) hit(5) by simp
    moreover have "(r, l, ht') = (if b_obj b \<noteq> v then (None, False, ht) else if ht_meta_is_locked (b_meta b) then (None, True, ht)
        else (Some v, False, ht_bucket_node_unlink ht (x, y)))"
      using r hit(1) by (auto simp: ht_bucket_take_if_unlocked_def Let_def b_def simp del: ht_bucket_node_unlink.simps ht_at.simps)
    ultimately show thesis using gone locked taken U(1) hit(2) unfolding b_def [symmetric]
      by (cases "b_obj b = v"; cases "ht_meta_is_locked (b_meta b)") simp_all
  qed
qed

text \<open>Removing an entry and destroying its object.\<close>

lemma take_destroy_ok:
  assumes ok: "sh_ok s S R L" and t: "ht_inv (store s) ht'" "ht_abs (store s) ht' = (ht_abs (store s) (table s))(key := None)"
    "ht_abs (store s) (table s) key = Some b"
    and s': "s' = shard_obj_destroy env (b_obj b) (s\<lparr>table := ht'\<rparr>)"
  shows "\<exists>S' R'. sh_ok s' S' R' L" "settles L s s'" "same_size s s'" "table s' = ht'"
proof -
  obtain X where X: "sh_inv s X S R (entry_objs (table s) \<union> L)" "listed X = entry_objs (table s)" by (rule sh_okD [OF ok])
  let ?E = "entry_objs (table s)" and ?a = "b_obj b"
  note E = entries_taken [OF sh_ok_table [OF ok] t]
  have L: "L \<inter> ?E = {}" and tt: "ttl_objs (ttl_idx s) \<subseteq> ?E" using ok by (auto simp: sh_ok_def)
  have i1: "sh_inv (s\<lparr>table := ht'\<rparr>) X S R (?E \<union> L)"
    by (rule inv_table [OF X(1) t(1)]) (use E(1,2) X(1) in \<open>auto simp: sh_inv_def\<close>)
  have a: "?a \<in> ?E \<union> L" "?a \<notin> entry_objs (table (s\<lparr>table := ht'\<rparr>))" using E(2,3) by auto
  obtain X' S' R' where D: "sh_inv s' X' S' R' (?E \<union> L - {?a})" "listed X' = listed X - {?a}" "ttl_objs (ttl_idx s') = ttl_objs (ttl_idx s) - {?a}"
    "table s' = ht'" "frame (insert ?a (listed X \<union> ttl_objs (ttl_idx s))) (s\<lparr>table := ht'\<rparr>) s'"
    using destroy_ok [OF i1 a s'] by auto
  have T: "?E \<union> L - {?a} = entry_objs ht' \<union> L" using E(2,3) L by blast
  have "listed X' = entry_objs ht'" "ttl_objs (ttl_idx s') \<subseteq> entry_objs ht'" "L \<inter> entry_objs ht' = {}"
    using D(2,3) X(2) E(2) tt L by auto
  then show "\<exists>S' R'. sh_ok s' S' R' L" using D(1,4) T unfolding sh_ok_def by metis
  have fr: "frame ?E (s\<lparr>table := ht'\<rparr>) s'" by (rule frame_mono [OF D(5)]) (use X(2) tt E(3) in auto)
  then have fr': "frame ?E s s'" by (auto simp: frame_def my_heap_def)
  show "settles L s s'" by (rule frame_settles [OF fr']) (use L E(1) D(4) in auto)
  show "same_size s s'" by (rule frame_same_size [OF fr'])
  show "table s' = ht'" by (rule D(4))
qed

text \<open>Updates of the lists and of the heap between operations.\<close>

lemma touch_ok:
  assumes ok: "sh_ok s S R L" and a: "a \<in> entry_objs (table s)" and s': "s' = do_lru (lru_node_prepend a) s"
  shows "sh_ok s' S R L" "settles L s s'" "same_size s s'" "table s' = table s"
proof -
  obtain X where X: "sh_inv s X S R (entry_objs (table s) \<union> L)" "listed X = entry_objs (table s)" by (rule sh_okD [OF ok])
  have "a \<in> entry_objs (table s) \<union> L" using a by simp
  then obtain X' where P: "sh_inv s' X' S R (entry_objs (table s) \<union> L)" "listed X' = insert a (listed X)" "frame (insert a (listed X)) s s'"
    using inv_lru_prepend [OF X(1)] s' by blast
  show tb: "table s' = table s" by (simp add: s')
  have "ttl_idx s' = ttl_idx s" by (simp add: s')
  moreover have "listed X' = entry_objs (table s)" using P(2) X(2) a by auto
  ultimately show "sh_ok s' S R L" using ok P(1) tb by (auto simp: sh_ok_def)
  have L: "L \<inter> entry_objs (table s) = {}" using ok by (simp add: sh_ok_def)
  show "settles L s s'" by (rule frame_settles [OF P(3)]) (use L X(2) a tb in auto)
  show "same_size s s'" by (rule frame_same_size [OF P(3)])
qed

lemma heap_step_ok:
  assumes ok: "sh_ok s S R L" and f: "heap_same (my_heap s) S R (f (my_heap s)) S' R'" and s': "s' = upd_heap f s"
  shows "sh_ok s' S' R' L" "settles L s s'" "same_size s s'" "table s' = table s"
proof -
  obtain X where X: "sh_inv s X S R (entry_objs (table s) \<union> L)" "listed X = entry_objs (table s)" by (rule sh_okD [OF ok])
  note H = inv_upd_heap [where f = f, OF X(1) f, folded s']
  show tb: "table s' = table s" by (simp add: s')
  have "ttl_idx s' = ttl_idx s" by (simp add: s')
  then show "sh_ok s' S' R' L" using ok H(1) X(2) tb by (auto simp: sh_ok_def)
  show "settles L s s'" by (rule frame_settles [OF H(2)]) (use tb in auto)
  show "same_size s s'" by (rule frame_same_size [OF H(2)])
qed

section \<open>Eviction\<close>

lemma victim_entry:
  assumes ok: "sh_ok s S R L" and v: "evict_victim target s = Some v"
  shows "v \<in> entry_objs (table s)"
proof -
  obtain X where X: "sh_inv s X S R (entry_objs (table s) \<union> L)" "listed X = entry_objs (table s)" by (rule sh_okD [OF ok])
  have tl: "x \<in> set (X p)" if "lru_tail (lrus s) p = Some x" for x p
    using lru_dll [OF sh_invD(2) [OF X(1)], of p] that last_opt_mem by (simp add: dll_def)
  obtain p where "lru_tail (lrus s) p = Some v"
    using v by (auto simp: evict_victim_def split: option.splits)
  then have "v \<in> listed X" using tl unfolding listed_def by blast
  then show ?thesis using X(2) by simp
qed

lemma entry_of:
  assumes ok: "sh_ok s S R L" and v: "v \<in> entry_objs (table s)"
  obtains b where "b_obj b = v" "ht_abs (store s) (table s) (obj_key_get (store s v)) = Some b" "length (obj_key_get (store s v)) < 65536"
proof -
  note i = sh_ok_table [OF ok]
  obtain b where b: "b \<in> set (ht_entries (table s))" "b_obj b = v" using v by (auto simp: entry_objs_def)
  have "obj_wf (store s v)" using i b by (auto simp: ht_inv_def ht_slots_def set_ht_entries bucket_ok_def)
  then show thesis using that b entries_abs [OF i, of b] obj_key_len by (simp add: bkey_def)
qed

definition evicts :: "addr set \<Rightarrow> nat \<Rightarrow> shard \<Rightarrow> shard \<Rightarrow> bool" where
  "evicts L k s s' \<longleftrightarrow> (\<exists>S R. sh_ok s' S R L) \<and> settles L s s' \<and> same_size s s' \<and>
     length (ht_entries (table s)) = length (ht_entries (table s')) + k \<and>
     (\<forall>b \<in> set (ht_entries (table s)) - set (ht_entries (table s')). \<not> ht_meta_is_locked (b_meta b))"

lemma evicts_trans: "evicts L j a b \<Longrightarrow> evicts L k b c \<Longrightarrow> evicts L (j + k) a c"
  unfolding evicts_def using settles_trans [of L a b c] same_size_trans [of a b c] by auto

lemma evict_batch_ok:
  assumes "sh_ok s S R L" "evict_batch n env target s = (k, s')"
  shows "evicts L k s s'"
  using assms
proof (induction n arbitrary: s S R k)
  case 0
  then show ?case by (auto simp: evicts_def settles_refl same_size_def)
next
  case (Suc n)
  note ok = Suc.prems(1)
  show ?case
  proof (cases "evict_victim target s")
    case None
    then show ?thesis using Suc.prems by (auto simp: evicts_def settles_refl same_size_def)
  next
    case (Some v)
    note ve = victim_entry [OF ok Some]
    obtain b where b: "b_obj b = v" "ht_abs (store s) (table s) (obj_key_get (store s v)) = Some b" "length (obj_key_get (store s v)) < 65536"
      by (rule entry_of [OF ok ve])
    obtain r l ht where t: "ht_bucket_take_if_unlocked (store s) (table s) (obj_key_get (store s v)) VAL_TYPE_STRING v = (r, l, ht)"
      by (metis prod_cases3)
    from sh_ok_table [OF ok] b(3) t show ?thesis
    proof (cases rule: take_if_unlocked_cases)
      case gone
      then show ?thesis using b by simp
    next
      case (locked c)
      define u where "u = do_lru (lru_node_prepend v) s"
      note U = touch_ok [OF ok ve u_def]
      have "evict_batch n env target u = (k, s')" using Suc.prems(2) Some t locked by (simp add: u_def)
      then have "evicts L k u s'" by (rule Suc.IH [OF U(1)])
      moreover have "evicts L 0 s u" using U by (auto simp: evicts_def)
      ultimately show ?thesis using evicts_trans [of L 0] by simp
    next
      case (taken c)
      define u where "u = shard_obj_destroy env v (s\<lparr>table := ht\<rparr>)"
      have cb: "c = b" using taken b(2) by simp
      note U = take_destroy_ok [OF ok taken(3,4) b(2), unfolded b(1), OF u_def]
      obtain Su Ru where Su: "sh_ok u Su Ru L" using U(1) by blast
      obtain j where j: "evict_batch n env target u = (j, s')" "k = Suc j"
        using Suc.prems(2) Some t taken by (auto simp: u_def split: prod.splits)
      have "evicts L j u s'" by (rule Suc.IH [OF Su j(1)])
      moreover have "evicts L 1 s u"
        using U entries_taken(1,4) [OF sh_ok_table [OF ok] taken(3,4) b(2)] taken(7) cb by (auto simp: evicts_def)
      ultimately show ?thesis using evicts_trans [of L 1] j(2) by simp
    qed
  qed
qed

lemma reclaim_ok:
  assumes "sh_ok s S R L"
  shows "\<exists>S'. sh_ok (upd_pools pool_span_force_reclaim_all s) S' R L \<and> evicts L 0 s (upd_pools pool_span_force_reclaim_all s)"
proof -
  have hi: "heap_inv (my_heap s) S R" using mem_okD(1) [OF sh_invD(4)] assms by (auto simp: sh_ok_def my_heap_def)
  obtain S' where S': "heap_same (my_heap s) S R ((my_heap s)\<lparr>ph := pool_span_force_reclaim_all (ph (my_heap s))\<rparr>) S' R"
    using reclaim_all_same [OF hi] by blast
  note H = heap_step_ok [where f = "\<lambda>h. h\<lparr>ph := pool_span_force_reclaim_all (ph h)\<rparr>", OF assms S' refl, folded upd_pools_def]
  show ?thesis using H by (auto simp: evicts_def)
qed

lemma hard_ok_ok:
  assumes ok: "sh_ok s S R L"
  shows "\<exists>b u. hard_ok need s = Some (b, u) \<and> sh_ok u S R L \<and> evicts L 0 s u"
proof (cases "need = 0")
  case True
  then show ?thesis using ok by (auto simp: hard_ok_def evicts_def settles_refl same_size_def)
next
  case False
  have hi: "heap_inv (my_heap s) S R" using mem_okD(1) [OF sh_invD(4)] ok by (auto simp: sh_ok_def my_heap_def)
  obtain r b where c: "buddy_span_check need (buddy (ph (my_heap s))) = Some (r, b)"
    "heap_same (my_heap s) S R ((my_heap s)\<lparr>ph := (ph (my_heap s))\<lparr>buddy := b\<rparr>\<rparr>) S R"
    using span_check_same [OF hi] by blast
  note H = heap_step_ok [where f = "\<lambda>h. h\<lparr>ph := (ph h)\<lparr>buddy := b\<rparr>\<rparr>", OF ok c(2) refl]
  have "hard_ok need s = Some (r, upd_heap (\<lambda>h. h\<lparr>ph := (ph h)\<lparr>buddy := b\<rparr>\<rparr>) s)" using False c(1) by (simp add: hard_ok_def upd_pools_def)
  then show ?thesis using H by (auto simp: evicts_def)
qed

lemma evict_loop_ok:
  assumes "sh_ok s S R L" "length (ht_entries (table s)) < fuel"
  shows "\<exists>ok s' k. evict_loop fuel env target size_req need tot s = Some (ok, s') \<and> evicts L k s s' \<and> (ok \<and> size_req \<noteq> 0 \<longrightarrow> soft_ok size_req s')"
  using assms
proof (induction fuel arbitrary: s S R need tot)
  case (Suc fuel)
  obtain n u where b: "evict_batch 100 env target s = (n, u)" by fastforce
  note B = evict_batch_ok [OF Suc.prems(1) b]
  obtain Su Ru where U: "sh_ok u Su Ru L" using B by (auto simp: evicts_def)
  show ?case
  proof (cases "n = 0 \<or> size_req = 0")
    case True
    then show ?thesis using B b by auto
  next
    case False
    define w where "w = (if 200 \<le> tot + n then upd_pools pool_span_force_reclaim_all u else u)"
    define tot' where "tot' = (if 200 \<le> tot + n then 0 else tot + n)"
    define need' where "need' = (if size_req \<le> SMALL_ALLOC_MAX \<and> has_spans target w then 0 else need)"
    obtain Sw where W: "sh_ok w Sw Ru L" "evicts L 0 u w"
      using reclaim_ok [OF U] U by (cases "200 \<le> tot + n") (auto simp: w_def evicts_def settles_refl same_size_def)
    obtain hard y where y: "hard_ok need' w = Some (hard, y)" "sh_ok y Sw Ru L" "evicts L 0 w y" using hard_ok_ok [OF W(1)] by blast
    have e: "evicts L n s y" using evicts_trans [OF evicts_trans [OF B W(2)] y(3)] by simp
    have run: "evict_loop (Suc fuel) env target size_req need tot s =
        (if soft_ok size_req y \<and> hard then Some (True, y) else if used (table y) = 0 then Some (False, y)
         else evict_loop fuel env target size_req need' tot' y)"
    proof -
      have pw: "(if 200 \<le> tot + n then (0, upd_pools pool_span_force_reclaim_all u) else (tot + n, u)) = (tot', w)"
        by (simp add: tot'_def w_def)
      show ?thesis unfolding evict_loop.simps b prod.case pw Let_def need'_def [symmetric] y(1) option.case using False by simp
    qed
    have "length (ht_entries (table y)) < fuel" using e Suc.prems(2) False by (simp add: evicts_def)
    then obtain ok s' k where r: "evict_loop fuel env target size_req need' tot' y = Some (ok, s')" "evicts L k y s'" "ok \<and> size_req \<noteq> 0 \<longrightarrow> soft_ok size_req s'"
      using Suc.IH [OF y(2)] by blast
    show ?thesis unfolding run using r e evicts_trans [OF e r(2)] by auto
  qed
qed simp

text \<open>Eviction ends within the number of entries plus one rounds.\<close>

lemma mem_evict_ok:
  assumes ok: "sh_ok s S R L" and fuel: "evict_fuel s \<le> fuel"
  shows "\<exists>b s' k. shard_mem_evict fuel env size_req s = Some (b, s') \<and> evicts L k s s' \<and> (b \<and> size_req \<noteq> 0 \<longrightarrow> soft_ok size_req s')"
proof -
  define target where "target = (if size_req = 0 then NR_SMALL_POOLS else if size_req \<le> SMALL_ALLOC_MAX then pool_idx_get size_req else NR_SMALL_POOLS)"
  define need where "need = (if size_req = 0 then 0
      else if size_req \<le> SMALL_ALLOC_MAX then (if has_spans target s then 0 else lpages_per_span (pools (ph (my_heap s)) target))
      else ((size_req + LPAGE_SIZE - 1) div LPAGE_SIZE) mod 2 ^ 32)"
  define u where "u = upd_pools pool_span_force_reclaim_all s"
  obtain Su where U: "sh_ok u Su R L" "evicts L 0 s u" using reclaim_ok [OF ok] by (auto simp: u_def)
  obtain hard y where y: "hard_ok need u = Some (hard, y)" "sh_ok y Su R L" "evicts L 0 u y" using hard_ok_ok [OF U(1)] by blast
  have e: "evicts L 0 s y" using evicts_trans [OF U(2) y(3)] by simp
  have "length (ht_entries (table y)) < fuel" using e fuel by (simp add: evicts_def evict_fuel_def ht_entries_def)
  then obtain b s' k where r: "evict_loop fuel env target size_req need 0 y = Some (b, s')" "evicts L k y s'" "b \<and> size_req \<noteq> 0 \<longrightarrow> soft_ok size_req s'"
    using evict_loop_ok [OF y(2)] by blast
  have run: "shard_mem_evict fuel env size_req s =
      (if size_req \<noteq> 0 \<and> soft_ok size_req y \<and> hard then Some (True, y) else evict_loop fuel env target size_req need 0 y)"
    using y(1) unfolding shard_mem_evict_def Let_def u_def [symmetric] target_def [symmetric] need_def [symmetric] by simp
  show ?thesis unfolding run using r e evicts_trans [OF e r(2)] by auto
qed

lemma evict_now_ok:
  assumes "sh_ok s S R L" "evict_now env size_req s = (b, s')"
  shows "\<exists>k. evicts L k s s'"
  using mem_evict_ok [OF assms(1) order_refl, of env size_req] assms(2) by (auto simp: evict_now_def)

text \<open>The shard as a client of the allocator, with its own eviction as the callback.\<close>

interpretation shard_heap: malloc_client my_heap upd_heap "Some (shard_evict_callback env)" "\<lambda>s S R. sh_ok s S R L" "settles L" for env L
proof unfold_locales
  fix s :: shard and S R h S' R' f
  show "sh_ok s S R L \<Longrightarrow> heap_inv (my_heap s) S R"
    using mem_okD(1) [OF sh_invD(4)] by (auto simp: sh_ok_def my_heap_def)
  show "upd_heap f s = upd_heap (\<lambda>_. f (my_heap s)) s" by (simp add: upd_heap_def set_heap_def my_heap_def)
  show "my_heap (upd_heap (\<lambda>_. h) s) = h" by (simp add: upd_heap_def set_heap_def my_heap_def)
  assume ok: "sh_ok s S R L" and e: "extends (my_heap s) S R h S' R'"
  obtain X where X: "sh_inv s X S R (entry_objs (table s) \<union> L)" "listed X = entry_objs (table s)" by (rule sh_okD [OF ok])
  have "mem_ok (set_heap (sh_id s) (\<lambda>_. h) (gmem s)) (sh_id s) S' R'"
    "mem_live (set_heap (sh_id s) (\<lambda>_. h) (gmem s)) (sh_id s) S' R' = heap_live h S' R'"
    by (rule mem_set_ok [OF sh_invD(4) [OF X(1)]]; use e in \<open>simp add: extends_def my_heap_def\<close>)+
  moreover have "mem_live (gmem s) (sh_id s) S R \<subseteq> heap_live h S' R'" using e by (simp add: extends_def mem_live_def my_heap_def)
  ultimately have "sh_inv (upd_heap (\<lambda>_. h) s) X S' R' (entry_objs (table s) \<union> L)" using X(1)
    unfolding sh_inv_def by (simp add: upd_heap_def) blast
  then have "sh_ok (upd_heap (\<lambda>_. h) s) S' R' L" using ok X(2) by (auto simp: sh_ok_def)
  moreover have "settles L s (upd_heap (\<lambda>_. h) s)" by (simp add: settles_def) (simp add: upd_heap_def set_heap_def)
  ultimately show "sh_ok (upd_heap (\<lambda>_. h) s) S' R' L \<and> settles L s (upd_heap (\<lambda>_. h) s)" ..
next
  fix e :: "nat \<Rightarrow> shard \<Rightarrow> nat \<times> shard" and s S R n k s'
  assume e: "Some (shard_evict_callback env) = Some e" "sh_ok s S R L" "e n s = (k, s')"
  obtain b where "evict_now env n s = (b, s')" using e by (auto simp: shard_evict_callback_def split: prod.splits)
  then show "\<exists>S' R'. sh_ok s' S' R' L \<and> settles L s s' \<and> data_committed (my_heap s') = data_committed (my_heap s) \<and>
      data_reserved (my_heap s') = data_reserved (my_heap s)"
    using evict_now_ok [OF e(2)] by (auto simp: evicts_def same_size_def)
qed (auto intro: settles_refl settles_trans)

lemma shard_malloc_ok:
  assumes ok: "sh_ok s S R L" and m: "shard_malloc env sz s = (r, s')"
  shows "\<exists>S' R'. sh_ok s' S' R' L \<and> settles L s s' \<and> (case r of None \<Rightarrow> True
    | Some x \<Rightarrow> x \<in> mem_live (gmem s') (sh_id s') S' R' \<and> x \<notin> entry_objs (table s') \<and> x \<notin> L)"
proof -
  obtain S' R' where K: "sh_ok s' S' R' L" "settles L s s'" "case r of None \<Rightarrow> True
    | Some x \<Rightarrow> \<exists>s1 S1 R1 h. sh_ok s1 S1 R1 L \<and> settles L s s1 \<and> s' = upd_heap (\<lambda>_. h) s1 \<and> x \<notin> heap_live (my_heap s1) S1 R1 \<and>
        heap_live h S' R' = insert x (heap_live (my_heap s1) S1 R1)"
    using shard_heap.malloc_ok [OF ok m [unfolded shard_malloc_def]] by blast
  have "case r of None \<Rightarrow> True | Some x \<Rightarrow> x \<in> mem_live (gmem s') (sh_id s') S' R' \<and> x \<notin> entry_objs (table s') \<and> x \<notin> L"
  proof (cases r)
    case (Some x)
    obtain s1 S1 R1 h where h: "sh_ok s1 S1 R1 L" "s' = upd_heap (\<lambda>_. h) s1" "x \<notin> heap_live (my_heap s1) S1 R1"
      "heap_live h S' R' = insert x (heap_live (my_heap s1) S1 R1)" using K(3) Some by auto
    obtain X where X: "sh_inv s1 X S1 R1 (entry_objs (table s1) \<union> L)" by (rule sh_okD [OF h(1)])
    have "entry_objs (table s1) \<union> L \<subseteq> heap_live (my_heap s1) S1 R1" using sh_invD(8) [OF X] by (simp add: mem_live_def my_heap_def)
    moreover have "mem_live (gmem s') (sh_id s') S' R' = heap_live h S' R'" by (simp add: h(2)) (simp add: upd_heap_def mem_live_def set_heap_def)
    ultimately show ?thesis using Some h(2-4) by auto
  qed simp
  then show ?thesis using K by blast
qed

section \<open>Writing to the table\<close>

lemma ht_bucket_put_abs:
  assumes "ht_inv mem ht" "obj_wf (mem ob)" "ht_bucket_put mem g1 g2 ht ob VAL_TYPE_STRING expire HT_PUT_NONE = (r, ht', [])"
  shows "ht_inv mem ht' \<and> ht_abs mem ht' = put_abs mem (ht_abs mem ht) ob expire r \<and> r \<noteq> Put_Cond \<and>
    (case r of
       Put_New \<Rightarrow> ht_abs mem ht (obj_key_get (mem ob)) = None
     | Put_Old old \<Rightarrow> map_option b_obj (ht_abs mem ht (obj_key_get (mem ob))) = Some old
     | _ \<Rightarrow> ht_abs mem ht (obj_key_get (mem ob)) = None)"
proof -
  obtain h where p: "ht_put_prepare g1 g2 ht = (h, [])" and e: "ht_put_entry mem g2 h ob VAL_TYPE_STRING expire HT_PUT_NONE = (r, ht')"
    using assms(3) by (auto simp: ht_bucket_put_def split: prod.splits)
  note h = ht_put_prepare_abs [OF assms(1) p]
  show ?thesis using ht_put_entry_abs [OF h(1) assms(2) e] unfolding h(2) by (cases r) (simp_all add: HT_PUT_NONE_def)
qed

lemma entries_put:
  assumes i: "ht_inv mem ht" "ht_inv mem ht'" and k: "ht_abs mem ht' = (ht_abs mem ht)(key \<mapsto> c)" "bkey mem c = key"
  shows "set (ht_entries ht') = insert c {b \<in> set (ht_entries ht). bkey mem b \<noteq> key}"
proof (rule set_eqI)
  fix b show "b \<in> set (ht_entries ht') \<longleftrightarrow> b \<in> insert c {b \<in> set (ht_entries ht). bkey mem b \<noteq> key}"
    using entries_abs [OF i(1), of b] entries_abs [OF i(2), of b] k by auto
qed

lemma entry_objs_put:
  assumes i: "ht_inv mem ht" "ht_inv mem ht'" and k: "ht_abs mem ht' = (ht_abs mem ht)(key \<mapsto> c)" "bkey mem c = key"
  shows "ht_abs mem ht key = None \<Longrightarrow> entry_objs ht' = insert (b_obj c) (entry_objs ht)"
    "ht_abs mem ht key = Some b \<Longrightarrow> entry_objs ht' = insert (b_obj c) (entry_objs ht - {b_obj b})"
proof -
  note E = entries_put [OF assms]
  show "ht_abs mem ht key = None \<Longrightarrow> entry_objs ht' = insert (b_obj c) (entry_objs ht)"
    using ht_abs_None [of mem ht key] unfolding entry_objs_def E by auto
  assume b: "ht_abs mem ht key = Some b"
  then have bm: "b \<in> set (ht_entries ht)" "bkey mem b = key" using ht_abs_iff [of mem ht key b] i(1) by (simp_all add: ht_inv_def)
  have one: "x = b" if "x \<in> set (ht_entries ht)" "bkey mem x = key" for x using entries_abs [OF i(1), of x] that b by simp
  have "{x \<in> set (ht_entries ht). bkey mem x \<noteq> key} = set (ht_entries ht) - {b}" using one bm(2) by blast
  moreover have "b_obj ` (set (ht_entries ht) - {b}) = b_obj ` set (ht_entries ht) - {b_obj b}"
  proof -
    have "inj_on b_obj (set (ht_entries ht))" by (rule inj_onI) (rule entries_inj [OF i(1)])
    then show ?thesis using inj_on_image_set_diff [of b_obj "set (ht_entries ht)" "set (ht_entries ht)" "{b}"] bm(1) by simp
  qed
  ultimately show "entry_objs ht' = insert (b_obj c) (entry_objs ht - {b_obj b})" unfolding entry_objs_def E by simp
qed

lemma same_map_ok:
  assumes ok: "sh_ok s S R L" and t: "ht_inv (store s) ht'" "ht_abs (store s) ht' = ht_abs (store s) (table s)"
  shows "sh_ok (s\<lparr>table := ht'\<rparr>) S R L" "settles L s (s\<lparr>table := ht'\<rparr>)"
proof -
  have e: "set (ht_entries ht') = set (ht_entries (table s))"
    using entries_abs [OF t(1)] entries_abs [OF sh_ok_table [OF ok]] t(2) by auto
  then have eo: "entry_objs ht' = entry_objs (table s)" by (simp add: entry_objs_def)
  obtain X where X: "sh_inv s X S R (entry_objs (table s) \<union> L)" "listed X = entry_objs (table s)" by (rule sh_okD [OF ok])
  have "sh_inv (s\<lparr>table := ht'\<rparr>) X S R (entry_objs (table s) \<union> L)"
    by (rule inv_table [OF X(1) t(1)]) (use eo X(1) in \<open>auto simp: sh_inv_def e\<close>)
  then show "sh_ok (s\<lparr>table := ht'\<rparr>) S R L" using ok X(2) by (auto simp: sh_ok_def eo)
  show "settles L s (s\<lparr>table := ht'\<rparr>)" by (simp add: settles_def e)
qed

text \<open>
  A put of \<open>ob\<close> that lost no entry: the state \<open>u\<close> just before the last attempt has at most lost entries to eviction, and the
  new table is that of \<open>u\<close> with the key bound to \<open>ob\<close> unless the table was full.
\<close>

definition put_done :: "shard \<Rightarrow> addr \<Rightarrow> u64 \<Rightarrow> put_result \<Rightarrow> hash_table \<Rightarrow> bool" where
  "put_done u ob e r ht \<longleftrightarrow> ht_inv (store u) ht \<and> ht_abs (store u) ht = put_abs (store u) (ht_abs (store u) (table u)) ob e r \<and> r \<noteq> Put_Cond \<and>
    (case r of
       Put_New \<Rightarrow> ht_abs (store u) (table u) (obj_key_get (store u ob)) = None
     | Put_Old old \<Rightarrow> map_option b_obj (ht_abs (store u) (table u) (obj_key_get (store u ob))) = Some old
     | _ \<Rightarrow> ht_abs (store u) (table u) (obj_key_get (store u ob)) = None)"

lemma table_put_ok:
  assumes ok: "sh_ok s S R L" and wf: "obj_wf (store s ob)" and p: "table_put env ob VAL_TYPE_STRING e HT_PUT_NONE s = (r, s')"
    and d: "dropped s' = dropped s"
  shows "\<exists>ht. s' = s\<lparr>table := ht\<rparr> \<and> put_done s ob e r ht"
proof -
  obtain ht lost where b: "ht_bucket_put (store s) (grow_ht env) (grow_ovf env) (table s) ob VAL_TYPE_STRING e HT_PUT_NONE = (r, ht, lost)"
    and s': "s' = s\<lparr>table := ht, dropped := dropped s @ lost\<rparr>"
    using p by (auto simp: table_put_def split: prod.splits)
  have l: "lost = []" using d s' by simp
  have "s' = s\<lparr>table := ht\<rparr>" using s' l by simp
  then show ?thesis using ht_bucket_put_abs [OF sh_ok_table [OF ok] wf b [unfolded l]] unfolding put_done_def by blast
qed

lemma table_put_dropped: "table_put env ob type e fl s = (r, s') \<Longrightarrow> \<exists>lost. dropped s' = dropped s @ lost"
  by (auto simp: table_put_def split: prod.splits)

lemma settles_absent:
  assumes st: "settles L s s'" and k: "ht_abs (store s) (table s) key = None"
  shows "ht_abs (store s') (table s') key = None"
  unfolding ht_abs_None
proof
  fix b assume "b \<in> set (ht_entries (table s'))"
  then have b: "b \<in> set (ht_entries (table s))" using st by (auto simp: settles_def)
  have pl: "payload (store s' (b_obj b)) = payload (store s (b_obj b))" using st by (simp add: settles_def)
  have "bkey (store s') b = bkey (store s) b" using payload_fields(5) [OF pl] by (simp add: bkey_def)
  then show "bkey (store s') b \<noteq> key" using k b unfolding ht_abs_None by simp
qed

lemma destroy_dropped [simp]: "dropped (shard_obj_destroy env a s) = dropped s"
  by (simp add: shard_obj_destroy_def Let_def shard_obj_unref_def shard_obj_free_def snap_part_def)

lemma evict_batch_dropped: "evict_batch n env target s = (k, s') \<Longrightarrow> dropped s' = dropped s"
proof (induction n arbitrary: s k)
  case (Suc n)
  show ?case using Suc.prems
    by (auto split: option.splits prod.splits bool.splits dest!: Suc.IH)
qed simp

lemma upd_pools_dropped [simp]: "dropped (upd_pools f s) = dropped s"
  by (simp add: upd_pools_def)

lemma hard_ok_dropped: "hard_ok need s = Some (h, u) \<Longrightarrow> dropped u = dropped s"
  by (auto simp: hard_ok_def split: if_splits)

lemma evict_loop_dropped: "evict_loop fuel env target n need tot s = Some (b, s') \<Longrightarrow> dropped s' = dropped s"
proof (induction fuel arbitrary: need tot s)
  case (Suc fuel)
  obtain k u where b: "evict_batch 100 env target s = (k, u)" by fastforce
  then have u: "dropped u = dropped s" by (rule evict_batch_dropped)
  show ?case using Suc.prems b u
    by (auto simp: Let_def split: if_splits option.splits prod.splits dest!: hard_ok_dropped Suc.IH)
qed simp

lemma evict_now_dropped: "dropped (snd (evict_now env n s)) = dropped s"
proof -
  have "dropped s' = dropped s" if "shard_mem_evict fuel env n s = Some (b, s')" for fuel b s'
    using that by (auto simp: shard_mem_evict_def Let_def split: if_splits option.splits prod.splits dest!: hard_ok_dropped evict_loop_dropped)
  then show ?thesis by (auto simp: evict_now_def split: option.splits)
qed

lemma bucket_put_ok:
  assumes ok: "sh_ok s S R L" and ob: "ob \<in> entry_objs (table s) \<union> L" "obj_wf (store s ob)"
    and p: "shard_bucket_put env ob VAL_TYPE_STRING e HT_PUT_NONE s = (r, s')" and d: "dropped s' = dropped s"
  shows "\<exists>u S' R' ht. sh_ok u S' R' L \<and> settles L s u \<and> s' = u\<lparr>table := ht\<rparr> \<and> put_done u ob e r ht \<and>
    (ht_abs (store s) (table s) (obj_key_get (store s ob)) \<noteq> None \<longrightarrow> u = s)"
proof -
  obtain r1 s1 where p1: "table_put env ob VAL_TYPE_STRING e HT_PUT_NONE s = (r1, s1)" by fastforce
  obtain lost1 where l1: "dropped s1 = dropped s @ lost1" using table_put_dropped [OF p1] by blast
  show ?thesis
  proof (cases "r1 = Put_Full")
    case False
    then have "r = r1" "s' = s1" using p p1 by (auto simp: shard_bucket_put_def split: put_result.splits)
    then show ?thesis using table_put_ok [OF ok ob(2) p1] d ok settles_refl [of L s] by blast
  next
    case True
    obtain b s2 where e2: "evict_now env 0 s1 = (b, s2)" by fastforce
    have pr: "(if b then table_put env ob VAL_TYPE_STRING e HT_PUT_NONE s2 else (Put_Full, s2)) = (r, s')"
      using p p1 True e2 by (auto simp: shard_bucket_put_def split: bool.splits)
    obtain lost2 where l2: "dropped s' = dropped s2 @ lost2"
      using pr table_put_dropped [of env ob VAL_TYPE_STRING e HT_PUT_NONE s2 r s'] by (cases b) auto
    have d2: "dropped s2 = dropped s1" using evict_now_dropped [of env 0 s1] e2 by simp
    then have d1: "dropped s1 = dropped s" "dropped s' = dropped s2" using l1 l2 d by simp_all
    obtain ht1 where t1: "s1 = s\<lparr>table := ht1\<rparr>" "put_done s ob e Put_Full ht1" using table_put_ok [OF ok ob(2) p1 d1(1)] True by blast
    have m1: "ht_inv (store s) ht1" "ht_abs (store s) ht1 = ht_abs (store s) (table s)" "ht_abs (store s) (table s) (obj_key_get (store s ob)) = None"
      using t1(2) by (simp_all add: put_done_def put_abs_def)
    note S1 = same_map_ok [OF ok m1(1,2), folded t1(1)]
    obtain k where E: "evicts L k s1 s2" using evict_now_ok [OF S1(1) e2] by blast
    obtain S2 R2 where S2: "sh_ok s2 S2 R2 L" using E by (auto simp: evicts_def)
    have st: "settles L s s2" using settles_trans [OF S1(2)] E by (simp add: evicts_def)
    have pl: "payload (store s2 x) = payload (store s x)" for x using st by (simp add: settles_def)
    have wf2: "obj_wf (store s2 ob)" using payload_fields(7) [OF pl] ob(2) by simp
    have none: "ht_abs (store s2) (table s2) (obj_key_get (store s2 ob)) = None"
      using settles_absent [OF st m1(3)] payload_fields(5) [OF pl] by simp
    have "\<exists>ht. s' = s2\<lparr>table := ht\<rparr> \<and> put_done s2 ob e r ht"
    proof (cases b)
      case True
      then have "table_put env ob VAL_TYPE_STRING e HT_PUT_NONE s2 = (r, s')" using pr by simp
      then show ?thesis by (rule table_put_ok [OF S2 wf2 _ d1(2)])
    next
      case False
      then have "r = Put_Full" "s' = s2\<lparr>table := table s2\<rparr>" using pr by simp_all
      then show ?thesis using sh_ok_table [OF S2] none by (intro exI [of _ "table s2"]) (simp add: put_done_def put_abs_def)
    qed
    then show ?thesis using S2 st m1(3) by blast
  qed
qed

lemma kv_payload:
  assumes p: "\<And>x. payload (store s' x) = payload (store s x)"
  shows "kv_abs s' = (\<lambda>k. map_option (\<lambda>b. (obj_val_get (store s (b_obj b)), b_expire b)) (ht_abs (store s) (table s') k))"
proof -
  have "ht_abs (store s') (table s') = ht_abs (store s) (table s')" by (rule ht_payload(2)) (rule p)
  then show ?thesis using payload_fields(6) [OF p] by (simp add: fun_eq_iff kv_abs_def)
qed

lemma put_entries:
  assumes u: "sh_ok u S R {ob}" and p: "put_done u ob e r ht" "r \<noteq> Put_Full" and wf: "obj_wf (store u ob)"
  shows "set (ht_entries ht) \<subseteq> insert (new_bucket (store u) ob e) (set (ht_entries (table u)))"
    "new_bucket (store u) ob e \<in> set (ht_entries ht)"
    "entry_objs ht = insert ob (case r of Put_Old old \<Rightarrow> entry_objs (table u) - {old} | _ \<Rightarrow> entry_objs (table u))"
    "r = Put_Old old \<Longrightarrow> old \<in> entry_objs (table u)"
proof -
  let ?key = "obj_key_get (store u ob)" and ?nb = "new_bucket (store u) ob e"
  have a: "ht_abs (store u) ht = (ht_abs (store u) (table u))(?key \<mapsto> ?nb)" using p by (auto simp: put_done_def put_abs_def split: put_result.splits)
  have i: "ht_inv (store u) (table u)" "ht_inv (store u) ht" using sh_ok_table [OF u] p(1) by (simp_all add: put_done_def)
  have nb: "bkey (store u) ?nb = ?key" "b_obj ?nb = ob" by (rule new_bucket_key) (simp add: new_bucket_def)
  have E: "set (ht_entries ht) = insert ?nb {b \<in> set (ht_entries (table u)). bkey (store u) b \<noteq> ?key}" by (rule entries_put [OF i a nb(1)])
  then show "set (ht_entries ht) \<subseteq> insert ?nb (set (ht_entries (table u)))" "?nb \<in> set (ht_entries ht)" by auto
  note O = entry_objs_put [OF i a nb(1), unfolded nb(2)]
  show "entry_objs ht = insert ob (case r of Put_Old old \<Rightarrow> entry_objs (table u) - {old} | _ \<Rightarrow> entry_objs (table u))"
    using O p by (cases r) (auto simp: put_done_def)
  show "old \<in> entry_objs (table u)" if ro: "r = Put_Old old"
  proof -
    obtain b where b: "ht_abs (store u) (table u) ?key = Some b" "b_obj b = old"
      using p(1) unfolding ro by (auto simp: put_done_def)
    then have "b \<in> set (ht_entries (table u))" using ht_abs_iff [of "store u" "table u" ?key b] i(1) by (simp add: ht_inv_def)
    then show ?thesis using b(2) by (auto simp: entry_objs_def)
  qed
qed

text \<open>What follows a successful put of a new object: the object is linked, the old one destroyed, the expiry entered.\<close>

lemma put_new_ok:
  assumes u: "sh_ok u S R {ob}" and p: "put_done u ob e r ht" "r \<noteq> Put_Full" and wf: "obj_wf (store u ob)"
    and s5: "s5 = do_lru (lru_node_prepend ob) (u\<lparr>table := ht\<rparr>)"
    and s6: "s6 = (case r of Put_Old old \<Rightarrow> shard_obj_destroy env old s5 | _ \<Rightarrow> s5)"
    and s7: "s7 = (if 0 < e then ttl_push env ob e s6 else s6)"
  shows "\<exists>S' R'. sh_ok s7 S' R' {}" "kv_abs s7 = (kv_abs u)(obj_key_get (store u ob) \<mapsto> (obj_val_get (store u ob), e))"
proof -
  let ?E = "entry_objs (table u)" and ?E' = "entry_objs ht" and ?nb = "new_bucket (store u) ob e"
  obtain X where X: "sh_inv u X S R (?E \<union> {ob})" "listed X = ?E" by (rule sh_okD [OF u])
  note P = put_entries [OF u p wf]
  have obE: "ob \<notin> ?E" and tt: "ttl_objs (ttl_idx u) \<subseteq> ?E" using u by (auto simp: sh_ok_def)
  have nbo: "b_obj ?nb = ob" "b_expire ?nb = e" by (simp_all add: new_bucket_def)
  have iht: "ht_inv (store u) ht" using p(1) by (simp add: put_done_def)
  have "?E' \<subseteq> insert ob ?E" using P(3) by (auto split: put_result.splits)
  then have sub: "?E' \<subseteq> ?E \<union> {ob}" by blast
  have i4: "sh_inv (u\<lparr>table := ht\<rparr>) X S R (?E \<union> {ob})"
  proof (rule inv_table [OF X(1) iht sub])
    fix n b assume n: "n \<in> set (theap (ttl_idx u))" and b: "b \<in> set (ht_entries ht)"
    have "n_obj n \<in> ttl_objs (ttl_idx u)" using n by (simp add: ttl_objs_def)
    then have "n_obj n \<noteq> ob" using tt obE by auto
    moreover have "b = ?nb \<or> b \<in> set (ht_entries (table u))" using P(1) b by blast
    ultimately show "n_obj n = b_obj b \<longrightarrow> n_expire n = b_expire b" using X(1) n nbo by (auto simp: sh_inv_def)
  qed
  have obT: "ob \<in> ?E \<union> {ob}" by simp
  obtain X5 where i5: "sh_inv s5 X5 S R (?E \<union> {ob})" "listed X5 = insert ob ?E" "frame (insert ob ?E) (u\<lparr>table := ht\<rparr>) s5"
    using inv_lru_prepend [OF i4 obT] s5 X(2) by auto
  have f5: "table s5 = ht" "ttl_idx s5 = ttl_idx u" by (simp_all add: s5)
  have pl5: "payload (store s5 x) = payload (store u x)" for x using i5(3) by (simp add: frame_def)
  have "\<exists>X6 S6 R6. sh_inv s6 X6 S6 R6 ?E' \<and> listed X6 = ?E' \<and> ttl_objs (ttl_idx s6) \<subseteq> ?E' \<and> ob \<notin> ttl_objs (ttl_idx s6) \<and> table s6 = ht \<and>
      (\<forall>x. payload (store s6 x) = payload (store u x))"
  proof (cases "\<exists>old. r = Put_Old old")
    case False
    have e: "?E' = insert ob ?E" using False P(3) by (auto split: put_result.splits)
    have "s6 = s5" using False by (auto simp: s6 split: put_result.splits)
    then show ?thesis using i5(1,2) f5 pl5 tt obE e by (intro exI [of _ X5] exI [of _ S] exI [of _ R]) auto
  next
    case True
    then obtain old where r: "r = Put_Old old" by blast
    have e: "?E' = insert ob (?E - {old})" using r P(3) by simp
    have old: "old \<in> ?E \<union> {ob}" "old \<noteq> ob" using P(4) [OF r] obE by auto
    have "old \<notin> entry_objs (table s5)" using e old(2) f5 by simp
    moreover have "s6 = shard_obj_destroy env old s5" using r by (simp add: s6)
    ultimately obtain X6 S6 R6 where D: "sh_inv s6 X6 S6 R6 (?E \<union> {ob} - {old})" "listed X6 = listed X5 - {old}"
      "ttl_objs (ttl_idx s6) = ttl_objs (ttl_idx s5) - {old}" "table s6 = table s5" "frame (insert old (listed X5 \<union> ttl_objs (ttl_idx s5))) s5 s6"
      using destroy_ok [OF i5(1) old(1)] by blast
    have "?E \<union> {ob} - {old} = ?E'" using e old(2) by auto
    moreover have "payload (store s6 x) = payload (store u x)" for x using D(5) pl5 by (simp add: frame_def)
    ultimately show ?thesis using D f5 i5(2) tt obE e old(2) by (intro exI [of _ X6] exI [of _ S6] exI [of _ R6]) auto
  qed
  then obtain X6 S6 R6 where i6: "sh_inv s6 X6 S6 R6 ?E'" "listed X6 = ?E'" "ttl_objs (ttl_idx s6) \<subseteq> ?E'" "ob \<notin> ttl_objs (ttl_idx s6)"
    "table s6 = ht" "\<And>x. payload (store s6 x) = payload (store u x)" by blast
  have ob': "ob \<in> ?E'" using P(3) by simp
  have ex: "b_obj b = ob \<longrightarrow> b_expire b = e" if "b \<in> set (ht_entries (table s6))" for b
    using entries_inj [OF iht, of b ?nb] that P(2) nbo i6(5) by auto
  note Q = inv_ttl_push [where env = env and e = e, OF i6(1) ob' i6(4) ex]
  have i7: "sh_inv s7 X6 S6 R6 ?E'" "ttl_objs (ttl_idx s7) \<subseteq> ?E'" "table s7 = ht" "\<And>x. payload (store s7 x) = payload (store u x)"
    using Q i6 ob' by (auto simp: s7 frame_def)
  then show "\<exists>S' R'. sh_ok s7 S' R' {}" using i6(2) unfolding sh_ok_def by auto
  have a: "ht_abs (store u) ht = (ht_abs (store u) (table u))(obj_key_get (store u ob) \<mapsto> ?nb)"
    using p by (auto simp: put_done_def put_abs_def split: put_result.splits)
  show "kv_abs s7 = (kv_abs u)(obj_key_get (store u ob) \<mapsto> (obj_val_get (store u ob), e))"
    unfolding kv_payload [OF i7(4)] i7(3) a using nbo by (auto simp: fun_eq_iff kv_abs_def)
qed

section \<open>Key operations\<close>

lemma inv_new:
  assumes inv: "sh_inv s X S R T" and a: "a \<notin> T" "a \<in> mem_live (gmem s) (sh_id s) S R"
    and new: "obj_ok new" "heap_idx new = HEAP_IDX_NONE" "lru_prev new = None" "lru_next new = None"
  shows "sh_inv (upd_obj a (\<lambda>_. new) s) X S R (insert a T)"
proof -
  let ?m = "(store s)(a := new)"
  have ne: "?m x = store s x" if "x \<in> T" for x using that a(1) by auto
  have "ht_inv ?m (table s) = ht_inv (store s) (table s)"
  proof (rule ht_payload(1))
    fix b assume "b \<in> set (ht_entries (table s))"
    then have "b_obj b \<in> T" using sh_invD(5) [OF inv] by (auto simp: entry_objs_def)
    then show "payload (?m (b_obj b)) = payload (store s (b_obj b))" using ne by metis
  qed
  moreover have "lru_ok (lrus s, ?m) X = lru_ok (lrus s, store s) X"
  proof (rule lru_ok_cong)
    fix p x assume "x \<in> set (X p)"
    then have "x \<in> T" using sh_invD(6) [OF inv] by (auto simp: listed_def)
    then show "lnk (?m x) = lnk (store s x) \<and> pool_idx (?m x) = pool_idx (store s x)" using ne by simp
  qed
  moreover have "ttl_inv (ttl_idx s) ?m = ttl_inv (ttl_idx s) (store s)" 
  proof (rule ttl_inv_cong)
    fix x assume "x \<in> ttl_objs (ttl_idx s)"
    then have "x \<in> T" by (rule subsetD [OF sh_invD(7) [OF inv]])
    then show "heap_idx (?m x) = heap_idx (store s x)" by (simp only: ne)
  qed
  moreover have "obj_ok (?m x) \<and> (heap_idx (?m x) \<noteq> HEAP_IDX_NONE \<longrightarrow> x \<in> ttl_objs (ttl_idx s)) \<and> (x \<notin> listed X \<longrightarrow> detached ?m x)"
    if "x \<in> insert a T" for x
  proof (cases "x = a")
    case True
    then show ?thesis using new by (simp add: detached_def)
  next
    case False
    then show ?thesis using that sh_inv_obj [OF inv, of x] ne by (auto simp: detached_def)
  qed
  ultimately show ?thesis using inv a by (auto simp: sh_inv_def upd_obj_def)
qed

lemma pool_idx_le: "pool_idx_get sz \<le> NR_SMALL_POOLS"
  by (auto simp: pool_idx_get_def find_Some_iff split: option.split)

lemma le64_behind: "le64 (xs @ ys) (length xs) = le64 ys 0"
  by (simp add: le64_def nth_append numeral_2_eq_2)

text \<open>A new object holds its key and value, when their lengths fit the fields.\<close>

lemma new_kv_obj_ok:
  assumes k: "length key < 65536" and v: "length val < 2 ^ 32" and z: "val \<noteq> [] \<or> le64 (0 # slack env) 0 = 0"
  shows "obj_ok (new_kv_obj env tot key val e)" "obj_wf (new_kv_obj env tot key val e)"
    "obj_key_get (new_kv_obj env tot key val e) = key" "obj_val_get (new_kv_obj env tot key val e) = val"
    "heap_idx (new_kv_obj env tot key val e) = HEAP_IDX_NONE" "lru_prev (new_kv_obj env tot key val e) = None"
    "lru_next (new_kv_obj env tot key val e) = None"
proof -
  have kl: "unat (of_nat (length key) :: u16) = length key" using k by (simp add: unat_of_nat)
  have vl: "unat (of_nat (length val) :: u32) = length val" using v by (simp add: unat_of_nat)
  have pl: "unat (of_nat (pool_idx_get tot) :: u32) = pool_idx_get tot" "unat (of_nat NR_SMALL_POOLS :: u32) = NR_SMALL_POOLS"
    using pool_idx_le [of tot] by (simp_all add: unat_of_nat NR_SMALL_POOLS_def)
  have "le64 (key @ val @ [0] @ slack env) (length key) = 0" if "of_nat (length val) = (0 :: u32)"
  proof -
    have "val = []" using vl that by (metis length_0_conv unsigned_0)
    then show ?thesis using z by (simp add: le64_behind)
  qed
  then show "obj_ok (new_kv_obj env tot key val e)"
    using pl pool_idx_le [of tot] kl vl by (auto simp: obj_ok_def new_kv_obj_def LRU_POOLS_def obj_val_ptr_get_def)
  show "obj_wf (new_kv_obj env tot key val e)" "obj_key_get (new_kv_obj env tot key val e) = key" "obj_val_get (new_kv_obj env tot key val e) = val"
    using kl vl by (simp_all add: obj_wf_def obj_key_get_def obj_val_get_def new_kv_obj_def)
qed (simp_all add: new_kv_obj_def)

lemma new_obj_ok:
  assumes ok: "sh_ok s S R {}" and a: "a \<in> mem_live (gmem s) (sh_id s) S R" "a \<notin> entry_objs (table s)"
    and new: "obj_ok new" "heap_idx new = HEAP_IDX_NONE" "lru_prev new = None" "lru_next new = None"
    and s': "s' = upd_obj a (\<lambda>_. new) s"
  shows "sh_ok s' S R {a}" "kv_abs s' = kv_abs s" "store s' a = new"
proof -
  obtain X where X: "sh_inv s X S R (entry_objs (table s) \<union> {})" "listed X = entry_objs (table s)" by (rule sh_okD [OF ok])
  have "sh_inv s' X S R (insert a (entry_objs (table s) \<union> {}))" unfolding s' by (rule inv_new [OF X(1) _ a(1) new]) (use a(2) in simp)
  then show "sh_ok s' S R {a}" using ok X(2) a(2) by (auto simp: sh_ok_def s')
  have e: "store s' x = store s x" if "x \<noteq> a" for x using that by (simp add: s' upd_obj_def)
  have ab: "ht_abs (store s') (table s) = ht_abs (store s) (table s)"
  proof (rule ht_payload(2))
    fix b assume "b \<in> set (ht_entries (table s))"
    then have "b_obj b \<noteq> a" using a(2) by (auto simp: entry_objs_def)
    then show "payload (store s' (b_obj b)) = payload (store s (b_obj b))" by (simp add: e)
  qed
  show "kv_abs s' = kv_abs s"
  proof
    fix k show "kv_abs s' k = kv_abs s k"
    proof (cases "ht_abs (store s) (table s) k")
      case (Some b)
      then have "b \<in> set (ht_entries (table s))" using ht_abs_iff [of "store s" "table s" k b] sh_ok_table [OF ok] by (simp add: ht_inv_def)
      then have "b_obj b \<noteq> a" using a(2) by (auto simp: entry_objs_def)
      then show ?thesis using Some ab e by (simp add: kv_abs_def s')
    qed (use ab in \<open>simp add: kv_abs_def s'\<close>)
  qed
  show "store s' a = new" by (simp add: s' upd_obj_def)
qed

lemma put_full_ok:
  assumes u: "sh_ok u S R {ob}" and p: "put_done u ob e Put_Full ht" and s': "s' = shard_obj_destroy env ob (u\<lparr>table := ht\<rparr>)"
  shows "\<exists>S' R'. sh_ok s' S' R' {}" "kv_abs s' = kv_abs u"
proof -
  have m: "ht_inv (store u) ht" "ht_abs (store u) ht = ht_abs (store u) (table u)" using p by (simp_all add: put_done_def put_abs_def)
  define w where "w = u\<lparr>table := ht\<rparr>"
  have w: "sh_ok w S R {ob}" unfolding w_def by (rule same_map_ok [OF u m])
  obtain X where X: "sh_inv w X S R (entry_objs (table w) \<union> {ob})" "listed X = entry_objs (table w)" by (rule sh_okD [OF w])
  have ob: "ob \<in> entry_objs (table w) \<union> {ob}" "ob \<notin> entry_objs (table w)" "ttl_objs (ttl_idx w) \<subseteq> entry_objs (table w)" using w by (auto simp: sh_ok_def)
  obtain X' S' R' where D: "sh_inv s' X' S' R' (entry_objs (table w) \<union> {ob} - {ob})" "listed X' = listed X - {ob}"
    "ttl_objs (ttl_idx s') = ttl_objs (ttl_idx w) - {ob}" "table s' = table w" "frame (insert ob (listed X \<union> ttl_objs (ttl_idx w))) w s'"
    using destroy_ok [OF X(1) ob(1,2) s' [folded w_def]] by blast
  have "entry_objs (table w) \<union> {ob} - {ob} = entry_objs (table w)" using ob(2) by auto
  then have "sh_ok s' S' R' {}" using D ob(2,3) X(2) unfolding sh_ok_def by auto
  then show "\<exists>S' R'. sh_ok s' S' R' {}" by blast
  have pl: "payload (store s' x) = payload (store u x)" for x using D(5) by (simp add: frame_def w_def)
  show "kv_abs s' = kv_abs u" unfolding kv_payload [OF pl] D(4) using m(2) by (simp add: w_def fun_eq_iff kv_abs_def)
qed

lemma present_iff:
  assumes "sh_ok s S R L" "length key < 65536"
  shows "ht_bucket_get (store s) (table s) key VAL_TYPE_STRING 0 = map_option b_obj (ht_abs (store s) (table s) key)"
    "ht_abs (store s) (table s) key = None \<longleftrightarrow> kv_abs s key = None"
  using ht_bucket_get_abs [OF sh_ok_table [OF assms(1)] assms(2), of 0]
  by (auto simp: ht_expired_def kv_abs_def split: option.splits)

lemma key_set_store_ok:
  assumes ok: "sh_ok s S R {}" and len: "length key < 65536" "length val < 2 ^ 32" "val \<noteq> [] \<or> le64 (0 # slack env) 0 = 0"
    and a: "a \<in> mem_live (gmem s) (sh_id s) S R" "a \<notin> entry_objs (table s)"
    and s2: "s2 = upd_obj a (\<lambda>_. new_kv_obj env tot key val e) s"
    and s3: "s3 = (if g_snapshot_active env then upd_heap (snap_obj_mark a sz) s2 else s2)"
    and p: "shard_bucket_put env a VAL_TYPE_STRING e HT_PUT_NONE s3 = (r, s4)" and d: "dropped s4 = dropped s3"
    and s': "(ok', s') = (case r of Put_Full \<Rightarrow> (False, shard_obj_destroy env a s4)
       | r \<Rightarrow> (True, (\<lambda>s6. if 0 < e then ttl_push env a e s6 else s6)
           (case r of Put_Old old \<Rightarrow> shard_obj_destroy env old (do_lru (lru_node_prepend a) s4) | _ \<Rightarrow> do_lru (lru_node_prepend a) s4)))"
  shows "(\<exists>S' R'. sh_ok s' S' R' {}) \<and> (\<exists>m. m \<subseteq>\<^sub>m kv_abs s \<and> kv_abs s' = (if ok' then m(key \<mapsto> (val, e)) else m))"
proof -
  note N = new_kv_obj_ok [OF len, of tot e]
  note 2 = new_obj_ok [OF ok a N(1,5,6,7) s2]
  have 3: "sh_ok s3 S R {a}" "settles {a} s2 s3" "table s3 = table s2"
  proof -
    have hi: "heap_inv (my_heap s2) S R" using shard_heap.heap_ok [OF 2(1)] .
    note H = heap_step_ok [where f = "snap_obj_mark a sz", OF 2(1) snap_obj_mark_same [OF hi] refl]
    show "sh_ok s3 S R {a}" "settles {a} s2 s3" "table s3 = table s2" using H 2(1) settles_refl by (simp_all add: s3)
  qed
  have st3: "store s3 a = new_kv_obj env tot key val e" using 3(2) 2(3) by (simp add: settles_def)
  have ob: "a \<in> entry_objs (table s3) \<union> {a}" "obj_wf (store s3 a)" using N(2) st3 by simp_all
  obtain u Su Ru ht where U: "sh_ok u Su Ru {a}" "settles {a} s3 u" "s4 = u\<lparr>table := ht\<rparr>" "put_done u a e r ht"
    using bucket_put_ok [OF 3(1) ob p d] by blast
  have su: "settles {a} s2 u" by (rule settles_trans [OF 3(2) U(2)])
  have stu: "store u a = new_kv_obj env tot key val e" using U(2) st3 by (simp add: settles_def)
  have le: "kv_abs u \<subseteq>\<^sub>m kv_abs s" using settles_kv [OF su sh_ok_table [OF 2(1)] sh_ok_table [OF U(1)]] 2(2) by simp
  have wfu: "obj_wf (store u a)" using N(2) stu by simp
  show ?thesis
  proof (cases "r = Put_Full")
    case True
    then have e: "\<not> ok'" "s' = shard_obj_destroy env a (u\<lparr>table := ht\<rparr>)" using s' U(3) by simp_all
    show ?thesis using put_full_ok [OF U(1) U(4) [unfolded True] e(2)] le e(1) by auto
  next
    case False
    have nc: "r \<noteq> Put_Cond" using U(4) by (simp add: put_done_def)
    define s5 where "s5 = do_lru (lru_node_prepend a) (u\<lparr>table := ht\<rparr>)"
    define s6 where "s6 = (case r of Put_Old old \<Rightarrow> shard_obj_destroy env old s5 | _ \<Rightarrow> s5)"
    have e: "ok'" "s' = (if 0 < e then ttl_push env a e s6 else s6)"
      using s' False nc unfolding s6_def s5_def U(3) by (cases r; simp)+
    note P = put_new_ok [OF U(1) U(4) False wfu s5_def s6_def e(2)]
    have "kv_abs s' = (kv_abs u)(key \<mapsto> (val, e))" using P(2) N(3,4) stu by simp
    then show ?thesis using P(1) le e(1) by auto
  qed
qed

lemma key_set_ok:
  assumes ok: "sh_ok s S R {}" and len: "length key < 65536" "length val < 2 ^ 32" "val \<noteq> [] \<or> le64 (0 # slack env) 0 = 0"
    and r: "shard_key_set env key val e flags s = (ok', s')" and d: "dropped s' = dropped s"
  shows "(\<exists>S' R'. sh_ok s' S' R' {}) \<and>
    (if (if flags AND HT_PUT_NX \<noteq> 0 then kv_abs s key \<noteq> None else flags AND HT_PUT_XX \<noteq> 0 \<and> kv_abs s key = None)
     then \<not> ok' \<and> s' = s
     else \<exists>m. m \<subseteq>\<^sub>m kv_abs s \<and> kv_abs s' = (if ok' then m(key \<mapsto> (val, e)) else m))"
proof -
  note pr = present_iff [OF ok len(1)]
  define tot where "tot = KV_OBJ_SIZE + length key + length val + 1"
  show ?thesis
  proof (cases "if flags AND HT_PUT_NX \<noteq> 0 then kv_abs s key \<noteq> None else flags AND HT_PUT_XX \<noteq> 0 \<and> kv_abs s key = None")
    case True
    then have "ok' = False" "s' = s" using r pr by (auto simp: shard_key_set_def Let_def split: if_splits)
    then show ?thesis using True ok by auto
  next
    case False
    obtain q s1 where m: "shard_malloc env tot s = (q, s1)" by fastforce
    obtain S1 R1 where M: "sh_ok s1 S1 R1 {}" "settles {} s s1" "case q of None \<Rightarrow> True
      | Some x \<Rightarrow> x \<in> mem_live (gmem s1) (sh_id s1) S1 R1 \<and> x \<notin> entry_objs (table s1) \<and> x \<notin> {}"
      using shard_malloc_ok [OF ok m] by blast
    have le: "kv_abs s1 \<subseteq>\<^sub>m kv_abs s" by (rule settles_kv [OF M(2) sh_ok_table [OF ok] sh_ok_table [OF M(1)]])
    have go: "shard_key_set env key val e flags s = (case shard_malloc env tot s of (None, s) \<Rightarrow> (False, s) | (Some ob, s) \<Rightarrow>
       (let s = upd_obj ob (\<lambda>_. new_kv_obj env tot key val e) s;
            s = (if g_snapshot_active env then upd_heap (snap_obj_mark ob (class_size tot)) s else s)
        in case shard_bucket_put env ob VAL_TYPE_STRING e HT_PUT_NONE s of
             (Put_Full, s) \<Rightarrow> (False, shard_obj_destroy env ob s)
           | (r, s) \<Rightarrow>
               (let s = do_lru (lru_node_prepend ob) s;
                    s = (case r of Put_Old old \<Rightarrow> shard_obj_destroy env old s | _ \<Rightarrow> s);
                    s = (if 0 < e then ttl_push env ob e s else s)
                in (True, s))))"
    proof -
      have here: "(ht_bucket_get (store s) (table s) key VAL_TYPE_STRING 0 \<noteq> None) = (kv_abs s key \<noteq> None)" using pr by simp
      have c1: "\<not> (flags AND HT_PUT_NX \<noteq> 0 \<and> kv_abs s key \<noteq> None)" using False by (simp split: if_splits)
      have c2: "\<not> (flags AND HT_PUT_NX = 0 \<and> flags AND HT_PUT_XX \<noteq> 0 \<and> \<not> kv_abs s key \<noteq> None)" using False by (auto split: if_splits)
      show ?thesis unfolding shard_key_set_def Let_def tot_def here if_not_P [OF c1] if_not_P [OF c2] ..
    qed
    show ?thesis
    proof (cases q)
      case None
      then have "ok' = False" "s' = s1" using r go m by simp_all
      then show ?thesis using M(1) le False by auto
    next
      case (Some a)
      define s2 where "s2 = upd_obj a (\<lambda>_. new_kv_obj env tot key val e) s1"
      define s3 where "s3 = (if g_snapshot_active env then upd_heap (snap_obj_mark a (class_size tot)) s2 else s2)"
      obtain r' s4 where p: "shard_bucket_put env a VAL_TYPE_STRING e HT_PUT_NONE s3 = (r', s4)" by fastforce
      have out: "(ok', s') = (case r' of Put_Full \<Rightarrow> (False, shard_obj_destroy env a s4)
       | r \<Rightarrow> (True, (\<lambda>s6. if 0 < e then ttl_push env a e s6 else s6)
           (case r of Put_Old old \<Rightarrow> shard_obj_destroy env old (do_lru (lru_node_prepend a) s4) | _ \<Rightarrow> do_lru (lru_node_prepend a) s4)))"
        using r go m Some p unfolding Let_def s3_def s2_def by (simp split: put_result.splits)
      have "dropped s' = dropped s4" using out by (cases r'; simp split: if_splits)
      moreover have "dropped s3 = dropped s" using M(2) by (simp add: s3_def s2_def settles_def)
      ultimately have dd: "dropped s4 = dropped s3" using d by simp
      have al: "a \<in> mem_live (gmem s1) (sh_id s1) S1 R1" "a \<notin> entry_objs (table s1)" using M(3) Some by simp_all
      show ?thesis unfolding if_not_P [OF False]
        using key_set_store_ok [OF M(1) len al s2_def s3_def p dd out] map_le_trans [OF _ le] by blast
    qed
  qed
qed

lemma settles_kv_table:
  assumes "settles L s s'" "ht_abs (store s) (table s') = (ht_abs (store s) (table s))(key := None)"
  shows "kv_abs s' = (kv_abs s)(key := None)"
proof -
  have p: "payload (store s' x) = payload (store s x)" for x using assms(1) by (simp add: settles_def)
  show ?thesis unfolding kv_payload [OF p] assms(2) by (auto simp: fun_eq_iff kv_abs_def)
qed

lemma settles_kv_same:
  assumes "settles L s s'" "table s' = table s"
  shows "kv_abs s' = kv_abs s"
proof -
  have p: "payload (store s' x) = payload (store s x)" for x using assms(1) by (simp add: settles_def)
  show ?thesis unfolding kv_payload [OF p] assms(2) by (simp add: fun_eq_iff kv_abs_def)
qed

lemma key_delete_ok:
  assumes ok: "sh_ok s S R {}" and len: "length key < 65536" and r: "shard_key_delete env key s = (ok', s')"
  shows "(\<exists>S' R'. sh_ok s' S' R' {}) \<and> (ok' \<longleftrightarrow> kv_abs s key \<noteq> None) \<and> kv_abs s' = (kv_abs s)(key := None)"
proof -
  obtain q ht where t: "ht_bucket_take (store s) (table s) key VAL_TYPE_STRING = (q, ht)" by fastforce
  note A = ht_bucket_take_abs [OF sh_ok_table [OF ok] len, unfolded t fst_conv snd_conv]
  show ?thesis
  proof (cases "ht_abs (store s) (table s) key")
    case None
    then have e: "ok' = False" "s' = s\<lparr>table := ht\<rparr>" using r t A(3) by (simp_all add: shard_key_delete_def)
    have m: "ht_abs (store s) ht = ht_abs (store s) (table s)" using A(2) None by (simp add: fun_upd_idem)
    have "sh_ok s' S R {}" "settles {} s s'" unfolding e by (rule same_map_ok [OF ok A(1) m])+
    moreover have "kv_abs s' = (kv_abs s)(key := None)"
      by (rule settles_kv_table [OF \<open>settles {} s s'\<close>]) (simp add: e A(2))
    ultimately show ?thesis using None e by (auto simp: kv_abs_def)
  next
    case (Some b)
    then have e: "ok' = True" "s' = shard_obj_destroy env (b_obj b) (s\<lparr>table := ht\<rparr>)" using r t A(3) by (simp_all add: shard_key_delete_def)
    note D = take_destroy_ok [OF ok A(1,2) Some e(2)]
    have "kv_abs s' = (kv_abs s)(key := None)" by (rule settles_kv_table [OF D(2)]) (simp add: D(4) A(2))
    then show ?thesis using D(1) e(1) Some by (auto simp: kv_abs_def)
  qed
qed

lemma lru_touch: "lru_node_touch a = lru_node_prepend a"
  by (simp add: fun_eq_iff lru_node_touch_def)

lemma key_get_ok:
  assumes ok: "sh_ok s S R {}" and len: "length key < 65536" and r: "shard_key_get env key now s = (v, s')"
  shows "(\<exists>S' R'. sh_ok s' S' R' {}) \<and>
    (case kv_abs s key of
       None \<Rightarrow> v = None \<and> kv_abs s' = kv_abs s
     | Some (x, t) \<Rightarrow>
         if t \<noteq> 0 \<and> now \<noteq> 0 \<and> t \<le> now \<and> \<not> ht_bucket_is_locked (store s) (table s) key VAL_TYPE_STRING
         then v = None \<and> kv_abs s' = (kv_abs s)(key := None)
         else \<exists>a. v = Some a \<and> obj_val_get (store s' a) = x \<and> kv_abs s' = kv_abs s)"
proof -
  obtain q st ht where t: "ht_bucket_get_lazy (store s) (table s) key VAL_TYPE_STRING now = (q, st, ht)" by (metis prod_cases3)
  note lk = ht_bucket_is_locked_abs [OF sh_ok_table [OF ok] len]
  from sh_ok_table [OF ok] len show ?thesis
  proof (cases rule: ht_lookup_cases)
    case miss
    then have "q = None" "st = None" "ht = table s" using t by (simp_all add: ht_bucket_get_lazy_def)
    then have "v = None" "s' = s" using r t by (simp_all add: shard_key_get_def)
    then show ?thesis using ok miss(2) by (auto simp: kv_abs_def)
  next
    case (hit i j)
    define b where "b = ht_at (table s) (i, j)"
    have ab: "ht_abs (store s) (table s) key = Some b" using hit(2) by (simp add: b_def)
    have kv: "kv_abs s key = Some (obj_val_get (store s (b_obj b)), b_expire b)" by (simp add: kv_abs_def ab)
    have lk': "ht_bucket_is_locked (store s) (table s) key VAL_TYPE_STRING = ht_meta_is_locked (b_meta b)" using lk ab by simp
    show ?thesis
    proof (cases "b_expire b \<noteq> 0 \<and> now \<noteq> 0 \<and> b_expire b \<le> now \<and> \<not> ht_meta_is_locked (b_meta b)")
      case True
      note U = ht_unlink_inv [OF sh_ok_table [OF ok] hit(3,4)]
      have e: "q = None" "st = Some (b_obj b)" "ht = ht_bucket_node_unlink (table s) (i, j)"
        using t hit(1) True unfolding ht_bucket_get_lazy_def b_def by (simp_all add: Let_def del: ht_at.simps ht_bucket_node_unlink.simps split: if_splits)
      have m: "ht_inv (store s) ht" "ht_abs (store s) ht = (ht_abs (store s) (table s))(key := None)" using U hit(5) e(3) by simp_all
      have s': "v = None" "s' = shard_obj_destroy env (b_obj b) (s\<lparr>table := ht\<rparr>)" using r t e by (simp_all add: shard_key_get_def Let_def)
      note D = take_destroy_ok [OF ok m ab s'(2)]
      have "kv_abs s' = (kv_abs s)(key := None)" by (rule settles_kv_table [OF D(2)]) (simp add: D(4) m)
      then show ?thesis using D(1) s'(1) True kv lk' by simp
    next
      case False
      then have e: "q = Some (b_obj b)" "st = None" "ht = table s"
        using t hit(1) unfolding ht_bucket_get_lazy_def b_def by (auto simp: Let_def simp del: ht_at.simps ht_bucket_node_unlink.simps split: if_splits)
      have s': "v = Some (b_obj b)" "s' = do_lru (lru_node_prepend (b_obj b)) s" using r t e by (simp_all add: shard_key_get_def lru_touch Let_def)
      have "b \<in> set (ht_entries (table s))" using ab ht_abs_iff [of "store s" "table s" key b] sh_ok_table [OF ok] by (simp add: ht_inv_def)
      then have "b_obj b \<in> entry_objs (table s)" by (simp add: entry_objs_def)
      note T = touch_ok [OF ok this s'(2)]
      have "payload (store s' (b_obj b)) = payload (store s (b_obj b))" using T(2) by (simp add: settles_def)
      from payload_fields(6) [OF this] show ?thesis
        using T(1) s'(1) settles_kv_same [OF T(2,4)] False kv lk' by auto
    qed
  qed
qed

text \<open>Changing the table and the index at once.\<close>

lemma inv_table_ttl:
  assumes inv: "sh_inv s X S R T" and t: "ht_inv (store s) ht" "entry_objs ht \<subseteq> T"
    and new: "ttl_inv idx' mem'" "idx_frame A (store s) mem'" "ttl_objs idx' \<subseteq> T"
    and hx: "\<And>x. x \<in> T \<Longrightarrow> heap_idx (mem' x) \<noteq> HEAP_IDX_NONE \<longrightarrow> x \<in> ttl_objs idx'"
    and ag: "\<And>n b. n \<in> set (theap idx') \<Longrightarrow> b \<in> set (ht_entries ht) \<Longrightarrow> n_obj n = b_obj b \<longrightarrow> n_expire n = b_expire b"
  shows "sh_inv (s\<lparr>table := ht, ttl_idx := idx', store := mem'\<rparr>) X S R T"
proof -
  note k = idx_frame_keep [OF new(2)]
  have "lru_ok (lrus s, mem') X = lru_ok (lrus s, store s) X" by (rule lru_ok_cong) (use k payload_fields(4) [OF k(1)] in blast)
  moreover have "ht_inv mem' ht" using ht_payload(1) [of ht mem' "store s"] k(1) t(1) by simp
  moreover have "obj_ok (mem' x) \<and> (x \<notin> listed X \<longrightarrow> detached mem' x)" if "x \<in> T" for x
    using sh_inv_obj(1,3) [OF inv that] obj_ok_payload [OF k(1), of x] k(2) [of x] by (simp add: detached_def lnk_def)
  ultimately show ?thesis using sh_invD [OF inv] t(2) new hx ag by (simp add: sh_inv_def)
qed

lemma expire_update_ok:
  assumes ok: "sh_ok s S R {}" and a: "a \<in> entry_objs (table s)" "heap_idx (store s a) \<noteq> HEAP_IDX_NONE"
    and t: "ht_inv (store s) ht" "entry_objs ht = entry_objs (table s)"
    and en: "\<And>b. b \<in> set (ht_entries ht) \<Longrightarrow> if b_obj b = a then b_expire b = e else b \<in> set (ht_entries (table s))"
    and u: "ttl_index_node_update (ttl_idx s) (store s) a e = (idx', mem')" and s': "s' = s\<lparr>table := ht, ttl_idx := idx', store := mem'\<rparr>"
  shows "sh_ok s' S R {}" "\<And>x. payload (store s' x) = payload (store s x)"
proof -
  obtain X where X: "sh_inv s X S R (entry_objs (table s) \<union> {})" "listed X = entry_objs (table s)" by (rule sh_okD [OF ok])
  have at: "a \<in> ttl_objs (ttl_idx s)" using sh_inv_obj(2) [OF X(1)] a by blast
  note K = update_ok [OF sh_invD(3) [OF X(1)] at u]
  then have fr: "idx_frame (ttl_objs (ttl_idx s)) (store s) mem'" and ti: "ttl_inv idx' mem'" by blast+
  obtain old where o: "\<lparr>n_expire = old, n_obj = a\<rparr> \<in># ttl_abs (ttl_idx s)"
    "ttl_abs (ttl_idx s) + {#\<lparr>n_expire = e, n_obj = a\<rparr>#} = ttl_abs idx' + {#\<lparr>n_expire = old, n_obj = a\<rparr>#}" using K by blast
  have new: "\<lparr>n_expire = e, n_obj = a\<rparr> \<in> set (theap idx')"
  proof (cases "old = e")
    case True
    then have "\<lparr>n_expire = e, n_obj = a\<rparr> \<in># ttl_abs idx'" using o by simp
    then show ?thesis by (simp add: ttl_abs_def)
  next
    case False
    have "\<lparr>n_expire = e, n_obj = a\<rparr> \<in># ttl_abs (ttl_idx s) + {#\<lparr>n_expire = e, n_obj = a\<rparr>#}" by simp
    then have "\<lparr>n_expire = e, n_obj = a\<rparr> \<in># ttl_abs idx' + {#\<lparr>n_expire = old, n_obj = a\<rparr>#}" unfolding o(2) .
    then show ?thesis using False by (simp add: ttl_abs_def)
  qed
  have sub: "n \<in> set (theap (ttl_idx s)) \<or> n = \<lparr>n_expire = e, n_obj = a\<rparr>" if "n \<in> set (theap idx')" for n
  proof -
    have "n \<in># ttl_abs (ttl_idx s) + {#\<lparr>n_expire = e, n_obj = a\<rparr>#}" 
      unfolding o(2) using that by (simp add: ttl_abs_def)
    then show ?thesis by (auto simp: ttl_abs_def)
  qed
  have uniq: "n = \<lparr>n_expire = e, n_obj = a\<rparr>" if "n \<in> set (theap idx')" "n_obj n = a" for n
    using ttl_distinct [OF ti] that new by (auto simp: distinct_map inj_on_def)
  have ob: "ttl_objs idx' = ttl_objs (ttl_idx s)"
  proof -
    have "image_mset n_obj (ttl_abs (ttl_idx s)) = image_mset n_obj (ttl_abs idx')" using arg_cong [OF o(2), of "image_mset n_obj"] by simp
    then have "set_mset (image_mset n_obj (ttl_abs (ttl_idx s))) = set_mset (image_mset n_obj (ttl_abs idx'))" by simp
    then show ?thesis by (simp add: ttl_objs_def ttl_abs_def)
  qed
  have tt: "ttl_objs (ttl_idx s) \<subseteq> entry_objs (table s)" using ok by (simp add: sh_ok_def)
  have "sh_inv s' X S R (entry_objs (table s) \<union> {})" unfolding s'
  proof (rule inv_table_ttl [OF X(1) t(1) _ ti fr])
    show "entry_objs ht \<subseteq> entry_objs (table s) \<union> {}" "ttl_objs idx' \<subseteq> entry_objs (table s) \<union> {}" using t(2) ob tt by auto
    show "heap_idx (mem' x) \<noteq> HEAP_IDX_NONE \<longrightarrow> x \<in> ttl_objs idx'" if "x \<in> entry_objs (table s) \<union> {}" for x
    proof (cases "x \<in> ttl_objs (ttl_idx s)")
      case False
      then have "mem' x = store s x" using fr by (simp add: idx_frame_def)
      then show ?thesis using sh_inv_obj(2) [OF X(1) that] False by auto
    qed (simp add: ob)
    fix n b assume n: "n \<in> set (theap idx')" and b: "b \<in> set (ht_entries ht)"
    show "n_obj n = b_obj b \<longrightarrow> n_expire n = b_expire b"
    proof
      assume e: "n_obj n = b_obj b"
      show "n_expire n = b_expire b"
      proof (cases "b_obj b = a")
        case True
        then show ?thesis using uniq [OF n] en [OF b] e by simp
      next
        case False
        then have "b \<in> set (ht_entries (table s))" "n \<in> set (theap (ttl_idx s))" using en [OF b] sub [OF n] e by auto
        then show ?thesis using X(1) e by (simp add: sh_inv_def)
      qed
    qed
  qed
  then show "sh_ok s' S R {}" using X(2) t(2) ob tt unfolding sh_ok_def s' by auto
  show "payload (store s' x) = payload (store s x)" for x using idx_frame_keep(1) [OF fr] by (simp add: s')
qed

lemma expire_index_ok:
  assumes ok: "sh_ok s S R {}" and a: "a \<in> entry_objs (table s)" and t: "ht_inv (store s) ht" "entry_objs ht = entry_objs (table s)"
    and en: "\<And>b. b \<in> set (ht_entries ht) \<Longrightarrow> if b_obj b = a then b_expire b = e else b \<in> set (ht_entries (table s))"
    and s1: "s1 = s\<lparr>table := ht\<rparr>" and s': "s' = (if 0 < e then
                       (if heap_idx (store s1 a) = HEAP_IDX_NONE then ttl_push env a e s1
                        else (case ttl_index_node_update (ttl_idx s1) (store s1) a e of (idx, mem) \<Rightarrow> s1\<lparr>ttl_idx := idx, store := mem\<rparr>))
                     else ttl_forget a s1)"
  shows "(\<exists>S' R'. sh_ok s' S' R' {}) \<and> table s' = ht \<and> (\<forall>x. payload (store s' x) = payload (store s x))"
proof -
  let ?E = "entry_objs (table s)"
  obtain X where X: "sh_inv s X S R (?E \<union> {})" "listed X = ?E" by (rule sh_okD [OF ok])
  have tt: "ttl_objs (ttl_idx s) \<subseteq> ?E" using ok by (simp add: sh_ok_def)
  have ag: "n_obj n = b_obj b \<longrightarrow> n_expire n = b_expire b"
    if "n \<in> set (theap (ttl_idx s))" "n_obj n \<noteq> a" "b \<in> set (ht_entries ht)" for n b
    using that en [OF that(3)] X(1) by (auto simp: sh_inv_def)
  have f1: "store s1 = store s" "ttl_idx s1 = ttl_idx s" "table s1 = ht" by (simp_all add: s1)
  have sub: "entry_objs ht \<subseteq> ?E \<union> {}" using t(2) by simp
  consider "0 < e" "heap_idx (store s a) = HEAP_IDX_NONE" | "0 < e" "heap_idx (store s a) \<noteq> HEAP_IDX_NONE" | "\<not> 0 < e" by blast
  then show ?thesis
  proof cases
    case 1
    have na: "a \<notin> ttl_objs (ttl_idx s)" using heap_idx_tracked [OF sh_invD(3) [OF X(1)]] 1(2) by blast
    have i1: "sh_inv s1 X S R (?E \<union> {})" unfolding s1
      by (rule inv_table [OF X(1) t(1) sub], rule ag) (use na in \<open>auto simp: ttl_objs_def\<close>)
    have aT: "a \<in> ?E \<union> {}" "a \<notin> ttl_objs (ttl_idx s1)" using a na f1 by simp_all
    have ex: "b_obj b = a \<longrightarrow> b_expire b = e" if "b \<in> set (ht_entries (table s1))" for b using en [of b] that f1 by (auto split: if_splits)
    note Q = inv_ttl_push [where env = env and e = e, OF i1 aT ex]
    have run: "s' = ttl_push env a e s1" using 1 s' f1 by simp
    have "ttl_objs (ttl_idx s') \<subseteq> ?E" using Q(2) a tt f1 by (auto simp: run)
    then have "sh_ok s' S R {}" using Q(1) X(2) t(2) unfolding sh_ok_def by (auto simp: run f1)
    moreover have "payload (store s' x) = payload (store s x)" for x using Q(3) by (simp add: run frame_def f1)
    ultimately show ?thesis by (auto simp: run f1)
  next
    case 2
    obtain idx' mem' where u: "ttl_index_node_update (ttl_idx s) (store s) a e = (idx', mem')" by fastforce
    have run: "s' = s\<lparr>table := ht, ttl_idx := idx', store := mem'\<rparr>" using 2 s' f1 u by (simp add: s1)
    show ?thesis using expire_update_ok [OF ok a 2(2) t en u run] by (auto simp: run)
  next
    case 3
    define s2 where "s2 = ttl_forget a s"
    have aT: "a \<in> ?E \<union> {}" using a by simp
    note F = inv_ttl_forget [OF X(1) aT, folded s2_def]
    have pl: "payload (store s2 x) = payload (store s x)" for x using F(3) by (simp add: frame_def)
    have ih: "ht_inv (store s2) ht" using ht_payload(1) [of ht "store s2" "store s"] pl t(1) by simp
    have tb: "table s2 = table s" by (simp add: s2_def)
    have run: "s' = s2\<lparr>table := ht\<rparr>" using 3 s' by (simp add: s2_def s1 ttl_forget_def split: prod.split)
    have "sh_inv s' X S R (?E \<union> {})" unfolding run
    proof (rule inv_table [OF F(1) ih sub])
      fix n b assume n: "n \<in> set (theap (ttl_idx s2))" and b: "b \<in> set (ht_entries ht)"
      have "n_obj n \<in> ttl_objs (ttl_idx s2)" using n by (simp add: ttl_objs_def)
      then have na: "n_obj n \<noteq> a" using F(2) by auto
      show "n_obj n = b_obj b \<longrightarrow> n_expire n = b_expire b"
      proof
        assume e: "n_obj n = b_obj b"
        then have "b \<in> set (ht_entries (table s2))" using en [OF b] na tb by simp
        then show "n_expire n = b_expire b" using F(1) n e by (simp add: sh_inv_def)
      qed
    qed
    moreover have "ttl_objs (ttl_idx s') \<subseteq> ?E" using F(2) tt by (auto simp: run)
    ultimately have "sh_ok s' S R {}" using X(2) t(2) unfolding sh_ok_def by (auto simp: run)
    then show ?thesis using pl by (auto simp: run)
  qed
qed

lemma key_expire_ok:
  assumes ok: "sh_ok s S R {}" and len: "length key < 65536" and r: "shard_key_expire env key e s = (ok', s')" and d: "dropped s' = dropped s"
  shows "(\<exists>S' R'. sh_ok s' S' R' {}) \<and>
    (case kv_abs s key of
       None \<Rightarrow> \<not> ok' \<and> s' = s
     | Some (x, t) \<Rightarrow> if t = - 1 \<or> e = 0 \<and> t = 0 then \<not> ok' \<and> s' = s else ok' \<and> kv_abs s' = (kv_abs s)(key \<mapsto> (x, e)))"
proof -
  note i = sh_ok_table [OF ok]
  note ex = ht_expire_get_abs [OF i len]
  show ?thesis
  proof (cases "ht_abs (store s) (table s) key")
    case None
    then have "ok' = False" "s' = s" using r ex by (simp_all add: shard_key_expire_def)
    then show ?thesis using ok None by (auto simp: kv_abs_def)
  next
    case (Some b)
    define a where "a = b_obj b"
    have kv: "kv_abs s key = Some (obj_val_get (store s a), b_expire b)" by (simp add: kv_abs_def Some a_def)
    have be: "b \<in> set (ht_entries (table s))" "obj_key_get (store s a) = key"
      using Some ht_abs_iff [of "store s" "table s" key b] i by (simp_all add: ht_inv_def bkey_def a_def)
    have aE: "a \<in> entry_objs (table s)" using be(1) by (simp add: entry_objs_def a_def)
    have wf: "obj_wf (store s a)" using i be(1) by (auto simp: ht_inv_def ht_slots_def set_ht_entries bucket_ok_def a_def)
    show ?thesis
    proof (cases "b_expire b = - 1 \<or> e = 0 \<and> b_expire b = 0")
      case True
      then have "ok' = False" "s' = s" using r ex Some by (auto simp: shard_key_expire_def)
      then show ?thesis using ok kv True by auto
    next
      case False
      obtain q s1 where p: "shard_bucket_put env a VAL_TYPE_STRING e HT_PUT_NONE s = (q, s1)" by fastforce
      have run: "ok' = True" "s' = (if 0 < e then
                       (if heap_idx (store s1 a) = HEAP_IDX_NONE then ttl_push env a e s1
                        else (case ttl_index_node_update (ttl_idx s1) (store s1) a e of (idx, mem) \<Rightarrow> s1\<lparr>ttl_idx := idx, store := mem\<rparr>))
                     else ttl_forget a s1)"
        using r ex Some False present_iff(1) [OF ok len] p unfolding shard_key_expire_def a_def by (auto simp: Let_def)
      have d1: "dropped s1 = dropped s" using d run(2) by (auto split: if_splits prod.splits)
      have aL: "a \<in> entry_objs (table s) \<union> {}" using aE by simp
      obtain u ht where U: "s1 = u\<lparr>table := ht\<rparr>" "put_done u a e q ht" "u = s"
        using bucket_put_ok [OF ok aL wf p d1] Some be(2) by auto
      have s1: "s1 = s\<lparr>table := ht\<rparr>" and pd: "put_done s a e q ht" using U by simp_all
      have q: "q = Put_Old a" using pd Some be(2) by (cases q) (auto simp: put_done_def a_def)
      define nb where "nb = new_bucket (store s) a e"
      have nb: "bkey (store s) nb = key" "b_obj nb = a" "b_expire nb = e"
        unfolding nb_def using be(2) by (simp_all only: new_bucket_key) (simp_all add: new_bucket_def)
      have m: "ht_inv (store s) ht" "ht_abs (store s) ht = (ht_abs (store s) (table s))(key \<mapsto> nb)"
        using pd be(2) by (simp_all add: put_done_def put_abs_def q nb_def)
      have eo: "entry_objs ht = entry_objs (table s)" using entry_objs_put(2) [OF i m nb(1) Some] aE nb(2) by (auto simp: a_def)
      have en: "if c' then b_expire c = e else c \<in> set (ht_entries (table s))" if "c \<in> set (ht_entries ht)" "c' = (b_obj c = a)" for c c'
      proof -
        have "c = nb \<or> c \<in> set (ht_entries (table s)) \<and> bkey (store s) c \<noteq> key" using entries_put [OF i m nb(1)] that(1) by blast
        then show ?thesis using that(2) nb be(2) by (auto simp: bkey_def)
      qed
      have en': "\<And>c. c \<in> set (ht_entries ht) \<Longrightarrow> if b_obj c = a then b_expire c = e else c \<in> set (ht_entries (table s))" using en by blast
      have "(\<exists>S' R'. sh_ok s' S' R' {}) \<and> table s' = ht \<and> (\<forall>x. payload (store s' x) = payload (store s x))"
        by (rule expire_index_ok [OF ok aE m(1) eo en' s1 run(2)])
      then obtain S' R' where fin: "sh_ok s' S' R' {}" "table s' = ht" "\<And>x. payload (store s' x) = payload (store s x)" by blast
      have "kv_abs s' = (kv_abs s)(key \<mapsto> (obj_val_get (store s a), e))"
        unfolding kv_payload [OF fin(3)] fin(2) m(2) using nb by (auto simp: fun_eq_iff kv_abs_def)
      then show ?thesis using fin(1) run(1) kv False by auto
    qed
  qed
qed

section \<open>Active expiry and flush\<close>

lemma pop_step_ok:
  assumes ok: "sh_ok s S R {}" and p: "ttl_index_node_pop (ttl_idx s) (store s) = (Some (e, a), idx', mem')" and s1: "s1 = s\<lparr>ttl_idx := idx', store := mem'\<rparr>"
  shows "sh_ok s1 S R {}" "settles {} s s1" "a \<in> entry_objs (table s)" "a \<notin> ttl_objs (ttl_idx s1)" "e = ttl_index_node_peek (ttl_idx s)"
    "\<And>b. b \<in> set (ht_entries (table s)) \<Longrightarrow> b_obj b = a \<Longrightarrow> b_expire b = e"
proof -
  obtain X where X: "sh_inv s X S R (entry_objs (table s) \<union> {})" "listed X = entry_objs (table s)" by (rule sh_okD [OF ok])
  have tt: "ttl_objs (ttl_idx s) \<subseteq> entry_objs (table s)" using ok by (simp add: sh_ok_def)
  have K: "ttl_inv idx' mem'" "idx_frame (ttl_objs (ttl_idx s)) (store s) mem'" "heap_idx (mem' a) = HEAP_IDX_NONE" "a \<in> ttl_objs (ttl_idx s)"
    "a \<notin> ttl_objs idx'" "ttl_abs (ttl_idx s) = ttl_abs idx' + {#\<lparr>n_expire = e, n_obj = a\<rparr>#}"
    using pop_ok [OF sh_invD(3) [OF X(1)] p] by simp_all
  have st: "set (theap (ttl_idx s)) = insert \<lparr>n_expire = e, n_obj = a\<rparr> (set (theap idx'))"
    using arg_cong [OF K(6), of set_mset] by (simp add: ttl_abs_def)
  have ob: "ttl_objs (ttl_idx s) = insert a (ttl_objs idx')" by (simp add: ttl_objs_def st)
  have hx: "heap_idx (mem' x) \<noteq> HEAP_IDX_NONE \<longrightarrow> x \<in> ttl_objs idx'" if "x \<in> entry_objs (table s) \<union> {}" for x
  proof (cases "x \<in> ttl_objs (ttl_idx s)")
    case True
    then show ?thesis using ob K(3) by auto
  next
    case False
    then have "mem' x = store s x" using K(2) by (simp add: idx_frame_def)
    then show ?thesis using sh_inv_obj(2) [OF X(1) that] False by auto
  qed
  have sub: "ttl_objs idx' \<subseteq> entry_objs (table s) \<union> {}" using ob tt by auto
  have ag: "n_obj n = b_obj b \<longrightarrow> n_expire n = b_expire b" if "n \<in> set (theap idx')" "b \<in> set (ht_entries (table s))" for n b
    using X(1) that st by (simp add: sh_inv_def)
  note I = inv_ttl [OF X(1) K(1,2) sub hx ag, folded s1]
  have tb: "table s1 = table s" by (simp add: s1)
  show "sh_ok s1 S R {}" using I(1) X(2) sub unfolding sh_ok_def by (auto simp: s1)
  show "settles {} s s1" by (rule frame_settles [OF I(2)]) (simp_all add: tb)
  show "a \<in> entry_objs (table s)" using K(4) tt by blast
  show "a \<notin> ttl_objs (ttl_idx s1)" using K(5) by (simp add: s1)
  have "ttl_pop (ttl_idx s, store s) = Some (\<lparr>n_expire = e, n_obj = a\<rparr>, idx', mem')" using p by (simp add: ttl_pop_def)
  then show "e = ttl_index_node_peek (ttl_idx s)" using ttl_queue.peek_pop [of "(ttl_idx s, store s)"] sh_invD(3) [OF X(1)] by simp
  show "b_expire b = e" if "b \<in> set (ht_entries (table s))" "b_obj b = a" for b
    using X(1) that st by (auto simp: sh_inv_def)
qed

text \<open>\<open>k\<close> entries have gone, all of them unlocked and due.\<close>

definition drained :: "u64 \<Rightarrow> nat \<Rightarrow> shard \<Rightarrow> shard \<Rightarrow> bool" where
  "drained now k s s' \<longleftrightarrow> (\<exists>S R. sh_ok s' S R {}) \<and> settles {} s s' \<and> length (ht_entries (table s)) = length (ht_entries (table s')) + k \<and>
     (\<forall>b \<in> set (ht_entries (table s)) - set (ht_entries (table s')). b_expire b \<le> now \<and> \<not> ht_meta_is_locked (b_meta b))"

lemma drained_trans: "drained now j a b \<Longrightarrow> drained now k b c \<Longrightarrow> drained now (j + k) a c"
  unfolding drained_def using settles_trans [of "{}" a b c] by auto

lemma ttl_drain_ok:
  assumes "sh_ok s S R {}" "shard_ttl_drain n env now s = (k, s')"
  shows "drained now k s s'"
  using assms
proof (induction n arbitrary: s S R k)
  case 0
  then show ?case by (auto simp: drained_def settles_refl)
next
  case (Suc n)
  note ok = Suc.prems(1)
  obtain r idx' mem' where p: "ttl_index_node_pop (ttl_idx s) (store s) = (r, idx', mem')" by (metis prod_cases3)
  show ?case
  proof (cases "now < ttl_index_node_peek (ttl_idx s) \<or> r = None")
    case True
    have "r = None \<Longrightarrow> idx' = ttl_idx s \<and> mem' = store s"
      using p ok pop_ok [of "ttl_idx s" "store s" r idx' mem'] by (auto simp: sh_ok_def sh_inv_def)
    then have "k = 0" "s' = s" using Suc.prems(2) p True by (auto split: if_splits)
    then show ?thesis using ok by (auto simp: drained_def settles_refl)
  next
    case False
    obtain e a where r: "r = Some (e, a)" using False by (cases r) auto
    define s1 where "s1 = s\<lparr>ttl_idx := idx', store := mem'\<rparr>"
    note P = pop_step_ok [OF ok p [unfolded r] s1_def]
    have due: "e \<le> now" using False P(5) by (simp add: not_less)
    have tb: "table s1 = table s" by (simp add: s1_def)
    have d1: "drained now 0 s s1" using P(1,2) tb by (auto simp: drained_def)
    obtain b where b: "b_obj b = a" "ht_abs (store s1) (table s1) (obj_key_get (store s1 a)) = Some b" "length (obj_key_get (store s1 a)) < 65536"
      by (rule entry_of [OF P(1), of a]) (use P(3) tb in simp)
    obtain q l ht where t: "ht_bucket_take_if_unlocked (store s1) (table s1) (obj_key_get (store s1 a)) VAL_TYPE_STRING a = (q, l, ht)"
      by (metis prod_cases3)
    have run: "shard_ttl_drain (Suc n) env now s = (case (q, l, ht) of
                   (_, True, ht) \<Rightarrow> shard_ttl_drain n env now (ttl_push env a e (s1\<lparr>table := ht\<rparr>))
                 | (Some taken, False, ht) \<Rightarrow>
                     (case shard_ttl_drain n env now (shard_obj_destroy env taken (s1\<lparr>table := ht\<rparr>)) of (k, s) \<Rightarrow> (Suc k, s))
                 | (None, False, ht) \<Rightarrow> shard_ttl_drain n env now (s1\<lparr>table := ht\<rparr>))"
    proof -
      have nl: "\<not> now < ttl_index_node_peek (ttl_idx s)" using False by simp
      show ?thesis unfolding shard_ttl_drain.simps if_not_P [OF nl] p r prod.case option.case Let_def s1_def [symmetric] t ..
    qed
    have bm: "b \<in> set (ht_entries (table s))" using b(2) ht_abs_iff [of "store s1" "table s1" _ b] sh_ok_table [OF P(1)] tb by (simp add: ht_inv_def)
    from sh_ok_table [OF P(1)] b(3) t show ?thesis
    proof (cases rule: take_if_unlocked_cases)
      case gone
      then show ?thesis using b by simp
    next
      case (locked c)
      define s2 where "s2 = ttl_push env a e s1"
      obtain X where X: "sh_inv s1 X S R (entry_objs (table s1) \<union> {})" "listed X = entry_objs (table s1)" by (rule sh_okD [OF P(1)])
      have aT: "a \<in> entry_objs (table s1) \<union> {}" using P(3) tb by simp
      have ex: "b_obj x = a \<longrightarrow> b_expire x = e" if "x \<in> set (ht_entries (table s1))" for x using P(6) that tb by simp
      note Q = inv_ttl_push [where env = env and e = e, OF X(1) aT P(4) ex, folded s2_def]
      have tb2: "table s2 = table s1" by (simp add: s2_def)
      have "ttl_objs (ttl_idx s2) \<subseteq> entry_objs (table s1)" using Q(2) aT P(1) by (auto simp: sh_ok_def)
      then have ok2: "sh_ok s2 S R {}" using Q(1) X(2) tb2 unfolding sh_ok_def by auto
      have st2: "settles {} s1 s2" by (rule frame_settles [OF Q(3)]) (simp_all add: tb2)
      have d2: "drained now 0 s1 s2" using ok2 st2 tb2 by (auto simp: drained_def)
      have "shard_ttl_drain n env now s2 = (k, s')" using Suc.prems(2) run locked by (simp add: s2_def)
      then have "drained now k s2 s'" by (rule Suc.IH [OF ok2])
      then show ?thesis using drained_trans [OF drained_trans [OF d1 d2]] by simp
    next
      case (taken c)
      define s2 where "s2 = shard_obj_destroy env a (s1\<lparr>table := ht\<rparr>)"
      have cb: "c = b" using taken b(2) by simp
      note D = take_destroy_ok [OF P(1) taken(3,4) b(2), unfolded b(1), OF s2_def]
      obtain S2 R2 where ok2: "sh_ok s2 S2 R2 {}" using D(1) by blast
      note E = entries_taken [OF sh_ok_table [OF P(1)] taken(3,4) b(2)]
      have d2: "drained now 1 s1 s2"
        using ok2 D(2,4) E(1,4) P(6) [OF bm b(1)] due taken(7) cb by (auto simp: drained_def)
      obtain j where j: "shard_ttl_drain n env now s2 = (j, s')" "k = Suc j"
        using Suc.prems(2) run taken by (auto simp: s2_def split: prod.splits)
      have "drained now j s2 s'" by (rule Suc.IH [OF ok2 j(1)])
      then show ?thesis using drained_trans [OF drained_trans [OF d1 d2]] j(2) by simp
    qed
  qed
qed

lemma free_all_ok:
  assumes "\<And>a. a \<in> set xs \<Longrightarrow> a \<in> mem_live (gmem s) (sh_id s) S R" "distinct xs" "mem_ok (gmem s) (sh_id s) S R"
  shows "\<exists>R'. mem_ok (gmem (fold do_free xs s)) (sh_id s) S R'"
  using assms
proof (induction xs arbitrary: s R)
  case (Cons a xs)
  obtain R1 where R1: "mem_ok (mem_free a (gmem s)) (sh_id s) S R1" "mem_live (mem_free a (gmem s)) (sh_id s) S R1 = mem_live (gmem s) (sh_id s) S R - {a}"
    using mem_free_ok [OF Cons.prems(3), of a] Cons.prems(1) by auto
  have "\<exists>R'. mem_ok (gmem (fold do_free xs (do_free a s))) (sh_id (do_free a s)) S R'"
    by (rule Cons.IH [of _ R1]) (use Cons.prems(1,2) R1 in \<open>auto simp: do_free_def\<close>)
  then show ?case by simp
qed auto

lemma fold_do_free [simp]:
  "table (fold do_free xs s) = table s" "ttl_idx (fold do_free xs s) = ttl_idx s" "lrus (fold do_free xs s) = lrus s" "store (fold do_free xs s) = store s"
  "sh_id (fold do_free xs s) = sh_id s" "dropped (fold do_free xs s) = dropped s" "freed (fold do_free xs s) = freed s @ xs"
  by (induction xs arbitrary: s) (simp_all, simp add: do_free_def)

lemma flush_ok:
  assumes ok: "sh_ok s S R {}" and idle: "rehash_idx (table s) < 0"
  shows "\<exists>s' S' R'. shard_table_flush s = Some s' \<and> sh_ok s' S' R' {} \<and> kv_abs s' = Map.empty \<and> freed s' = freed s @ map b_obj (ht_entries (table s))"
proof -
  obtain X where X: "sh_inv s X S R (entry_objs (table s) \<union> {})" "listed X = entry_objs (table s)" by (rule sh_okD [OF ok])
  note i = sh_ok_table [OF ok]
  define xs where "xs = map b_obj (ht_entries (table s))"
  obtain ht where h: "ht_table_flush (table s) = Some (xs, ht)" "ht_inv (store s) ht" "ht_abs (store s) ht = Map.empty"
    using ht_table_flush_idle [OF i idle] by (auto simp: xs_def)
  have none: "set (ht_entries ht) = {}"
  proof (rule equals0I)
    fix b assume "b \<in> set (ht_entries ht)"
    then show False using entries_abs [OF h(2), of b] h(3) by simp
  qed
  have di: "distinct xs" using i entries_inj [OF i] by (auto simp: xs_def distinct_map ht_inv_def inj_on_def)
  have lv: "a \<in> mem_live (gmem s) (sh_id s) S R" if "a \<in> set xs" for a using that sh_invD(5,8) [OF X(1)] by (auto simp: xs_def entry_objs_def)
  obtain R' where R': "mem_ok (gmem (fold do_free xs s)) (sh_id s) S R'" using free_all_ok [OF lv di sh_invD(4) [OF X(1)]] by blast
  define l where "l = \<lparr>lru_head = (\<lambda>p. if p < LRU_POOLS then None else lru_head (lrus s) p), lru_tail = (\<lambda>p. if p < LRU_POOLS then None else lru_tail (lrus s) p)\<rparr>"
  define s' where "s' = (fold do_free xs s)\<lparr>table := ht, ttl_idx := ttl_index_init, lrus := l\<rparr>"
  have run: "shard_table_flush s = Some s'" by (simp add: shard_table_flush_def h(1) s'_def l_def)
  have "X p = []" if "\<not> p < LRU_POOLS" for p
  proof (rule ccontr)
    assume "X p \<noteq> []"
    then obtain a where a: "a \<in> set (X p)" by (cases "X p") auto
    have "a \<in> entry_objs (table s) \<union> {}" using a X(2) by (auto simp: listed_def)
    then have "lru_pool (store s) a < LRU_POOLS" using sh_inv_obj(1) [OF X(1)] by (simp add: obj_ok_def lru_pool_def)
    then show False using lru_pool_member [OF sh_invD(2) [OF X(1)] a] that by simp
  qed
  then have "lru_ok (l, store s) (\<lambda>_. [])" using sh_invD(2) [OF X(1)] by (auto simp: lru_ok_def dll_def l_def)
  moreover have "entry_objs ht = {}" using none by (simp add: entry_objs_def)
  moreover have "listed (\<lambda>_. []) = {}" by (simp add: listed_def)
  ultimately have "sh_ok s' S R' {}" using h(2) R' ttl_index_init_inv unfolding sh_ok_def
    by (auto simp: s'_def sh_inv_def ttl_index_init_def intro!: exI [of _ "\<lambda>_. []"])
  moreover have "kv_abs s' = Map.empty" by (simp add: fun_eq_iff kv_abs_def s'_def h(3))
  moreover have "freed s' = freed s @ xs" by (simp add: s'_def)
  ultimately show ?thesis using run by (auto simp: xs_def)
qed

lemma key_ttl_ok:
  assumes "sh_ok s S R L" "length key < 65536"
  shows "shard_key_ttl key now ms s =
    (case kv_abs s key of None \<Rightarrow> - 2 | Some (x, t) \<Rightarrow> if t = - 1 then - 2 else if t = 0 then - 1 else if t \<le> now then 0
       else if ms then sint (t - now) else sint ((t - now + 999) div 1000))"
  using ht_expire_get_abs [OF sh_ok_table [OF assms(1)] assms(2)]
  by (simp add: shard_key_ttl_def Let_def kv_abs_def split: option.split)

section \<open>An empty shard\<close>

definition sample_shard :: shard where
  "sample_shard = \<lparr>sh_id = 0, table = sample_table, ttl_idx = ttl_index_init, lrus = \<lparr>lru_head = (\<lambda>_. None), lru_tail = (\<lambda>_. None)\<rparr>,
     store = (\<lambda>_. sample_obj), gmem = sample_mem, freed = [], dropped = []\<rparr>"

definition sample_env :: shard_env where
  "sample_env = \<lparr>g_snapshot_active = False, is_snapshotting = False, grow_ht = (\<lambda>_. True), grow_ovf = (\<lambda>_. True), ttl_realloc = (\<lambda>_. True),
     mem_env = calm_env, slack = [7, 0, 0, 0, 0, 0, 0]\<rparr>"

lemma sample_entries: "ht_entries sample_table = []"
  by (simp add: sample_table_def ht_entries_def)

lemma sample_shard_ok: "sh_ok sample_shard {} {} {}"
proof -
  have "lru_ok (lrus sample_shard, store sample_shard) (\<lambda>_. [])" by (simp add: lru_ok_def dll_def sample_shard_def)
  moreover have "entry_objs (table sample_shard) = {}" "listed (\<lambda>_. []) = {}" by (simp_all add: entry_objs_def sample_shard_def sample_entries listed_def)
  ultimately show ?thesis unfolding sh_ok_def
    using sample_table_inv(1) ttl_index_init_inv sample_mem_ok(1)
    by (auto simp: sh_inv_def sample_shard_def ttl_index_init_def intro!: exI [of _ "\<lambda>_. []"])
qed

lemma sample_kv: "kv_abs sample_shard = Map.empty"
  by (simp add: fun_eq_iff kv_abs_def sample_shard_def sample_table_inv(2))

lemma sample_put:
  assumes "table s = sample_table"
  shows "\<exists>s'. table_put sample_env a VAL_TYPE_STRING e HT_PUT_NONE s = (Put_New, s') \<and> dropped s' = dropped s"
proof -
  let ?key = "obj_key_get (store s a)"
  have prep: "ht_put_prepare g1 g2 sample_table = (sample_table, [])" for g1 g2
    by (simp add: ht_put_prepare_def sample_table_def ht_overloaded_def)
  have idx: "ht_idx m 16 < 16" for m using ht_idx_less [of m 4] by simp
  have nth: "buckets sample_table ! ht_idx m 16 = []" for m using idx [of m] by (simp add: sample_table_def)
  have look: "ht_key_lookup (store s) sample_table m ?key = None" for m
    using nth [of m] by (simp add: ht_key_lookup_def ht_find_at_def sample_table_def Let_def)
  have "\<exists>h. ht_put_entry (store s) g sample_table a VAL_TYPE_STRING e HT_PUT_NONE = (Put_New, h)" for g
    using nth by (simp add: ht_put_entry_def Let_def look HT_PUT_NONE_def ht_chain_node_insert_def) (simp add: sample_table_def)
  then obtain h where "ht_put_entry (store s) (grow_ovf sample_env) sample_table a VAL_TYPE_STRING e HT_PUT_NONE = (Put_New, h)" by blast
  then show ?thesis using assms prep by (simp add: table_put_def ht_bucket_put_def)
qed

lemma sample_set:
  "\<exists>s'. shard_key_set sample_env [0x66] [0x31] e HT_PUT_NONE sample_shard = (True, s') \<and> dropped s' = dropped sample_shard"
proof -
  let ?h = "my_heap sample_shard"
  have h: "?h = g_thread_heaps sample_mem 0" by (simp add: my_heap_def sample_shard_def)
  have "\<exists>x q. pool_obj_alloc 4 (ph ?h) = (Some x, q)" unfolding h
    by (rule init_alloc_some) (use sample_mem_ok inv_buddy_ok [OF heap_invD(1) [OF mem_okD(1) [OF sample_mem_ok(1)]]] in simp_all)
  then obtain x q where "heap_pool_alloc 4 ?h = (Some x, q)" by (auto simp: heap_pool_alloc_def)
  moreover have "pool_idx_get 51 = 4" by (simp add: pool_idx_get_def NR_SMALL_POOLS_def POOL_CLASSES_def upt_conv_Cons)
  moreover have "\<not> n_threads (g_mem_arena (gmem sample_shard)) \<le> sh_id sample_shard"
    using mem_okD(2) [OF sample_mem_ok(1)] by (simp add: sample_shard_def)
  ultimately have m: "shard_malloc sample_env 51 sample_shard = (Some x, upd_heap (\<lambda>_. q) sample_shard)"
    by (simp add: shard_malloc_def mem_malloc_def SMALL_ALLOC_MAX_def NR_SMALL_POOLS_def)
  define s2 where "s2 = upd_obj x (\<lambda>_. new_kv_obj sample_env 51 [0x66] [0x31] e) (upd_heap (\<lambda>_. q) sample_shard)"
  have "table s2 = sample_table" by (simp add: s2_def) (simp add: sample_shard_def)
  from sample_put [OF this, of x e] obtain s3 where p: "table_put sample_env x VAL_TYPE_STRING e HT_PUT_NONE s2 = (Put_New, s3)"
    and d: "dropped s3 = dropped s2" by blast
  have none: "ht_bucket_get (store sample_shard) (table sample_shard) [0x66] VAL_TYPE_STRING 0 = None"
    using present_iff [OF sample_shard_ok, of "[0x66]"] sample_kv by simp
  have tot: "KV_OBJ_SIZE + length [0x66 :: u8] + length [0x31 :: u8] + 1 = 51" by (simp add: KV_OBJ_SIZE_def)
  have "shard_bucket_put sample_env x VAL_TYPE_STRING e HT_PUT_NONE s2 = (Put_New, s3)" using p by (simp add: shard_bucket_put_def)
  moreover have "\<not> g_snapshot_active sample_env" by (simp add: sample_env_def)
  ultimately have "shard_key_set sample_env [0x66] [0x31] e HT_PUT_NONE sample_shard =
      (True, if 0 < e then ttl_push sample_env x e (do_lru (lru_node_prepend x) s3) else do_lru (lru_node_prepend x) s3)"
    unfolding shard_key_set_def tot by (simp add: none HT_PUT_NONE_def m s2_def)
  then show ?thesis using d by (simp add: s2_def)
qed

section \<open>Properties of a shard\<close>

text \<open>
  C1: SET on a shard refines the update of a map from keys to values and expiry times.  From a well-formed shard, for a key that
  fits 16 bits and a value that fits 32 bits and is not read as a pointer, and as long as the migration of the table drops no
  entry: when the condition NX or XX fails nothing changes; otherwise a SET that succeeds binds exactly this key to the
  value and the expiry, in a map from which eviction may have removed entries, and one that fails has at most evicted entries.
  The shard stays well-formed: table, LRU lists, expiry index and heap agree, and every object they mention is live.
\<close>

theorem shard_set_refines:
  assumes "sh_ok s S R {}" "length key < 65536" "length val < 2 ^ 32" "val \<noteq> [] \<or> le64 (0 # slack env) 0 = 0"
    "shard_key_set env key val e flags s = (ok, s')" "dropped s' = dropped s"
  shows "(\<exists>S' R'. sh_ok s' S' R' {}) \<and>
    (if (if flags AND HT_PUT_NX \<noteq> 0 then kv_abs s key \<noteq> None else flags AND HT_PUT_XX \<noteq> 0 \<and> kv_abs s key = None)
     then \<not> ok \<and> s' = s
     else \<exists>m. m \<subseteq>\<^sub>m kv_abs s \<and> kv_abs s' = (if ok then m(key \<mapsto> (val, e)) else m))"
  by (rule key_set_ok [OF assms])

lemma shard_set_refines_witness:
  "\<exists>s'. shard_key_set sample_env [0x66] [0x31] 9 HT_PUT_NONE sample_shard = (True, s') \<and> kv_abs s' [0x66] = Some ([0x31], 9)"
proof -
  obtain s' where s': "shard_key_set sample_env [0x66] [0x31] 9 HT_PUT_NONE sample_shard = (True, s')" "dropped s' = dropped sample_shard"
    using sample_set by blast
  show ?thesis using shard_set_refines [OF sample_shard_ok _ _ _ s'] s'(1) by (auto simp: HT_PUT_NONE_def)
qed

text \<open>
  C2: GET, DEL, EXPIRE and TTL on a shard act on the map.  GET returns the object with the bound value, unless the entry is due and
  not locked, in which case exactly this entry disappears; DEL reports whether the key was bound and removes exactly it; TTL
  computes from the bound expiry; EXPIRE replaces exactly the expiry (0 makes the key persistent), and fails on a key that is not bound, on a persistent
  key made persistent again, and on the expiry \<open>2 ^ 64 - 1\<close>, which the table also uses for a missing key.
\<close>

theorem shard_ops_refine:
  assumes "sh_ok s S R {}" "length key < 65536"
  shows "(case shard_key_get env key now s of (v, s') \<Rightarrow>
      (\<exists>S' R'. sh_ok s' S' R' {}) \<and>
      (case kv_abs s key of
         None \<Rightarrow> v = None \<and> kv_abs s' = kv_abs s
       | Some (x, t) \<Rightarrow>
           if t \<noteq> 0 \<and> now \<noteq> 0 \<and> t \<le> now \<and> \<not> ht_bucket_is_locked (store s) (table s) key VAL_TYPE_STRING
           then v = None \<and> kv_abs s' = (kv_abs s)(key := None)
           else \<exists>a. v = Some a \<and> obj_val_get (store s' a) = x \<and> kv_abs s' = kv_abs s)) \<and>
    (case shard_key_delete env key s of (ok, s') \<Rightarrow>
      (\<exists>S' R'. sh_ok s' S' R' {}) \<and> (ok \<longleftrightarrow> kv_abs s key \<noteq> None) \<and> kv_abs s' = (kv_abs s)(key := None)) \<and>
    (case shard_key_expire env key e s of (ok, s') \<Rightarrow> dropped s' = dropped s \<longrightarrow>
      (\<exists>S' R'. sh_ok s' S' R' {}) \<and>
      (case kv_abs s key of
         None \<Rightarrow> \<not> ok \<and> s' = s
       | Some (x, t) \<Rightarrow> if t = - 1 \<or> e = 0 \<and> t = 0 then \<not> ok \<and> s' = s else ok \<and> kv_abs s' = (kv_abs s)(key \<mapsto> (x, e)))) \<and>
    shard_key_ttl key now ms s =
      (case kv_abs s key of None \<Rightarrow> - 2 | Some (x, t) \<Rightarrow> if t = - 1 then - 2 else if t = 0 then - 1 else if t \<le> now then 0
         else if ms then sint (t - now) else sint ((t - now + 999) div 1000))"
proof (intro conjI)
  show "case shard_key_get env key now s of (v, s') \<Rightarrow>
      (\<exists>S' R'. sh_ok s' S' R' {}) \<and>
      (case kv_abs s key of
         None \<Rightarrow> v = None \<and> kv_abs s' = kv_abs s
       | Some (x, t) \<Rightarrow>
           if t \<noteq> 0 \<and> now \<noteq> 0 \<and> t \<le> now \<and> \<not> ht_bucket_is_locked (store s) (table s) key VAL_TYPE_STRING
           then v = None \<and> kv_abs s' = (kv_abs s)(key := None)
           else \<exists>a. v = Some a \<and> obj_val_get (store s' a) = x \<and> kv_abs s' = kv_abs s)"
    using key_get_ok [OF assms] by (cases "shard_key_get env key now s") blast
  show "case shard_key_delete env key s of (ok, s') \<Rightarrow>
      (\<exists>S' R'. sh_ok s' S' R' {}) \<and> (ok \<longleftrightarrow> kv_abs s key \<noteq> None) \<and> kv_abs s' = (kv_abs s)(key := None)"
    using key_delete_ok [OF assms] by (cases "shard_key_delete env key s") blast
  show "case shard_key_expire env key e s of (ok, s') \<Rightarrow> dropped s' = dropped s \<longrightarrow>
      (\<exists>S' R'. sh_ok s' S' R' {}) \<and>
      (case kv_abs s key of
         None \<Rightarrow> \<not> ok \<and> s' = s
       | Some (x, t) \<Rightarrow> if t = - 1 \<or> e = 0 \<and> t = 0 then \<not> ok \<and> s' = s else ok \<and> kv_abs s' = (kv_abs s)(key \<mapsto> (x, e)))"
    using key_expire_ok [OF assms] by (cases "shard_key_expire env key e s") blast
qed (rule key_ttl_ok [OF assms])

lemma shard_ops_refine_witness: "\<not> fst (shard_key_delete sample_env [0x66] sample_shard) \<and> shard_key_ttl [0x66] 5 True sample_shard = - 2"
  using shard_ops_refine [where key = "[0x66]" and env = sample_env and now = 5 and e = 0 and ms = True, OF sample_shard_ok] by (simp add: sample_kv case_prod_beta)

text \<open>
  C3: Eviction ends.  On a well-formed shard \<open>shard_mem_evict\<close> returns within as many rounds as the table has entries, plus one
  (each round but the last evicts an entry), leaves a well-formed shard, removes no locked entry and changes no entry
  that it keeps; when it reports success for a request, the request fits the soft limit.
\<close>

theorem shard_evict_terminates:
  assumes "sh_ok s S R {}" "evict_fuel s \<le> fuel"
  shows "\<exists>ok s'. shard_mem_evict fuel env size_req s = Some (ok, s') \<and> (\<exists>S' R'. sh_ok s' S' R' {}) \<and> kv_abs s' \<subseteq>\<^sub>m kv_abs s \<and>
    (\<forall>b \<in> set (ht_entries (table s)). ht_meta_is_locked (b_meta b) \<longrightarrow> b \<in> set (ht_entries (table s'))) \<and>
    (ok \<and> size_req \<noteq> 0 \<longrightarrow> soft_ok size_req s')"
proof -
  obtain b s' k where r: "shard_mem_evict fuel env size_req s = Some (b, s')" "evicts {} k s s'" "b \<and> size_req \<noteq> 0 \<longrightarrow> soft_ok size_req s'"
    using mem_evict_ok [OF assms] by blast
  obtain S' R' where ok': "sh_ok s' S' R' {}" and st: "settles {} s s'" using r(2) by (auto simp: evicts_def)
  have "kv_abs s' \<subseteq>\<^sub>m kv_abs s" by (rule settles_kv [OF st sh_ok_table [OF assms(1)] sh_ok_table [OF ok']])
  then show ?thesis using r ok' by (auto simp: evicts_def)
qed

lemma shard_evict_terminates_witness: "\<exists>ok s'. shard_mem_evict 1 sample_env 64 sample_shard = Some (ok, s')"
proof -
  have "evict_fuel sample_shard \<le> 1" by (simp add: evict_fuel_def sample_shard_def sample_table_def)
  from shard_evict_terminates [OF sample_shard_ok this] show ?thesis by blast
qed



text \<open>
  C11: A flush outside a migration of the table leaves an empty, well-formed shard and frees the object of every entry
  exactly once.
\<close>

theorem shard_flush_empties:
  assumes "sh_ok s S R {}" "rehash_idx (table s) < 0"
  shows "\<exists>s' S' R'. shard_table_flush s = Some s' \<and> sh_ok s' S' R' {} \<and> kv_abs s' = Map.empty \<and>
    freed s' = freed s @ map b_obj (ht_entries (table s)) \<and> distinct (map b_obj (ht_entries (table s)))"
proof -
  have "distinct (map b_obj (ht_entries (table s)))"
    using sh_ok_table [OF assms(1)] entries_inj [OF sh_ok_table [OF assms(1)]] by (auto simp: distinct_map ht_inv_def inj_on_def)
  then show ?thesis using flush_ok [OF assms] by blast
qed

lemma shard_flush_empties_witness: "\<exists>s'. shard_table_flush sample_shard = Some s' \<and> kv_abs s' = Map.empty"
proof -
  have "rehash_idx (table sample_shard) < 0" by (simp add: sample_shard_def sample_table_def)
  from shard_flush_empties [OF sample_shard_ok this] show ?thesis by blast
qed

text \<open>
  C12: Freeing an object with an empty value frees garbage.  \<open>shard_obj_free\<close> takes a value length of 0 as the mark of a value kept
  elsewhere and reads eight bytes after the key as its address; for an object that SET made with an empty value these are the
  terminating zero and seven bytes that nothing has initialised.
\<close>

theorem empty_value_frees_garbage:
  assumes "length key < 65536" "le64 (0 # slack env) 0 \<noteq> 0"
  shows "freed (shard_obj_free a (upd_obj a (\<lambda>_. new_kv_obj env tot key [] e) s)) = freed s @ [unat (le64 (0 # slack env) 0), a]"
proof -
  have k: "unat (of_nat (length key) :: u16) = length key" using assms(1) by (simp add: unat_of_nat)
  have "obj_val_ptr_get (new_kv_obj env tot key [] e) = le64 (0 # slack env) 0"
    by (simp add: obj_val_ptr_get_def new_kv_obj_def k le64_behind)
  then show ?thesis using assms(2) by (simp add: shard_obj_free_def upd_obj_def new_kv_obj_def do_free_def)
qed

lemma empty_value_frees_garbage_witness:
  "freed (shard_obj_free 64 (upd_obj 64 (\<lambda>_. new_kv_obj sample_env 50 [0x66] [] 0) sample_shard)) = [0x700, 64]"
proof -
  have "le64 (0 # slack sample_env) 0 = 0x700" by (simp add: le64_def sample_env_def)
  then show ?thesis using empty_value_frees_garbage [where key = "[0x66]" and env = sample_env and a = 64 and tot = 50 and e = 0 and s = sample_shard]
    by (simp add: sample_shard_def)
qed

end
