(* ===== verification/Spec2Isabelle.thy ===== *)
theory Spec2Isabelle
  imports Routing Htable Ttl_Index Wake Lock_Manager Wait_Queue Pipeline Snap_File Shard_Inv
begin

text \<open>
  \<^bold>\<open>Verification library for freakv\<close>, a sharded in-memory key-value server that speaks the Redis protocol.

  \<^bold>\<open>The program.\<close>  A fixed number of worker threads each own one \<^emph>\<open>shard\<close>: a hash table of objects, an index of expiry
  times, LRU lists per size class, a heap of its own, a lock table for multi-key transactions, and the client connections
  accepted on that thread.  A key belongs to the shard that \<open>core/routing.h\<close> computes from its CRC16.  A request is parsed
  by the thread of its connection; when the key belongs to another shard a message travels through a single-producer
  single-consumer queue and the reply comes back the same way into the reply pipeline of the connection.  A background
  thread writes incremental snapshots of the heap pages that were modified.

  \<^bold>\<open>Theories, in the order of their imports.\<close>

  \<^item> \<open>Prelude\<close>: machine integers as words, byte strings, lemmas on words, lists and options that the components share.
  \<^item> \<open>Routing\<close> (\<open>core/routing.h\<close>): the CRC16 table and loop, hash tags, slot and shard of a key, CLUSTER SLOTS ranges.
    The table is compared with the polynomial; the shard is always below the shard count; the ranges that CLUSTER SLOTS
    reports are those that \<open>shard_for_slot\<close> routes.
  \<^item> \<open>Hash\<close> (\<open>hashtable/hash.c\<close>, the hash part of \<open>hashtable/htable.h\<close>): wyhash of the table, xxHash64, murmur3,
    the fingerprint word of a bucket.
  \<^item> \<open>Kv_Object\<close> (\<open>core/object.h\<close>): the object record and the store \<open>objs\<close>, a function from addresses to objects.
  \<^item> \<open>Htable\<close> (\<open>hashtable/htable.c\<close>): buckets with overflow chains, incremental rehash, put, get, lazy expiry, take,
    lock bit, expiry scan, flush.  \<open>ht_abs\<close> is the map the table stands for and \<open>ht_inv\<close> its invariant; every operation
    is shown to refine the operation on the map, a rehash step to keep it, and a rehash step whose overflow bucket
    cannot be allocated to lose an entry.
  \<^item> \<open>Ttl_Index\<close> (\<open>core/ttl_index.h\<close>): the binary heap whose nodes are back-linked from the objects; pushes, updates,
    removals and pops keep heap order and back links, and pops come out in order of expiry.
  \<^item> \<open>Spsc\<close> and \<open>Wake\<close> (\<open>core/spsc.h\<close>, the send functions of \<open>core/shard.c\<close>): the segmented queue refines a FIFO list;
    the protocol of the wake-up descriptor is an inductive step relation in which no message is left behind with the
    consumer asleep.
  \<^item> \<open>Txn\<close>, \<open>Lock_Manager\<close>, \<open>Wait_Queue\<close> (\<open>core/message.h\<close>, \<open>core/txn.h\<close>, \<open>core/lock_manager.c\<close>): opcode packing, the
    order of transactions, the probed table of locked keys as a finite map, and the wait queue of a lock as a list
    sorted by transaction.
  \<^item> \<open>Resp\<close>, \<open>Pipeline\<close> (\<open>protocol/resp.h\<close>, the parser of \<open>protocol/resp_handler.h\<close>, \<open>net/conn.h\<close>, the reply half of
    \<open>net/reactor.c\<close>): the parser returns exactly the requests that were printed, over every split of the bytes into
    reads; replies leave in the order of the requests and every slot is released once.
  \<^item> \<open>Snap_File\<close> (the file half of \<open>core/snapshot.c\<close>): records, writer, compaction, restore; the newest entry of a key wins.
  \<^item> \<open>Lru\<close> (\<open>core/shard.c\<close>): the intrusive lists refine lists of addresses.
  \<^item> \<open>Buddy\<close>, \<open>Pool\<close>, \<open>Heap\<close> (\<open>mem/\<close>): the page allocator refines a set of free pages; the size-class pools refine a set
    of live slots; \<open>mem_malloc\<close> returns an address that was not live, keeps every live address live, and \<open>mem_free\<close>
    takes away exactly the address it is given.
  \<^item> \<open>Shard\<close> (\<open>core/shard.c\<close>): the operations of a shard over all of the above.

  \<^bold>\<open>Conventions.\<close>  C integers are words of their width; structures are records; a pointer is an address (a number, 0 for
  NULL) into a store that the operations take and return.  What the environment decides (whether an allocation of the C
  library succeeds, what \<open>mprotect\<close> or \<open>/proc/meminfo\<close> answer, the bytes a \<open>read\<close> delivers, the clock) is an argument.

  \<^bold>\<open>Bounds and fuel.\<close>  Loops over data are structural.  The probe loop of the lock table counts the groups of the table,
  so its bound is the loop bound of the source.  The parser and read loops take the number of bytes left as fuel and are
  shown to finish within it; \<open>argv_newcap\<close> takes fuel because the doubling loop of the source can run for ever, which is
  one of the theorems; the eviction loop takes the number of table entries plus one.

  \<^bold>\<open>Interfaces.\<close>  The locales \<open>span_source\<close> (where a pool takes a fresh span from) and \<open>malloc_client\<close> (a state that
  contains a heap and may be called back to evict) are interpreted on the definitions of \<open>Pool\<close> and \<open>Heap\<close>.
\<close>

end
